(* ===== verification/Prelude.thy ===== *)
theory Prelude
  imports Main "HOL-Library.Word" "HOL-Library.Multiset"
begin

text \<open>
  Shared vocabulary of the development: the machine integers of the code, the power-of-two
  test behind every \<open>static_assert\<close> on a capacity, the masked slot index of a ring, and the
  segment of a ring between two free-running positions. All three queue families (the SPSC
  ring, the sharded queue and the mutex queue) read their contents as such a segment, and the
  slot protocol of the MPMC ring uses the same facts about positions and masks.
\<close>

unbundle bit_operations_syntax

type_synonym u64 = "64 word"
type_synonym u32 = "32 word"
type_synonym u16 = "16 word"
type_synonym u8 = "8 word"

named_theorems ring_simps \<open>positions, masks and ring segments\<close>
named_theorems model_defs \<open>definitions of the operations of the model\<close>

section \<open>Powers of two\<close>

text \<open>\<open>std::has_single_bit\<close>.\<close>

definition has_single_bit :: "nat \<Rightarrow> bool" where
  "has_single_bit n \<longleftrightarrow> n \<noteq> 0 \<and> n AND (n - 1) = 0"

lemma and_pred_double: "(2 * m) AND (2 * m - 1) = 2 * (m AND (m - 1))" for m :: nat
proof (cases "m = 0")
  case False
  then have "2 * m - 1 = 2 * (m - 1) + 1" by simp
  then show ?thesis by (simp add: and_nat_rec [of "2 * m"])
qed simp

lemma has_single_bit_power: "has_single_bit n \<Longrightarrow> \<exists>k. n = 2 ^ k"
proof (induction n rule: less_induct)
  case (less n)
  show ?case
  proof (cases "even n")
    case True
    then obtain m where m: "n = 2 * m" by blast
    with less.prems have "2 * (m AND (m - 1)) = 0" "m \<noteq> 0"
      unfolding and_pred_double [symmetric] by (auto simp: has_single_bit_def)
    with m have "has_single_bit m" "m < n" by (auto simp: has_single_bit_def)
    with less.IH obtain k where "m = 2 ^ k" by blast
    with m have "n = 2 ^ Suc k" by simp
    then show ?thesis by blast
  next
    case False
    then obtain m where m: "n = 2 * m + 1" using oddE by blast
    with less.prems have "m = 0"
      by (simp add: has_single_bit_def and_nat_rec [of "Suc (2 * m)"])
    with m have "n = 2 ^ 0" by simp
    then show ?thesis by blast
  qed
qed

lemma power_has_single_bit: "has_single_bit (2 ^ k)"
proof (induction k)
  case 0
  show ?case by (simp add: has_single_bit_def)
next
  case (Suc k)
  then have "2 * (2 ^ k AND (2 ^ k - 1 :: nat)) = 0" by (simp add: has_single_bit_def)
  then show ?case unfolding and_pred_double [symmetric] by (simp add: has_single_bit_def)
qed

lemma has_single_bit_iff: "has_single_bit n \<longleftrightarrow> (\<exists>k. n = 2 ^ k)"
  using has_single_bit_power power_has_single_bit by blast

section \<open>Masked indices\<close>

text \<open>
  \<open>pos & kMask\<close>, read as an array index. The capacities of the code are powers of two that fit
  a \<open>std::size_t\<close>; \<open>ring_cap\<close> is the \<open>static_assert\<close> of both rings.
\<close>

definition ring_cap :: "nat \<Rightarrow> bool" where
  "ring_cap n \<longleftrightarrow> 2 \<le> n \<and> has_single_bit n \<and> n < 2 ^ 64"

definition slot_ix :: "nat \<Rightarrow> u64 \<Rightarrow> nat" where
  "slot_ix n pos = unat (pos AND of_nat (n - 1))"

lemma ring_cap_power: "ring_cap n \<Longrightarrow> \<exists>k. n = 2 ^ k \<and> 1 \<le> k \<and> k < 64"
proof -
  assume n: "ring_cap n"
  then obtain k where k: "n = 2 ^ k" by (auto simp: ring_cap_def dest: has_single_bit_power)
  have "(2::nat) ^ k < 2 ^ 64" using n k by (simp only: ring_cap_def)
  then have "k < 64" by (rule power_less_imp_less_exp [rotated]) simp
  moreover have "1 \<le> k" using n k by (cases k) (auto simp: ring_cap_def)
  ultimately show ?thesis using k by blast
qed

lemma ring_capD: "ring_cap n \<Longrightarrow> 2 \<le> n" "ring_cap n \<Longrightarrow> n < 2 ^ 64" "ring_cap n \<Longrightarrow> 0 < n"
  by (auto simp: ring_cap_def)

lemma ring_cap_dvd: "ring_cap n \<Longrightarrow> n dvd 2 ^ 64"
  using ring_cap_power le_imp_power_dvd by (metis less_imp_le)

lemma ring_cap_le: "ring_cap n \<Longrightarrow> n \<le> 2 ^ 63"
proof -
  assume "ring_cap n"
  then obtain k where "n = 2 ^ k" "k < 64" using ring_cap_power by blast
  then show ?thesis using power_increasing [of k 63 "2::nat"] by simp
qed

lemma slot_ix_mod: "ring_cap n \<Longrightarrow> slot_ix n w = unat w mod n"
proof -
  assume "ring_cap n"
  then obtain k where k: "n = 2 ^ k" "k < 64" using ring_cap_power by blast
  have "(of_nat (n - 1) :: u64) = mask k"
    by (simp add: k mask_eq_exp_minus_1 of_nat_diff)
  then have "slot_ix n w = take_bit k (unat w)"
    by (simp add: slot_ix_def take_bit_eq_mask [symmetric] unsigned_take_bit_eq)
  then show ?thesis by (simp add: k take_bit_eq_mod)
qed

lemma slot_ix_of_nat [ring_simps]: "ring_cap n \<Longrightarrow> slot_ix n (of_nat p) = p mod n"
  by (simp add: slot_ix_mod unat_of_nat mod_mod_cancel ring_cap_dvd [simplified])

lemma slot_ix_less [ring_simps]: "ring_cap n \<Longrightarrow> slot_ix n w < n"
  by (simp add: slot_ix_mod ring_capD)

section \<open>Free-running positions as words\<close>

text \<open>
  The counters of the code are 64-bit and never reset; what they mean is a position that only
  grows. The code only ever looks at differences, which survive the wrap-around as long as the
  true difference fits a word.
\<close>

lemma unat_pos_diff [ring_simps]:
  "h \<le> t \<Longrightarrow> t - h < 2 ^ 64 \<Longrightarrow> unat (of_nat t - of_nat h :: u64) = t - h"
  by (simp add: of_nat_diff [symmetric] unat_of_nat del: of_nat_diff)

lemma pos_diff_of_nat [ring_simps]: "h \<le> t \<Longrightarrow> (of_nat t - of_nat h :: u64) = of_nat (t - h)"
  by simp

lemma pos_eq_iff [ring_simps]:
  "h \<le> t \<Longrightarrow> t - h < 2 ^ 64 \<Longrightarrow> (of_nat h :: u64) = of_nat t \<longleftrightarrow> h = t"
  using unat_pos_diff [of h t] by fastforce

lemma pos_diff_eq [ring_simps]:
  "h \<le> t \<Longrightarrow> t - h < 2 ^ 64 \<Longrightarrow> n < 2 ^ 64 \<Longrightarrow>
   (of_nat t - of_nat h :: u64) = of_nat n \<longleftrightarrow> t - h = n"
  using unat_pos_diff [of h t] by (auto simp: unat_of_nat word_unat_eq_iff)

lemma word_as_offset: "\<exists>p \<ge> q. (w :: u64) = of_nat p \<and> p = q + unat (w - of_nat q)"
  by (rule exI [of _ "q + unat (w - of_nat q)"]) simp

section \<open>Ring segments\<close>

text \<open>The elements a ring holds between two positions, oldest first.\<close>

definition seg :: "'a list \<Rightarrow> nat \<Rightarrow> nat \<Rightarrow> 'a list" where
  "seg xs h t = map (\<lambda>p. xs ! (p mod length xs)) [h..<t]"

lemma length_seg [simp]: "length (seg xs h t) = t - h"
  by (simp add: seg_def)

lemma seg_empty [simp]: "t \<le> h \<Longrightarrow> seg xs h t = []"
  by (simp add: seg_def)

lemma seg_append: "h \<le> m \<Longrightarrow> m \<le> t \<Longrightarrow> seg xs h t = seg xs h m @ seg xs m t"
  using upt_add_eq_append [of h m "t - m"] by (simp add: seg_def)

lemma seg_Cons: "h < t \<Longrightarrow> seg xs h t = xs ! (h mod length xs) # seg xs (Suc h) t"
  by (simp add: seg_def upt_conv_Cons)

lemma seg_snoc: "h \<le> t \<Longrightarrow> seg xs h (Suc t) = seg xs h t @ [xs ! (t mod length xs)]"
  by (simp add: seg_def)

lemma mod_neq_within:
  "p < t \<Longrightarrow> t - p < n \<Longrightarrow> p mod n \<noteq> t mod (n :: nat)"
proof
  assume "p < t" "t - p < n" "p mod n = t mod n"
  then have "n dvd t - p" by (metis less_imp_le mod_eq_dvd_iff_nat)
  with \<open>p < t\<close> \<open>t - p < n\<close> show False by (simp add: nat_dvd_not_less)
qed

lemma mod_eq_within:
  "p mod n = q mod n \<Longrightarrow> p < q + n \<Longrightarrow> q < p + n \<Longrightarrow> p = (q :: nat)"
  using mod_neq_within [of p q n] mod_neq_within [of q p n]
  by (cases p q rule: linorder_cases) (simp_all add: less_diff_conv2)

lemma seg_update_other:
  assumes "m \<le> t" "t < h + length xs"
  shows "seg (xs[t mod length xs := v]) h m = seg xs h m"
proof -
  have "xs[t mod length xs := v] ! (p mod length xs) = xs ! (p mod length xs)"
    if "p \<in> set [h..<m]" for p
  proof -
    have "p < t" "t - p < length xs" using that assms by auto
    then have "p mod length xs \<noteq> t mod length xs" by (rule mod_neq_within)
    then show ?thesis by simp
  qed
  then show ?thesis by (simp add: seg_def)
qed

lemma seg_push:
  assumes "h \<le> t" "t < h + length xs"
  shows "seg (xs[t mod length xs := v]) h (Suc t) = seg xs h t @ [v]"
proof -
  have "0 < length xs" using assms by auto
  then show ?thesis using assms by (simp add: seg_snoc seg_update_other)
qed

lemma seg_nth: "i < t - h \<Longrightarrow> seg xs h t ! i = xs ! ((h + i) mod length xs)"
  by (simp add: seg_def)

lemma seg_eq_map_offset:
  "seg xs h t = map (\<lambda>i. xs ! ((h + i) mod length xs)) [0..<t - h]"
  by (rule nth_equalityI) (simp_all add: seg_nth)

section \<open>Lists\<close>

lemma longer_extends: "xs @ ys = us @ vs \<Longrightarrow> length us \<le> length xs \<Longrightarrow> \<exists>zs. xs = us @ zs"
  by (metis append_eq_append_conv_if append_take_drop_id)

end
