(* ===== verification/Fifo_Spec.thy ===== *)
theory Fifo_Spec
  imports Prelude
begin

text \<open>
  The contract every queue of the repository makes with its single-threaded client: a bounded
  first-in first-out queue. \<open>spec_step\<close> is the abstract queue, a list with a capacity;
  \<open>bounded_fifo\<close> is the interface, with what each operation returns and leaves behind. The
  clients' lemmas are proved once, inside the locale: any script of operations returns exactly
  what the abstract queue returns, and what comes out, followed by what is left, is what was
  there followed by what was accepted. \<open>batch_fifo\<close> is the same contract for a queue emptied in
  batches by a consumer that knows only part of what is there.
\<close>

section \<open>The abstract queue\<close>

datatype 'a fifo_op = Enq 'a | Deq

datatype 'a fifo_res = Accepted bool | Taken "'a option"

fun spec_step :: "nat \<Rightarrow> 'a list \<Rightarrow> 'a fifo_op \<Rightarrow> 'a fifo_res \<times> 'a list" where
  "spec_step n xs (Enq x) =
     (if length xs < n then (Accepted True, xs @ [x]) else (Accepted False, xs))"
| "spec_step n [] Deq = (Taken None, [])"
| "spec_step n (x # xs) Deq = (Taken (Some x), xs)"

fun run_ops :: "('s \<Rightarrow> 'p \<Rightarrow> 'r \<times> 's) \<Rightarrow> 's \<Rightarrow> 'p list \<Rightarrow> 'r list \<times> 's" where
  "run_ops f s [] = ([], s)"
| "run_ops f s (p # ps) =
     (let (r, s1) = f s p; (rs, s2) = run_ops f s1 ps in (r # rs, s2))"

text \<open>A step function from an enqueue and a dequeue of the implementation.\<close>

fun impl_step :: "('a \<Rightarrow> 's \<Rightarrow> bool \<times> 's) \<Rightarrow> ('s \<Rightarrow> 'a option \<times> 's)
    \<Rightarrow> 's \<Rightarrow> 'a fifo_op \<Rightarrow> 'a fifo_res \<times> 's" where
  "impl_step enq deq s (Enq x) = (let (ok, s1) = enq x s in (Accepted ok, s1))"
| "impl_step enq deq s Deq = (let (v, s1) = deq s in (Taken v, s1))"

text \<open>What a script's results say went in and came out.\<close>

fun accepted_of :: "'a fifo_op list \<Rightarrow> 'a fifo_res list \<Rightarrow> 'a list" where
  "accepted_of (Enq x # ps) (Accepted True # rs) = x # accepted_of ps rs"
| "accepted_of (_ # ps) (_ # rs) = accepted_of ps rs"
| "accepted_of _ _ = []"

fun taken_of :: "'a fifo_res list \<Rightarrow> 'a list" where
  "taken_of [] = []"
| "taken_of (Taken (Some x) # rs) = x # taken_of rs"
| "taken_of (_ # rs) = taken_of rs"

lemma spec_step_bound: "length xs \<le> n \<Longrightarrow> length (snd (spec_step n xs p)) \<le> n"
  by (cases "(n, xs, p)" rule: spec_step.cases) auto

lemma spec_run_fifo:
  "run_ops (spec_step n) xs ps = (rs, ys) \<Longrightarrow> taken_of rs @ ys = xs @ accepted_of ps rs"
proof (induction ps arbitrary: xs rs ys)
  case Nil
  then show ?case by simp
next
  case (Cons p ps)
  obtain r xs1 where st: "spec_step n xs p = (r, xs1)" by (cases "spec_step n xs p")
  obtain rs1 where run: "run_ops (spec_step n) xs1 ps = (rs1, ys)" and rs: "rs = r # rs1"
    using Cons.prems st by (auto split: prod.splits)
  have ih: "taken_of rs1 @ ys = xs1 @ accepted_of ps rs1" by (rule Cons.IH [OF run])
  show ?case
    using st ih rs by (cases "(n, xs, p)" rule: spec_step.cases) (auto split: if_splits)
qed

lemma spec_run_bound:
  "length xs \<le> n \<Longrightarrow> length (snd (run_ops (spec_step n) xs ps)) \<le> n"
proof (induction ps arbitrary: xs)
  case (Cons p ps)
  obtain r xs1 where st: "spec_step n xs p = (r, xs1)" by (cases "spec_step n xs p")
  then have "length xs1 \<le> n" using spec_step_bound [OF Cons.prems, of p] by simp
  then have "length (snd (run_ops (spec_step n) xs1 ps)) \<le> n" by (rule Cons.IH)
  with st show ?case by (auto split: prod.splits)
qed simp

section \<open>The interface\<close>

locale bounded_fifo =
  fixes cap :: "'s \<Rightarrow> nat"
    and inv :: "'s \<Rightarrow> bool"
    and contents :: "'s \<Rightarrow> 'a list"
    and enq :: "'a \<Rightarrow> 's \<Rightarrow> bool \<times> 's"
    and deq :: "'s \<Rightarrow> 'a option \<times> 's"
  assumes contents_bound: "inv s \<Longrightarrow> length (contents s) \<le> cap s"
    and enq_inv: "inv s \<Longrightarrow> inv (snd (enq x s))"
    and enq_cap: "inv s \<Longrightarrow> cap (snd (enq x s)) = cap s"
    and enq_ok: "inv s \<Longrightarrow> fst (enq x s) \<longleftrightarrow> length (contents s) < cap s"
    and enq_contents: "inv s \<Longrightarrow>
      contents (snd (enq x s)) = (if fst (enq x s) then contents s @ [x] else contents s)"
    and deq_inv: "inv s \<Longrightarrow> inv (snd (deq s))"
    and deq_cap: "inv s \<Longrightarrow> cap (snd (deq s)) = cap s"
    and deq_value: "inv s \<Longrightarrow>
      fst (deq s) = (case contents s of [] \<Rightarrow> None | x # _ \<Rightarrow> Some x)"
    and deq_contents: "inv s \<Longrightarrow> contents (snd (deq s)) = tl (contents s)"
begin

lemmas enq_laws = enq_inv enq_cap enq_ok enq_contents
lemmas deq_laws = deq_inv deq_cap deq_value deq_contents

lemma step_simulates:
  assumes "inv s"
  shows "inv (snd (impl_step enq deq s p))"
    and "cap (snd (impl_step enq deq s p)) = cap s"
    and "spec_step (cap s) (contents s) p =
           (fst (impl_step enq deq s p), contents (snd (impl_step enq deq s p)))"
proof -
  have "inv (snd (impl_step enq deq s p)) \<and> cap (snd (impl_step enq deq s p)) = cap s \<and>
    spec_step (cap s) (contents s) p =
      (fst (impl_step enq deq s p), contents (snd (impl_step enq deq s p)))"
  proof (cases p)
    case (Enq x)
    then show ?thesis
      using enq_laws [OF assms, of x] by (cases "enq x s") (simp split: if_splits)
  next
    case Deq
    then show ?thesis
      using deq_laws [OF assms] by (cases "deq s"; cases "contents s") simp_all
  qed
  then show "inv (snd (impl_step enq deq s p))"
    and "cap (snd (impl_step enq deq s p)) = cap s"
    and "spec_step (cap s) (contents s) p =
           (fst (impl_step enq deq s p), contents (snd (impl_step enq deq s p)))"
    by simp_all
qed

lemma run_simulates:
  "inv s \<Longrightarrow> run_ops (impl_step enq deq) s ps = (rs, s') \<Longrightarrow>
   inv s' \<and> cap s' = cap s \<and> run_ops (spec_step (cap s)) (contents s) ps = (rs, contents s')"
proof (induction ps arbitrary: s rs)
  case Nil
  then show ?case by simp
next
  case (Cons p ps)
  obtain r s1 where st: "impl_step enq deq s p = (r, s1)" by (cases "impl_step enq deq s p")
  obtain rs1 where run: "run_ops (impl_step enq deq) s1 ps = (rs1, s')" and rs: "rs = r # rs1"
    using Cons.prems(2) st by (auto split: prod.splits)
  have s1: "inv s1" "cap s1 = cap s" "spec_step (cap s) (contents s) p = (r, contents s1)"
    using step_simulates [OF Cons.prems(1), of p] st by simp_all
  show ?case using Cons.IH [OF s1(1) run] s1(2,3) rs by simp
qed

lemma run_refines:
  "inv s \<Longrightarrow> fst (run_ops (impl_step enq deq) s ps) = fst (run_ops (spec_step (cap s)) (contents s) ps)"
  using run_simulates [of s ps] by (cases "run_ops (impl_step enq deq) s ps") fastforce

lemma run_fifo:
  assumes "inv s" "run_ops (impl_step enq deq) s ps = (rs, s')"
  shows "taken_of rs @ contents s' = contents s @ accepted_of ps rs"
  using run_simulates [OF assms] spec_run_fifo by blast

lemma run_bounded:
  "inv s \<Longrightarrow> run_ops (impl_step enq deq) s ps = (rs, s') \<Longrightarrow> length (contents s') \<le> cap s"
  using run_simulates [of s ps rs s'] contents_bound by force

end

section \<open>The batched interface\<close>

text \<open>
  A queue whose consumer takes batches and remembers how much it has seen. The abstract queue is
  a list in two parts: what the consumer has seen, and the fresh rest. A batch is cut from the
  seen part, and the fresh part becomes seen only when the seen part is used up or the consumer
  asks whether the queue is empty. An observer's size counts both.
\<close>

datatype 'a batch_op = Offer 'a | Take_batch u64 | Ask_empty | Ask_size

datatype 'a batch_res = Offered bool | Batch "'a list" | Empty_is bool | Size_is u64

fun batch_spec :: "nat \<Rightarrow> 'a list \<times> 'a list \<Rightarrow> 'a batch_op
    \<Rightarrow> 'a batch_res \<times> ('a list \<times> 'a list)" where
  "batch_spec n (s, f) (Offer x) =
     (if length s + length f < n then (Offered True, (s, f @ [x])) else (Offered False, (s, f)))"
| "batch_spec n (s, f) (Take_batch m) =
     (if s = [] then (Batch (take (unat m) f), (drop (unat m) f, []))
      else (Batch (take (unat m) s), (drop (unat m) s, f)))"
| "batch_spec n (s, f) Ask_empty = (Empty_is (s @ f = []), (s @ f, []))"
| "batch_spec n (s, f) Ask_size = (Size_is (of_nat (length s + length f)), (s, f))"

text \<open>A step function from the operations of the implementation.\<close>

fun batch_step :: "('a \<Rightarrow> 's \<Rightarrow> bool \<times> 's) \<Rightarrow> (u64 \<Rightarrow> 's \<Rightarrow> 'a list \<times> 's) \<Rightarrow> ('s \<Rightarrow> bool \<times> 's)
    \<Rightarrow> ('s \<Rightarrow> u64) \<Rightarrow> 's \<Rightarrow> 'a batch_op \<Rightarrow> 'a batch_res \<times> 's" where
  "batch_step enq pop emp sz s (Offer x) = (let (ok, s1) = enq x s in (Offered ok, s1))"
| "batch_step enq pop emp sz s (Take_batch m) = (let (xs, s1) = pop m s in (Batch xs, s1))"
| "batch_step enq pop emp sz s Ask_empty = (let (b, s1) = emp s in (Empty_is b, s1))"
| "batch_step enq pop emp sz s Ask_size = (Size_is (sz s), s)"

fun offered_of :: "'a batch_op list \<Rightarrow> 'a batch_res list \<Rightarrow> 'a list" where
  "offered_of (Offer x # ps) (Offered True # rs) = x # offered_of ps rs"
| "offered_of (_ # ps) (_ # rs) = offered_of ps rs"
| "offered_of _ _ = []"

fun batches_of :: "'a batch_res list \<Rightarrow> 'a list" where
  "batches_of [] = []"
| "batches_of (Batch xs # rs) = xs @ batches_of rs"
| "batches_of (_ # rs) = batches_of rs"

lemma batch_spec_fifo:
  "run_ops (batch_spec n) q ps = (rs, q') \<Longrightarrow>
   batches_of rs @ fst q' @ snd q' = fst q @ snd q @ offered_of ps rs"
proof (induction ps arbitrary: q rs)
  case Nil
  then show ?case by simp
next
  case (Cons p ps)
  obtain s f where q: "q = (s, f)" by (cases q)
  obtain r q1 where st: "batch_spec n q p = (r, q1)" by (cases "batch_spec n q p")
  obtain rs1 where run: "run_ops (batch_spec n) q1 ps = (rs1, q')" and rs: "rs = r # rs1"
    using Cons.prems st by (auto split: prod.splits)
  have ih: "batches_of rs1 @ fst q' @ snd q' = fst q1 @ snd q1 @ offered_of ps rs1"
    by (rule Cons.IH [OF run])
  show ?case
    using st ih rs q by (cases p) (auto split: if_splits)
qed

locale batch_fifo =
  fixes cap :: "'s \<Rightarrow> nat"
    and inv :: "'s \<Rightarrow> bool"
    and seen :: "'s \<Rightarrow> 'a list"
    and fresh :: "'s \<Rightarrow> 'a list"
    and enq :: "'a \<Rightarrow> 's \<Rightarrow> bool \<times> 's"
    and pop :: "u64 \<Rightarrow> 's \<Rightarrow> 'a list \<times> 's"
    and emp :: "'s \<Rightarrow> bool \<times> 's"
    and sz :: "'s \<Rightarrow> u64"
  assumes bound: "inv s \<Longrightarrow> length (seen s) + length (fresh s) \<le> cap s"
    and enq_inv: "inv s \<Longrightarrow> inv (snd (enq x s)) \<and> cap (snd (enq x s)) = cap s"
    and enq_ok: "inv s \<Longrightarrow> fst (enq x s) \<longleftrightarrow> length (seen s) + length (fresh s) < cap s"
    and enq_parts: "inv s \<Longrightarrow> seen (snd (enq x s)) = seen s \<and>
      fresh (snd (enq x s)) = (if fst (enq x s) then fresh s @ [x] else fresh s)"
    and pop_inv: "inv s \<Longrightarrow> inv (snd (pop m s)) \<and> cap (snd (pop m s)) = cap s"
    and pop_seen: "inv s \<Longrightarrow> seen s \<noteq> [] \<Longrightarrow> fst (pop m s) = take (unat m) (seen s) \<and>
      seen (snd (pop m s)) = drop (unat m) (seen s) \<and> fresh (snd (pop m s)) = fresh s"
    and pop_fresh: "inv s \<Longrightarrow> seen s = [] \<Longrightarrow> fst (pop m s) = take (unat m) (fresh s) \<and>
      seen (snd (pop m s)) = drop (unat m) (fresh s) \<and> fresh (snd (pop m s)) = []"
    and emp_inv: "inv s \<Longrightarrow> inv (snd (emp s)) \<and> cap (snd (emp s)) = cap s"
    and emp_parts: "inv s \<Longrightarrow> (fst (emp s) \<longleftrightarrow> seen s @ fresh s = []) \<and>
      seen (snd (emp s)) = seen s @ fresh s \<and> fresh (snd (emp s)) = []"
    and sz_value: "inv s \<Longrightarrow> sz s = of_nat (length (seen s) + length (fresh s))"
begin

lemma step_simulates:
  assumes "inv s" and "batch_step enq pop emp sz s p = (r, s1)"
  shows "inv s1 \<and> cap s1 = cap s \<and>
    batch_spec (cap s) (seen s, fresh s) p = (r, (seen s1, fresh s1))"
proof (cases p)
  case (Offer x)
  then show ?thesis
    using assms enq_inv [OF assms(1), of x] enq_ok [OF assms(1), of x] enq_parts [OF assms(1), of x]
    by (cases "enq x s") auto
next
  case (Take_batch m)
  then show ?thesis
    using assms pop_inv [OF assms(1), of m] pop_seen [OF assms(1), of m] pop_fresh [OF assms(1), of m]
    by (cases "pop m s") auto
next
  case Ask_empty
  then show ?thesis
    using assms emp_inv [OF assms(1)] emp_parts [OF assms(1)] by (cases "emp s") auto
next
  case Ask_size
  then show ?thesis using assms sz_value [OF assms(1)] by auto
qed

lemma run_simulates:
  "inv s \<Longrightarrow> run_ops (batch_step enq pop emp sz) s ps = (rs, s') \<Longrightarrow>
   inv s' \<and> cap s' = cap s \<and>
   run_ops (batch_spec (cap s)) (seen s, fresh s) ps = (rs, (seen s', fresh s'))"
proof (induction ps arbitrary: s rs)
  case Nil
  then show ?case by simp
next
  case (Cons p ps)
  obtain r s1 where st: "batch_step enq pop emp sz s p = (r, s1)"
    by (cases "batch_step enq pop emp sz s p")
  obtain rs1 where run: "run_ops (batch_step enq pop emp sz) s1 ps = (rs1, s')"
    and rs: "rs = r # rs1"
    using Cons.prems(2) st by (auto split: prod.splits)
  have s1: "inv s1" "cap s1 = cap s"
    "batch_spec (cap s) (seen s, fresh s) p = (r, (seen s1, fresh s1))"
    using step_simulates [OF Cons.prems(1) st] by simp_all
  show ?case using Cons.IH [OF s1(1) run] s1(2,3) rs by simp
qed

lemma run_fifo:
  assumes "inv s" "run_ops (batch_step enq pop emp sz) s ps = (rs, s')"
  shows "batches_of rs @ seen s' @ fresh s' = seen s @ fresh s @ offered_of ps rs"
  using batch_spec_fifo [of "cap s" "(seen s, fresh s)" ps rs] run_simulates [OF assms] by simp

lemma run_bounded:
  "inv s \<Longrightarrow> run_ops (batch_step enq pop emp sz) s ps = (rs, s') \<Longrightarrow>
   length (seen s') + length (fresh s') \<le> cap s"
  using run_simulates [of s ps rs s'] bound [of s'] by force

end

end
