(* ===== verification/Spsc_Ring.thy ===== *)
theory Spsc_Ring
  imports Fifo_Spec
begin

text \<open>
  \<^verbatim>\<open>weir::SpscRing\<close> (mpsc-event-pipeline-kata/cpp/src/spsc_ring.hpp): the bounded
  single-producer single-consumer ring, each operation as one step. The indices are
  free-running 64-bit words and each side keeps a private, possibly stale, copy of the other's;
  the theory shows that the ring is a bounded FIFO whatever the staleness and wherever the
  indices stand relative to the wrap-around of the words.
\<close>

section \<open>State and operations\<close>

text \<open>
  The slots are \<open>std::array<T, Capacity>\<close>; \<open>tail\<close> and \<open>cached_head\<close> are written by the
  producer, \<open>head\<close> and \<open>cached_tail\<close> by the consumer.
\<close>

record 'a spsc =
  tail :: u64
  cached_head :: u64
  head :: u64
  cached_tail :: u64
  slots :: "'a list"

definition capacity :: "'a spsc \<Rightarrow> nat" where
  "capacity r = length (slots r)"

definition new_ring :: "nat \<Rightarrow> 'a \<Rightarrow> 'a spsc" where
  "new_ring n x = \<lparr>tail = 0, cached_head = 0, head = 0, cached_tail = 0, slots = replicate n x\<rparr>"

text \<open>The slot write and the release store of the tail that publishes it.\<close>

definition publish :: "u64 \<Rightarrow> 'a \<Rightarrow> 'a spsc \<Rightarrow> 'a spsc" where
  "publish t v r = r\<lparr>slots := (slots r)[slot_ix (capacity r) t := v], tail := t + 1\<rparr>"

definition try_push :: "'a \<Rightarrow> 'a spsc \<Rightarrow> bool \<times> 'a spsc" where
  "try_push v r =
     (let t = tail r in
      if t - cached_head r = of_nat (capacity r) then
        let r1 = r\<lparr>cached_head := head r\<rparr> in
        if t - cached_head r1 = of_nat (capacity r) then (False, r1)
        else (True, publish t v r1)
      else (True, publish t v r))"

definition producer_size_hint :: "'a spsc \<Rightarrow> u64" where
  "producer_size_hint r = tail r - cached_head r"

text \<open>
  \<open>pop_batch\<close> returns the items it copied to \<open>out\<close>; its count is their number.
\<close>

definition copy_out :: "u64 \<Rightarrow> 'a spsc \<Rightarrow> 'a list \<times> 'a spsc" where
  "copy_out max_items r =
     (let h = head r;
          n = min max_items (cached_tail r - h);
          out = map (\<lambda>i. slots r ! slot_ix (capacity r) (h + of_nat i)) [0..<unat n]
      in (out, r\<lparr>head := h + n\<rparr>))"

definition pop_batch :: "u64 \<Rightarrow> 'a spsc \<Rightarrow> 'a list \<times> 'a spsc" where
  "pop_batch max_items r =
     (let h = head r in
      if h = cached_tail r then
        let r1 = r\<lparr>cached_tail := tail r\<rparr> in
        if h = cached_tail r1 then ([], r1) else copy_out max_items r1
      else copy_out max_items r)"

definition empty_now :: "'a spsc \<Rightarrow> bool \<times> 'a spsc" where
  "empty_now r = (let r1 = r\<lparr>cached_tail := tail r\<rparr> in (head r1 = cached_tail r1, r1))"

definition size_now :: "'a spsc \<Rightarrow> u64" where
  "size_now r = (let t = tail r; h = head r in t - h)"

lemmas spsc_ops [model_defs] =
  try_push_def publish_def producer_size_hint_def pop_batch_def copy_out_def empty_now_def
  size_now_def

section \<open>Invariant and abstraction\<close>

text \<open>
  Going round the ring of words from the producer's copy of the head, one meets the head, the
  consumer's copy of the tail, and the tail, within one capacity.
\<close>

definition spsc_inv :: "'a spsc \<Rightarrow> bool" where
  "spsc_inv r \<longleftrightarrow> ring_cap (capacity r) \<and>
     unat (head r - cached_head r) \<le> unat (cached_tail r - cached_head r) \<and>
     unat (cached_tail r - cached_head r) \<le> unat (tail r - cached_head r) \<and>
     unat (tail r - cached_head r) \<le> capacity r"

definition contents :: "'a spsc \<Rightarrow> 'a list" where
  "contents r = map (\<lambda>i. slots r ! slot_ix (capacity r) (head r + of_nat i))
                  [0..<unat (tail r - head r)]"

text \<open>
  The same as unbounded positions: \<open>spsc_at r ch h ct t\<close> says the words of \<open>r\<close> are the
  positions \<open>ch \<le> h \<le> ct \<le> t \<le> ch + capacity\<close>. Every proof below is about positions.
\<close>

definition spsc_at :: "'a spsc \<Rightarrow> nat \<Rightarrow> nat \<Rightarrow> nat \<Rightarrow> nat \<Rightarrow> bool" where
  "spsc_at r ch h ct t \<longleftrightarrow> ring_cap (capacity r) \<and>
     cached_head r = of_nat ch \<and> head r = of_nat h \<and> cached_tail r = of_nat ct \<and>
     tail r = of_nat t \<and> ch \<le> h \<and> h \<le> ct \<and> ct \<le> t \<and> t \<le> ch + capacity r"

lemma spsc_at_inv: "spsc_at r ch h ct t \<Longrightarrow> spsc_inv r"
  using ring_capD(2) [of "capacity r"]
  by (auto simp: spsc_at_def spsc_inv_def unat_pos_diff simp del: of_nat_diff)

lemma spsc_inv_at: "spsc_inv r \<Longrightarrow> \<exists>ch h ct t. spsc_at r ch h ct t"
proof -
  assume i: "spsc_inv r"
  define ch where "ch = unat (cached_head r)"
  have q: "cached_head r = of_nat ch" by (simp add: ch_def)
  let ?pos = "\<lambda>w. ch + unat (w - cached_head r)"
  have w: "of_nat (?pos w) = w" for w by (simp add: q)
  have "spsc_at r ch (?pos (head r)) (?pos (cached_tail r)) (?pos (tail r))"
    using i q unfolding spsc_inv_def spsc_at_def w by auto
  then show ?thesis by blast
qed

lemma contents_at: "spsc_at r ch h ct t \<Longrightarrow> contents r = seg (slots r) h t"
proof -
  assume a: "spsc_at r ch h ct t"
  then have lt: "h \<le> t" "t - h < 2 ^ 64" "ring_cap (capacity r)"
    using ring_capD(2) [of "capacity r"] by (auto simp: spsc_at_def)
  have "unat (tail r - head r) = t - h"
    using a lt unat_pos_diff [of h t] by (simp add: spsc_at_def)
  moreover have "slot_ix (capacity r) (head r + of_nat i) = (h + i) mod length (slots r)" for i
    using a lt slot_ix_of_nat [of "capacity r" "h + i"] by (simp add: spsc_at_def capacity_def)
  ultimately show ?thesis by (simp add: contents_def seg_eq_map_offset)
qed

lemma spsc_size_at: "spsc_at r ch h ct t \<Longrightarrow> t - h \<le> capacity r"
  by (auto simp: spsc_at_def)

section \<open>The operations on positions\<close>

lemma capacity_update [simp]:
  "capacity (r\<lparr>tail := a\<rparr>) = capacity r" "capacity (r\<lparr>cached_head := a\<rparr>) = capacity r"
  "capacity (r\<lparr>head := a\<rparr>) = capacity r" "capacity (r\<lparr>cached_tail := a\<rparr>) = capacity r"
  "capacity (publish t v r) = capacity r"
  by (simp_all add: capacity_def publish_def)

lemma publish_at:
  assumes "spsc_at r ch h ct t" "t < ch + capacity r"
  shows "spsc_at (publish (tail r) v r) ch h ct (Suc t)"
    and "slots (publish (tail r) v r) = (slots r)[t mod capacity r := v]"
  using assms by (auto simp: spsc_at_def publish_def capacity_def ring_simps add.commute)

lemma full_test:
  assumes "ring_cap n" "q \<le> t" "t \<le> q + n"
  shows "(of_nat t - of_nat q :: u64) = of_nat n \<longleftrightarrow> t = q + n"
  using pos_diff_eq [of q t n] ring_capD(2) [OF assms(1)] assms by auto

lemma try_push_at:
  assumes "spsc_at r ch h ct t"
  shows "fst (try_push v r) \<longleftrightarrow> t < h + capacity r"
    and "t < h + capacity r \<Longrightarrow> \<exists>ch'. spsc_at (snd (try_push v r)) ch' h ct (Suc t)"
    and "t < h + capacity r \<Longrightarrow> slots (snd (try_push v r)) = (slots r)[t mod capacity r := v]"
    and "\<not> t < h + capacity r \<Longrightarrow>
      spsc_at (snd (try_push v r)) h h ct t \<and> slots (snd (try_push v r)) = slots r"
proof -
  let ?r1 = "r\<lparr>cached_head := head r\<rparr>"
  have r1: "spsc_at ?r1 h h ct t" using assms by (auto simp: spsc_at_def)
  have cap: "ring_cap (capacity r)" and bnd: "ch \<le> t" "t \<le> ch + capacity r" "h \<le> t" "ch \<le> h"
    using assms by (auto simp: spsc_at_def)
  have f1: "tail r - cached_head r = of_nat (capacity r) \<longleftrightarrow> t = ch + capacity r"
    using full_test [OF cap bnd(1,2)] assms by (simp add: spsc_at_def)
  have f2: "tail r - head r = of_nat (capacity r) \<longleftrightarrow> t = h + capacity r"
    using full_test [OF cap bnd(3), of] bnd assms by (simp add: spsc_at_def)
  consider (full) "t = ch + capacity r" "t = h + capacity r"
    | (stale) "t = ch + capacity r" "t < h + capacity r"
    | (room) "t < ch + capacity r" using bnd by linarith
  then have "(fst (try_push v r) \<longleftrightarrow> t < h + capacity r) \<and>
    (t < h + capacity r \<longrightarrow> (\<exists>ch'. spsc_at (snd (try_push v r)) ch' h ct (Suc t)) \<and>
       slots (snd (try_push v r)) = (slots r)[t mod capacity r := v]) \<and>
    (\<not> t < h + capacity r \<longrightarrow>
      spsc_at (snd (try_push v r)) h h ct t \<and> slots (snd (try_push v r)) = slots r)"
  proof cases
    case full
    then show ?thesis using f1 f2 r1 by (simp add: try_push_def)
  next
    case stale
    then show ?thesis
      using f1 f2 publish_at [OF r1, of v] by (auto simp: try_push_def Let_def)
  next
    case room
    then show ?thesis
      using f1 bnd publish_at [OF assms, of v] by (auto simp: try_push_def Let_def)
  qed
  then show "fst (try_push v r) \<longleftrightarrow> t < h + capacity r"
    and "t < h + capacity r \<Longrightarrow> \<exists>ch'. spsc_at (snd (try_push v r)) ch' h ct (Suc t)"
    and "t < h + capacity r \<Longrightarrow> slots (snd (try_push v r)) = (slots r)[t mod capacity r := v]"
    and "\<not> t < h + capacity r \<Longrightarrow>
      spsc_at (snd (try_push v r)) h h ct t \<and> slots (snd (try_push v r)) = slots r"
    by blast+
qed

lemma copy_out_at:
  fixes m :: u64
  assumes "spsc_at r ch h ct t"
  defines "n \<equiv> min (unat m) (ct - h)"
  shows "fst (copy_out m r) = seg (slots r) h (h + n)"
    and "spsc_at (snd (copy_out m r)) ch (h + n) ct t"
    and "slots (snd (copy_out m r)) = slots r"
proof -
  have cap: "ring_cap (capacity r)" and bnd: "h \<le> ct" "ct - h < 2 ^ 64"
    using assms(1) ring_capD(2) [of "capacity r"] by (auto simp: spsc_at_def)
  have un: "unat (min m (cached_tail r - head r)) = n"
    using assms(1) unat_pos_diff [OF bnd]
    by (simp add: n_def spsc_at_def min_def word_le_nat_alt del: of_nat_diff)
  then have wn: "min m (cached_tail r - head r) = of_nat n"
    by (metis of_nat_unat ucast_id)
  have "slot_ix (capacity r) (head r + of_nat i) = (h + i) mod length (slots r)" for i
    using assms(1) slot_ix_of_nat [OF cap, of "h + i"] by (simp add: spsc_at_def capacity_def)
  then show "fst (copy_out m r) = seg (slots r) h (h + n)"
    by (simp add: copy_out_def Let_def un seg_eq_map_offset)
  have "snd (copy_out m r) = r\<lparr>head := of_nat (h + n)\<rparr>"
    using assms(1) unfolding copy_out_def Let_def wn by (simp add: spsc_at_def)
  then show "spsc_at (snd (copy_out m r)) ch (h + n) ct t"
    using assms(1) by (auto simp: spsc_at_def n_def)
  show "slots (snd (copy_out m r)) = slots r" by (simp add: copy_out_def Let_def)
qed

text \<open>
  A batch is a prefix of what is in the ring, at most \<open>max_items\<close> long; it is empty only if
  nothing was asked for or nothing is there. The consumer's copy of the tail may cut it short.
\<close>

lemma pop_batch_at:
  assumes "spsc_at r ch h ct t"
  shows "\<exists>n ct'. fst (pop_batch m r) = seg (slots r) h (h + n) \<and> n \<le> unat m \<and>
    spsc_at (snd (pop_batch m r)) ch (h + n) ct' t \<and>
    slots (snd (pop_batch m r)) = slots r \<and>
    n = min (unat m) (ct' - h) \<and> ct' = (if h = ct then t else ct)"
proof -
  let ?r1 = "r\<lparr>cached_tail := tail r\<rparr>"
  have r1: "spsc_at ?r1 ch h t t" using assms by (auto simp: spsc_at_def)
  have e1: "head r = cached_tail r \<longleftrightarrow> h = ct" and e2: "head r = tail r \<longleftrightarrow> h = t"
    using assms ring_capD(2) [of "capacity r"] pos_eq_iff [of h ct] pos_eq_iff [of h t]
    by (auto simp: spsc_at_def)
  consider (empty) "h = ct" "h = t" | (refresh) "h = ct" "h \<noteq> t" | (cached) "h \<noteq> ct" by blast
  then show ?thesis
  proof cases
    case empty
    then show ?thesis using e1 e2 r1 by (auto simp: pop_batch_def)
  next
    case refresh
    then show ?thesis using e1 e2 copy_out_at [OF r1, of m] by (force simp: pop_batch_def Let_def)
  next
    case cached
    then show ?thesis using e1 copy_out_at [OF assms, of m] by (force simp: pop_batch_def Let_def)
  qed
qed

lemma empty_now_at:
  assumes "spsc_at r ch h ct t"
  shows "spsc_at (snd (empty_now r)) ch h t t" and "fst (empty_now r) \<longleftrightarrow> h = t"
    and "slots (snd (empty_now r)) = slots r"
  using assms ring_capD(2) [of "capacity r"] pos_eq_iff [of h t]
  by (auto simp: spsc_at_def empty_now_def)

lemma size_now_at: "spsc_at r ch h ct t \<Longrightarrow> unat (size_now r) = t - h"
  using ring_capD(2) [of "capacity r"] unat_pos_diff [of h t]
  by (auto simp: spsc_at_def size_now_def simp del: of_nat_diff)

lemma hint_at: "spsc_at r ch h ct t \<Longrightarrow> unat (producer_size_hint r) = t - ch"
  using ring_capD(2) [of "capacity r"] unat_pos_diff [of ch t]
  by (auto simp: spsc_at_def producer_size_hint_def simp del: of_nat_diff)

section \<open>The operations on contents\<close>

lemma new_ring_at: "ring_cap n \<Longrightarrow> spsc_at (new_ring n x) 0 0 0 0"
  by (simp add: spsc_at_def new_ring_def capacity_def)

lemma new_ring_inv [intro]: "ring_cap n \<Longrightarrow> spsc_inv (new_ring n x)"
  by (rule spsc_at_inv [OF new_ring_at])

lemma new_ring_simps [simp]:
  "contents (new_ring n x) = []" "capacity (new_ring n x) = n"
  by (simp_all add: contents_def new_ring_def capacity_def)

lemma try_push_spec:
  assumes "spsc_inv r"
  shows "spsc_inv (snd (try_push v r))"
    and "capacity (snd (try_push v r)) = capacity r"
    and "fst (try_push v r) \<longleftrightarrow> length (contents r) < capacity r"
    and "contents (snd (try_push v r)) = (if fst (try_push v r) then contents r @ [v] else contents r)"
proof -
  obtain ch h ct t where at: "spsc_at r ch h ct t" using spsc_inv_at [OF assms] by blast
  note p = try_push_at [OF at, of v]
  have len: "length (contents r) = t - h" and le: "h \<le> t"
    using at by (auto simp: contents_at [OF at] spsc_at_def)
  have c: "capacity (snd (try_push v r)) = capacity r"
    using p(3,4) by (cases "t < h + capacity r") (simp_all add: capacity_def)
  then show "capacity (snd (try_push v r)) = capacity r" .
  show f: "fst (try_push v r) \<longleftrightarrow> length (contents r) < capacity r" using p(1) len le by auto
  show "spsc_inv (snd (try_push v r))" using p(2,4) spsc_at_inv by (cases "t < h + capacity r") blast+
  show "contents (snd (try_push v r)) = (if fst (try_push v r) then contents r @ [v] else contents r)"
  proof (cases "t < h + capacity r")
    case True
    then obtain ch' where at': "spsc_at (snd (try_push v r)) ch' h ct (Suc t)" using p(2) by blast
    show ?thesis
      using True p(1,3) le
      by (simp add: contents_at [OF at'] contents_at [OF at] seg_push capacity_def)
  next
    case False
    then have at': "spsc_at (snd (try_push v r)) h h ct t" using p(4) by blast
    then show ?thesis using False p(1,4) by (simp add: contents_at [OF at] contents_at [OF at'])
  qed
qed

lemma pop_batch_spec:
  assumes "spsc_inv r"
  shows "spsc_inv (snd (pop_batch m r))"
    and "capacity (snd (pop_batch m r)) = capacity r"
    and "contents r = fst (pop_batch m r) @ contents (snd (pop_batch m r))"
    and "length (fst (pop_batch m r)) \<le> unat m"
    and "fst (pop_batch m r) = [] \<longleftrightarrow> m = 0 \<or> contents r = []"
proof -
  obtain ch h ct t where at: "spsc_at r ch h ct t" using spsc_inv_at [OF assms] by blast
  obtain n ct' where n: "fst (pop_batch m r) = seg (slots r) h (h + n)" "n \<le> unat m"
    "spsc_at (snd (pop_batch m r)) ch (h + n) ct' t" "slots (snd (pop_batch m r)) = slots r"
    "n = min (unat m) (ct' - h)" "ct' = (if h = ct then t else ct)"
    using pop_batch_at [OF at, of m] by blast
  have bnd: "h \<le> ct" "ct \<le> t" "h + n \<le> t" using at n(3) by (auto simp: spsc_at_def)
  show "spsc_inv (snd (pop_batch m r))" using n(3) by (rule spsc_at_inv)
  show "capacity (snd (pop_batch m r)) = capacity r" using n(4) by (simp add: capacity_def)
  show "contents r = fst (pop_batch m r) @ contents (snd (pop_batch m r))"
    using bnd(3) seg_append [of h "h + n" t "slots r"]
    by (simp add: contents_at [OF at] contents_at [OF n(3)] n(1,4))
  show "length (fst (pop_batch m r)) \<le> unat m" using n(1,2) by simp
  have "n = 0 \<longleftrightarrow> unat m = 0 \<or> h = t" using n(5,6) bnd by (cases "h = ct") auto
  moreover have "fst (pop_batch m r) = [] \<longleftrightarrow> n = 0"
    by (simp add: n(1) flip: length_0_conv)
  moreover have "contents r = [] \<longleftrightarrow> h = t"
    using bnd by (auto simp: contents_at [OF at] simp flip: length_0_conv)
  ultimately show "fst (pop_batch m r) = [] \<longleftrightarrow> m = 0 \<or> contents r = []"
    by (simp add: unat_eq_zero)
qed

text \<open>\<open>empty_now\<close>, \<open>size_now\<close> and the producer's hint look, and change no position.\<close>

lemma empty_now_spec:
  assumes "spsc_inv r"
  shows "spsc_inv (snd (empty_now r))" and "capacity (snd (empty_now r)) = capacity r"
    and "fst (empty_now r) \<longleftrightarrow> contents r = []" and "contents (snd (empty_now r)) = contents r"
proof -
  obtain ch h ct t where at: "spsc_at r ch h ct t" using spsc_inv_at [OF assms] by blast
  note e = empty_now_at [OF at]
  show "spsc_inv (snd (empty_now r))" using e(1) by (rule spsc_at_inv)
  show "capacity (snd (empty_now r)) = capacity r" using e(3) by (simp add: capacity_def)
  have "h \<le> t" using at by (auto simp: spsc_at_def)
  then show "fst (empty_now r) \<longleftrightarrow> contents r = []"
    by (auto simp: contents_at [OF at] e(2) seg_def)
  show "contents (snd (empty_now r)) = contents r"
    by (simp add: contents_at [OF at] contents_at [OF e(1)] e(3))
qed

lemma size_now_spec: "spsc_inv r \<Longrightarrow> unat (size_now r) = length (contents r)"
  using spsc_inv_at [of r] size_now_at contents_at by (metis length_seg)

lemma contents_le_capacity: "spsc_inv r \<Longrightarrow> length (contents r) \<le> capacity r"
  using spsc_inv_at [of r] spsc_size_at contents_at by (metis length_seg)

lemma hint_bounds:
  "spsc_inv r \<Longrightarrow> length (contents r) \<le> unat (producer_size_hint r)"
  "spsc_inv r \<Longrightarrow> unat (producer_size_hint r) \<le> capacity r"
proof -
  assume "spsc_inv r"
  then obtain ch h ct t where at: "spsc_at r ch h ct t" using spsc_inv_at by blast
  then show "length (contents r) \<le> unat (producer_size_hint r)"
    "unat (producer_size_hint r) \<le> capacity r"
    by (auto simp: contents_at [OF at] hint_at [OF at]) (auto simp: spsc_at_def)
qed

section \<open>The ring is a bounded FIFO\<close>

text \<open>
  The contents in two parts: what lies before the consumer's copy of the tail, which it has
  seen, and what has been published since.
\<close>

definition window :: "u64 \<Rightarrow> u64 \<Rightarrow> 'a spsc \<Rightarrow> 'a list" where
  "window a b r = map (\<lambda>i. slots r ! slot_ix (capacity r) (a + of_nat i)) [0..<unat (b - a)]"

definition seen :: "'a spsc \<Rightarrow> 'a list" where
  "seen r = window (head r) (cached_tail r) r"

definition fresh :: "'a spsc \<Rightarrow> 'a list" where
  "fresh r = window (cached_tail r) (tail r) r"

lemma window_seg:
  assumes "ring_cap (capacity r)" "a \<le> b" "b - a \<le> capacity r"
  shows "window (of_nat a) (of_nat b) r = seg (slots r) a b"
proof -
  have "unat (of_nat b - of_nat a :: u64) = b - a"
    using assms ring_capD(2) [OF assms(1)] unat_pos_diff [of a b] by simp
  moreover have "slot_ix (capacity r) (of_nat a + of_nat i) = (a + i) mod length (slots r)" for i
    using slot_ix_of_nat [OF assms(1), of "a + i"] by (simp add: capacity_def)
  ultimately show ?thesis by (simp add: window_def seg_eq_map_offset del: of_nat_diff)
qed

lemma parts_at:
  assumes "spsc_at r ch h ct t"
  shows "seen r = seg (slots r) h ct" and "fresh r = seg (slots r) ct t"
  using assms window_seg [of r h ct] window_seg [of r ct t]
  by (auto simp: seen_def fresh_def spsc_at_def)

lemma contents_parts:
  assumes "spsc_inv r"
  shows "contents r = seen r @ fresh r"
proof -
  obtain ch h ct t where at: "spsc_at r ch h ct t" using spsc_inv_at [OF assms] by blast
  then have "h \<le> ct" "ct \<le> t" by (auto simp: spsc_at_def)
  then show ?thesis unfolding contents_at [OF at] parts_at [OF at] by (rule seg_append)
qed

lemma seg_take_drop:
  assumes "h \<le> t"
  shows "seg xs h (h + min m (t - h)) = take m (seg xs h t)"
    and "seg xs (h + min m (t - h)) t = drop m (seg xs h t)"
proof -
  have s: "seg xs h t = seg xs h (h + min m (t - h)) @ seg xs (h + min m (t - h)) t"
    using assms by (intro seg_append) auto
  show "seg xs h (h + min m (t - h)) = take m (seg xs h t)"
    and "seg xs (h + min m (t - h)) t = drop m (seg xs h t)"
    by (cases "m \<le> t - h"; simp add: s)+
qed

lemma try_push_parts:
  assumes "spsc_inv r"
  shows "seen (snd (try_push v r)) = seen r"
    and "fresh (snd (try_push v r)) = (if fst (try_push v r) then fresh r @ [v] else fresh r)"
proof -
  obtain ch h ct t where at: "spsc_at r ch h ct t" using spsc_inv_at [OF assms] by blast
  note p = try_push_at [OF at, of v]
  have "seen (snd (try_push v r)) = seen r \<and>
    fresh (snd (try_push v r)) = (if fst (try_push v r) then fresh r @ [v] else fresh r)"
  proof (cases "t < h + capacity r")
    case True
    then obtain ch' where at': "spsc_at (snd (try_push v r)) ch' h ct (Suc t)" using p(2) by blast
    show ?thesis
      using True p(1,3) at
      by (simp add: parts_at [OF at'] parts_at [OF at] seg_push seg_update_other capacity_def
          spsc_at_def)
  next
    case False
    then have at': "spsc_at (snd (try_push v r)) h h ct t" using p(4) by blast
    show ?thesis using False p(1,4) by (simp add: parts_at [OF at'] parts_at [OF at])
  qed
  then show "seen (snd (try_push v r)) = seen r"
    and "fresh (snd (try_push v r)) = (if fst (try_push v r) then fresh r @ [v] else fresh r)"
    by blast+
qed

lemma pop_batch_parts:
  assumes "spsc_inv r"
  defines "s \<equiv> if seen r = [] then fresh r else seen r"
  shows "fst (pop_batch m r) = take (unat m) s" and "seen (snd (pop_batch m r)) = drop (unat m) s"
    and "fresh (snd (pop_batch m r)) = (if seen r = [] then [] else fresh r)"
proof -
  obtain ch h ct t where at: "spsc_at r ch h ct t" using spsc_inv_at [OF assms(1)] by blast
  obtain n ct' where n: "fst (pop_batch m r) = seg (slots r) h (h + n)"
    "spsc_at (snd (pop_batch m r)) ch (h + n) ct' t" "slots (snd (pop_batch m r)) = slots r"
    "n = min (unat m) (ct' - h)" "ct' = (if h = ct then t else ct)"
    using pop_batch_at [OF at, of m] by blast
  have le: "h \<le> ct" "ct \<le> t" using at by (auto simp: spsc_at_def)
  then have e: "seen r = [] \<longleftrightarrow> h = ct" and hc: "h \<le> ct'"
    using n(5) by (auto simp: parts_at [OF at] simp flip: length_0_conv)
  have s: "s = seg (slots r) h ct'"
    using e n(5) by (auto simp: s_def parts_at [OF at])
  show "fst (pop_batch m r) = take (unat m) s" "seen (snd (pop_batch m r)) = drop (unat m) s"
    using seg_take_drop [OF hc, of "slots r" "unat m"]
    by (simp_all add: s n(1,3,4) parts_at(1) [OF n(2)])
  show "fresh (snd (pop_batch m r)) = (if seen r = [] then [] else fresh r)"
    using e n(5) by (simp add: parts_at(2) [OF n(2)] parts_at(2) [OF at] n(3))
qed

lemma empty_now_parts:
  assumes "spsc_inv r"
  shows "seen (snd (empty_now r)) = seen r @ fresh r" and "fresh (snd (empty_now r)) = []"
proof -
  obtain ch h ct t where at: "spsc_at r ch h ct t" using spsc_inv_at [OF assms] by blast
  note e = empty_now_at [OF at]
  show "seen (snd (empty_now r)) = seen r @ fresh r" "fresh (snd (empty_now r)) = []"
    using contents_parts [OF assms]
    by (simp_all add: parts_at [OF e(1)] e(3) contents_at [OF at])
qed

lemma size_now_parts: "spsc_inv r \<Longrightarrow> size_now r = of_nat (length (seen r) + length (fresh r))"
  using size_now_spec [of r] contents_parts [of r] by (metis length_append of_nat_unat ucast_id)

lemma parts_le_capacity: "spsc_inv r \<Longrightarrow> length (seen r) + length (fresh r) \<le> capacity r"
  using contents_le_capacity [of r] contents_parts [of r] by simp

interpretation spsc: batch_fifo capacity spsc_inv seen fresh try_push pop_batch empty_now size_now
  by unfold_locales
    (simp_all add: contents_parts try_push_spec pop_batch_spec empty_now_spec try_push_parts
      pop_batch_parts empty_now_parts size_now_parts parts_le_capacity)

section \<open>Properties\<close>

text \<open>
  C8: the ring is a bounded FIFO emptied in batches. From any consistent state, whatever the
  caches hold and wherever the 64-bit indices stand, a script of \<open>try_push\<close>, \<open>pop_batch\<close> with any
  sizes, \<open>empty_now\<close> and \<open>size_now\<close> returns exactly what the abstract queue returns - a list
  bounded by the capacity, cut where the consumer's copy of the tail stands - and leaves that
  list in the ring; the batches, one after the other, are the contents followed by the accepted
  pushes, up to what is left.
\<close>

theorem spsc_refines_bounded_fifo:
  assumes "spsc_inv r"
    and "run_ops (batch_step try_push pop_batch empty_now size_now) r ps = (rs, r')"
  shows "run_ops (batch_spec (capacity r)) (seen r, fresh r) ps = (rs, (seen r', fresh r')) \<and>
    contents r = seen r @ fresh r \<and> contents r' = seen r' @ fresh r' \<and>
    batches_of rs @ contents r' = contents r @ offered_of ps rs \<and>
    length (contents r') \<le> capacity r \<and> spsc_inv r'"
  using spsc.run_simulates [OF assms] spsc.run_fifo [OF assms] spsc.run_bounded [OF assms]
    contents_parts [OF assms(1)] contents_parts [of r'] by simp

text \<open>
  A ring of four whose indices are about to wrap round the 64-bit word: three pushes, a batch of
  two that crosses the wrap, three more pushes of which the last is refused, a batch cut short by
  the stale copy of the tail, and one that takes the rest.
\<close>

theorem spsc_refines_bounded_fifo_witness:
  "let r = \<lparr>tail = - 1, cached_head = - 1, head = - 1, cached_tail = - 1, slots = [0, 0, 0, 0::nat]\<rparr>;
       ps = [Offer 1, Offer 2, Offer 3, Take_batch 2, Offer 4, Offer 5, Offer 6, Offer 7, Ask_size,
             Take_batch 9, Take_batch 9, Ask_empty];
       rs = [Offered True, Offered True, Offered True, Batch [1, 2], Offered True, Offered True,
             Offered True, Offered False, Size_is 4, Batch [3], Batch [4, 5, 6], Empty_is True]
   in spsc_inv r \<and> fst (run_ops (batch_step try_push pop_batch empty_now size_now) r ps) = rs \<and>
      fst (run_ops (batch_spec 4) ([], []) ps) = rs"
proof -
  let ?r = "\<lparr>tail = - 1, cached_head = - 1, head = - 1, cached_tail = - 1,
      slots = [0, 0, 0, 0::nat]\<rparr> :: nat spsc"
  let ?ps = "[Offer 1, Offer 2, Offer 3, Take_batch 2, Offer 4, Offer 5, Offer 6, Offer 7, Ask_size,
             Take_batch 9, Take_batch 9, Ask_empty] :: nat batch_op list"
  have "length (slots ?r) = 4" by simp
  moreover have "ring_cap 4" using power_has_single_bit [of 2] by (simp add: ring_cap_def)
  ultimately have i: "spsc_inv ?r" by (simp add: spsc_inv_def capacity_def del: list.size)
  have c: "capacity ?r = 4" "seen ?r = []" "fresh ?r = []"
    by (simp_all add: capacity_def seen_def fresh_def window_def)
  obtain rs r' where run:
    "run_ops (batch_step try_push pop_batch empty_now size_now) ?r ?ps = (rs, r')"
    by (cases "run_ops (batch_step try_push pop_batch empty_now size_now) ?r ?ps")
  have "run_ops (batch_spec 4) ([], []) ?ps = (rs, (seen r', fresh r'))"
    using spsc_refines_bounded_fifo [OF i run] by (simp only: c)
  then show ?thesis using i run by (auto simp: Let_def)
qed

text \<open>
  a batch is a prefix of the contents, never longer than asked for, and empty only when
  nothing was asked for or the ring is empty; what is left follows it. The consumer's stale
  copy of the tail can shorten a batch but never starve it.
\<close>

theorem pop_batch_prefix:
  assumes "spsc_inv r" and "pop_batch m r = (xs, r')"
  shows "contents r = xs @ contents r' \<and> length xs \<le> unat m \<and>
    (xs = [] \<longleftrightarrow> m = 0 \<or> contents r = []) \<and> spsc_inv r'"
  using pop_batch_spec [OF assms(1), of m, unfolded assms(2) fst_conv snd_conv] by blast

theorem pop_batch_prefix_witness:
  "let r = \<lparr>tail = 1, cached_head = - 1, head = - 1, cached_tail = 0, slots = [5, 6::nat]\<rparr>
   in spsc_inv r \<and> contents r = [6, 5] \<and> fst (pop_batch 9 r) = [6] \<and>
      contents r = fst (pop_batch 9 r) @ contents (snd (pop_batch 9 r))"
proof -
  let ?r = "\<lparr>tail = 1, cached_head = - 1, head = - 1, cached_tail = 0, slots = [5, 6::nat]\<rparr>"
  have i: "spsc_inv ?r" by (simp add: spsc_inv_def capacity_def ring_cap_def has_single_bit_def)
  have v: "contents ?r = [6, 5]" "fst (pop_batch 9 ?r) = [6]"
    by (simp_all add: contents_def pop_batch_def copy_out_def capacity_def slot_ix_def upt_rec)
  show ?thesis using i v pop_batch_prefix [OF i prod.collapse [symmetric], of 9]
    by (simp only: Let_def simp_thms)
qed

end
