(* ===== verification/Spsc_Concurrent.thy ===== *)
theory Spsc_Concurrent
  imports Spsc_Ring
begin

text \<open>
  The same ring with its threads interleaved: one producer inside \<open>try_push\<close>, one consumer
  inside \<open>pop_batch\<close> and one observer inside \<open>size_now\<close>, each taking one shared access per
  step, in any order. The producer's slot write and the consumer's slot reads are steps of
  their own, so the theory can say that they never meet on a slot (the race the two
  release/acquire pairs exclude), besides what comes out and in what order.
  \<open>pushed\<close>, \<open>popped\<close> and \<open>seen\<close> are history variables: no step reads them.
\<close>

section \<open>Program counters and steps\<close>

text \<open>
  Producer: after loading the tail; about to write the slot; about to store the tail.
  Consumer: after loading the head; copying, with what is already in \<open>out\<close>.
  Observer: after loading the tail; finished, with the value returned.
\<close>

datatype 'a ppc = PIdle | PTail 'a u64 | PSlot 'a u64 | PPublish 'a u64
datatype 'a cpc = CIdle | CHead u64 u64 | CCopy u64 nat "'a list"
datatype opc = OIdle | OTail u64 | ODone u64

record 'a spsc_sys =
  ring :: "'a spsc"
  ppc :: "'a ppc"
  cpc :: "'a cpc"
  opc :: opc
  pushed :: "'a list"
  popped :: "'a list"
  seen :: "'a list"

definition init_sys :: "nat \<Rightarrow> 'a \<Rightarrow> 'a spsc_sys" where
  "init_sys n x = \<lparr>ring = new_ring n x, ppc = PIdle, cpc = CIdle, opc = OIdle,
     pushed = [], popped = [], seen = []\<rparr>"

text \<open>
  One access of \<open>try_push\<close>. The argument is the event the next call would push; it is read
  only when a call starts.
\<close>

fun producer_step :: "'a \<Rightarrow> 'a spsc_sys \<Rightarrow> 'a spsc_sys" where
  "producer_step v s =
     (let r = ring s in
      case ppc s of
        PIdle \<Rightarrow> s\<lparr>ppc := PTail v (tail r)\<rparr>
      | PTail x t \<Rightarrow>
          if t - cached_head r = of_nat (capacity r) then
            let r1 = r\<lparr>cached_head := head r\<rparr> in
            if t - cached_head r1 = of_nat (capacity r) then s\<lparr>ring := r1, ppc := PIdle\<rparr>
            else s\<lparr>ring := r1, ppc := PSlot x t\<rparr>
          else s\<lparr>ppc := PSlot x t\<rparr>
      | PSlot x t \<Rightarrow>
          s\<lparr>ring := r\<lparr>slots := (slots r)[slot_ix (capacity r) t := x]\<rparr>, ppc := PPublish x t\<rparr>
      | PPublish x t \<Rightarrow>
          s\<lparr>ring := r\<lparr>tail := t + 1\<rparr>, ppc := PIdle, pushed := pushed s @ [x]\<rparr>)"

text \<open>One access of \<open>pop_batch\<close>; the argument is \<open>max_items\<close> of the next call.\<close>

definition start_copy :: "u64 \<Rightarrow> u64 \<Rightarrow> 'a spsc \<Rightarrow> 'a cpc" where
  "start_copy m h r = CCopy h (unat (min m (cached_tail r - h))) []"

fun consumer_step :: "u64 \<Rightarrow> 'a spsc_sys \<Rightarrow> 'a spsc_sys" where
  "consumer_step max_items s =
     (let r = ring s in
      case cpc s of
        CIdle \<Rightarrow> s\<lparr>cpc := CHead max_items (head r)\<rparr>
      | CHead m h \<Rightarrow>
          if h = cached_tail r then
            let r1 = r\<lparr>cached_tail := tail r\<rparr> in
            if h = cached_tail r1 then s\<lparr>ring := r1, cpc := CIdle\<rparr>
            else s\<lparr>ring := r1, cpc := start_copy m h r1\<rparr>
          else s\<lparr>cpc := start_copy m h r\<rparr>
      | CCopy h n out \<Rightarrow>
          if length out < n then
            s\<lparr>cpc := CCopy h n
                (out @ [slots r ! slot_ix (capacity r) (h + of_nat (length out))])\<rparr>
          else s\<lparr>ring := r\<lparr>head := h + of_nat n\<rparr>, cpc := CIdle, popped := popped s @ out\<rparr>)"

text \<open>One access of \<open>size_now\<close>.\<close>

fun observer_step :: "'a spsc_sys \<Rightarrow> 'a spsc_sys" where
  "observer_step s =
     (case opc s of
        OTail t \<Rightarrow> s\<lparr>opc := ODone (t - head (ring s))\<rparr>
      | _ \<Rightarrow> s\<lparr>opc := OTail (tail (ring s)), seen := pushed s\<rparr>)"

datatype 'a spsc_act = Produce 'a | Consume u64 | Observe

fun sys_step :: "'a spsc_act \<Rightarrow> 'a spsc_sys \<Rightarrow> 'a spsc_sys" where
  "sys_step (Produce v) s = producer_step v s"
| "sys_step (Consume m) s = consumer_step m s"
| "sys_step Observe s = observer_step s"

definition sys_run :: "'a spsc_act list \<Rightarrow> 'a spsc_sys \<Rightarrow> 'a spsc_sys" where
  "sys_run as s = fold sys_step as s"

section \<open>The invariant\<close>

fun producer_ok :: "'a spsc \<Rightarrow> nat \<Rightarrow> nat \<Rightarrow> 'a ppc \<Rightarrow> bool" where
  "producer_ok r ch t PIdle \<longleftrightarrow> True"
| "producer_ok r ch t (PTail x w) \<longleftrightarrow> w = of_nat t"
| "producer_ok r ch t (PSlot x w) \<longleftrightarrow> w = of_nat t \<and> t < ch + capacity r"
| "producer_ok r ch t (PPublish x w) \<longleftrightarrow>
     w = of_nat t \<and> t < ch + capacity r \<and> slots r ! (t mod capacity r) = x"

fun consumer_ok :: "'a spsc \<Rightarrow> nat \<Rightarrow> nat \<Rightarrow> 'a cpc \<Rightarrow> bool" where
  "consumer_ok r h ct CIdle \<longleftrightarrow> True"
| "consumer_ok r h ct (CHead m w) \<longleftrightarrow> w = of_nat h"
| "consumer_ok r h ct (CCopy w n out) \<longleftrightarrow>
     w = of_nat h \<and> h + n \<le> ct \<and> length out \<le> n \<and> out = seg (slots r) h (h + length out)"

text \<open>
  What an observation has to do with the history: the tail it loaded is the number of events
  pushed by then, and a zero means that those have all been popped by now.
\<close>

fun observer_ok :: "'a list \<Rightarrow> 'a list \<Rightarrow> 'a list \<Rightarrow> opc \<Rightarrow> bool" where
  "observer_ok pd pp sn OIdle \<longleftrightarrow> True"
| "observer_ok pd pp sn (OTail w) \<longleftrightarrow> w = of_nat (length sn) \<and> (\<exists>zs. pd = sn @ zs)"
| "observer_ok pd pp sn (ODone w) \<longleftrightarrow> (w = 0 \<longrightarrow> (\<exists>zs. pp = sn @ zs))"

text \<open>
  The ring started empty at position 0, so the tail is the number of events pushed and the
  head the number popped.
\<close>

definition sys_inv :: "'a spsc_sys \<Rightarrow> bool" where
  "sys_inv s \<longleftrightarrow> (\<exists>ch ct.
     spsc_at (ring s) ch (length (popped s)) ct (length (pushed s)) \<and>
     producer_ok (ring s) ch (length (pushed s)) (ppc s) \<and>
     consumer_ok (ring s) (length (popped s)) ct (cpc s) \<and>
     observer_ok (pushed s) (popped s) (seen s) (opc s) \<and>
     pushed s = popped s @ seg (slots (ring s)) (length (popped s)) (length (pushed s)))"

lemma sys_invI [intro?]:
  "spsc_at (ring s) ch (length (popped s)) ct (length (pushed s)) \<Longrightarrow>
   producer_ok (ring s) ch (length (pushed s)) (ppc s) \<Longrightarrow>
   consumer_ok (ring s) (length (popped s)) ct (cpc s) \<Longrightarrow>
   observer_ok (pushed s) (popped s) (seen s) (opc s) \<Longrightarrow>
   pushed s = popped s @ seg (slots (ring s)) (length (popped s)) (length (pushed s)) \<Longrightarrow>
   sys_inv s"
  unfolding sys_inv_def by blast

lemma sys_invE:
  assumes "sys_inv s"
  obtains ch ct where
    "spsc_at (ring s) ch (length (popped s)) ct (length (pushed s))"
    "producer_ok (ring s) ch (length (pushed s)) (ppc s)"
    "consumer_ok (ring s) (length (popped s)) ct (cpc s)"
    "observer_ok (pushed s) (popped s) (seen s) (opc s)"
    "pushed s = popped s @ seg (slots (ring s)) (length (popped s)) (length (pushed s))"
    "ch \<le> length (popped s)" "length (popped s) \<le> ct" "ct \<le> length (pushed s)"
    "length (pushed s) \<le> ch + capacity (ring s)" "ring_cap (capacity (ring s))"
  using assms unfolding sys_inv_def spsc_at_def by blast

lemma init_sys_inv: "ring_cap n \<Longrightarrow> sys_inv (init_sys n x)"
  using new_ring_at [of n x] by (auto simp: sys_inv_def init_sys_def intro!: exI)

text \<open>Frame: what the local conditions see of a change to the ring.\<close>

lemma producer_ok_mono:
  "producer_ok r ch t p \<Longrightarrow> ch \<le> ch' \<Longrightarrow> slots r' = slots r \<Longrightarrow> producer_ok r' ch' t p"
  by (cases p) (auto simp: capacity_def)

lemma consumer_ok_mono:
  "consumer_ok r h ct c \<Longrightarrow> ct \<le> ct' \<Longrightarrow> slots r' = slots r \<Longrightarrow> consumer_ok r' h ct' c"
  by (cases c) auto

lemma consumer_ok_write:
  assumes "consumer_ok r h ct c" "ct \<le> t" "t < h + capacity r"
  shows "consumer_ok (r\<lparr>slots := (slots r)[t mod capacity r := x]\<rparr>) h ct c"
  using assms by (cases c) (auto simp: capacity_def seg_update_other)

lemma observer_ok_push: "observer_ok pd pp sn p \<Longrightarrow> observer_ok (pd @ [x]) pp sn p"
  by (cases p) auto

lemma observer_ok_pop: "observer_ok pd pp sn p \<Longrightarrow> observer_ok pd (pp @ xs) sn p"
  by (cases p) auto

lemma start_copy_ok:
  assumes "spsc_at r ch h ct t" "w = of_nat h"
  shows "consumer_ok r h ct (start_copy m w r)"
proof -
  have "unat (cached_tail r - w) = ct - h" "h \<le> ct"
    using assms ring_capD(2) [of "capacity r"] unat_pos_diff [of h ct]
    by (auto simp: spsc_at_def simp del: of_nat_diff)
  then have "unat (min m (cached_tail r - w)) \<le> ct - h"
    by (simp add: min_def word_le_nat_alt)
  with \<open>h \<le> ct\<close> assms(2) show ?thesis by (simp add: start_copy_def)
qed

section \<open>Every step keeps it\<close>

lemma producer_check_inv:
  assumes "sys_inv s" and pc: "ppc s = PTail x w"
  shows "sys_inv (producer_step v s)"
  using assms(1)
proof (rule sys_invE)
  let ?r = "ring s" and ?h = "length (popped s)" and ?t = "length (pushed s)"
  fix ch ct
  assume at: "spsc_at ?r ch ?h ct ?t" and p: "producer_ok ?r ch ?t (ppc s)"
    and c: "consumer_ok ?r ?h ct (cpc s)"
    and ob: "observer_ok (pushed s) (popped s) (seen s) (opc s)"
    and sg: "pushed s = popped s @ seg (slots ?r) ?h ?t"
    and bnd: "ch \<le> ?h" "?h \<le> ct" "ct \<le> ?t" "?t \<le> ch + capacity ?r"
    and cap: "ring_cap (capacity ?r)"
  let ?r1 = "?r\<lparr>cached_head := head ?r\<rparr>"
  have w: "w = of_nat ?t" using p pc by simp
  have at1: "spsc_at ?r1 ?h ?h ct ?t" using at by (auto simp: spsc_at_def)
  have f1: "w - cached_head ?r = of_nat (capacity ?r) \<longleftrightarrow> ?t = ch + capacity ?r"
    using full_test [OF cap _ bnd(4)] at bnd w by (simp add: spsc_at_def)
  have f2: "w - head ?r = of_nat (capacity ?r) \<longleftrightarrow> ?t = ?h + capacity ?r"
    using full_test [OF cap, of ?h ?t] at bnd w by (simp add: spsc_at_def)
  consider (full) "?t = ch + capacity ?r" "?t = ?h + capacity ?r"
    | (stale) "?t = ch + capacity ?r" "?t < ?h + capacity ?r"
    | (room) "?t < ch + capacity ?r" using bnd by linarith
  then show ?thesis
  proof cases
    case full
    have "producer_step v s = s\<lparr>ring := ?r1, ppc := PIdle\<rparr>"
      using pc full f1 f2 by (simp add: Let_def)
    then show ?thesis using at1 consumer_ok_mono [OF c order_refl] ob sg
      by (auto intro!: sys_invI [where ch = ?h and ct = ct])
  next
    case stale
    have "producer_step v s = s\<lparr>ring := ?r1, ppc := PSlot x w\<rparr>"
      using pc stale f1 f2 by (simp add: Let_def)
    then show ?thesis using at1 consumer_ok_mono [OF c order_refl] ob sg w stale
      by (auto intro!: sys_invI [where ch = ?h and ct = ct])
  next
    case room
    have "producer_step v s = s\<lparr>ppc := PSlot x w\<rparr>" using pc room f1 by (simp add: Let_def)
    then show ?thesis using at c ob sg w room
      by (auto intro!: sys_invI [where ch = ch and ct = ct])
  qed
qed

lemma producer_step_inv:
  assumes "sys_inv s"
  shows "sys_inv (producer_step v s)"
  using assms
proof (rule sys_invE)
  let ?r = "ring s" and ?h = "length (popped s)" and ?t = "length (pushed s)"
  fix ch ct
  assume at: "spsc_at ?r ch ?h ct ?t" and p: "producer_ok ?r ch ?t (ppc s)"
    and c: "consumer_ok ?r ?h ct (cpc s)"
    and ob: "observer_ok (pushed s) (popped s) (seen s) (opc s)"
    and sg: "pushed s = popped s @ seg (slots ?r) ?h ?t"
    and bnd: "ch \<le> ?h" "?h \<le> ct" "ct \<le> ?t" and cap: "ring_cap (capacity ?r)"
  show ?thesis
  proof (cases "ppc s")
    case PIdle
    then have "tail ?r = of_nat ?t" using at by (simp add: spsc_at_def)
    with PIdle show ?thesis using at c ob sg by (auto intro!: sys_invI)
  next
    case (PTail x w)
    then show ?thesis by (rule producer_check_inv [OF assms])
  next
    case (PSlot x w)
    have w: "w = of_nat ?t" and lt: "?t < ch + capacity ?r" using p PSlot by simp_all
    let ?r1 = "?r\<lparr>slots := (slots ?r)[?t mod capacity ?r := x]\<rparr>"
    have st: "producer_step v s = s\<lparr>ring := ?r1, ppc := PPublish x w\<rparr>"
      using PSlot w by (simp add: Let_def slot_ix_of_nat [OF cap])
    have "spsc_at ?r1 ch ?h ct ?t" using at by (simp add: spsc_at_def capacity_def)
    moreover have "consumer_ok ?r1 ?h ct (cpc s)"
      using consumer_ok_write [OF c bnd(3)] lt bnd(1) by simp
    moreover have "pushed s = popped s @ seg (slots ?r1) ?h ?t"
      using sg lt bnd(1) by (simp add: seg_update_other capacity_def)
    moreover have "producer_ok ?r1 ch ?t (PPublish x w)"
      using w lt ring_capD(3) [OF cap] by (simp add: capacity_def)
    ultimately show ?thesis unfolding st using ob
      by (auto intro!: sys_invI [where ch = ch and ct = ct])
  next
    case (PPublish x w)
    have w: "w = of_nat ?t" and lt: "?t < ch + capacity ?r"
      and x: "slots ?r ! (?t mod capacity ?r) = x" using p PPublish by simp_all
    let ?r1 = "?r\<lparr>tail := of_nat (Suc ?t)\<rparr>"
    have st: "producer_step v s = s\<lparr>ring := ?r1, ppc := PIdle, pushed := pushed s @ [x]\<rparr>"
      using PPublish w by (simp add: add.commute Let_def)
    have "spsc_at ?r1 ch ?h ct (Suc ?t)" using at lt by (auto simp: spsc_at_def capacity_def)
    moreover have "popped s @ seg (slots ?r1) ?h (Suc ?t) = pushed s @ [x]"
      using sg x bnd by (simp add: seg_snoc capacity_def flip: append_assoc)
    ultimately show ?thesis unfolding st
      using observer_ok_push [OF ob] consumer_ok_mono [OF c order_refl, of ?r1]
      by (auto intro!: sys_invI [where ch = ch and ct = ct])
  qed
qed

lemma consumer_step_inv:
  assumes "sys_inv s"
  shows "sys_inv (consumer_step m s)"
  using assms
proof (rule sys_invE)
  let ?r = "ring s" and ?h = "length (popped s)" and ?t = "length (pushed s)"
  fix ch ct
  assume at: "spsc_at ?r ch ?h ct ?t" and p: "producer_ok ?r ch ?t (ppc s)"
    and c: "consumer_ok ?r ?h ct (cpc s)"
    and ob: "observer_ok (pushed s) (popped s) (seen s) (opc s)"
    and sg: "pushed s = popped s @ seg (slots ?r) ?h ?t"
    and bnd: "ch \<le> ?h" "?h \<le> ct" "ct \<le> ?t" and cap: "ring_cap (capacity ?r)"
  show ?thesis
  proof (cases "cpc s")
    case CIdle
    then have "head ?r = of_nat ?h" using at by (simp add: spsc_at_def)
    with CIdle show ?thesis using at p ob sg by (auto intro!: sys_invI simp: Let_def)
  next
    case (CHead k w)
    let ?r1 = "?r\<lparr>cached_tail := tail ?r\<rparr>"
    have w: "w = of_nat ?h" using c CHead by simp
    have at1: "spsc_at ?r1 ch ?h ?t ?t" using at by (auto simp: spsc_at_def)
    have p1: "producer_ok ?r1 ch ?t (ppc s)" using producer_ok_mono [OF p order_refl] by simp
    note ok = start_copy_ok [OF at w, of k] start_copy_ok [OF at1 w, of k]
    show ?thesis
      using CHead at at1 p p1 ob sg ok by (auto intro!: sys_invI simp: Let_def)
  next
    case (CCopy w n out)
    have w: "w = of_nat ?h" and n: "?h + n \<le> ct" "length out \<le> n"
      and out: "out = seg (slots ?r) ?h (?h + length out)" using c CCopy by simp_all
    show ?thesis
    proof (cases "length out < n")
      case True
      have "slot_ix (capacity ?r) (w + of_nat (length out)) = (?h + length out) mod length (slots ?r)"
        using slot_ix_of_nat [OF cap, of "?h + length out"] w by (simp add: capacity_def)
      then have "out @ [slots ?r ! slot_ix (capacity ?r) (w + of_nat (length out))] =
          seg (slots ?r) ?h (?h + Suc (length out))"
        using out seg_snoc [of ?h "?h + length out" "slots ?r"] by simp
      then show ?thesis using CCopy True w n at p ob sg by (auto intro!: sys_invI simp: Let_def)
    next
      case False
      let ?r1 = "?r\<lparr>head := of_nat (?h + n)\<rparr>"
      have ln: "length out = n" using False n by simp
      have st: "consumer_step m s = s\<lparr>ring := ?r1, cpc := CIdle, popped := popped s @ out\<rparr>"
        using CCopy False w by (simp add: Let_def)
      have "spsc_at ?r1 ch (length (popped s @ out)) ct ?t"
        using at n ln by (auto simp: spsc_at_def)
      moreover have "pushed s = (popped s @ out) @ seg (slots ?r1) (length (popped s @ out)) ?t"
        using sg out ln n bnd seg_append [of ?h "?h + n" ?t "slots ?r"] by simp
      ultimately show ?thesis unfolding st
        using observer_ok_pop [OF ob] producer_ok_mono [OF p order_refl, of ?r1]
        by (auto intro!: sys_invI [where ch = ch and ct = ct])
    qed
  qed
qed

lemma observer_step_inv:
  assumes "sys_inv s"
  shows "sys_inv (observer_step s)"
  using assms
proof (rule sys_invE)
  let ?r = "ring s" and ?h = "length (popped s)" and ?t = "length (pushed s)"
  fix ch ct
  assume at: "spsc_at ?r ch ?h ct ?t" and p: "producer_ok ?r ch ?t (ppc s)"
    and c: "consumer_ok ?r ?h ct (cpc s)"
    and ob: "observer_ok (pushed s) (popped s) (seen s) (opc s)"
    and sg: "pushed s = popped s @ seg (slots ?r) ?h ?t"
  have tl: "tail ?r = of_nat ?t" "head ?r = of_nat ?h" using at by (auto simp: spsc_at_def)
  have "observer_ok (pushed s) (popped s) (seen (observer_step s)) (opc (observer_step s))"
  proof (cases "opc s")
    case (OTail w)
    obtain zs where w: "w = of_nat (length (seen s))" and zs: "pushed s = seen s @ zs"
      using ob OTail by auto
    have "\<exists>zs. popped s = seen s @ zs" if "w - head ?r = 0"
    proof -
      have "\<not> ?h < length (seen s)"
      proof
        assume l: "?h < length (seen s)"
        have "length (seen s) \<le> ?t" by (simp add: zs)
        then have "length (seen s) - ?h < 2 ^ 64"
          using at l ring_capD(2) [of "capacity ?r"] by (auto simp: spsc_at_def)
        then show False using pos_eq_iff [of ?h "length (seen s)"] l that w tl by simp
      qed
      moreover have "popped s @ seg (slots ?r) ?h ?t = seen s @ zs" using zs sg by metis
      ultimately show ?thesis by (intro longer_extends) simp_all
    qed
    then show ?thesis using OTail by simp
  qed (use tl in auto)
  then show ?thesis using at p c sg by (cases "opc s") (auto intro!: sys_invI simp: Let_def)
qed

lemma sys_step_inv: "sys_inv s \<Longrightarrow> sys_inv (sys_step a s)"
  by (cases a) (simp_all add: producer_step_inv consumer_step_inv observer_step_inv
      del: producer_step.simps consumer_step.simps observer_step.simps)

lemma sys_run_inv: "sys_inv s \<Longrightarrow> sys_inv (sys_run as s)"
  by (induction as arbitrary: s) (simp_all add: sys_run_def sys_step_inv del: sys_step.simps)

lemma sys_step_capacity: "capacity (ring (sys_step a s)) = capacity (ring s)"
  by (cases a) (simp_all add: Let_def capacity_def split: ppc.split cpc.split opc.split)

lemma sys_run_capacity: "capacity (ring (sys_run as s)) = capacity (ring s)"
  by (induction as arbitrary: s) (simp_all add: sys_run_def sys_step_capacity del: sys_step.simps)

section \<open>What the interleavings guarantee\<close>

text \<open>
  No thread ever touches a slot another is writing: when the producer is about to write one
  and the consumer is about to read one, they are different slots.
\<close>

definition writing :: "'a spsc_sys \<Rightarrow> nat option" where
  "writing s = (case ppc s of PSlot x t \<Rightarrow> Some (slot_ix (capacity (ring s)) t) | _ \<Rightarrow> None)"

definition reading :: "'a spsc_sys \<Rightarrow> nat option" where
  "reading s = (case cpc s of
      CCopy h n out \<Rightarrow>
        if length out < n then Some (slot_ix (capacity (ring s)) (h + of_nat (length out))) else None
    | _ \<Rightarrow> None)"

lemma inv_no_race:
  assumes "sys_inv s" "writing s = Some i" "reading s = Some j"
  shows "i \<noteq> j"
  using assms(1)
proof (rule sys_invE)
  let ?r = "ring s" and ?h = "length (popped s)" and ?t = "length (pushed s)"
  fix ch ct
  assume p: "producer_ok ?r ch ?t (ppc s)" and c: "consumer_ok ?r ?h ct (cpc s)"
    and bnd: "ch \<le> ?h" "?h \<le> ct" "ct \<le> ?t" and cap: "ring_cap (capacity ?r)"
  have i: "i = ?t mod capacity ?r" and t: "?t < ch + capacity ?r"
    using assms(2) p slot_ix_of_nat [OF cap] by (auto simp: writing_def split: ppc.splits)
  obtain k where j: "j = (?h + k) mod capacity ?r" and k: "?h + k < ct"
    using assms(3) c slot_ix_of_nat [OF cap, of "?h + _"]
    by (auto simp: reading_def split: cpc.splits if_splits)
  have "?h + k < ?t" "?t - (?h + k) < capacity ?r" using k t bnd by linarith+
  then show "i \<noteq> j" unfolding i j by (rule mod_neq_within [symmetric])
qed

lemma inv_fifo:
  assumes "sys_inv s"
  shows "\<exists>zs. pushed s = popped s @ zs \<and> length zs \<le> capacity (ring s)"
  using assms by (rule sys_invE) (metis add.commute le_diff_conv length_seg spsc_at_def
      spsc_size_at)

lemma inv_quiesced:
  "sys_inv s \<Longrightarrow> opc s = ODone 0 \<Longrightarrow> \<exists>zs. popped s = seen s @ zs"
  by (erule sys_invE) simp

section \<open>Properties\<close>

text \<open>
  C14: in every interleaving of the producer's, the consumer's and an observer's accesses,
  whatever batches are asked for, what was popped is a prefix of what was pushed, in the same
  order, and at most a capacity of events is in between: nothing is lost, repeated, reordered
  or overwritten before it is read.
\<close>

theorem spsc_interleaved_fifo:
  assumes "ring_cap n"
  shows "\<exists>zs. pushed (sys_run as (init_sys n x)) = popped (sys_run as (init_sys n x)) @ zs
    \<and> length zs \<le> n"
proof -
  have "capacity (ring (sys_run as (init_sys n x))) = n"
    by (simp add: sys_run_capacity init_sys_def)
  then show ?thesis using inv_fifo [OF sys_run_inv [OF init_sys_inv [OF assms]], of as x] by simp
qed

theorem spsc_interleaved_fifo_witness:
  "ring_cap 2 \<and> (let s = sys_run [Produce 7, Produce 7, Consume 5, Produce 7, Consume 5, Produce 7,
      Consume 5, Consume 5, Consume 5, Consume 5] (init_sys 2 (0::nat)) in popped s = [7] \<and>
      (\<exists>zs. pushed s = popped s @ zs \<and> length zs \<le> 2))"
proof -
  have c: "ring_cap 2" by (simp add: ring_cap_def has_single_bit_def)
  let ?s = "sys_run [Produce 7, Produce 7, Consume 5, Produce 7, Consume 5, Produce 7,
      Consume 5, Consume 5, Consume 5, Consume 5] (init_sys 2 (0::nat))"
  have "popped ?s = [7]"
    by (simp add: sys_run_def init_sys_def new_ring_def capacity_def start_copy_def slot_ix_def)
  moreover have "\<exists>zs. pushed ?s = popped ?s @ zs \<and> length zs \<le> 2"
    by (rule spsc_interleaved_fifo [OF c])
  ultimately show ?thesis using c unfolding Let_def by blast
qed

text \<open>
  C33: the two release/acquire pairs exclude the data race. In every interleaving, when the
  producer is about to write a slot and the consumer is about to read one, the slots differ.
\<close>

theorem spsc_no_data_race:
  assumes "ring_cap n"
    and "writing (sys_run as (init_sys n x)) = Some i"
    and "reading (sys_run as (init_sys n x)) = Some j"
  shows "i \<noteq> j"
  using inv_no_race [OF sys_run_inv [OF init_sys_inv [OF assms(1)]] assms(2,3)] .

text \<open>
  what the drain of a shutdown relies on. An observer that reads the tail and then the
  head, with both sides running in between, and finds the difference zero, knows that every
  event published when it started looking has been taken.
\<close>

theorem size_now_zero_is_drained:
  assumes "ring_cap n" and "opc (sys_run as (init_sys n x)) = ODone 0"
  shows "\<exists>zs. popped (sys_run as (init_sys n x)) = seen (sys_run as (init_sys n x)) @ zs"
  using inv_quiesced [OF sys_run_inv [OF init_sys_inv [OF assms(1)]] assms(2)] .

text \<open>Both sides inside the ring at once, on neighbouring slots.\<close>

theorem spsc_no_data_race_witness:
  "(let s = sys_run [Produce 7, Produce 7, Produce 7, Produce 7, Produce 8, Produce 8,
       Consume 1, Consume 1] (init_sys 2 (0::nat))
    in writing s = Some 1 \<and> reading s = Some 0 \<and> (1::nat) \<noteq> 0)"
proof -
  have c: "ring_cap 2" by (simp add: ring_cap_def has_single_bit_def)
  let ?s = "sys_run [Produce 7, Produce 7, Produce 7, Produce 7, Produce 8, Produce 8,
       Consume 1, Consume 1] (init_sys 2 (0::nat))"
  have w: "writing ?s = Some 1" and r: "reading ?s = Some 0"
    by (simp_all add: writing_def reading_def sys_run_def init_sys_def new_ring_def capacity_def
        start_copy_def slot_ix_def)
  show ?thesis using w r spsc_no_data_race [OF c w r] by (simp only: Let_def simp_thms)
qed

theorem size_now_zero_is_drained_witness:
  "(let s = sys_run [Produce 7, Produce 7, Produce 7, Produce 7, Observe, Consume 4, Consume 4,
       Consume 4, Consume 4, Observe] (init_sys 2 (0::nat))
    in opc s = ODone 0 \<and> seen s = [7] \<and> (\<exists>zs. popped s = seen s @ zs))"
proof -
  have c: "ring_cap 2" by (simp add: ring_cap_def has_single_bit_def)
  let ?s = "sys_run [Produce 7, Produce 7, Produce 7, Produce 7, Observe, Consume 4, Consume 4,
       Consume 4, Consume 4, Observe] (init_sys 2 (0::nat))"
  have o: "opc ?s = ODone 0" and s: "seen ?s = [7]"
    by (simp_all add: sys_run_def init_sys_def new_ring_def capacity_def start_copy_def slot_ix_def)
  show ?thesis using o s size_now_zero_is_drained [OF c o] by (simp only: Let_def simp_thms)
qed

end
