(* ===== verification/Tq_Event.thy ===== *)
theory Tq_Event
  imports Prelude
begin

text \<open>
  mpmc-work-queue-kata/cpp/src/event.hpp: the event that checks its own delivery, and the tally
  that checks exactly-once delivery without a record per event. The finalizer is a bijection, so
  an intact event is determined by its producer, sequence number and stamp, no single corrupted
  or torn field goes unnoticed, and the tally is a homomorphism from multisets of identities
  that tells apart any two differing in one event.
\<close>

record event =
  producer :: u32
  seq_no :: u32
  stamp :: u64
  payload :: u64
  check :: u64

definition xorshift :: "nat \<Rightarrow> u64 \<Rightarrow> u64" where
  "xorshift k x = x XOR drop_bit k x"

definition mix :: "u64 \<Rightarrow> u64" where
  "mix x0 =
     (let x1 = xorshift 30 x0; x2 = x1 * 0xbf58476d1ce4e5b9;
          x3 = xorshift 27 x2; x4 = x3 * 0x94d049bb133111eb
      in xorshift 31 x4)"

definition ident :: "u32 \<Rightarrow> u32 \<Rightarrow> u64" where
  "ident p s = push_bit 32 (ucast p) OR ucast s"

definition digest :: "u32 \<Rightarrow> u32 \<Rightarrow> u64 \<Rightarrow> u64 \<Rightarrow> u64" where
  "digest p s st pl = mix (mix (mix (ident p s + 0x9e3779b97f4a7c15) XOR st) XOR pl)"

definition make_event :: "u32 \<Rightarrow> u32 \<Rightarrow> u64 \<Rightarrow> event" where
  "make_event p s st =
     (let pl = mix (ident p s) in
      \<lparr>producer = p, seq_no = s, stamp = st, payload = pl, check = digest p s st pl\<rparr>)"

definition intact :: "event \<Rightarrow> bool" where
  "intact e \<longleftrightarrow> payload e = mix (ident (producer e) (seq_no e)) \<and>
     check e = digest (producer e) (seq_no e) (stamp e) (payload e)"

text \<open>A default-constructed event: the \<open>static_assert\<close>.\<close>

definition zero_event :: event where
  "zero_event = \<lparr>producer = 0, seq_no = 0, stamp = 0, payload = 0, check = 0\<rparr>"

section \<open>The finalizer is a bijection\<close>

lemma xorshift_inj: "0 < k \<Longrightarrow> inj (xorshift k)"
proof (rule injI, rule bit_eqI)
  fix x y n
  assume k: "0 < k" and eq: "xorshift k x = xorshift k y" and n: "possible_bit TYPE(u64) n"
  have rec: "bit z m = (bit (xorshift k z) m \<noteq> bit z (k + m))" for z m
    by (auto simp: xorshift_def bit_xor_iff bit_drop_bit_eq)
  show "bit x n = bit y n"
  proof (induction "64 - n" arbitrary: n rule: less_induct)
    case less
    show ?case
    proof (cases "n < 64")
      case True
      then have "64 - (k + n) < 64 - n" using k by simp
      then have "bit x (k + n) = bit y (k + n)" by (rule less)
      then show ?thesis using rec [of x n] rec [of y n] eq by simp
    next
      case False
      then show ?thesis by (simp add: bit_word.rep_eq)
    qed
  qed
qed

lemma odd_mult_inj: "c * d = (1 :: u64) \<Longrightarrow> inj (\<lambda>x. x * c)"
proof (rule injI)
  fix x y :: u64 assume c: "c * d = 1" and "x * c = y * c"
  then have "x * c * d = y * c * d" by simp
  then show "x = y" by (simp only: mult.assoc c mult_1_right)
qed

lemma mix_inj: "inj mix"
proof -
  have m1: "inj (\<lambda>x :: u64. x * 0xbf58476d1ce4e5b9)"
    by (rule odd_mult_inj [of _ "0x96de1b173f119089"]) simp
  have m2: "inj (\<lambda>x :: u64. x * 0x94d049bb133111eb)"
    by (rule odd_mult_inj [of _ "0x319642b2d24d8ec3"]) simp
  have eq: "mix = xorshift 31 \<circ> (\<lambda>x. x * 0x94d049bb133111eb) \<circ> xorshift 27 \<circ>
      (\<lambda>x. x * 0xbf58476d1ce4e5b9) \<circ> xorshift 30"
    by (simp add: fun_eq_iff mix_def Let_def)
  show ?thesis unfolding eq by (intro inj_compose xorshift_inj m1 m2) simp_all
qed

lemma mix_eq [simp]: "mix x = mix y \<longleftrightarrow> x = y"
  using mix_inj by (auto dest: injD)

lemma ident_eq [simp]: "ident p s = ident p' s' \<longleftrightarrow> p = p' \<and> s = s'"
proof
  assume eq: "ident p s = ident p' s'"
  have lo: "bit (ident p s) n = bit s n" if "n < 32" for p s n
    using that by (simp add: ident_def bit_or_iff bit_push_bit_iff bit_ucast_iff)
  have hi: "bit (ident p s) (n + 32) = bit p n" if "n < 32" for p s n
    using that bit_imp_le_length [of s "n + 32"]
    by (auto simp: ident_def bit_or_iff bit_push_bit_iff bit_ucast_iff)
  have "bit s n = bit s' n" if "n < 32" for n using lo [OF that] eq by metis
  then have "s = s'" by (intro bit_word_eqI) simp
  moreover have "bit p n = bit p' n" if "n < 32" for n using hi [OF that] eq by metis
  then have "p = p'" by (intro bit_word_eqI) simp
  ultimately show "p = p' \<and> s = s'" by blast
qed simp

lemma xor_right_eq [simp]: "(x :: u64) XOR z = y XOR z \<longleftrightarrow> x = y"
proof -
  have "(w XOR z) XOR z = w" for w by (simp add: xor.assoc)
  then show ?thesis by metis
qed

lemma xor_left_eq [simp]: "(z :: u64) XOR x = z XOR y \<longleftrightarrow> x = y"
  unfolding xor.commute [of z] by (rule xor_right_eq)

lemma digest_eq:
  "digest p s st pl = digest p s st' pl \<longleftrightarrow> st = st'"
  "digest p s st pl = digest p s st pl' \<longleftrightarrow> pl = pl'"
  "digest p s st pl = digest p' s' st pl \<longleftrightarrow> p = p' \<and> s = s'"
  by (simp_all add: digest_def)

section \<open>Delivery checks\<close>

lemma intact_iff: "intact e \<longleftrightarrow> e = make_event (producer e) (seq_no e) (stamp e)"
  by (cases e) (auto simp: intact_def make_event_def Let_def)

text \<open>
  An event is intact exactly when it is the one \<open>make_event\<close> builds from its producer,
  sequence number and stamp; and \<open>make_event\<close> gives different events to different identities, by
  payload as well as by digest.
\<close>

theorem intact_exact:
  "(intact e \<longleftrightarrow> e = make_event (producer e) (seq_no e) (stamp e)) \<and>
   intact (make_event p s st) \<and>
   (payload (make_event p s st) = payload (make_event p' s' st') \<longleftrightarrow> p = p' \<and> s = s') \<and>
   (check (make_event p s st) = check (make_event p s st') \<longleftrightarrow> st = st')"
  unfolding intact_iff by (auto simp: make_event_def Let_def digest_eq)

text \<open>An event put together from the fields of two others, field by field.\<close>

definition mixed :: "event \<Rightarrow> event \<Rightarrow> event \<Rightarrow> bool" where
  "mixed r e e' \<longleftrightarrow> producer r \<in> {producer e, producer e'} \<and> seq_no r \<in> {seq_no e, seq_no e'} \<and>
     stamp r \<in> {stamp e, stamp e'} \<and> payload r \<in> {payload e, payload e'} \<and> check r \<in> {check e, check e'}"

lemma intact_same_payload:
  assumes "intact e" "intact r" "payload r = payload e"
  shows "producer r = producer e \<and> seq_no r = seq_no e \<and> (check r = check e \<longleftrightarrow> stamp r = stamp e)"
  using assms by (auto simp: intact_def digest_eq)

lemma intact_mix:
  assumes "intact e" "intact r" "payload r = payload e"
    and "stamp r \<in> {stamp e, stamp e'}" "check r \<in> {check e, check e'}"
  shows "r = e \<or> r = e\<lparr>stamp := stamp e', check := check e'\<rparr>"
  using intact_same_payload [OF assms(1-3)] assms(3-5) by (cases r; cases e; cases e') auto

text \<open>
  C34: A slot that is not one whole event is caught: changing any one of the five fields of an
  intact event leaves an event that is not intact, and a slot nobody wrote is not intact. An event
  that mixes the fields of two intact events, in whatever way, is intact only if it is one
  of the two, or carries producer, number and payload of the one and stamp and digest of the other;
  that one mix only the digest could tell, and it may collide.
\<close>

theorem corruption_detected:
  assumes "intact e"
  shows "(p \<noteq> producer e \<longrightarrow> \<not> intact (e\<lparr>producer := p\<rparr>)) \<and>
    (s \<noteq> seq_no e \<longrightarrow> \<not> intact (e\<lparr>seq_no := s\<rparr>)) \<and>
    (st \<noteq> stamp e \<longrightarrow> \<not> intact (e\<lparr>stamp := st\<rparr>)) \<and>
    (pl \<noteq> payload e \<longrightarrow> \<not> intact (e\<lparr>payload := pl\<rparr>)) \<and>
    (c \<noteq> check e \<longrightarrow> \<not> intact (e\<lparr>check := c\<rparr>)) \<and>
    (intact e' \<and> mixed r e e' \<and> intact r \<longrightarrow>
       r \<in> {e, e', e\<lparr>stamp := stamp e', check := check e'\<rparr>, e'\<lparr>stamp := stamp e, check := check e\<rparr>}) \<and>
    \<not> intact zero_event"
proof -
  have "\<not> intact zero_event"
    by (simp add: intact_def zero_event_def digest_def mix_def xorshift_def ident_def Let_def)
  moreover have "r \<in> {e, e', e\<lparr>stamp := stamp e', check := check e'\<rparr>, e'\<lparr>stamp := stamp e, check := check e\<rparr>}"
    if "intact e'" "mixed r e e'" "intact r"
    using that intact_mix [OF assms that(3), of e'] intact_mix [OF that(1,3), of e]
    unfolding mixed_def by blast
  ultimately show ?thesis using assms by (auto simp: intact_def digest_eq)
qed

text \<open>A changed stamp, and a payload that came with another event's digest.\<close>

theorem corruption_detected_witness:
  "\<not> intact ((make_event 3 7 100)\<lparr>stamp := 101\<rparr>) \<and>
   \<not> intact ((make_event 3 7 100)\<lparr>payload := payload (make_event 4 8 100), check := check (make_event 4 8 100)\<rparr>)"
proof -
  let ?e = "make_event 3 7 100" and ?f = "make_event 4 8 100"
  let ?r = "?e\<lparr>payload := payload ?f, check := check ?f\<rparr>"
  have i: "intact ?e" "intact ?f" using intact_exact by blast+
  have m: "mixed ?r ?e ?f" by (simp add: mixed_def)
  have p: "payload ?f \<noteq> payload ?e" by (simp add: make_event_def Let_def)
  have "\<not> intact ?r"
  proof
    assume "intact ?r"
    then have "?r \<in> {?e, ?f, ?e\<lparr>stamp := stamp ?f, check := check ?f\<rparr>, ?f\<lparr>stamp := stamp ?e, check := check ?e\<rparr>}"
      using corruption_detected [OF i(1)] i(2) m by blast
    moreover have "?r \<noteq> ?f" "?r \<noteq> ?f\<lparr>stamp := stamp ?e, check := check ?e\<rparr>"
      by (simp_all add: make_event_def Let_def)
    moreover have "?r \<noteq> ?e" "?r \<noteq> ?e\<lparr>stamp := stamp ?f, check := check ?f\<rparr>"
      using p by (auto dest: arg_cong [of _ _ payload])
    ultimately show False by blast
  qed
  moreover have "\<not> intact (?e\<lparr>stamp := 101\<rparr>)"
    using corruption_detected [OF i(1), of _ _ 101] by (simp add: make_event_def Let_def)
  ultimately show ?thesis by blast
qed

section \<open>Tallies\<close>

record tally =
  t_n :: u64
  t_a :: u64
  t_b :: u64

definition empty_tally :: tally where
  "empty_tally = \<lparr>t_n = 0, t_a = 0, t_b = 0\<rparr>"

definition tally_add :: "u32 \<Rightarrow> u32 \<Rightarrow> tally \<Rightarrow> tally" where
  "tally_add p s t =
     (let i = ident p s in
      \<lparr>t_n = t_n t + 1, t_a = t_a t + mix (i XOR 0x2545f4914f6cdd1d),
       t_b = t_b t + mix (i * 0x9e3779b97f4a7c15 + 1)\<rparr>)"

definition tally_merge :: "tally \<Rightarrow> tally \<Rightarrow> tally" where
  "tally_merge o' t = \<lparr>t_n = t_n t + t_n o', t_a = t_a t + t_a o', t_b = t_b t + t_b o'\<rparr>"

definition tally_of :: "(u32 \<times> u32) list \<Rightarrow> tally" where
  "tally_of xs = foldl (\<lambda>t (p, s). tally_add p s t) empty_tally xs"

definition hash_a :: "u32 \<times> u32 \<Rightarrow> u64" where
  "hash_a x = mix (ident (fst x) (snd x) XOR 0x2545f4914f6cdd1d)"

definition hash_b :: "u32 \<times> u32 \<Rightarrow> u64" where
  "hash_b x = mix (ident (fst x) (snd x) * 0x9e3779b97f4a7c15 + 1)"

lemma tally_from:
  "foldl (\<lambda>t (p, s). tally_add p s t) t xs =
    \<lparr>t_n = t_n t + of_nat (length xs), t_a = t_a t + sum_list (map hash_a xs),
     t_b = t_b t + sum_list (map hash_b xs)\<rparr>"
  by (induction xs arbitrary: t)
    (auto simp: tally_add_def hash_a_def hash_b_def Let_def split_beta add_ac)

lemma tally_of_eq:
  "tally_of xs = \<lparr>t_n = of_nat (length xs), t_a = sum_list (map hash_a xs),
     t_b = sum_list (map hash_b xs)\<rparr>"
  by (simp add: tally_of_def tally_from empty_tally_def)

lemma hash_a_eq [simp]: "hash_a x = hash_a y \<longleftrightarrow> x = y"
  by (simp add: hash_a_def prod_eq_iff)

lemma hash_b_eq [simp]: "hash_b x = hash_b y \<longleftrightarrow> x = y"
proof -
  have "inj (\<lambda>x :: u64. x * 0x9e3779b97f4a7c15)"
    by (rule odd_mult_inj [of _ "0xf1de83e19937733d"]) simp
  then have "ident (fst x) (snd x) * 0x9e3779b97f4a7c15 = ident (fst y) (snd y) * 0x9e3779b97f4a7c15
      \<longleftrightarrow> ident (fst x) (snd x) = ident (fst y) (snd y)"
    by (rule inj_eq)
  then show ?thesis by (simp only: hash_b_def mix_eq add_right_cancel ident_eq prod_eq_iff)
qed

text \<open>
  A tally depends only on which events it counted, not on their order or on how they were
  spread over threads: permuted lists have equal tallies, and merging the tallies of two lists is
  the tally of both.
\<close>

theorem tally_order_independent:
  "(mset xs = mset ys \<longrightarrow> tally_of xs = tally_of ys) \<and>
   tally_merge (tally_of ys) (tally_of xs) = tally_of (xs @ ys)"
proof -
  have "sum_list (map f xs) = sum_list (map f ys)" if "mset xs = mset ys" for f :: "_ \<Rightarrow> u64"
    using that by (metis mset_map sum_mset_sum_list)
  then show ?thesis by (auto simp: tally_of_eq tally_merge_def dest: mset_eq_length)
qed

theorem tally_order_independent_witness:
  "tally_of [(1, 2), (3, 4)] = tally_of [(3, 4), (1, 2)]"
  using tally_order_independent [of "[(1, 2), (3, 4)]" "[(3, 4), (1, 2)]"]
  by (simp add: add_mset_commute)

text \<open>
  One event lost, one duplicated, or one lost and another delivered in its place always
  shows: the first two change the count, and the exchange leaves the count but moves both sums.
\<close>

theorem tally_detects_exchange:
  assumes "mset xs = add_mset x m" "mset ys = add_mset y m" "x \<noteq> y"
  shows "t_n (tally_of xs) = t_n (tally_of ys) \<and> t_a (tally_of xs) \<noteq> t_a (tally_of ys) \<and>
    t_b (tally_of xs) \<noteq> t_b (tally_of ys) \<and>
    (mset zs = m \<longrightarrow> t_n (tally_of zs) \<noteq> t_n (tally_of xs))"
proof -
  have s: "sum_list (map f us) = f u + (\<Sum>v \<in># m. f v)" if "mset us = add_mset u m"
    for f :: "_ \<Rightarrow> u64" and us u
  proof -
    have "sum_list (map f us) = (\<Sum>v \<in># mset us. f v)" by (metis mset_map sum_mset_sum_list)
    then show ?thesis using that by simp
  qed
  have "length xs = Suc (size m)" "length ys = Suc (size m)"
    using assms by (metis size_mset size_add_mset)+
  then show ?thesis
    using s [OF assms(1)] s [OF assms(2)] assms(3) by (auto simp: tally_of_eq)
qed

theorem tally_detects_exchange_witness:
  "t_a (tally_of [(1, 2), (3, 4)]) \<noteq> t_a (tally_of [(1, 2), (1, 2)])"
  using tally_detects_exchange [of "[(1, 2), (3, 4)]" "(3, 4)" "{#(1, 2)#}" "[(1, 2), (1, 2)]" "(1, 2)"]
  by (simp add: add_mset_commute)

end
