(* ===== verification/Tq_Histogram.thy ===== *)
theory Tq_Histogram
  imports Prelude
begin

text \<open>
  mpmc-work-queue-kata/cpp/src/histogram.hpp: the log-linear latency histogram. Bucket numbers and
  bucket edges form a Galois connection over the whole 64-bit range, which gives every other
  fact: a histogram is determined by the multiset of samples it recorded, merging is recording
  both, a quantile never under-reports and over-reports by at most a sixteenth.

  The rank of a quantile is computed in floating point; it is an argument of the model.
\<close>

section \<open>Buckets\<close>

definition kBuckets :: nat where "kBuckets = 976"

text \<open>\<open>std::bit_width\<close>.\<close>

fun bit_width_nat :: "nat \<Rightarrow> nat" where
  "bit_width_nat n = (if n = 0 then 0 else Suc (bit_width_nat (n div 2)))"

declare bit_width_nat.simps [simp del]

definition bit_width :: "u64 \<Rightarrow> nat" where
  "bit_width v = bit_width_nat (unat v)"

definition index :: "u64 \<Rightarrow> nat" where
  "index v =
     (if v < 32 then unat v
      else let e = bit_width v - 5 in 16 * e + unat (drop_bit e v))"

definition upper :: "nat \<Rightarrow> u64" where
  "upper i =
     (if i < 32 then of_nat i
      else let e = i div 16 - 1; m = of_nat (i - 16 * e) in push_bit e (m + 1) - 1)"

lemma bit_width_bounds:
  "0 < n \<Longrightarrow> 2 ^ (bit_width_nat n - 1) \<le> n \<and> n < 2 ^ bit_width_nat n \<and> 0 < bit_width_nat n"
proof (induction n rule: bit_width_nat.induct)
  case (1 n)
  show ?case
  proof (cases "n div 2 = 0")
    case True
    then have "n = 1" using 1 by simp
    then show ?thesis by (simp add: bit_width_nat.simps)
  next
    case False
    let ?w = "bit_width_nat (n div 2)"
    have ih: "2 ^ (?w - 1) \<le> n div 2" "n div 2 < 2 ^ ?w" "0 < ?w" using 1 False by simp_all
    have w: "bit_width_nat n = Suc ?w" using 1 by (simp add: bit_width_nat.simps [of n])
    have "(2 :: nat) ^ ?w = 2 * 2 ^ (?w - 1)" using ih(3) by (cases ?w) simp_all
    then have "2 ^ ?w \<le> n" "n < 2 ^ Suc ?w" using ih by (simp, linarith) (use ih in simp)
    then show ?thesis using w by simp
  qed
qed

text \<open>The bucket of a value from 32 on: a shift \<open>e\<close> and a mantissa in \<open>16..31\<close>.\<close>

definition shift_of :: "nat \<Rightarrow> nat" where "shift_of n = bit_width_nat n - 5"

lemma shift_of_bounds:
  assumes "32 \<le> n"
  shows "1 \<le> shift_of n" "16 \<le> n div 2 ^ shift_of n" "n div 2 ^ shift_of n < 32"
proof -
  let ?w = "bit_width_nat n"
  have w: "2 ^ (?w - 1) \<le> n" "n < 2 ^ ?w" using bit_width_bounds [of n] assms by auto
  have "\<not> ?w \<le> 5"
  proof
    assume "?w \<le> 5"
    then have "(2 :: nat) ^ ?w \<le> 2 ^ 5" by (rule power_increasing) simp
    then show False using w(2) assms by simp
  qed
  then have e: "?w - 1 = 4 + shift_of n" "?w = 5 + shift_of n" by (simp_all add: shift_of_def)
  show "1 \<le> shift_of n" using \<open>\<not> ?w \<le> 5\<close> by (simp add: shift_of_def)
  have "16 * 2 ^ shift_of n \<le> n" "n < 32 * 2 ^ shift_of n"
    using w unfolding e by (simp_all add: power_add)
  then show "16 \<le> n div 2 ^ shift_of n" "n div 2 ^ shift_of n < 32"
    by (simp_all add: less_eq_div_iff_mult_less_eq div_less_iff_less_mult)
qed

lemma unat_less64: "unat (v :: u64) < 2 ^ 64"
  by (rule less_le_trans, rule unsigned_less) simp

lemma shift_of_word:
  fixes v :: u64 assumes "32 \<le> v" shows "shift_of (unat v) \<le> 59"
proof -
  have n: "32 \<le> unat v" using assms by (simp add: word_le_nat_alt)
  have "\<not> 60 \<le> shift_of (unat v)"
  proof
    assume "60 \<le> shift_of (unat v)"
    then have "(2 :: nat) ^ 60 \<le> 2 ^ shift_of (unat v)" by (rule power_increasing) simp
    moreover have "16 * 2 ^ shift_of (unat v) \<le> unat v"
      using shift_of_bounds(2) [OF n] by (simp add: less_eq_div_iff_mult_less_eq)
    ultimately have "2 ^ 64 \<le> unat v" by simp
    then show False using unat_less64 [of v] by simp
  qed
  then show ?thesis by simp
qed

lemma index_nat:
  "index v = (if unat v < 32 then unat v
     else 16 * shift_of (unat v) + unat v div 2 ^ shift_of (unat v))"
  unfolding index_def bit_width_def shift_of_def Let_def word_less_nat_alt
  using take_bit_nat_eq_self [OF unat_less64, of v]
  by (simp only: unsigned_drop_bit_eq) (simp add: drop_bit_eq_div)

lemma index_bound: "index v < kBuckets"
proof (cases "unat v < 32")
  case False
  then have "32 \<le> v" by (simp add: word_le_nat_alt)
  then show ?thesis
    using shift_of_word [of v] shift_of_bounds(3) [of "unat v"] False
    by (simp add: index_nat kBuckets_def)
qed (simp add: index_nat kBuckets_def)

text \<open>Every bucket number from 32 on is a shift and a mantissa, and its edge as a number.\<close>

lemma bucket_parts:
  assumes "32 \<le> i" "i < kBuckets"
  obtains e m where "i = 16 * e + m" "1 \<le> e" "e \<le> 59" "16 \<le> m" "m < 32"
    "i div 16 - 1 = e" "unat (upper i) = (m + 1) * 2 ^ e - 1" "(m + 1) * 2 ^ e \<le> 2 ^ 64"
proof -
  define e where "e = i div 16 - 1"
  define m where "m = i - 16 * e"
  have d: "2 \<le> i div 16" "i div 16 \<le> 60" using assms by (simp_all add: kBuckets_def)
  have i: "i = 16 * (i div 16) + i mod 16" by simp
  moreover have "16 * e + 16 = 16 * (i div 16)" using d by (simp add: e_def)
  ultimately have m: "m = 16 + i mod 16" unfolding m_def by linarith
  have parts: "i = 16 * e + m" "1 \<le> e" "e \<le> 59" "16 \<le> m" "m < 32"
    using d m by (simp_all add: m_def e_def)
  have le: "(m + 1) * 2 ^ e \<le> 2 ^ 64"
  proof -
    have "(2 :: nat) ^ e \<le> 2 ^ 59" using parts(3) by (rule power_increasing) simp
    moreover have "m + 1 \<le> 32" using parts(5) by simp
    ultimately have "(m + 1) * 2 ^ e \<le> 32 * 2 ^ 59" by (rule mult_le_mono [rotated])
    then show ?thesis by simp
  qed
  have "upper i = push_bit e (of_nat m + 1) - 1"
    using assms(1) by (simp add: upper_def e_def m_def Let_def)
  also have "\<dots> = of_nat ((m + 1) * 2 ^ e) - 1"
    by (simp add: push_bit_eq_mult algebra_simps)
  also have "\<dots> = of_nat ((m + 1) * 2 ^ e - 1)"
    by (subst of_nat_diff) (simp_all add: Suc_le_eq)
  finally have "unat (upper i) = (m + 1) * 2 ^ e - 1"
    using le by (simp add: unat_of_nat)
  then show ?thesis using that [OF parts] le by (simp add: e_def)
qed

lemma index_upper: "i < kBuckets \<Longrightarrow> index (upper i) = i"
proof (cases "32 \<le> i")
  case True
  assume "i < kBuckets"
  with True obtain e m where p: "i = 16 * e + m" "1 \<le> e" "e \<le> 59" "16 \<le> m" "m < 32"
    "i div 16 - 1 = e" "unat (upper i) = (m + 1) * 2 ^ e - 1" "(m + 1) * 2 ^ e \<le> 2 ^ 64"
    by (rule bucket_parts)
  let ?n = "unat (upper i)"
  have pos: "(1 :: nat) \<le> 2 ^ e" by simp
  have "(m + 1) * 2 ^ e = m * 2 ^ e + 2 ^ e" by simp
  then have lo: "m * 2 ^ e \<le> ?n" and hi: "?n < (m + 1) * 2 ^ e" using p(7) pos by linarith+
  have "16 * 2 ^ e \<le> m * 2 ^ e" "(m + 1) * 2 ^ e \<le> 32 * 2 ^ e" using p(4,5) by simp_all
  then have "16 * 2 ^ e \<le> ?n" "?n < 32 * 2 ^ e" using lo hi by linarith+
  moreover have two: "(2 :: nat) ^ 1 \<le> 2 ^ e" using p(2) by (rule power_increasing) simp
  ultimately have n: "32 \<le> ?n" by simp
  have "shift_of ?n = e"
  proof (rule ccontr)
    assume "shift_of ?n \<noteq> e"
    then consider "shift_of ?n + 1 \<le> e" | "e + 1 \<le> shift_of ?n" by linarith
    then show False
    proof cases
      case 1
      then have "(2 :: nat) ^ (shift_of ?n + 1) \<le> 2 ^ e" by (rule power_increasing) simp
      moreover have "?n < 32 * 2 ^ shift_of ?n"
        using shift_of_bounds(3) [OF n] by (simp add: div_less_iff_less_mult)
      ultimately show False using \<open>16 * 2 ^ e \<le> ?n\<close> by simp
    next
      case 2
      then have "(2 :: nat) ^ (e + 1) \<le> 2 ^ shift_of ?n" by (rule power_increasing) simp
      moreover have "16 * 2 ^ shift_of ?n \<le> ?n"
        using shift_of_bounds(2) [OF n] by (simp add: less_eq_div_iff_mult_less_eq)
      ultimately show False using \<open>?n < 32 * 2 ^ e\<close> by simp
    qed
  qed
  moreover have "?n div 2 ^ e = m" using lo hi by (intro div_nat_eqI) (simp_all add: mult.commute)
  ultimately show ?thesis using n p(1) by (simp add: index_nat)
next
  case False
  then show ?thesis by (simp add: upper_def index_nat unat_of_nat)
qed

lemma index_mono: "v \<le> v' \<Longrightarrow> index v \<le> index v'"
proof -
  assume "v \<le> v'"
  then have le: "unat v \<le> unat v'" by (simp add: word_le_nat_alt)
  show ?thesis
  proof (cases "unat v < 32 \<or> unat v' < 32")
    case True
    then show ?thesis using le shift_of_bounds(1,2) [of "unat v'"] by (auto simp: index_nat)
  next
    case False
    then have n: "32 \<le> unat v" "32 \<le> unat v'" by simp_all
    consider "shift_of (unat v) = shift_of (unat v')" | "shift_of (unat v) < shift_of (unat v')"
      | "shift_of (unat v') < shift_of (unat v)" by linarith
    then show ?thesis
    proof cases
      case 1
      then show ?thesis using n le by (simp add: index_nat div_le_mono)
    next
      case 2
      then show ?thesis
        using n shift_of_bounds(3) [OF n(1)] shift_of_bounds(2) [OF n(2)] by (simp add: index_nat)
    next
      case 3
      then have "(2 :: nat) ^ (shift_of (unat v') + 1) \<le> 2 ^ shift_of (unat v)"
        by (intro power_increasing) simp_all
      moreover have "16 * 2 ^ shift_of (unat v) \<le> unat v" "unat v' < 32 * 2 ^ shift_of (unat v')"
        using shift_of_bounds(2) [OF n(1)] shift_of_bounds(3) [OF n(2)]
        by (simp_all add: less_eq_div_iff_mult_less_eq div_less_iff_less_mult)
      ultimately show ?thesis using le by simp
    qed
  qed
qed

lemma upper_index:
  "unat v \<le> unat (upper (index v))" "unat (upper (index v)) \<le> unat v + unat v div 16"
proof -
  have "unat v \<le> unat (upper (index v)) \<and> unat (upper (index v)) \<le> unat v + unat v div 16"
  proof (cases "unat v < 32")
    case False
    then have n: "32 \<le> unat v" by simp
    define e where "e = shift_of (unat v)"
    define m where "m = unat v div 2 ^ e"
    have i: "index v = 16 * e + m" using False by (simp add: index_nat e_def m_def)
    have m: "16 \<le> m" "m < 32" "1 \<le> e"
      unfolding m_def e_def by (rule shift_of_bounds [OF n])+
    have "32 \<le> index v" using i m by simp
    from this index_bound obtain e' m' where p: "index v = 16 * e' + m'" "16 \<le> m'" "m' < 32"
      "unat (upper (index v)) = (m' + 1) * 2 ^ e' - 1" by (rule bucket_parts)
    have "e' = e" using p(1-3) i m by linarith
    moreover from this have "m' = m" using p(1) i by simp
    ultimately have u: "unat (upper (index v)) = (m + 1) * 2 ^ e - 1" using p(4) by simp
    have d: "unat v = m * 2 ^ e + unat v mod 2 ^ e"
      unfolding m_def by (rule div_mult_mod_eq [symmetric])
    have r: "unat v mod 2 ^ e < 2 ^ e" by simp
    have "2 ^ e \<le> unat v div 16"
    proof -
      have "16 * 2 ^ e \<le> m * 2 ^ e" using m by simp
      then show ?thesis using d by linarith
    qed
    moreover have "(m + 1) * 2 ^ e = m * 2 ^ e + 2 ^ e" by simp
    ultimately show ?thesis using u d r by linarith
  qed (simp add: index_nat upper_def unat_of_nat)
  then show "unat v \<le> unat (upper (index v))" "unat (upper (index v)) \<le> unat v + unat v div 16"
    by blast+
qed

lemma upper_mono: "i \<le> j \<Longrightarrow> j < kBuckets \<Longrightarrow> upper i \<le> upper j"
  using index_mono [of "upper j" "upper i"] index_upper [of i] index_upper [of j]
  by (metis le_antisym le_less_trans linear)

lemma bucket_galois':
  assumes "i < kBuckets"
  shows "v \<le> upper i \<longleftrightarrow> index v \<le> i"
proof
  assume "v \<le> upper i"
  then show "index v \<le> i" using index_mono [of v "upper i"] index_upper [OF assms] by simp
next
  assume "index v \<le> i"
  moreover have "v \<le> upper (index v)" using upper_index(1) by (simp add: word_le_nat_alt)
  ultimately show "v \<le> upper i" using upper_mono [OF _ assms] order_trans by blast
qed

text \<open>
  C24: Bucket numbers and bucket edges are a Galois connection over all 64-bit values: a sample is
  at most the upper edge of a bucket exactly when its own bucket is at most that one; the bucket
  number is in range, and a sample's upper edge is at least the sample and at most a sixteenth
  more.
\<close>

theorem bucket_galois:
  assumes "i < kBuckets"
  shows "(v \<le> upper i \<longleftrightarrow> index v \<le> i) \<and> index v < kBuckets \<and> v \<le> upper (index v) \<and>
    unat (upper (index v)) \<le> unat v + unat v div 16"
  using bucket_galois' [OF assms] upper_index [of v] index_bound by (simp add: word_le_nat_alt)

theorem bucket_galois_witness: "1000 \<le> upper 127 \<longleftrightarrow> index 1000 \<le> 127"
  using bucket_galois [of 127 1000] by (simp add: kBuckets_def)

section \<open>Recording and merging\<close>

record histogram =
  counts :: "u64 list"
  h_n :: u64
  h_max :: u64

definition empty_histogram :: histogram where
  "empty_histogram = \<lparr>counts = replicate kBuckets 0, h_n = 0, h_max = 0\<rparr>"

definition hist_record :: "u64 \<Rightarrow> histogram \<Rightarrow> histogram" where
  "hist_record v h =
     \<lparr>counts = (counts h)[index v := counts h ! index v + 1], h_n = h_n h + 1,
      h_max = max (h_max h) v\<rparr>"

definition hist_merge :: "histogram \<Rightarrow> histogram \<Rightarrow> histogram" where
  "hist_merge o' h =
     \<lparr>counts = map (\<lambda>i. counts h ! i + counts o' ! i) [0..<length (counts h)],
      h_n = h_n h + h_n o', h_max = max (h_max h) (h_max o')\<rparr>"

definition hist_of :: "u64 list \<Rightarrow> histogram" where
  "hist_of vs = foldl (\<lambda>h v. hist_record v h) empty_histogram vs"

definition in_bucket :: "u64 list \<Rightarrow> nat \<Rightarrow> nat" where
  "in_bucket vs i = length (filter (\<lambda>v. index v = i) vs)"

lemma max0: "max 0 x = (x :: u64)"
  by (simp add: max_def)

lemma hist_of_snoc: "hist_of (vs @ [v]) = hist_record v (hist_of vs)"
  by (simp add: hist_of_def)

lemma hist_of_eq:
  "hist_of vs = \<lparr>counts = map (\<lambda>i. of_nat (in_bucket vs i)) [0..<kBuckets],
     h_n = of_nat (length vs), h_max = foldl max 0 vs\<rparr>"
proof (induction vs rule: rev_induct)
  case Nil
  show ?case by (simp add: hist_of_def empty_histogram_def in_bucket_def map_replicate_const)
next
  case (snoc v vs)
  show ?case unfolding hist_of_snoc snoc
    using index_bound [of v]
    by (auto simp: hist_record_def in_bucket_def intro!: nth_equalityI simp: nth_list_update)
qed

text \<open>
  A merged histogram is the histogram of both threads' samples together, in any order: the
  run's one histogram is what a single recorder would have produced.
\<close>

theorem merge_is_recording_both:
  "hist_merge (hist_of ws) (hist_of vs) = hist_of (vs @ ws) \<and>
   (mset vs = mset ws \<longrightarrow> hist_of vs = hist_of ws)"
proof -
  have f: "foldl max m xs = max m (foldl max 0 xs)" for m :: u64 and xs
  proof (induction xs arbitrary: m)
    case (Cons x xs)
    show ?case
      by (simp only: foldl_Cons max0 Cons [of "max m x"] Cons [of x] max.assoc)
  qed (simp add: max_def)
  then have mx: "foldl max 0 (vs @ ws) = max (foldl max 0 vs) (foldl max 0 ws)"
    unfolding foldl_append .
  have c: "in_bucket (vs @ ws) i = in_bucket vs i + in_bucket ws i" for i
    by (simp add: in_bucket_def)
  have 1: "hist_merge (hist_of ws) (hist_of vs) = hist_of (vs @ ws)"
    unfolding hist_merge_def hist_of_eq mx c by (simp cong: map_cong)
  have m: "foldl max 0 xs = Max (insert 0 (set xs))" for xs :: "u64 list"
    by (induction xs rule: rev_induct) (simp_all add: max.commute insert_commute)
  have "in_bucket vs i = in_bucket ws i" if "mset vs = mset ws" for i
    using that unfolding in_bucket_def by (metis mset_filter size_mset)
  then have "hist_of vs = hist_of ws" if "mset vs = mset ws"
    using that by (auto simp: hist_of_eq m dest: mset_eq_length mset_eq_setD)
  then show ?thesis using 1 by blast
qed

theorem merge_is_recording_both_witness: "hist_of [5, 900] = hist_of [900, 5]"
  using merge_is_recording_both [of "[900, 5]" "[5, 900]"] by (simp add: add_mset_commute)

section \<open>Quantiles\<close>

text \<open>
  \<open>quantile(q)\<close>: \<open>rank_of\<close> stands for the floating-point product \<open>q * (n - 1)\<close>, truncated.
\<close>

fun quantile_loop :: "u64 \<Rightarrow> histogram \<Rightarrow> u64 \<Rightarrow> nat list \<Rightarrow> u64" where
  "quantile_loop rank h seen [] = h_max h"
| "quantile_loop rank h seen (i # is) =
     (let seen1 = seen + counts h ! i in
      if seen1 \<ge> rank then min (upper i) (h_max h) else quantile_loop rank h seen1 is)"

definition quantile :: "(u64 \<Rightarrow> u64) \<Rightarrow> histogram \<Rightarrow> u64" where
  "quantile rank_of h =
     (if h_n h = 0 then 0
      else let rank = rank_of (h_n h - 1) + 1 in quantile_loop rank h 0 [0..<kBuckets])"

definition count_above :: "u64 \<Rightarrow> histogram \<Rightarrow> u64" where
  "count_above v h = sum_list (map (\<lambda>i. counts h ! i) [index v + 1..<kBuckets])"

definition below :: "u64 list \<Rightarrow> nat \<Rightarrow> nat" where
  "below vs i = length (filter (\<lambda>v. index v < i) vs)"

lemma below_Suc: "below vs (Suc i) = below vs i + in_bucket vs i"
  unfolding below_def in_bucket_def by (induction vs) auto

lemma below_le: "below vs i \<le> length vs"
  by (simp add: below_def)

lemma below_mono: "i \<le> j \<Longrightarrow> below vs i \<le> below vs j"
  unfolding below_def by (induction vs) auto

lemma in_bucket_sum:
  "i \<le> j \<Longrightarrow> sum_list (map (\<lambda>k. of_nat (in_bucket vs k) :: u64) [i..<j]) =
    of_nat (below vs j - below vs i)"
proof (induction j)
  case (Suc j)
  show ?case
  proof (cases "i \<le> j")
    case True
    then show ?thesis using Suc.IH below_mono [OF True, of vs] by (simp add: below_Suc)
  next
    case False
    then show ?thesis using Suc.prems by (simp add: le_Suc_eq)
  qed
qed simp

lemma hist_of_counts: "i < kBuckets \<Longrightarrow> counts (hist_of vs) ! i = of_nat (in_bucket vs i)"
  by (simp add: hist_of_eq)

lemma quantile_loop_result:
  assumes n: "length vs < 2 ^ 64" and k: "k < kBuckets" "below vs k < unat rank"
    "unat rank \<le> below vs (Suc k)"
  shows "i \<le> k \<Longrightarrow> quantile_loop rank (hist_of vs) (of_nat (below vs i)) [i..<kBuckets] =
    min (upper k) (h_max (hist_of vs))"
proof (induction "k - i" arbitrary: i)
  case 0
  have u: "unat (of_nat (below vs j) :: u64) = below vs j" for j
    using n below_le [of vs j] by (simp add: unat_of_nat)
  have "i = k" "i < kBuckets" using 0 k by simp_all
  then show ?case
    using k u [of "Suc k"] hist_of_counts [of k vs]
    by (simp add: upt_conv_Cons [of k] Let_def word_le_nat_alt below_Suc)
next
  case (Suc d)
  have u: "unat (of_nat (below vs j) :: u64) = below vs j" for j
    using n below_le [of vs j] by (simp add: unat_of_nat)
  have i: "i < kBuckets" "Suc i \<le> k" using Suc.hyps(2) k(1) by simp_all
  have s: "(of_nat (below vs i) :: u64) + counts (hist_of vs) ! i = of_nat (below vs (Suc i))"
    using hist_of_counts [OF i(1), of vs] by (simp add: below_Suc)
  have "\<not> rank \<le> of_nat (below vs (Suc i))"
    using below_mono [OF i(2), of vs] k(2) u [of "Suc i"] by (simp add: word_le_nat_alt)
  then show ?case
    using Suc.hyps(1) [of "Suc i"] Suc.hyps(2) i s
    by (simp add: upt_conv_Cons [OF i(1)] Let_def)
qed

lemma sorted_nth_counts:
  fixes vs :: "u64 list"
  assumes "r < length vs"
  defines "x \<equiv> sort vs ! r"
  shows "length (filter (\<lambda>v. v < x) vs) \<le> r" "r < length (filter (\<lambda>v. v \<le> x) vs)"
proof -
  let ?s = "sort vs"
  have r: "r < length ?s" using assms by simp
  have part: "?s = take r ?s @ x # drop (Suc r) ?s"
    unfolding x_def by (rule id_take_nth_drop [OF r])
  have len: "length (filter P vs) = length (filter P ?s)" for P
    by (metis mset_filter mset_sort size_mset)
  have "sorted (take r ?s @ x # drop (Suc r) ?s)" unfolding part [symmetric] by simp
  then have lo: "\<forall>v \<in> set (take r ?s). v \<le> x" and hi: "\<forall>v \<in> set (drop (Suc r) ?s). x \<le> v"
    by (auto simp: sorted_append)
  have "filter (\<lambda>v. v < x) (x # drop (Suc r) ?s) = []" using hi by (auto simp: filter_empty_conv)
  then have "length (filter (\<lambda>v. v < x) ?s) = length (filter (\<lambda>v. v < x) (take r ?s))"
    by (subst part) simp
  also have "\<dots> \<le> r" using length_filter_le [of _ "take r ?s"] r by (metis length_take min.absorb4)
  finally show "length (filter (\<lambda>v. v < x) vs) \<le> r" using len by simp
  have "filter (\<lambda>v. v \<le> x) (take r ?s) = take r ?s" using lo by (simp add: filter_id_conv)
  then have "length (filter (\<lambda>v. v \<le> x) ?s) \<ge> Suc r"
    by (subst part) (use r in simp)
  then show "r < length (filter (\<lambda>v. v \<le> x) vs)" using len by simp
qed

text \<open>The bucket of the sample of the rank asked for, and how many samples it covers.\<close>

lemma quantile_result:
  assumes "length vs < 2 ^ 64" "unat (rank_of (h_n (hist_of vs) - 1)) < length vs"
  shows "quantile rank_of (hist_of vs) =
      min (upper (index (sort vs ! unat (rank_of (h_n (hist_of vs) - 1))))) (h_max (hist_of vs))"
    and "sort vs ! unat (rank_of (h_n (hist_of vs) - 1)) \<le> h_max (hist_of vs)"
proof -
  define r where "r = unat (rank_of (h_n (hist_of vs) - 1))"
  define x where "x = sort vs ! r"
  have r: "r < length vs" using assms(2) by (simp add: r_def)
  have rank: "unat (rank_of (h_n (hist_of vs) - 1) + 1) = r + 1"
    using r assms(1) by (simp add: r_def unat_word_ariths)
  have sub: "length (filter P vs) \<le> length (filter Q vs)" if "\<And>v. P v \<Longrightarrow> Q v" for P Q
    using that by (induction vs) auto
  have "below vs (index x) \<le> length (filter (\<lambda>v. v < x) vs)"
    unfolding below_def by (rule sub) (metis index_mono not_less)
  then have lo: "below vs (index x) < r + 1" using sorted_nth_counts(1) [OF r] by (simp add: x_def)
  have "length (filter (\<lambda>v. v \<le> x) vs) \<le> below vs (Suc (index x))"
    unfolding below_def by (rule sub) (simp add: index_mono less_Suc_eq_le)
  then have hi: "r + 1 \<le> below vs (Suc (index x))" using sorted_nth_counts(2) [OF r] by (simp add: x_def)
  have "h_n (hist_of vs) \<noteq> 0"
  proof
    assume "h_n (hist_of vs) = 0"
    then have "unat (of_nat (length vs) :: u64) = 0" by (simp add: hist_of_eq)
    then show False using assms(1) r by (simp add: unat_of_nat)
  qed
  moreover have "below vs 0 = 0" by (simp add: below_def)
  ultimately have "quantile rank_of (hist_of vs) = min (upper (index x)) (h_max (hist_of vs))"
    using quantile_loop_result [OF assms(1) index_bound [of x], of "rank_of (h_n (hist_of vs) - 1) + 1" 0]
      lo hi rank by (simp add: quantile_def Let_def)
  then show "quantile rank_of (hist_of vs) =
      min (upper (index (sort vs ! unat (rank_of (h_n (hist_of vs) - 1))))) (h_max (hist_of vs))"
    by (simp add: x_def r_def)
  have "x \<in> set vs" using r nth_mem [of r "sort vs"] by (simp add: x_def)
  moreover have "foldl max 0 xs = Max (insert 0 (set xs))" for xs :: "u64 list"
    by (induction xs rule: rev_induct) (simp_all add: max.commute insert_commute)
  ultimately show "sort vs ! unat (rank_of (h_n (hist_of vs) - 1)) \<le> h_max (hist_of vs)"
    by (simp add: hist_of_eq x_def r_def)
qed

lemma quantile_covers:
  assumes "length vs < 2 ^ 64" "unat (rank_of (h_n (hist_of vs) - 1)) < length vs"
  shows "unat (rank_of (h_n (hist_of vs) - 1)) <
    length (filter (\<lambda>v. v \<le> quantile rank_of (hist_of vs)) vs)"
proof -
  define x where "x = sort vs ! unat (rank_of (h_n (hist_of vs) - 1))"
  have "x \<le> quantile rank_of (hist_of vs)"
    using quantile_result [where rank_of = rank_of, OF assms] upper_index(1) [of x] by (simp add: x_def word_le_nat_alt)
  moreover have "length (filter (\<lambda>v. v \<le> x) ws) \<le> length (filter (\<lambda>v. v \<le> y) ws)" if "x \<le> y" for y and ws :: "u64 list"
    using that by (induction ws) auto
  ultimately have "length (filter (\<lambda>v. v \<le> x) vs) \<le> length (filter (\<lambda>v. v \<le> quantile rank_of (hist_of vs)) vs)"
    by blast
  then show ?thesis using sorted_nth_counts(2) [OF assms(2)] by (simp add: x_def)
qed

text \<open>
  C25: A quantile never under-reports and over-reports by less than one bucket: for any rank the
  floating-point arithmetic may come up with, the answer is at least the sample of that rank, at
  most a sixteenth more than it, and never more than the largest sample.
\<close>

theorem quantile_conservative:
  assumes "vs \<noteq> []" "length vs < 2 ^ 64" "unat (rank_of (h_n (hist_of vs) - 1)) < length vs"
  shows "let x = sort vs ! unat (rank_of (h_n (hist_of vs) - 1)); q = quantile rank_of (hist_of vs) in
    x \<le> q \<and> unat q \<le> unat x + unat x div 16 \<and> q \<le> h_max (hist_of vs) \<and> q \<le> upper (index x)"
proof -
  define x where "x = sort vs ! unat (rank_of (h_n (hist_of vs) - 1))"
  note q = quantile_result [where rank_of = rank_of, OF assms(2,3), folded x_def]
  have up: "x \<le> upper (index x)" using upper_index(1) by (simp add: word_le_nat_alt)
  have "unat (min (upper (index x)) (h_max (hist_of vs))) \<le> unat (upper (index x))"
    by (simp add: word_le_nat_alt [symmetric])
  then have "unat (quantile rank_of (hist_of vs)) \<le> unat x + unat x div 16"
    unfolding q(1) using upper_index(2) [of x] by linarith
  then show ?thesis
    using q up by (simp add: Let_def x_def [symmetric])
qed

theorem quantile_conservative_witness:
  "sort [900, 5 :: u64] ! 0 \<le> quantile (\<lambda>_. 0) (hist_of [900, 5])"
  using quantile_conservative [of "[900, 5]" "\<lambda>_. 0"] by (simp add: Let_def)

text \<open>
  \<open>count_above(v)\<close> counts exactly the samples beyond the upper edge of \<open>v\<close>'s bucket: never a
  sample at most \<open>v\<close>, and every sample more than a sixteenth above \<open>v\<close>.
\<close>

theorem count_above_exact:
  "count_above v (hist_of vs) = of_nat (length (filter (\<lambda>x. upper (index v) < x) vs)) \<and>
   (x \<le> v \<longrightarrow> \<not> upper (index v) < x) \<and>
   (unat v + unat v div 16 < unat x \<longrightarrow> upper (index v) < x)"
proof -
  have "count_above v (hist_of vs) = (\<Sum>i\<leftarrow>[index v + 1..<kBuckets]. of_nat (in_bucket vs i))"
    unfolding count_above_def by (rule arg_cong [of _ _ sum_list], rule map_cong) (auto simp: hist_of_eq)
  also have "\<dots> = of_nat (below vs kBuckets - below vs (index v + 1))"
    using index_bound [of v] by (intro in_bucket_sum) simp
  also have "below vs kBuckets - below vs (index v + 1) = length (filter (\<lambda>x. index v < index x) vs)"
    unfolding below_def using index_bound by (induction vs) (auto simp: Suc_diff_le length_filter_le)
  also have "(\<lambda>x. index v < index x) = (\<lambda>x. upper (index v) < x)"
    using bucket_galois' [OF index_bound] by (auto simp: fun_eq_iff not_le [symmetric])
  finally have "count_above v (hist_of vs) = of_nat (length (filter (\<lambda>x. upper (index v) < x) vs))" .
  then show ?thesis
    using upper_index [of v] by (auto simp: word_less_nat_alt word_le_nat_alt)
qed

theorem count_above_exact_witness: "\<not> upper (index 100) < 90"
  using count_above_exact [of 100 "[90]" 90] by simp

end
