(* ===== verification/Tq_Api.thy ===== *)
theory Tq_Api
  imports Fifo_Spec Tq_Histogram
begin

text \<open>
  mpmc-work-queue-kata/cpp/src/queue_api.hpp and config.hpp: what every queue of the project
  returns and counts. The pointer to a window histogram is an option.
\<close>

definition kCapacity :: nat where "kCapacity = 2 ^ 16"
definition kProducers :: nat where "kProducers = 32"
definition kConsumers :: nat where "kConsumers = 16"

datatype push_res = PushOk | PushFull | PushClosed | PushTimeout
datatype pop_res = PopOk | PopEmpty | PopDrained | PopTimeout

record op_stats =
  retries :: u64
  parks :: u64
  backstops :: u64
  wakes :: u64
  holes :: u64
  window :: "histogram option"

definition no_stats :: op_stats where
  "no_stats = \<lparr>retries = 0, parks = 0, backstops = 0, wakes = 0, holes = 0, window = None\<rparr>"

definition stats_merge :: "op_stats \<Rightarrow> op_stats \<Rightarrow> op_stats" where
  "stats_merge o' s =
     s\<lparr>retries := retries s + retries o', parks := parks s + parks o',
       backstops := backstops s + backstops o', wakes := wakes s + wakes o',
       holes := holes s + holes o'\<rparr>"

lemma stats_merge_assoc:
  "stats_merge a (stats_merge b c) = stats_merge (stats_merge a b) c"
  by (simp add: stats_merge_def add_ac)

end
