(* ===== verification/Tq_EventCount.thy ===== *)
theory Tq_EventCount
  imports Tq_Api
begin

text \<open>
  mpmc-work-queue-kata/cpp/src/eventcount.hpp: how consumers sleep. \<open>BasicEventCount\<close> and
  \<open>EpochWake\<close>, as machines in which any number of waiters and notifiers interleave at every
  access to shared memory, under the memory model of x86: a notifier's publication sits in its
  store buffer until a fence, a read-modify-write or time lets it out.

  What the waiters wait for is a number of items: a publication adds one, and the re-check of a
  waiter takes one if there is one. The wait on an address is the one of platform.hpp: it blocks
  if the word still has the expected value, and may return at any time.

  \<open>ec_bumps\<close> counts the advances of the epoch without bound; the theorems assume that it has not
  come round its 32 bits, which is the limit the code states for itself.
\<close>

section \<open>BasicEventCount\<close>

datatype notify = NotifyOne | NotifyAllIfWaiting | NotifyAll

text \<open>Where a waiter is: in \<open>prepare_wait\<close>, before and in its re-check, in \<open>cancel_wait\<close>, in \<open>wait\<close>.\<close>

datatype waiter_pc =
    CIdle
  | CKey u32            \<comment> \<open>the key is read\<close>
  | CAnnounced u32      \<comment> \<open>counted in \<open>waiters_\<close>: about to clear \<open>pending_\<close>\<close>
  | CTry u32            \<comment> \<open>about to re-check\<close>
  | CCancel             \<comment> \<open>the re-check succeeded\<close>
  | CLoop u32           \<comment> \<open>\<open>wait\<close>: about to load the epoch\<close>
  | CCall u32           \<comment> \<open>about to wait on the address\<close>
  | CBlocked u32        \<comment> \<open>blocked there\<close>
  | CLeave bool         \<comment> \<open>about to leave \<open>waiters_\<close>, with what \<open>wait\<close> will return\<close>
  | CClear bool         \<comment> \<open>about to clear \<open>pending_\<close>\<close>

datatype notifier_pc =
    PIdle
  | PFence notify       \<comment> \<open>published: about to fence\<close>
  | PLook notify        \<comment> \<open>about to load \<open>waiters_\<close>\<close>
  | PSeen               \<comment> \<open>about to load \<open>pending_\<close>\<close>
  | PXchg               \<comment> \<open>about to exchange \<open>pending_\<close>\<close>
  | PBump notify        \<comment> \<open>about to advance the epoch\<close>
  | PWake notify        \<comment> \<open>about to wake\<close>

record ec =
  ec_items :: nat
  ec_buf :: "nat \<Rightarrow> nat"         \<comment> \<open>each notifier's publications still in its store buffer\<close>
  ec_waiters :: u32
  ec_pending :: bool
  ec_epoch :: u32
  ec_bumps :: nat
  ec_n :: "nat \<Rightarrow> notifier_pc"
  ec_w :: "nat \<Rightarrow> waiter_pc"

definition ec_init :: ec where
  "ec_init = \<lparr>ec_items = 0, ec_buf = (\<lambda>_. 0), ec_waiters = 0, ec_pending = False, ec_epoch = 0,
     ec_bumps = 0, ec_n = (\<lambda>_. PIdle), ec_w = (\<lambda>_. CIdle)\<rparr>"

definition set_w :: "nat \<Rightarrow> waiter_pc \<Rightarrow> ec \<Rightarrow> ec" where
  "set_w c x s = s\<lparr>ec_w := (ec_w s)(c := x)\<rparr>"

definition set_n :: "nat \<Rightarrow> notifier_pc \<Rightarrow> ec \<Rightarrow> ec" where
  "set_n p x s = s\<lparr>ec_n := (ec_n s)(p := x)\<rparr>"

text \<open>
  One access of a waiter. The store that clears \<open>pending_\<close> is buffered too, but the fence right
  behind it lets the waiter do nothing else before it is out; its step is when it is out.
  \<open>late\<close> is whether the clock has reached \<open>until\<close>, and whether the wait on the address gives up.
\<close>

fun waiter_access :: "nat \<Rightarrow> bool \<Rightarrow> waiter_pc \<Rightarrow> ec \<Rightarrow> ec" where
  "waiter_access c late CIdle s =
     (if 0 < ec_items s then s\<lparr>ec_items := ec_items s - 1\<rparr> else set_w c (CKey (ec_epoch s)) s)"
| "waiter_access c late (CKey k) s = set_w c (CAnnounced k) (s\<lparr>ec_waiters := ec_waiters s + 1\<rparr>)"
| "waiter_access c late (CAnnounced k) s = set_w c (CTry k) (s\<lparr>ec_pending := False\<rparr>)"
| "waiter_access c late (CTry k) s =
     (if 0 < ec_items s then set_w c CCancel (s\<lparr>ec_items := ec_items s - 1\<rparr>)
      else set_w c (CLoop k) s)"
| "waiter_access c late CCancel s = set_w c CIdle (s\<lparr>ec_waiters := ec_waiters s - 1\<rparr>)"
| "waiter_access c late (CLoop k) s =
     (if ec_epoch s \<noteq> k then set_w c (CLeave True) s
      else if late then set_w c (CLeave False) s else set_w c (CCall k) s)"
| "waiter_access c late (CCall k) s =
     (if ec_epoch s = k \<and> \<not> late then set_w c (CBlocked k) s else set_w c (CLoop k) s)"
| "waiter_access c late (CBlocked k) s = (if late then set_w c (CLoop k) s else s)"
| "waiter_access c late (CLeave r) s = set_w c (CClear r) (s\<lparr>ec_waiters := ec_waiters s - 1\<rparr>)"
| "waiter_access c late (CClear r) s = set_w c CIdle (s\<lparr>ec_pending := False\<rparr>)"

fun blocked :: "waiter_pc \<Rightarrow> bool" where
  "blocked (CBlocked k) = True"
| "blocked _ = False"

fun woken :: "waiter_pc \<Rightarrow> waiter_pc" where
  "woken (CBlocked k) = CLoop k"
| "woken c = c"

text \<open>
  \<open>wake_one\<close> and \<open>wake_all\<close> among \<open>n\<close> waiters: one that is blocked, if there is one, or all.
  \<open>None\<close> is that \<open>c\<close> is not a choice the operating system has.
\<close>

definition wake_threads :: "nat \<Rightarrow> notify \<Rightarrow> nat \<Rightarrow> (nat \<Rightarrow> waiter_pc) \<Rightarrow> (nat \<Rightarrow> waiter_pc) option" where
  "wake_threads n kind c w =
     (if kind \<noteq> NotifyOne then Some (woken \<circ> w)
      else if c < n \<and> blocked (w c) then Some (w(c := woken (w c)))
      else if list_ex (\<lambda>c. blocked (w c)) [0..<n] then None else Some w)"

text \<open>
  One access of a notifier. On x86 a read-modify-write, like the fence, waits for the store
  buffer.
\<close>

fun notifier_access ::
  "nat \<Rightarrow> bool \<Rightarrow> bool \<Rightarrow> nat \<Rightarrow> nat \<Rightarrow> notifier_pc \<Rightarrow> ec \<Rightarrow> ec" where
  "notifier_access n coalesce fenced p c PIdle s = s"
| "notifier_access n coalesce fenced p c (PFence kind) s =
     (if (fenced \<or> kind = NotifyAll) \<and> 0 < ec_buf s p then s
      else set_n p (if kind = NotifyAll then PBump kind else PLook kind) s)"
| "notifier_access n coalesce fenced p c (PLook kind) s =
     (if ec_waiters s = 0 then set_n p PIdle s
      else if coalesce \<and> kind = NotifyOne then set_n p PSeen s else set_n p (PBump kind) s)"
| "notifier_access n coalesce fenced p c PSeen s =
     (if ec_pending s then set_n p PIdle s else set_n p PXchg s)"
| "notifier_access n coalesce fenced p c PXchg s =
     (if 0 < ec_buf s p then s
      else set_n p (if ec_pending s then PIdle else PBump NotifyOne) (s\<lparr>ec_pending := True\<rparr>))"
| "notifier_access n coalesce fenced p c (PBump kind) s =
     (if 0 < ec_buf s p then s
      else set_n p (PWake kind) (s\<lparr>ec_epoch := ec_epoch s + 1, ec_bumps := ec_bumps s + 1\<rparr>))"
| "notifier_access n coalesce fenced p c (PWake kind) s =
     (case wake_threads n kind c (ec_w s) of None \<Rightarrow> s
      | Some w \<Rightarrow> set_n p PIdle (s\<lparr>ec_w := w\<rparr>))"

definition publish_then :: "notify \<Rightarrow> nat \<Rightarrow> ec \<Rightarrow> ec" where
  "publish_then kind p s =
     (if ec_n s p = PIdle then set_n p (PFence kind) (s\<lparr>ec_buf := (ec_buf s)(p := ec_buf s p + 1)\<rparr>)
      else s)"

definition drain_store :: "nat \<Rightarrow> ec \<Rightarrow> ec" where
  "drain_store p s =
     (if 0 < ec_buf s p
      then s\<lparr>ec_items := ec_items s + 1, ec_buf := (ec_buf s)(p := ec_buf s p - 1)\<rparr> else s)"

datatype ec_act = Publish nat notify | Notifier nat nat | DrainStore nat | Waiter nat bool

text \<open>\<open>n\<close> waiters. \<open>coalesce\<close> and \<open>fenced\<close> are the code's template arguments.\<close>

fun ec_step :: "nat \<Rightarrow> bool \<Rightarrow> bool \<Rightarrow> ec_act \<Rightarrow> ec \<Rightarrow> ec" where
  "ec_step n coalesce fenced (Publish p kind) s = publish_then kind p s"
| "ec_step n coalesce fenced (Notifier p c) s =
     notifier_access n coalesce fenced p c (ec_n s p) s"
| "ec_step n coalesce fenced (DrainStore p) s = drain_store p s"
| "ec_step n coalesce fenced (Waiter c late) s =
     (if c < n then waiter_access c late (ec_w s c) s else s)"

inductive ec_reach :: "nat \<Rightarrow> bool \<Rightarrow> bool \<Rightarrow> ec \<Rightarrow> bool" for n coalesce fenced where
  ec_start: "ec_reach n coalesce fenced ec_init"
| ec_next: "ec_reach n coalesce fenced s \<Longrightarrow> ec_reach n coalesce fenced (ec_step n coalesce fenced a s)"

lemma ec_run: "ec_reach n co fe s \<Longrightarrow> ec_reach n co fe (fold (ec_step n co fe) as s)"
  by (induction "as" arbitrary: s) (simp_all add: ec_next)

section \<open>The invariant\<close>

fun registered :: "waiter_pc \<Rightarrow> bool" where
  "registered CIdle = False"
| "registered (CKey k) = False"
| "registered (CClear r) = False"
| "registered _ = True"

text \<open>
  A waiter is asleep when it is blocked, or will block unless the epoch moves. The key of one
  that is past its registration is stale when the epoch has moved.
\<close>

fun awake :: "u32 \<Rightarrow> waiter_pc \<Rightarrow> bool" where
  "awake e (CLoop k) = (k \<noteq> e)"
| "awake e (CCall k) = (k \<noteq> e)"
| "awake e (CBlocked k) = False"
| "awake e _ = True"

fun stale :: "u32 \<Rightarrow> waiter_pc \<Rightarrow> bool" where
  "stale e (CTry k) = (k \<noteq> e)"
| "stale e (CLoop k) = (k \<noteq> e)"
| "stale e (CCall k) = (k \<noteq> e)"
| "stale e (CBlocked k) = (k \<noteq> e)"
| "stale e _ = True"

fun key_le :: "u32 \<Rightarrow> waiter_pc \<Rightarrow> bool" where
  "key_le e (CKey k) = (k \<le> e)"
| "key_le e (CAnnounced k) = (k \<le> e)"
| "key_le e (CTry k) = (k \<le> e)"
| "key_le e (CLoop k) = (k \<le> e)"
| "key_le e (CCall k) = (k \<le> e)"
| "key_le e (CBlocked k) = (k \<le> e)"
| "key_le e _ = True"

fun coming_pc :: "notifier_pc \<Rightarrow> bool" where
  "coming_pc (PFence kind) = True"
| "coming_pc (PLook kind) = True"
| "coming_pc PSeen = True"
| "coming_pc PXchg = True"
| "coming_pc _ = False"

fun bump_pc :: "notifier_pc \<Rightarrow> bool" where
  "bump_pc (PBump kind) = True"
| "bump_pc _ = False"

fun wake_pc :: "notifier_pc \<Rightarrow> bool" where
  "wake_pc (PWake kind) = True"
| "wake_pc _ = False"

text \<open>That some notifier is at such a place.\<close>

definition some_pc :: "(notifier_pc \<Rightarrow> bool) \<Rightarrow> (nat \<Rightarrow> notifier_pc) \<Rightarrow> bool" where
  "some_pc P f \<longleftrightarrow> (\<exists>p. P (f p))"

lemma some_pc_upd [simp]: "\<not> P (f p) \<Longrightarrow> some_pc P (f(p := x)) \<longleftrightarrow> P x \<or> some_pc P f"
  by (auto simp: some_pc_def)

lemma some_pcI: "P (f p) \<Longrightarrow> some_pc P f"
  by (auto simp: some_pc_def)

lemma some_pc_new: "P x \<Longrightarrow> some_pc P (f(p := x))"
  by (rule some_pcI [of _ _ p]) simp

abbreviation coming :: "ec \<Rightarrow> bool" where "coming s \<equiv> some_pc coming_pc (ec_n s)"
abbreviation bumping :: "ec \<Rightarrow> bool" where "bumping s \<equiv> some_pc bump_pc (ec_n s)"
abbreviation waking :: "ec \<Rightarrow> bool" where "waking s \<equiv> some_pc wake_pc (ec_n s)"

definition someone_awake :: "nat \<Rightarrow> ec \<Rightarrow> bool" where
  "someone_awake n s \<longleftrightarrow> (\<exists>c < n. awake (ec_epoch s) (ec_w s c))"

definition all_stale :: "nat \<Rightarrow> ec \<Rightarrow> bool" where
  "all_stale n s \<longleftrightarrow> (\<forall>c < n. stale (ec_epoch s) (ec_w s c))"

text \<open>Somebody will look at the items again.\<close>

definition sure :: "nat \<Rightarrow> ec \<Rightarrow> bool" where
  "sure n s \<longleftrightarrow> bumping s \<or> someone_awake n s \<or> waking s \<and> all_stale n s"

definition keys_ok :: "nat \<Rightarrow> ec \<Rightarrow> bool" where
  "keys_ok n s \<longleftrightarrow> unat (ec_epoch s) = ec_bumps s \<and> (\<forall>c < n. key_le (ec_epoch s) (ec_w s c))"

definition crowd :: "nat \<Rightarrow> (nat \<Rightarrow> waiter_pc) \<Rightarrow> nat" where
  "crowd n w = card {c. c < n \<and> registered (w c)}"

definition count_ok :: "nat \<Rightarrow> ec \<Rightarrow> bool" where
  "count_ok n s \<longleftrightarrow> ec_waiters s = of_nat (crowd n (ec_w s))"

definition buf_ok :: "ec \<Rightarrow> bool" where
  "buf_ok s \<longleftrightarrow> (\<forall>p. 0 < ec_buf s p \<longrightarrow> (\<exists>kind. ec_n s p = PFence kind))"

definition ec_ok :: "nat \<Rightarrow> ec \<Rightarrow> bool" where
  "ec_ok n s \<longleftrightarrow> keys_ok n s \<and> count_ok n s \<and> buf_ok s \<and>
     (ec_pending s \<longrightarrow> bumping s \<or> all_stale n s) \<and>
     (ec_pending s \<or> 0 < ec_items s \<and> \<not> coming s \<longrightarrow> sure n s)"

lemma ec_ok_init: "0 < n \<Longrightarrow> ec_ok n ec_init"
  by (simp add: ec_ok_def keys_ok_def count_ok_def crowd_def buf_ok_def ec_init_def)

section \<open>Single clauses\<close>

lemma set_w_simps [simp]:
  "ec_items (set_w c x s) = ec_items s" "ec_buf (set_w c x s) = ec_buf s"
  "ec_waiters (set_w c x s) = ec_waiters s" "ec_pending (set_w c x s) = ec_pending s"
  "ec_epoch (set_w c x s) = ec_epoch s" "ec_bumps (set_w c x s) = ec_bumps s"
  "ec_n (set_w c x s) = ec_n s" "ec_w (set_w c x s) = (ec_w s)(c := x)"
  by (simp_all add: set_w_def)

lemma set_n_simps [simp]:
  "ec_items (set_n p y s) = ec_items s" "ec_buf (set_n p y s) = ec_buf s"
  "ec_waiters (set_n p y s) = ec_waiters s" "ec_pending (set_n p y s) = ec_pending s"
  "ec_epoch (set_n p y s) = ec_epoch s" "ec_bumps (set_n p y s) = ec_bumps s"
  "ec_n (set_n p y s) = (ec_n s)(p := y)" "ec_w (set_n p y s) = ec_w s"
  by (simp_all add: set_n_def)

text \<open>The number of waiters that are counted, as one of them moves on.\<close>

lemma crowd_upd:
  assumes "c < n"
  shows "registered x = registered (w c) \<Longrightarrow> crowd n (w(c := x)) = crowd n w"
    and "registered x \<Longrightarrow> \<not> registered (w c) \<Longrightarrow> crowd n (w(c := x)) = Suc (crowd n w)"
    and "\<not> registered x \<Longrightarrow> registered (w c) \<Longrightarrow> crowd n w = Suc (crowd n (w(c := x)))"
proof -
  let ?S = "{i. i < n \<and> registered (w i)}" and ?T = "{i. i < n \<and> registered ((w(c := x)) i)}"
  have card_insert: "card (insert c A) = Suc (card A)" if "c \<notin> A" "A \<subseteq> {..<n}" for A
    using that finite_subset by (metis card_insert_disjoint finite_lessThan)
  show "crowd n (w(c := x)) = crowd n w" if "registered x = registered (w c)"
    unfolding crowd_def by (rule arg_cong [of _ _ card]) (use that in auto)
  show "crowd n (w(c := x)) = Suc (crowd n w)" if "registered x" "\<not> registered (w c)"
  proof -
    have "?T = insert c ?S" using that assms by auto
    then show ?thesis unfolding crowd_def using that by (simp only:) (rule card_insert; auto)
  qed
  show "crowd n w = Suc (crowd n (w(c := x)))" if "\<not> registered x" "registered (w c)"
  proof -
    have "?S = insert c ?T" using that assms by auto
    then show ?thesis unfolding crowd_def using that by (simp only:) (rule card_insert; auto)
  qed
qed

lemma crowd_0: "crowd n w = 0 \<Longrightarrow> c < n \<Longrightarrow> \<not> registered (w c)"
  by (auto simp: crowd_def)

lemma crowd_le: "crowd n w \<le> n"
  using card_mono [of "{..<n}" "{i. i < n \<and> registered (w i)}"] by (auto simp: crowd_def)

lemma woken_same [simp]:
  "registered (woken x) = registered x" "stale e (woken x) = stale e x"
  "key_le e (woken x) = key_le e x" "awake e x \<Longrightarrow> awake e (woken x)"
  by (cases x; simp)+

lemma wake_threads_cases:
  assumes "wake_threads n kind c w = Some w'"
  shows "w' i = w i \<or> w' i = woken (w i)"
  using assms by (auto simp: wake_threads_def split: if_splits)

lemma wake_threads_same:
  assumes "wake_threads n kind c w = Some w'"
  shows "registered (w' i) = registered (w i)" "stale e (w' i) = stale e (w i)"
    "key_le e (w' i) = key_le e (w i)" "awake e (w i) \<Longrightarrow> awake e (w' i)"
  using wake_threads_cases [OF assms, of i] by auto

lemma wake_threads_crowd: "wake_threads n kind c w = Some w' \<Longrightarrow> crowd m w' = crowd m w"
  by (simp add: crowd_def wake_threads_same)

text \<open>A wake reaches somebody: if all the waiters' keys are stale, one is awake afterwards.\<close>

lemma stale_awake: "stale e x \<Longrightarrow> \<not> blocked x \<Longrightarrow> awake e x"
  by (cases x) auto

lemma stale_woken: "stale e x \<Longrightarrow> blocked x \<Longrightarrow> awake e (woken x)"
  by (cases x) auto

lemma wake_reaches:
  assumes "wake_threads n kind c w = Some w'" "\<forall>c < n. stale e (w c)" "0 < n"
  shows "\<exists>c < n. awake e (w' c)"
proof (cases "kind = NotifyOne \<and> c < n \<and> blocked (w c)")
  case True
  then have "w' = w(c := woken (w c))" using assms(1) by (simp add: wake_threads_def)
  then have "awake e (w' c)" using True assms(2) by (simp add: stale_woken)
  then show ?thesis using True by blast
next
  case False
  show ?thesis
  proof (cases "kind = NotifyOne")
    case True
    then have "w' = w" "\<forall>c < n. \<not> blocked (w c)"
      using False assms(1) by (auto simp: wake_threads_def list_ex_iff split: if_splits)
    then show ?thesis using assms(2,3) stale_awake by blast
  next
    case False
    then have "w' = woken \<circ> w" using assms(1) by (auto simp: wake_threads_def)
    then have "awake e (w' 0)"
      using assms(2,3) stale_awake [of e "w 0"] stale_woken [of e "w 0"]
      by (cases "blocked (w 0)") auto
    then show ?thesis using assms(3) by blast
  qed
qed

lemma bumps_mono: "ec_bumps s \<le> ec_bumps (ec_step n co fe a s)"
proof (cases a)
  case (Publish p kind) then show ?thesis by (simp add: publish_then_def)
next
  case (Notifier p c) then show ?thesis by (cases "ec_n s p") (auto split: option.splits)
next
  case (DrainStore p) then show ?thesis by (simp add: drain_store_def)
next
  case (Waiter c late) then show ?thesis by (cases "ec_w s c") auto
qed

lemma epoch_next:
  assumes "unat (e :: u32) = b" "Suc b < 2 ^ 32"
  shows "unat (e + 1) = Suc b" "k \<le> e \<Longrightarrow> k \<le> e + 1" "k \<le> e \<Longrightarrow> k \<noteq> e + 1"
proof -
  show u: "unat (e + 1) = Suc b" using assms by (simp add: unat_word_ariths)
  show "k \<le> e \<Longrightarrow> k \<le> e + 1" using u assms by (simp add: word_le_nat_alt)
  show "k \<le> e \<Longrightarrow> k \<noteq> e + 1" using u assms by (auto simp: word_le_nat_alt)
qed

lemma key_le_next:
  assumes "unat (e :: u32) = b" "Suc b < 2 ^ 32" "key_le e x"
  shows "key_le (e + 1) x" "stale (e + 1) x" "awake e x \<Longrightarrow> awake (e + 1) x"
  using epoch_next [OF assms(1,2)] assms(3) by (cases x; simp)+

lemma keys_ok_step:
  assumes ok: "keys_ok n s" and b: "ec_bumps (ec_step n co fe a s) < 2 ^ 32"
  shows "keys_ok n (ec_step n co fe a s)"
proof (cases a)
  case (Publish p kind) then show ?thesis using ok by (simp add: publish_then_def keys_ok_def)
next
  case (Notifier p c)
  then show ?thesis
    using ok b
    by (cases "ec_n s p")
      (auto simp: keys_ok_def wake_threads_same epoch_next key_le_next split: option.splits if_splits)
next
  case (DrainStore p) then show ?thesis using ok by (simp add: drain_store_def keys_ok_def)
next
  case (Waiter c late) then show ?thesis using ok by (cases "ec_w s c") (auto simp: keys_ok_def)
qed

lemma count_ok_step:
  assumes ok: "count_ok n s"
  shows "count_ok n (ec_step n co fe a s)"
proof (cases a)
  case (Publish p kind) then show ?thesis using ok by (simp add: publish_then_def count_ok_def)
next
  case (Notifier p c)
  then show ?thesis
    using ok
    by (cases "ec_n s p") (auto simp: count_ok_def wake_threads_crowd split: option.splits)
next
  case (DrainStore p) then show ?thesis using ok by (simp add: drain_store_def count_ok_def)
next
  case (Waiter c late)
  show ?thesis
  proof (cases "c < n")
    case True
    note upd = crowd_upd [OF True, of _ "ec_w s"]
    show ?thesis
    proof (cases "ec_w s c")
      case (CLeave r)
      then show ?thesis using ok True Waiter upd(3) [of "CClear r"] by (simp add: count_ok_def)
    qed (use ok True Waiter in \<open>simp_all add: count_ok_def upd(1,2) upd(3) [of CIdle]\<close>)
  qed (use Waiter ok in simp)
qed

lemma buf_ok_step: "buf_ok s \<Longrightarrow> buf_ok (ec_step n co True a s)"
proof (cases a)
  case (Publish p kind)
  assume "buf_ok s" with Publish show ?thesis by (auto simp: publish_then_def buf_ok_def)
next
  case (Notifier p c)
  assume "buf_ok s" with Notifier show ?thesis
    by (cases "ec_n s p") (auto simp: buf_ok_def split: option.splits)
next
  case (DrainStore p)
  assume "buf_ok s" with DrainStore show ?thesis by (auto simp: drain_store_def buf_ok_def)
next
  case (Waiter c late)
  assume "buf_ok s" with Waiter show ?thesis by (cases "ec_w s c") (auto simp: buf_ok_def)
qed

text \<open>While a wake is pending its epoch is about to move, or has moved past every waiter's key.\<close>

lemma pending_step:
  assumes keys: "keys_ok n s" and b: "ec_bumps (ec_step n co fe a s) < 2 ^ 32"
    and ok: "ec_pending s \<longrightarrow> bumping s \<or> all_stale n s"
  shows "ec_pending (ec_step n co fe a s) \<longrightarrow>
    bumping (ec_step n co fe a s) \<or> all_stale n (ec_step n co fe a s)"
proof (cases a)
  case (Publish p kind)
  then show ?thesis using ok by (auto simp: publish_then_def all_stale_def)
next
  case (Notifier p c)
  show ?thesis
  proof (cases "bump_pc (ec_n s p)")
    case True
    then obtain kind where p: "ec_n s p = PBump kind" by (cases "ec_n s p") auto
    show ?thesis
      using ok keys b Notifier p key_le_next
      by (cases "0 < ec_buf s p") (auto simp: keys_ok_def all_stale_def)
  next
    case False
    then show ?thesis
      using ok Notifier
      by (cases "ec_n s p")
        (auto simp: all_stale_def wake_threads_same split: option.splits)
  qed
next
  case (DrainStore p)
  then show ?thesis using ok by (auto simp: drain_store_def all_stale_def)
next
  case (Waiter c late)
  then show ?thesis
    using ok by (cases "ec_w s c") (auto simp: all_stale_def)
qed

section \<open>Somebody will look\<close>

text \<open>
  The one step that gives up: a re-check that found nothing, with the epoch where it was. If it is
  not that step, whoever was sure to look again still is.
\<close>

definition gives_up :: "ec_act \<Rightarrow> ec \<Rightarrow> bool" where
  "gives_up a s \<longleftrightarrow> (case a of Waiter c late \<Rightarrow>
     ec_items s = 0 \<and> ec_w s c = CTry (ec_epoch s) | _ \<Rightarrow> False)"

lemma awake_waiter:
  assumes "\<not> gives_up (Waiter c late) s" "c < n" "someone_awake n s"
  shows "someone_awake n (ec_step n co fe (Waiter c late) s)"
proof -
  obtain d where d: "d < n" "awake (ec_epoch s) (ec_w s d)"
    using assms(3) by (auto simp: someone_awake_def)
  have "awake (ec_epoch (ec_step n co fe (Waiter c late) s))
      (ec_w (ec_step n co fe (Waiter c late) s) d)"
    using assms(1,2) d by (cases "ec_w s c") (auto simp: gives_up_def)
  then show ?thesis using d(1) by (auto simp: someone_awake_def)
qed

lemma blocked_leaves_stale:
  assumes "all_stale n s" "c < n"
  shows "someone_awake n (ec_step n co fe (Waiter c late) s) \<or>
    all_stale n (ec_step n co fe (Waiter c late) s)"
proof (cases "blocked (ec_w s c)")
  case True
  then obtain k where "ec_w s c = CBlocked k" by (cases "ec_w s c") auto
  then show ?thesis using assms by (auto simp: all_stale_def someone_awake_def)
next
  case False
  then have "awake (ec_epoch s) (ec_w s c)" using assms by (simp add: all_stale_def stale_awake)
  moreover have "stale (ec_epoch s) (ec_w s c)" using assms by (simp add: all_stale_def)
  ultimately have "awake (ec_epoch (ec_step n co fe (Waiter c late) s))
      (ec_w (ec_step n co fe (Waiter c late) s) c)"
    using assms(2) False by (cases "ec_w s c") auto
  then show ?thesis using assms(2) by (auto simp: someone_awake_def)
qed

lemma sure_notifier:
  assumes n: "0 < n" and keys: "keys_ok n s" and b: "ec_bumps (ec_step n co fe (Notifier p c) s) < 2 ^ 32"
    and ok: "sure n s"
  shows "sure n (ec_step n co fe (Notifier p c) s)"
proof (cases "ec_n s p")
  case (PBump kind)
  show ?thesis
  proof (cases "0 < ec_buf s p")
    case True then show ?thesis using ok PBump by simp
  next
    case False
    then have "waking (ec_step n co fe (Notifier p c) s)" "all_stale n (ec_step n co fe (Notifier p c) s)"
      using PBump keys b key_le_next by (auto simp: all_stale_def keys_ok_def intro: some_pc_new)
    then show ?thesis by (simp add: sure_def)
  qed
next
  case (PWake kind)
  show ?thesis
  proof (cases "wake_threads n kind c (ec_w s)")
    case None then show ?thesis using ok PWake by simp
  next
    case (Some w)
    have "bumping (ec_step n co fe (Notifier p c) s)" if "bumping s"
      using that PWake Some by simp
    moreover have "someone_awake n (ec_step n co fe (Notifier p c) s)" if "someone_awake n s"
      using that PWake Some wake_threads_same(4) [OF Some] by (auto simp: someone_awake_def)
    moreover have "someone_awake n (ec_step n co fe (Notifier p c) s)" if "all_stale n s"
      using that PWake Some wake_reaches [OF Some _ n] by (auto simp: someone_awake_def all_stale_def)
    ultimately show ?thesis using ok by (auto simp: sure_def)
  qed
qed (use ok in \<open>auto simp: sure_def all_stale_def someone_awake_def\<close>)

lemma sure_step:
  assumes "0 < n" "keys_ok n s" "ec_bumps (ec_step n co fe a s) < 2 ^ 32"
    and ok: "sure n s" and a: "\<not> gives_up a s"
  shows "sure n (ec_step n co fe a s)"
proof (cases a)
  case (Publish p kind)
  then show ?thesis
    using ok by (auto simp: publish_then_def sure_def all_stale_def someone_awake_def)
next
  case (Notifier p c)
  then show ?thesis using sure_notifier assms by simp
next
  case (DrainStore p)
  then show ?thesis
    using ok by (auto simp: drain_store_def sure_def all_stale_def someone_awake_def)
next
  case (Waiter c late)
  have same: "ec_n (ec_step n co fe (Waiter c late) s) = ec_n s" by (cases "ec_w s c") auto
  show ?thesis
  proof (cases "c < n")
    case True
    then show ?thesis
      using ok a Waiter awake_waiter [of c late s n] blocked_leaves_stale [of n s c] same
      unfolding sure_def by metis
  qed (use ok Waiter in simp)
qed

lemma gives_up_quiet:
  assumes "gives_up a s"
  shows "ec_items s = 0" "ec_n (ec_step n co fe a s) = ec_n s"
    "ec_items (ec_step n co fe a s) = 0" "ec_pending (ec_step n co fe a s) = ec_pending s"
  using assms by (auto simp: gives_up_def split: ec_act.splits)

text \<open>Where something becomes pending, or an item is left with no notifier coming for it.\<close>

lemma newly_waiting:
  assumes n: "0 < n" "n < 2 ^ 32" and ok: "ec_ok n s" "\<not> sure n s"
    and wait: "ec_pending (ec_step n co True a s) \<or>
      0 < ec_items (ec_step n co True a s) \<and> \<not> coming (ec_step n co True a s)"
  shows "sure n (ec_step n co True a s)"
proof -
  have idle: "\<not> ec_pending s" "ec_items s = 0 \<or> coming s" using ok by (auto simp: ec_ok_def)
  have off: "ec_waiters s \<noteq> 0"
  proof
    assume "ec_waiters s = 0"
    moreover have "crowd n (ec_w s) < 2 ^ 32" using crowd_le [of n "ec_w s"] n(2) by simp
    ultimately have "crowd n (ec_w s) = 0"
      using ok(1) by (simp add: ec_ok_def count_ok_def word_unat_eq_iff unat_of_nat)
    then have "\<not> registered (ec_w s 0)" using n(1) by (rule crowd_0)
    then have "awake (ec_epoch s) (ec_w s 0)" by (cases "ec_w s 0") auto
    then show False using ok(2) n(1) by (auto simp: sure_def someone_awake_def)
  qed
  show ?thesis
  proof (cases a)
    case (Publish p kind)
    then show ?thesis
      using wait idle some_pcI by (auto simp: publish_then_def split: if_splits)
  next
    case (Notifier p c)
    then show ?thesis
      using wait idle off
      by (cases "ec_n s p")
        (auto simp: sure_def intro: some_pc_new split: if_splits option.splits)
  next
    case (DrainStore p)
    have "coming s" if buf: "0 < ec_buf s p"
    proof -
      obtain kind where "ec_n s p = PFence kind" 
        using ok(1) buf unfolding ec_ok_def buf_ok_def by blast
      then show ?thesis by (auto intro!: some_pcI [of _ _ p])
    qed
    then show ?thesis using wait idle DrainStore by (auto simp: drain_store_def split: if_splits)
  next
    case (Waiter c late)
    have "ec_n (ec_step n co True a s) = ec_n s" "\<not> ec_pending (ec_step n co True a s)"
      "ec_items (ec_step n co True a s) \<le> ec_items s"
      using idle(1) Waiter by (cases "ec_w s c"; auto)+
    then show ?thesis using wait idle by auto
  qed
qed

lemma ec_ok_step:
  assumes n: "0 < n" "n < 2 ^ 32" and ok: "ec_ok n s"
    and b: "ec_bumps (ec_step n co True a s) < 2 ^ 32"
  shows "ec_ok n (ec_step n co True a s)"
proof -
  let ?s = "ec_step n co True a s"
  have parts: "keys_ok n s" "count_ok n s" "buf_ok s" "ec_pending s \<longrightarrow> bumping s \<or> all_stale n s"
    using ok by (simp_all add: ec_ok_def)
  note stale = pending_step [OF parts(1) b parts(4)]
  have "sure n ?s" if w: "ec_pending ?s \<or> 0 < ec_items ?s \<and> \<not> coming ?s"
  proof (cases "gives_up a s")
    case True
    have quiet: "ec_items s = 0" "ec_items ?s = 0" "ec_pending ?s = ec_pending s"
      using gives_up_quiet [OF True] by simp_all
    then have "ec_pending ?s" "ec_pending s" using w by auto
    then have "bumping ?s \<or> all_stale n ?s" "sure n s" using stale ok by (auto simp: ec_ok_def)
    moreover have "sure n ?s" if all: "all_stale n ?s" "\<not> bumping ?s"
    proof -
      obtain c late where a: "a = Waiter c late" "ec_w s c = CTry (ec_epoch s)"
        using True by (auto simp: gives_up_def split: ec_act.splits)
      show ?thesis
      proof (cases "c < n")
        case True
        then have "ec_w ?s c = CLoop (ec_epoch s)" "ec_epoch ?s = ec_epoch s"
          using a quiet(1) by simp_all
        then show ?thesis using all(1) True by (auto simp: all_stale_def)
      qed (use \<open>sure n s\<close> a in simp)
    qed
    ultimately show ?thesis by (auto simp: sure_def)
  next
    case False
    then show ?thesis
      using sure_step [OF n(1) parts(1) b _ False] newly_waiting [OF n ok _ w] by blast
  qed
  then show ?thesis
    using keys_ok_step [OF parts(1) b] count_ok_step [OF parts(2)] buf_ok_step [OF parts(3)] stale
    by (simp add: ec_ok_def)
qed

lemma ec_reach_ok:
  assumes "0 < n" "n < 2 ^ 32"
  shows "ec_reach n co True s \<Longrightarrow> ec_bumps s < 2 ^ 32 \<Longrightarrow> ec_ok n s"
proof (induction rule: ec_reach.induct)
  case ec_start
  show ?case using assms(1) by (rule ec_ok_init)
next
  case (ec_next s a)
  then show ?case using bumps_mono [of s n co True a] ec_ok_step [OF assms, of s co a] by simp
qed

text \<open>
  C7: Nobody sleeps through a publication. With the fence, with or without coalescing, whichever of
  the three notifications each publication is followed by, and however long stores stay buffered, with
  fewer than \<open>2 ^ 32\<close> waiters and epoch bumps:
  when every notifier has returned and every waiter is blocked, there is no item left.
\<close>

theorem no_missed_publication:
  assumes "ec_reach n coalesce True s" "0 < n" "n < 2 ^ 32" "ec_bumps s < 2 ^ 32"
    and "\<forall>p. ec_n s p = PIdle" "\<forall>c < n. blocked (ec_w s c)"
  shows "ec_items s = 0 \<and> ec_buf s p = 0"
proof -
  have ok: "ec_ok n s" by (rule ec_reach_ok) (use assms in auto)
  have asleep: "\<not> awake (ec_epoch s) (ec_w s c)" if "c < n" for c
    using assms(6) that by (cases "ec_w s c") auto
  then have "\<not> sure n s" using assms(5) by (auto simp: sure_def some_pc_def someone_awake_def)
  moreover have "\<not> coming s" using assms(5) by (auto simp: some_pc_def)
  ultimately show ?thesis using ok assms(5) by (auto simp: ec_ok_def buf_ok_def)
qed

text \<open>One waiter sleeps, is woken for an item, takes it and sleeps again.\<close>

definition wait_trace :: "ec_act list" where
  "wait_trace =
     (let w = Waiter 0 False; p = Notifier 7 0 in
      [w, w, w, w, w, w, Publish 7 NotifyOne, DrainStore 7, p, p, p, p, p, p,
       w, w, w, w, w, w, w, w, w, w])"

lemma no_missed_publication_witness:
  "ec_items (fold (ec_step 1 True True) wait_trace ec_init) = 0 \<and>
   ec_buf (fold (ec_step 1 True True) wait_trace ec_init) 7 = 0"
proof (rule no_missed_publication [where n = 1 and coalesce = True])
  show "ec_reach 1 True True (fold (ec_step 1 True True) wait_trace ec_init)"
    by (rule ec_run [OF ec_start])
qed (simp_all add: wait_trace_def ec_init_def publish_then_def drain_store_def wake_threads_def
    set_w_def set_n_def Let_def)

text \<open>
  The fast path without its fence: the publication is still in the store buffer when the notifier
  finds nobody counted and leaves; the waiter counts itself, finds no item, and blocks; the store
  comes out.
\<close>

definition no_fence_trace :: "ec_act list" where
  "no_fence_trace =
     (let w = Waiter 0 False in
      [Publish 0 NotifyOne, Notifier 0 0, Notifier 0 0, w, w, w, w, w, w, DrainStore 0])"

text \<open>
  The fence of \<open>notify_one\<close> is needed. Without it there is a run after which every store is
  out, every notifier has returned and the only waiter is blocked with its epoch unmoved, while
  an item is there: only the backstop can end that wait.
\<close>

theorem no_fence_misses:
  "\<exists>s. ec_reach 1 True False s \<and> (\<forall>p. ec_n s p = PIdle \<and> ec_buf s p = 0) \<and>
     ec_w s 0 = CBlocked (ec_epoch s) \<and> ec_items s = 1"
proof (intro exI conjI)
  show "ec_reach 1 True False (fold (ec_step 1 True False) no_fence_trace ec_init)"
    by (rule ec_run [OF ec_start])
qed (simp_all add: no_fence_trace_def ec_init_def publish_then_def drain_store_def
    set_w_def set_n_def Let_def)

section \<open>EpochWake\<close>

text \<open>
  The outline's protocol on the same state: nobody is counted, and every notification advances the
  epoch and wakes. \<open>notify_all_if_waiting\<close> is \<open>notify_all\<close>.
\<close>

fun epoch_waiter :: "nat \<Rightarrow> bool \<Rightarrow> waiter_pc \<Rightarrow> ec \<Rightarrow> ec" where
  "epoch_waiter c late (CTry k) s =
     (if 0 < ec_items s then set_w c CIdle (s\<lparr>ec_items := ec_items s - 1\<rparr>) else set_w c (CLoop k) s)"
| "epoch_waiter c late (CLoop k) s =
     (if ec_epoch s \<noteq> k \<or> late then set_w c CIdle s else set_w c (CCall k) s)"
| "epoch_waiter c late (CCall k) s =
     (if ec_epoch s = k \<and> \<not> late then set_w c (CBlocked k) s else set_w c (CLoop k) s)"
| "epoch_waiter c late (CBlocked k) s = (if late then set_w c (CLoop k) s else s)"
| "epoch_waiter c late _ s =
     (if 0 < ec_items s then s\<lparr>ec_items := ec_items s - 1\<rparr> else set_w c (CTry (ec_epoch s)) s)"

fun epoch_notifier :: "nat \<Rightarrow> nat \<Rightarrow> nat \<Rightarrow> notifier_pc \<Rightarrow> ec \<Rightarrow> ec" where
  "epoch_notifier n p c (PBump kind) s =
     (if 0 < ec_buf s p then s
      else set_n p (PWake kind) (s\<lparr>ec_epoch := ec_epoch s + 1, ec_bumps := ec_bumps s + 1\<rparr>))"
| "epoch_notifier n p c (PWake kind) s =
     (case wake_threads n kind c (ec_w s) of None \<Rightarrow> s
      | Some w \<Rightarrow> set_n p PIdle (s\<lparr>ec_w := w\<rparr>))"
| "epoch_notifier n p c _ s = s"

fun ew_step :: "nat \<Rightarrow> ec_act \<Rightarrow> ec \<Rightarrow> ec" where
  "ew_step n (Publish p kind) s =
     (if ec_n s p = PIdle then set_n p (PBump kind) (s\<lparr>ec_buf := (ec_buf s)(p := ec_buf s p + 1)\<rparr>)
      else s)"
| "ew_step n (Notifier p c) s = epoch_notifier n p c (ec_n s p) s"
| "ew_step n (DrainStore p) s = drain_store p s"
| "ew_step n (Waiter c late) s = (if c < n then epoch_waiter c late (ec_w s c) s else s)"

inductive ew_reach :: "nat \<Rightarrow> ec \<Rightarrow> bool" for n where
  ew_start: "ew_reach n ec_init"
| ew_next: "ew_reach n s \<Longrightarrow> ew_reach n (ew_step n a s)"

lemma ew_run: "ew_reach n s \<Longrightarrow> ew_reach n (fold (ew_step n) as s)"
  by (induction "as" arbitrary: s) (simp_all add: ew_next)

definition ew_ok :: "nat \<Rightarrow> ec \<Rightarrow> bool" where
  "ew_ok n s \<longleftrightarrow> keys_ok n s \<and> (\<forall>p. 0 < ec_buf s p \<longrightarrow> bump_pc (ec_n s p)) \<and>
     (0 < ec_items s \<longrightarrow> sure n s)"

lemma ew_bumps_mono: "ec_bumps s \<le> ec_bumps (ew_step n a s)"
proof (cases a)
  case (Notifier p c) then show ?thesis by (cases "ec_n s p") (auto split: option.splits)
next
  case (Waiter c late) then show ?thesis by (cases "ec_w s c") auto
qed (simp_all add: drain_store_def)

lemma ew_keys_step:
  assumes ok: "keys_ok n s" and b: "ec_bumps (ew_step n a s) < 2 ^ 32"
  shows "keys_ok n (ew_step n a s)"
proof (cases a)
  case (Notifier p c)
  then show ?thesis
    using ok b
    by (cases "ec_n s p")
      (auto simp: keys_ok_def wake_threads_same epoch_next key_le_next split: option.splits if_splits)
next
  case (Waiter c late) then show ?thesis using ok by (cases "ec_w s c") (auto simp: keys_ok_def)
qed (use ok in \<open>simp_all add: drain_store_def keys_ok_def\<close>)

lemma ew_buf_step:
  "\<forall>p. 0 < ec_buf s p \<longrightarrow> bump_pc (ec_n s p) \<Longrightarrow>
   \<forall>p. 0 < ec_buf (ew_step n a s) p \<longrightarrow> bump_pc (ec_n (ew_step n a s) p)"
proof (cases a)
  case (Notifier p c)
  assume "\<forall>p. 0 < ec_buf s p \<longrightarrow> bump_pc (ec_n s p)" with Notifier show ?thesis
    by (cases "ec_n s p") (auto split: option.splits)
next
  case (Waiter c late)
  assume "\<forall>p. 0 < ec_buf s p \<longrightarrow> bump_pc (ec_n s p)" with Waiter show ?thesis
    by (cases "ec_w s c") auto
qed (auto simp: drain_store_def)

lemma ew_sure_notifier:
  assumes n: "0 < n" and keys: "keys_ok n s" and b: "ec_bumps (ew_step n (Notifier p c) s) < 2 ^ 32"
    and ok: "sure n s"
  shows "sure n (ew_step n (Notifier p c) s)"
proof -
  consider (bump) kind where "ec_n s p = PBump kind" | (wake) kind where "ec_n s p = PWake kind"
    | (other) "ew_step n (Notifier p c) s = s"
    by (cases "ec_n s p") auto
  then show ?thesis
  proof cases
    case bump
    then have "ew_step n (Notifier p c) s = ec_step n True True (Notifier p c) s" by simp
    then show ?thesis using sure_notifier [OF n keys, of True True p c] b ok by simp
  next
    case wake
    then have "ew_step n (Notifier p c) s = ec_step n True True (Notifier p c) s" by simp
    then show ?thesis using sure_notifier [OF n keys, of True True p c] b ok by simp
  qed (use ok in simp)
qed

lemma ew_sure_waiter:
  assumes "c < n" "0 < ec_items s" "sure n s"
  shows "sure n (ew_step n (Waiter c late) s)"
proof -
  let ?s = "ew_step n (Waiter c late) s"
  have same: "ec_n ?s = ec_n s" "ec_epoch ?s = ec_epoch s" "\<And>d. d \<noteq> c \<Longrightarrow> ec_w ?s d = ec_w s d"
    using assms(1,2) by (cases "ec_w s c"; auto)+
  have kept: "awake (ec_epoch s) (ec_w ?s c)" if "awake (ec_epoch s) (ec_w s c)"
    using that assms(1,2) by (cases "ec_w s c") auto
  have stays: "stale (ec_epoch s) (ec_w ?s c)" if "stale (ec_epoch s) (ec_w s c)"
    using that assms(1,2) by (cases "ec_w s c") auto
  have "someone_awake n ?s" if "someone_awake n s"
    using that kept same by (auto simp: someone_awake_def) metis
  moreover have "all_stale n ?s" if "all_stale n s"
    using that stays same by (auto simp: all_stale_def) metis
  ultimately show ?thesis using assms(3) same(1) by (auto simp: sure_def)
qed

lemma ew_ok_step:
  assumes n: "0 < n" and ok: "ew_ok n s" and b: "ec_bumps (ew_step n a s) < 2 ^ 32"
  shows "ew_ok n (ew_step n a s)"
proof -
  have parts: "keys_ok n s" "\<forall>p. 0 < ec_buf s p \<longrightarrow> bump_pc (ec_n s p)" "0 < ec_items s \<longrightarrow> sure n s"
    using ok by (simp_all add: ew_ok_def)
  have "sure n (ew_step n a s)" if i: "0 < ec_items (ew_step n a s)"
  proof (cases a)
    case (Publish p kind)
    then show ?thesis using i parts(3) by (auto simp: sure_def all_stale_def someone_awake_def intro: some_pc_new)
  next
    case (Notifier p c)
    have "ec_items (ew_step n a s) = ec_items s"
      using Notifier by (cases "ec_n s p") (auto split: option.splits)
    then show ?thesis using ew_sure_notifier [OF n parts(1)] Notifier b i parts(3) by simp
  next
    case (DrainStore p)
    have "bumping s" if "0 < ec_buf s p" using parts(2) that by (auto intro: some_pcI)
    then show ?thesis
      using DrainStore i parts(3) by (auto simp: drain_store_def sure_def all_stale_def someone_awake_def)
  next
    case (Waiter c late)
    have "ec_items (ew_step n a s) \<le> ec_items s" using Waiter by (cases "ec_w s c") auto
    then have "0 < ec_items s" using i by simp
    then show ?thesis using Waiter ew_sure_waiter parts(3) by (cases "c < n") auto
  qed
  then show ?thesis using ew_keys_step [OF parts(1) b] ew_buf_step [OF parts(2)] by (simp add: ew_ok_def)
qed

lemma ew_reach_ok:
  assumes "0 < n"
  shows "ew_reach n s \<Longrightarrow> ec_bumps s < 2 ^ 32 \<Longrightarrow> ew_ok n s"
proof (induction rule: ew_reach.induct)
  case ew_start
  show ?case by (simp add: ew_ok_def keys_ok_def ec_init_def)
next
  case (ew_next s a)
  then show ?case using ew_bumps_mono [of s n a] ew_ok_step [OF assms, of s a] by simp
qed

text \<open>
  The outline's protocol needs no fence: when every notifier has returned and every waiter is
  blocked there is no item left, because its notifier always stores before anyone can look.
\<close>

theorem epoch_wake_needs_no_fence:
  assumes "ew_reach n s" "0 < n" "ec_bumps s < 2 ^ 32"
    and "\<forall>p. ec_n s p = PIdle" "\<forall>c < n. blocked (ec_w s c)"
  shows "ec_items s = 0 \<and> ec_buf s p = 0"
proof -
  have ok: "ew_ok n s" by (rule ew_reach_ok) (use assms in auto)
  have "\<not> awake (ec_epoch s) (ec_w s c)" if "c < n" for c
    using assms(5) that by (cases "ec_w s c") auto
  then have "\<not> sure n s" using assms(4) by (auto simp: sure_def some_pc_def someone_awake_def)
  then show ?thesis using ok assms(4) by (auto simp: ew_ok_def)
qed

definition epoch_trace :: "ec_act list" where
  "epoch_trace =
     (let w = Waiter 0 False; p = Notifier 7 0 in
      [w, w, w, w, Publish 7 NotifyOne, DrainStore 7, p, p, w, w, w, w, w, w])"

lemma epoch_wake_needs_no_fence_witness:
  "ec_items (fold (ew_step 1) epoch_trace ec_init) = 0 \<and>
   ec_buf (fold (ew_step 1) epoch_trace ec_init) 7 = 0"
proof (rule epoch_wake_needs_no_fence [where n = 1])
  show "ew_reach 1 (fold (ew_step 1) epoch_trace ec_init)" by (rule ew_run [OF ew_start])
qed (simp_all add: epoch_trace_def ec_init_def drain_store_def wake_threads_def
    set_w_def set_n_def Let_def)

end
