(* ===== verification/Mpmc_Queue.thy ===== *)
theory Mpmc_Queue
  imports Tq_Api
begin

text \<open>
  mpmc-work-queue-kata/cpp/src/mpmc_queue.hpp: the bounded MPMC ring whose slots carry their own
  sequence number, as a machine of threads that interleave at every access to shared memory.
  A thread's program counter says which access comes next and carries the local variables that
  are live there; \<open>wstep\<close> is one access, with the code up to the next one. The accesses
  interleave sequentially consistently. The wake-ups that surround these accesses have no effect
  on them and are the subject of other theories.

  The \<open>trace\<close> is instrumentation: what each access did, for the theorems to speak about. A
  \<open>Fault\<close> is an object constructed over a live one, or read where there is none.

  The argument \<open>bug\<close> is \<open>O.bug == Bug::no_full_check\<close>.
\<close>

section \<open>Memory\<close>

definition kClosed :: u64 where "kClosed = 1"
definition kDead :: u64 where "kDead = 0x8000000000000000"

record 'a mpmc =
  tail_w :: u64
  head_w :: u64
  seqs :: "u64 list"
  store :: "'a option list"

definition new_mpmc :: "nat \<Rightarrow> 'a mpmc" where
  "new_mpmc n =
     \<lparr>tail_w = 0, head_w = 0, seqs = map (\<lambda>i. of_nat i) [0..<n], store = replicate n None\<rparr>"

definition slot :: "'a mpmc \<Rightarrow> u64 \<Rightarrow> nat" where
  "slot q pos = slot_ix (length (seqs q)) pos"

definition seq_at :: "'a mpmc \<Rightarrow> u64 \<Rightarrow> u64" where
  "seq_at q pos = seqs q ! slot q pos"

definition set_seq :: "u64 \<Rightarrow> u64 \<Rightarrow> 'a mpmc \<Rightarrow> 'a mpmc" where
  "set_seq pos s q = q\<lparr>seqs := (seqs q)[slot q pos := s]\<rparr>"

definition set_store :: "u64 \<Rightarrow> 'a option \<Rightarrow> 'a mpmc \<Rightarrow> 'a mpmc" where
  "set_store pos x q = q\<lparr>store := (store q)[slot q pos := x]\<rparr>"

section \<open>Threads\<close>

text \<open>
  Program counters. The type parameters are the value pushed, a tail word, a position and a
  slot's sequence word, so that the protocol with unbounded positions can share them.
\<close>


datatype ('a, 't, 'p, 's) pc =
    Idle
  | PushReload 'a             \<comment> \<open>\<open>try_push\<close>: load the tail\<close>
  | PushLook 'a 't            \<comment> \<open>test the closed bit, load the slot's sequence\<close>
  | PushCas 'a 't             \<comment> \<open>compare-and-swap the tail\<close>
  | TicketTake 'a             \<comment> \<open>\<open>push\<close> by ticket: fetch-and-add the tail\<close>
  | TicketWait 'a 't          \<comment> \<open>\<open>await_turn\<close>: load the slot's sequence until it is ours\<close>
  | TicketPay 't              \<comment> \<open>the queue was closed: publish a tombstone\<close>
  | Construct 'a 'p           \<comment> \<open>\<open>publish\<close>: construct the object\<close>
  | Publish 'a 'p             \<comment> \<open>store the sequence\<close>
  | PopReload                 \<comment> \<open>\<open>try_pop\<close>: load the head\<close>
  | PopLook 'p                \<comment> \<open>load the slot's sequence\<close>
  | PopCas 'p 's              \<comment> \<open>compare-and-swap the head\<close>
  | Read 'p                   \<comment> \<open>\<open>consume\<close>: move the object out and destroy it\<close>
  | Release 'p 'a             \<comment> \<open>\<open>release\<close>: store the sequence of the next lap\<close>
  | ReleaseDead 'p            \<comment> \<open>the same for a tombstone\<close>
  | DrainHead 't              \<comment> \<open>\<open>pop\<close> after a close: compare the head with the tail\<close>

datatype 'a op = TryPush 'a | TicketPush 'a | TryPop | DrainCheck | Close

datatype ('a, 'p) ev =
    EvReserve nat 'p "'a option"   \<comment> \<open>a position reserved; no value if the queue was closed\<close>
  | EvPush nat push_res            \<comment> \<open>a push returned\<close>
  | EvDeliver nat 'p 'a            \<comment> \<open>a pop returned ok\<close>
  | EvEmpty nat
  | EvDrained nat
  | EvClose nat
  | EvFault

type_synonym 'a wpc = "('a, u64, u64, u64) pc"
type_synonym 'a wev = "('a, u64) ev"

text \<open>The signed difference of two positions, \<open>static_cast<std::int64_t>(a - b)\<close>.\<close>

definition sdif :: "u64 \<Rightarrow> u64 \<Rightarrow> int" where
  "sdif a b = sint (a - b)"

definition is_closed :: "u64 \<Rightarrow> bool" where
  "is_closed w \<longleftrightarrow> w AND kClosed \<noteq> 0"

definition start_op :: "nat \<Rightarrow> 'a op \<Rightarrow> 'a mpmc \<Rightarrow> 'a mpmc \<times> 'a wpc \<times> 'a wev list" where
  "start_op t p q =
     (case p of
        TryPush v \<Rightarrow> (q, PushLook v (tail_w q), [])
      | TicketPush v \<Rightarrow>
          if is_closed (tail_w q) then (q, Idle, [EvPush t PushClosed]) else (q, TicketTake v, [])
      | TryPop \<Rightarrow> (q, PopLook (head_w q), [])
      | DrainCheck \<Rightarrow> if is_closed (tail_w q) then (q, DrainHead (tail_w q), []) else (q, Idle, [])
      | Close \<Rightarrow> (q\<lparr>tail_w := tail_w q OR kClosed\<rparr>, Idle, [EvClose t]))"

text \<open>
  The accesses, in the order the code makes them. Each returns the memory, the next program
  counter and what happened. \<open>weak\<close> is a spurious failure of \<open>compare_exchange_weak\<close>, which
  leaves the expected value reloaded like any other failure.
\<close>

definition push_look ::
  "bool \<Rightarrow> nat \<Rightarrow> 'a \<Rightarrow> u64 \<Rightarrow> 'a mpmc \<Rightarrow> 'a mpmc \<times> 'a wpc \<times> 'a wev list" where
  "push_look bug t v word q =
     (if is_closed word then (q, Idle, [EvPush t PushClosed])
      else
        let pos = drop_bit 1 word;
            dif = sdif (seq_at q pos AND NOT kDead) pos
        in if dif = 0 \<or> (bug \<and> dif < 0) then (q, PushCas v word, [])
           else if dif < 0 then (q, Idle, [EvPush t PushFull])
           else (q, PushReload v, []))"

definition push_cas ::
  "bool \<Rightarrow> nat \<Rightarrow> 'a \<Rightarrow> u64 \<Rightarrow> 'a mpmc \<Rightarrow> 'a mpmc \<times> 'a wpc \<times> 'a wev list" where
  "push_cas weak t v word q =
     (if tail_w q = word \<and> \<not> weak
      then (q\<lparr>tail_w := word + 2\<rparr>, Construct v (drop_bit 1 word),
            [EvReserve t (drop_bit 1 word) (Some v)])
      else (q, PushLook v (tail_w q), []))"

definition ticket_take :: "nat \<Rightarrow> 'a \<Rightarrow> 'a mpmc \<Rightarrow> 'a mpmc \<times> 'a wpc \<times> 'a wev list" where
  "ticket_take t v q =
     (let word = tail_w q in
      (q\<lparr>tail_w := word + 2\<rparr>, TicketWait v word,
       [EvReserve t (drop_bit 1 word) (if is_closed word then None else Some v)]))"

definition await_turn :: "'a \<Rightarrow> u64 \<Rightarrow> 'a mpmc \<Rightarrow> 'a mpmc \<times> 'a wpc \<times> 'a wev list" where
  "await_turn v word q =
     (let pos = drop_bit 1 word in
      if seq_at q pos = pos
      then if is_closed word then (q, TicketPay word, []) else (q, Construct v pos, [])
      else (q, TicketWait v word, []))"

definition ticket_pay :: "nat \<Rightarrow> u64 \<Rightarrow> 'a mpmc \<Rightarrow> 'a mpmc \<times> 'a wpc \<times> 'a wev list" where
  "ticket_pay t word q =
     (let pos = drop_bit 1 word in
      (set_seq pos ((pos + 1) OR kDead) q, Idle, [EvPush t PushClosed]))"

definition construct :: "'a \<Rightarrow> u64 \<Rightarrow> 'a mpmc \<Rightarrow> 'a mpmc \<times> 'a wpc \<times> 'a wev list" where
  "construct v pos q =
     (set_store pos (Some v) q, Publish v pos,
      if store q ! slot q pos = None then [] else [EvFault])"

definition publish_seq :: "nat \<Rightarrow> u64 \<Rightarrow> 'a mpmc \<Rightarrow> 'a mpmc \<times> 'a wpc \<times> 'a wev list" where
  "publish_seq t pos q = (set_seq pos (pos + 1) q, Idle, [EvPush t PushOk])"

definition pop_look :: "nat \<Rightarrow> u64 \<Rightarrow> 'a mpmc \<Rightarrow> 'a mpmc \<times> 'a wpc \<times> 'a wev list" where
  "pop_look t pos q =
     (let raw = seq_at q pos; dif = sdif (raw AND NOT kDead) (pos + 1) in
      if dif = 0 then (q, PopCas pos raw, [])
      else if dif < 0 then (q, Idle, [EvEmpty t])
      else (q, PopReload, []))"

definition pop_cas ::
  "bool \<Rightarrow> u64 \<Rightarrow> u64 \<Rightarrow> 'a mpmc \<Rightarrow> 'a mpmc \<times> 'a wpc \<times> 'a wev list" where
  "pop_cas weak pos raw q =
     (if head_w q = pos \<and> \<not> weak
      then (q\<lparr>head_w := pos + 1\<rparr>,
            if raw AND kDead = 0 then Read pos else ReleaseDead pos, [])
      else (q, PopLook (head_w q), []))"

definition consume_read :: "u64 \<Rightarrow> 'a mpmc \<Rightarrow> 'a mpmc \<times> 'a wpc \<times> 'a wev list" where
  "consume_read pos q =
     (case store q ! slot q pos of
        None \<Rightarrow> (q, Idle, [EvFault])
      | Some v \<Rightarrow> (set_store pos None q, Release pos v, []))"

definition release_seq :: "u64 \<Rightarrow> 'a mpmc \<Rightarrow> 'a mpmc" where
  "release_seq pos q = set_seq pos (pos + of_nat (length (seqs q))) q"

definition drain_head :: "nat \<Rightarrow> u64 \<Rightarrow> 'a mpmc \<Rightarrow> 'a mpmc \<times> 'a wpc \<times> 'a wev list" where
  "drain_head t word q = (q, Idle, if head_w q = drop_bit 1 word then [EvDrained t] else [])"

lemmas access_defs [simp] =
  push_look_def push_cas_def ticket_take_def await_turn_def ticket_pay_def construct_def
  publish_seq_def pop_look_def pop_cas_def consume_read_def release_seq_def drain_head_def

text \<open>One access of thread \<open>t\<close>, by its program counter.\<close>

fun wstep :: "bool \<Rightarrow> bool \<Rightarrow> nat \<Rightarrow> 'a wpc \<Rightarrow> 'a mpmc \<Rightarrow> 'a mpmc \<times> 'a wpc \<times> 'a wev list" where
  "wstep bug weak t Idle q = (q, Idle, [])"
| "wstep bug weak t (PushReload v) q = (q, PushLook v (tail_w q), [])"
| "wstep bug weak t (PushLook v word) q = push_look bug t v word q"
| "wstep bug weak t (PushCas v word) q = push_cas weak t v word q"
| "wstep bug weak t (TicketTake v) q = ticket_take t v q"
| "wstep bug weak t (TicketWait v word) q = await_turn v word q"
| "wstep bug weak t (TicketPay word) q = ticket_pay t word q"
| "wstep bug weak t (Construct v pos) q = construct v pos q"
| "wstep bug weak t (Publish v pos) q = publish_seq t pos q"
| "wstep bug weak t PopReload q = (q, PopLook (head_w q), [])"
| "wstep bug weak t (PopLook pos) q = pop_look t pos q"
| "wstep bug weak t (PopCas pos raw) q = pop_cas weak pos raw q"
| "wstep bug weak t (Read pos) q = consume_read pos q"
| "wstep bug weak t (Release pos v) q = (release_seq pos q, Idle, [EvDeliver t pos v])"
| "wstep bug weak t (ReleaseDead pos) q = (release_seq pos q, PopLook (pos + 1), [])"
| "wstep bug weak t (DrainHead word) q = drain_head t word q"

section \<open>The system\<close>

record 'a wsys =
  w_mem :: "'a mpmc"
  w_pcs :: "nat \<Rightarrow> 'a wpc"
  w_trace :: "'a wev list"

datatype 'a act = Start nat "'a op" | Go nat bool

definition new_wsys :: "nat \<Rightarrow> 'a wsys" where
  "new_wsys n = \<lparr>w_mem = new_mpmc n, w_pcs = (\<lambda>_. Idle), w_trace = []\<rparr>"

fun wsys_step :: "bool \<Rightarrow> 'a act \<Rightarrow> 'a wsys \<Rightarrow> 'a wsys" where
  "wsys_step bug (Start t p) s =
     (if w_pcs s t = Idle
      then let (q, c, es) = start_op t p (w_mem s)
           in \<lparr>w_mem = q, w_pcs = (w_pcs s)(t := c), w_trace = w_trace s @ es\<rparr>
      else s)"
| "wsys_step bug (Go t weak) s =
     (let (q, c, es) = wstep bug weak t (w_pcs s t) (w_mem s)
      in \<lparr>w_mem = q, w_pcs = (w_pcs s)(t := c), w_trace = w_trace s @ es\<rparr>)"

definition wsys_run :: "bool \<Rightarrow> 'a act list \<Rightarrow> 'a wsys \<Rightarrow> 'a wsys" where
  "wsys_run bug as s = foldl (\<lambda>s a. wsys_step bug a s) s as"

text \<open>What a trace says was reserved and delivered, oldest first.\<close>

fun reserves :: "('a, 'p) ev list \<Rightarrow> (nat \<times> 'p \<times> 'a option) list" where
  "reserves [] = []"
| "reserves (EvReserve t p x # es) = (t, p, x) # reserves es"
| "reserves (_ # es) = reserves es"

fun delivers :: "('a, 'p) ev list \<Rightarrow> (nat \<times> 'p \<times> 'a) list" where
  "delivers [] = []"
| "delivers (EvDeliver t p v # es) = (t, p, v) # delivers es"
| "delivers (_ # es) = delivers es"

lemma reserves_append [simp]: "reserves (xs @ ys) = reserves xs @ reserves ys"
  by (induction xs rule: reserves.induct) simp_all

lemma delivers_append [simp]: "delivers (xs @ ys) = delivers xs @ delivers ys"
  by (induction xs rule: delivers.induct) simp_all

text \<open>The destructor: the positions whose objects it destroys.\<close>

function destroy_from :: "'a mpmc \<Rightarrow> u64 \<Rightarrow> u64 \<Rightarrow> u64 list" where
  "destroy_from q tw pos =
     (if pos = tw then []
      else (if seq_at q pos = pos + 1 then [pos] else []) @ destroy_from q tw (pos + 1))"
  by pat_completeness auto
termination
proof (relation "measure (\<lambda>(q, tw, pos). unat (tw - pos))")
  fix q :: "'a mpmc" and tw pos :: u64
  assume "pos \<noteq> tw"
  then have "tw - pos \<noteq> 0" by simp
  then have "unat (tw - pos - 1) < unat (tw - pos)" by (rule measure_unat)
  then show "((q, tw, pos + 1), (q, tw, pos)) \<in> measure (\<lambda>(q, tw, pos). unat (tw - pos))"
    by (simp add: diff_diff_eq)
qed simp

definition destructor :: "'a mpmc \<Rightarrow> u64 list" where
  "destructor q = destroy_from q (drop_bit 1 (tail_w q)) (head_w q)"

end
