(* ===== verification/Tq_Blocking.thy ===== *)
theory Tq_Blocking
  imports Mpmc_Queue
begin

text \<open>
  The blocking halves of mpmc_queue.hpp and sharded_queue.hpp: the loops of \<open>push\<close>, \<open>pop\<close> and
  \<open>await_turn\<close> around the single attempts, and how often wakes and pauses are issued.

  A loop is a function of what its calls answered, one record per turn: what the attempts
  returned, which words the loads read, whether the clock had passed \<open>until\<close>, how a wait ended.
  The answers are arbitrary, so a theorem holds whatever the other threads do in between. The loop
  returns \<open>None\<close> when the answers run out, otherwise its result, the statistics and the log of the
  calls it made. Spinning before the second attempt changes nothing and is not in the log.
\<close>

section \<open>Options\<close>

datatype reserve = Cas | Ticket
datatype bug = NoBug | RelaxedSeqLoad | RelaxedSeqStore | NoFence | NoFullCheck
datatype wake = EventCount | Epoch

record options =
  o_reserve :: reserve
  o_padded :: bool
  o_measure_window :: bool
  o_backoff :: bool
  o_coalesce_wakes :: bool
  o_batch_full_wakes :: bool
  o_wake :: wake
  o_park :: bool
  o_bug :: bug

definition default_options :: options where
  "default_options =
     \<lparr>o_reserve = Cas, o_padded = True, o_measure_window = False, o_backoff = False,
      o_coalesce_wakes = True, o_batch_full_wakes = True, o_wake = EventCount, o_park = True,
      o_bug = NoBug\<rparr>"

definition kSpins :: nat where "kSpins = 128"
definition kYields :: nat where "kYields = 64"

text \<open>The pauses after a lost race, and the next value of \<open>lost\<close>.\<close>

definition back_off :: "options \<Rightarrow> nat \<Rightarrow> nat \<times> nat" where
  "back_off opts lost = (if o_backoff opts then (2 ^ min lost 5, lost + 1) else (0, lost))"

lemma back_off_bound: "fst (back_off opts lost) \<le> 32"
proof -
  have "(2::nat) ^ min lost 5 \<le> 2 ^ 5" by (rule power_increasing) simp_all
  then show ?thesis by (simp add: back_off_def)
qed

section \<open>Calls\<close>

datatype call =
    TryPush push_res
  | TryPop pop_res
  | Prepare
  | Cancel
  | Park              \<comment> \<open>\<open>wait\<close> on the event count\<close>
  | PassOn            \<comment> \<open>\<open>chain_full_wake\<close>, or the wake after a pop\<close>
  | LookTail bool     \<comment> \<open>a load of the closed bit\<close>

text \<open>
  How often the caller is counted in \<open>waiters_\<close> after a log, from a given start; \<open>None\<close> is that it
  registered twice, or left without being registered.
\<close>

fun registrations :: "bool \<Rightarrow> call list \<Rightarrow> bool option" where
  "registrations r [] = Some r"
| "registrations r (Prepare # cs) = (if r then None else registrations True cs)"
| "registrations r (Cancel # cs) = (if r then registrations False cs else None)"
| "registrations r (Park # cs) = (if r then registrations False cs else None)"
| "registrations r (_ # cs) = registrations r cs"

fun push_tries :: "call list \<Rightarrow> push_res list" where
  "push_tries [] = []"
| "push_tries (TryPush r # cs) = r # push_tries cs"
| "push_tries (_ # cs) = push_tries cs"

fun pop_tries :: "call list \<Rightarrow> pop_res list" where
  "pop_tries [] = []"
| "pop_tries (TryPop r # cs) = r # pop_tries cs"
| "pop_tries (_ # cs) = pop_tries cs"

definition parks_in :: "call list \<Rightarrow> nat" where
  "parks_in cs = length (filter (\<lambda>c. c = Park) cs)"

lemma registrations_append:
  "registrations r (xs @ ys) = (case registrations r xs of None \<Rightarrow> None | Some r' \<Rightarrow> registrations r' ys)"
  by (induction r xs rule: registrations.induct) auto

lemma tries_append [simp]:
  "push_tries (xs @ ys) = push_tries xs @ push_tries ys" "pop_tries (xs @ ys) = pop_tries xs @ pop_tries ys"
  by (induction xs rule: push_tries.induct; simp) (induction xs rule: pop_tries.induct; simp)

section \<open>A blocking push\<close>

record push_turn =
  p_first :: push_res
  p_second :: push_res
  p_late :: bool

text \<open>
  One turn: the result if it returns. \<open>handoff\<close> is whether a producer that got in after parking
  passes the wake on, which the shared queue does and a ring of the sharded one, with its single
  producer, does not.
\<close>

definition push_turn :: "bool \<Rightarrow> bool \<Rightarrow> push_turn \<Rightarrow> push_res option \<times> call list" where
  "push_turn handoff parked t =
     (let pass = (\<lambda>r. if handoff \<and> parked \<and> r = PushOk then [PassOn] else []) in
      if p_first t \<noteq> PushFull then (Some (p_first t), TryPush (p_first t) # pass (p_first t))
      else if p_second t \<noteq> PushFull
      then (Some (p_second t), [TryPush PushFull, Prepare, TryPush (p_second t), Cancel] @ pass (p_second t))
      else if p_late t then (Some PushTimeout, [TryPush PushFull, Prepare, TryPush PushFull, Cancel])
      else (None, [TryPush PushFull, Prepare, TryPush PushFull, Park]))"

fun blocking_push ::
  "bool \<Rightarrow> bool \<Rightarrow> push_turn list \<Rightarrow> op_stats \<Rightarrow> (push_res \<times> op_stats \<times> call list) option" where
  "blocking_push handoff parked [] st = None"
| "blocking_push handoff parked (t # ts) st =
     (case push_turn handoff parked t of
        (Some r, cs) \<Rightarrow> Some (r, st, cs)
      | (None, cs) \<Rightarrow>
          map_option (\<lambda>(r, st', cs'). (r, st', cs @ cs'))
            (blocking_push handoff True ts (st\<lparr>parks := parks st + 1\<rparr>)))"

text \<open>
  A blocking push does what one attempt of it did. Its attempts all found the queue full but
  for the last, whose answer it returns, or it returns a timeout after nothing but full; it is
  deregistered from the event count when it returns; and it counts its parks.
\<close>

theorem blocking_push_is_one_attempt:
  assumes "blocking_push handoff parked ts st = Some (r, st', cs)"
    and "\<forall>t \<in> set ts. p_first t \<noteq> PushTimeout \<and> p_second t \<noteq> PushTimeout"
  shows "(\<exists>k. push_tries cs = replicate k PushFull @ (if r = PushTimeout then [] else [r])) \<and>
    r \<noteq> PushFull \<and> registrations False cs = Some False \<and>
    parks st' = parks st + of_nat (parks_in cs)"
  using assms
proof (induction ts arbitrary: parked st cs)
  case (Cons t ts)
  show ?case
  proof (cases "push_turn handoff parked t")
    case (Pair res cs1)
    show ?thesis
    proof (cases res)
      case (Some x)
      then show ?thesis
        using Cons.prems Pair
        by (auto simp: push_turn_def parks_in_def Let_def split: if_splits
            intro: exI [of _ 0] exI [of _ 1] exI [of _ "Suc (Suc 0)"])
    next
      case None
      then obtain cs2 where rest: "blocking_push handoff True ts (st\<lparr>parks := parks st + 1\<rparr>) = Some (r, st', cs2)"
        and cs: "cs = cs1 @ cs2" and cs1: "cs1 = [TryPush PushFull, Prepare, TryPush PushFull, Park]"
        using Cons.prems(1) Pair by (auto simp: push_turn_def Let_def split: if_splits)
      obtain k where k: "push_tries cs2 = replicate k PushFull @ (if r = PushTimeout then [] else [r])"
        and ih: "r \<noteq> PushFull" "registrations False cs2 = Some False"
          "parks st' = parks st + 1 + of_nat (parks_in cs2)"
        using Cons.IH [OF rest] Cons.prems(2) by auto
      have "push_tries cs = replicate (Suc (Suc k)) PushFull @ (if r = PushTimeout then [] else [r])"
        using k by (simp add: cs cs1)
      then show ?thesis using ih by (auto simp: cs cs1 parks_in_def intro: exI [of _ "Suc (Suc k)"])
    qed
  qed
qed simp

definition late_push :: "push_turn list" where
  "late_push =
     [\<lparr>p_first = PushFull, p_second = PushFull, p_late = False\<rparr>,
      \<lparr>p_first = PushFull, p_second = PushOk, p_late = False\<rparr>]"

lemma blocking_push_is_one_attempt_witness:
  "blocking_push True False late_push no_stats =
     Some (PushOk, no_stats\<lparr>parks := 1\<rparr>,
       [TryPush PushFull, Prepare, TryPush PushFull, Park, TryPush PushFull, Prepare, TryPush PushOk,
        Cancel, PassOn]) \<and>
   registrations False
     [TryPush PushFull, Prepare, TryPush PushFull, Park, TryPush PushFull, Prepare, TryPush PushOk,
      Cancel, PassOn] = Some False"
proof
  show run: "blocking_push True False late_push no_stats =
     Some (PushOk, no_stats\<lparr>parks := 1\<rparr>,
       [TryPush PushFull, Prepare, TryPush PushFull, Park, TryPush PushFull, Prepare, TryPush PushOk,
        Cancel, PassOn])"
    by (simp add: late_push_def push_turn_def no_stats_def)
  show "registrations False
     [TryPush PushFull, Prepare, TryPush PushFull, Park, TryPush PushFull, Prepare, TryPush PushOk,
      Cancel, PassOn] = Some False"
    using blocking_push_is_one_attempt [OF run] by (simp add: late_push_def)
qed

section \<open>A blocking pop\<close>

record pop_turn =
  q_try1 :: pop_res
  q_try2 :: pop_res
  q_word :: u64         \<comment> \<open>the tail, and the head if it is closed\<close>
  q_head :: u64
  q_late :: bool
  q_try3 :: pop_res     \<comment> \<open>the re-check\<close>
  q_word2 :: u64
  q_head2 :: u64
  q_late2 :: bool
  q_woke :: bool        \<comment> \<open>what \<open>wait\<close> returned, and the clock after it\<close>
  q_late3 :: bool
  q_try4 :: pop_res
  q_more :: bool        \<comment> \<open>\<open>head_published\<close>, and whether the notification issued a wake\<close>
  q_notified :: bool

text \<open>
  One turn of the shared queue's \<open>pop\<close>. Its stages are the stages of the code: two attempts,
  the look at the tail, the registration and what follows it.
\<close>

definition pop_after_wait :: "pop_turn \<Rightarrow> op_stats \<Rightarrow> pop_res option \<times> op_stats \<times> call list" where
  "pop_after_wait t st =
     (let st1 = (if \<not> q_woke t \<and> \<not> q_late3 t then st\<lparr>backstops := backstops st + 1\<rparr> else st) in
      if q_try4 t = PopOk
      then (Some PopOk,
            if q_more t \<and> q_notified t then st1\<lparr>wakes := wakes st1 + 1\<rparr> else st1,
            TryPop PopOk # (if q_more t then [PassOn] else []))
      else (None, st1, [TryPop (q_try4 t)]))"

definition pop_parking :: "pop_turn \<Rightarrow> op_stats \<Rightarrow> pop_res option \<times> op_stats \<times> call list" where
  "pop_parking t st =
     (if q_try3 t = PopOk then (Some PopOk, st, [Prepare, TryPop PopOk, Cancel])
      else if is_closed (q_word2 t) then (None, st, [Prepare, TryPop (q_try3 t), LookTail True, Cancel])
      else
        let st1 = (if drop_bit 1 (q_word2 t) > q_head2 t then st\<lparr>holes := holes st + 1\<rparr> else st) in
        if q_late2 t then (Some PopTimeout, st1, [Prepare, TryPop (q_try3 t), LookTail False, Cancel])
        else
          let (r, st2, cs) = pop_after_wait t (st1\<lparr>parks := parks st1 + 1\<rparr>)
          in (r, st2, [Prepare, TryPop (q_try3 t), LookTail False, Park] @ cs))"

definition pop_turn :: "bool \<Rightarrow> pop_turn \<Rightarrow> op_stats \<Rightarrow> pop_res option \<times> op_stats \<times> call list" where
  "pop_turn park t st =
     (if q_try1 t = PopOk then (Some PopOk, st, [TryPop PopOk])
      else if q_try2 t = PopOk then (Some PopOk, st, [TryPop (q_try1 t), TryPop PopOk])
      else
        let (r, st1, cs) =
          (if is_closed (q_word t) then
             (if q_head t = drop_bit 1 (q_word t) then (Some PopDrained, st, [LookTail True])
              else if q_late t then (Some PopTimeout, st, [LookTail True])
              else (None, st, [LookTail True]))
           else if \<not> park then
             (if q_late t then (Some PopTimeout, st, [LookTail False]) else (None, st, [LookTail False]))
           else (let (r, st1, cs) = pop_parking t st in (r, st1, LookTail False # cs)))
        in (r, st1, [TryPop (q_try1 t), TryPop (q_try2 t)] @ cs))"

text \<open>
  One turn of the sharded queue's \<open>pop\<close>. Here \<open>q_word\<close> and \<open>q_word2\<close> stand for what \<open>any_closed\<close>
  found, as a word that is closed or not, and \<open>drained\<close> for what \<open>drained\<close> returned.
\<close>

definition sh_pop_turn ::
  "bool \<Rightarrow> pop_turn \<Rightarrow> op_stats \<Rightarrow> pop_res option \<times> op_stats \<times> call list" where
  "sh_pop_turn drained t st =
     (if q_try1 t = PopOk then (Some PopOk, st, [TryPop PopOk])
      else if q_try2 t = PopOk then (Some PopOk, st, [TryPop (q_try1 t), TryPop PopOk])
      else
        let cs = [TryPop (q_try1 t), TryPop (q_try2 t), LookTail (is_closed (q_word t))] in
        if is_closed (q_word t) then
          (if drained then Some PopDrained else if q_late t then Some PopTimeout else None, st, cs)
        else if q_try3 t = PopOk then (Some PopOk, st, cs @ [Prepare, TryPop PopOk, Cancel])
        else
          let cs1 = cs @ [Prepare, TryPop (q_try3 t), LookTail (is_closed (q_word2 t))] in
          if is_closed (q_word2 t) then (None, st, cs1 @ [Cancel])
          else if q_late2 t then (Some PopTimeout, st, cs1 @ [Cancel])
          else
            let st1 = st\<lparr>parks := parks st + 1\<rparr> in
            (None, if \<not> q_woke t \<and> \<not> q_late3 t then st1\<lparr>backstops := backstops st1 + 1\<rparr> else st1,
             cs1 @ [Park]))"

fun pop_turns ::
  "('t \<Rightarrow> op_stats \<Rightarrow> pop_res option \<times> op_stats \<times> call list) \<Rightarrow> 't list \<Rightarrow> op_stats
    \<Rightarrow> (pop_res \<times> op_stats \<times> call list) option" where
  "pop_turns turn [] st = None"
| "pop_turns turn (t # ts) st =
     (case turn t st of
        (Some r, st1, cs) \<Rightarrow> Some (r, st1, cs)
      | (None, st1, cs) \<Rightarrow>
          map_option (\<lambda>(r, st2, cs'). (r, st2, cs @ cs')) (pop_turns turn ts st1))"

definition blocking_pop :: "bool \<Rightarrow> pop_turn list \<Rightarrow> op_stats \<Rightarrow> (pop_res \<times> op_stats \<times> call list) option" where
  "blocking_pop park = pop_turns (pop_turn park)"

definition sh_blocking_pop ::
  "(bool \<times> pop_turn) list \<Rightarrow> op_stats \<Rightarrow> (pop_res \<times> op_stats \<times> call list) option" where
  "sh_blocking_pop = pop_turns (\<lambda>(drained, t). sh_pop_turn drained t)"

subsection \<open>What a turn guarantees\<close>

text \<open>
  The contract of a turn, which both pops satisfy: the attempts of a turn all fail but for the
  last of one that returns ok; nobody stays registered; parks are counted; and nobody parks on a
  look that found the queue closed.
\<close>

definition turn_attempts :: "pop_res option \<Rightarrow> call list \<Rightarrow> bool" where
  "turn_attempts r cs \<longleftrightarrow>
     (if r = Some PopOk then (\<exists>xs. pop_tries cs = xs @ [PopOk] \<and> PopOk \<notin> set xs)
      else PopOk \<notin> set (pop_tries cs))"

fun park_looks :: "bool \<Rightarrow> call list \<Rightarrow> bool" where
  "park_looks closed [] = True"
| "park_looks closed (Park # cs) = (\<not> closed \<and> park_looks closed cs)"
| "park_looks closed (LookTail c # cs) = park_looks c cs"
| "park_looks closed (_ # cs) = park_looks closed cs"

fun last_look :: "bool \<Rightarrow> call list \<Rightarrow> bool" where
  "last_look closed [] = closed"
| "last_look closed (LookTail c # cs) = last_look c cs"
| "last_look closed (_ # cs) = last_look closed cs"

lemma park_looks_append:
  "park_looks c (xs @ ys) \<longleftrightarrow> park_looks c xs \<and> park_looks (last_look c xs) ys"
  by (induction c xs rule: park_looks.induct) auto

locale pop_loop =
  fixes turn :: "'t \<Rightarrow> op_stats \<Rightarrow> pop_res option \<times> op_stats \<times> call list"
  assumes attempts: "turn t st = (r, st', cs) \<Longrightarrow> turn_attempts r cs"
    and registered: "turn t st = (r, st', cs) \<Longrightarrow> registrations False cs = Some False"
    and counted: "turn t st = (r, st', cs) \<Longrightarrow> parks st' = parks st + of_nat (parks_in cs)"
    and looks: "turn t st = (r, st', cs) \<Longrightarrow> park_looks c cs"
begin

lemma pop_turns_contract:
  "pop_turns turn ts st = Some (r, st', cs) \<Longrightarrow>
   turn_attempts (Some r) cs \<and> registrations False cs = Some False \<and>
   parks st' = parks st + of_nat (parks_in cs) \<and> park_looks c cs"
proof (induction ts arbitrary: st cs c)
  case (Cons t ts)
  obtain x st1 cs1 where t: "turn t st = (x, st1, cs1)" by (cases "turn t st")
  note laws = attempts [OF t] registered [OF t] counted [OF t] looks [OF t]
  show ?case
  proof (cases x)
    case (Some y)
    then show ?thesis using Cons.prems t laws by auto
  next
    case None
    then obtain cs2 where rest: "pop_turns turn ts st1 = Some (r, st', cs2)" and cs: "cs = cs1 @ cs2"
      using Cons.prems t by auto
    note ih = Cons.IH [OF rest, of "last_look c cs1"]
    have "turn_attempts (Some r) cs"
      using ih laws(1) None by (auto simp: turn_attempts_def cs split: if_splits intro: exI [of _ "pop_tries cs1 @ _"])
    then show ?thesis
      using ih laws by (simp add: cs registrations_append parks_in_def park_looks_append)
  qed
qed simp

end

text \<open>The laws of a stage, from whatever the look before it found.\<close>

definition stage_ok :: "bool \<Rightarrow> op_stats \<Rightarrow> pop_res option \<times> op_stats \<times> call list \<Rightarrow> bool" where
  "stage_ok c st res \<longleftrightarrow>
     (case res of (r, st', cs) \<Rightarrow>
        turn_attempts r cs \<and> registrations False cs = Some False \<and>
        parks st' = parks st + of_nat (parks_in cs) \<and> park_looks c cs)"

lemmas stage_defs = stage_ok_def turn_attempts_def parks_in_def

lemma after_wait_ok: "stage_ok c st (pop_after_wait t st)"
  by (auto simp: stage_defs pop_after_wait_def Let_def)

text \<open>Something tried in vain, or a registration and its end, before a stage.\<close>

lemma stage_ok_try: "x \<noteq> PopOk \<Longrightarrow> stage_ok c st (r, st', cs) \<Longrightarrow> stage_ok c st (r, st', TryPop x # cs)"
  by (auto simp: stage_defs Cons_eq_append_conv split: if_splits)

lemma stage_ok_look: "stage_ok c st (r, st', cs) \<Longrightarrow> stage_ok d st (r, st', LookTail c # cs)"
  by (auto simp: stage_defs split: if_splits)

lemma stage_ok_park:
  assumes "x \<noteq> PopOk" "stage_ok False (st\<lparr>parks := parks st + 1\<rparr>) (r, st', cs)"
  shows "stage_ok c st (r, st', [Prepare, TryPop x, LookTail False, Park] @ cs)"
  using stage_ok_try [OF assms] assms by (auto simp: stage_defs Cons_eq_append_conv split: if_splits)

lemma parking_ok: "stage_ok c st (pop_parking t st)"
proof -
  have holes: "stage_ok c (st\<lparr>holes := h\<rparr>) = stage_ok c st" for h
    by (simp add: stage_ok_def fun_eq_iff)
  consider "q_try3 t = PopOk \<or> is_closed (q_word2 t) \<or> q_late2 t"
    | "q_try3 t \<noteq> PopOk" "\<not> is_closed (q_word2 t)" "\<not> q_late2 t" by blast
  then show ?thesis
  proof cases
    case 1
    then show ?thesis by (auto simp: stage_defs pop_parking_def Let_def)
  next
    case 2
    define st1 where "st1 = (if drop_bit 1 (q_word2 t) > q_head2 t then st\<lparr>holes := holes st + 1\<rparr> else st)"
    obtain r st2 cs where w: "pop_after_wait t (st1\<lparr>parks := parks st1 + 1\<rparr>) = (r, st2, cs)"
      by (cases "pop_after_wait t (st1\<lparr>parks := parks st1 + 1\<rparr>)")
    have "stage_ok c st1 (r, st2, [Prepare, TryPop (q_try3 t), LookTail False, Park] @ cs)"
      by (rule stage_ok_park [OF 2(1)]) (use after_wait_ok w in metis)
    moreover have "stage_ok c st1 = stage_ok c st" using holes by (simp add: st1_def)
    ultimately show ?thesis using 2 w by (simp add: pop_parking_def st1_def Let_def)
  qed
qed

lemma pop_turn_ok: "stage_ok c st (pop_turn park t st)"
proof -
  obtain r st1 cs where p: "pop_parking t st = (r, st1, cs)" by (cases "pop_parking t st")
  then have ok: "stage_ok False st (r, st1, cs)" using parking_ok by metis
  consider "q_try1 t = PopOk \<or> q_try2 t = PopOk \<or> is_closed (q_word t) \<or> \<not> park"
    | "q_try1 t \<noteq> PopOk" "q_try2 t \<noteq> PopOk" "\<not> is_closed (q_word t)" park by blast
  then show ?thesis
  proof cases
    case 1
    then show ?thesis by (auto simp: stage_defs pop_turn_def Let_def)
  next
    case 2
    then have "pop_turn park t st = (r, st1, TryPop (q_try1 t) # TryPop (q_try2 t) # LookTail False # cs)"
      using p by (simp add: pop_turn_def Let_def)
    then show ?thesis using 2(1,2) stage_ok_look [OF ok] by (simp add: stage_ok_try)
  qed
qed

lemma sh_pop_turn_ok: "stage_ok c st (sh_pop_turn drained t st)"
  by (auto simp: stage_defs sh_pop_turn_def Let_def)

lemma pop_loop_of_stage:
  assumes "\<And>t st. stage_ok c st (turn t st)" "turn t st = (r, st', cs)"
  shows "turn_attempts r cs" "registrations False cs = Some False"
    "parks st' = parks st + of_nat (parks_in cs)" "park_looks c cs"
  using assms(1) [of st t] assms(2) by (simp_all add: stage_ok_def)

interpretation shared_pop: pop_loop "pop_turn park" for park
  by unfold_locales (erule pop_loop_of_stage [OF pop_turn_ok])+

interpretation sharded_pop: pop_loop "\<lambda>(drained, t). sh_pop_turn drained t"
  by unfold_locales
    (erule pop_loop_of_stage [where turn = "\<lambda>(drained, t). sh_pop_turn drained t", rotated],
      simp add: sh_pop_turn_ok case_prod_unfold)+

text \<open>
  C30: A blocking pop returns ok exactly when an attempt of its succeeded, which is then its last,
  so it never takes an event and drops it; it never leaves itself registered with the event count;
  and it never parks on a look at the tail that found the queue closed.
\<close>

theorem blocking_pop_contract:
  assumes "blocking_pop park ts st = Some (r, st', cs)"
  shows "(if r = PopOk then \<exists>xs. pop_tries cs = xs @ [PopOk] \<and> PopOk \<notin> set xs
      else PopOk \<notin> set (pop_tries cs)) \<and>
    registrations False cs = Some False \<and> park_looks False cs \<and>
    parks st' = parks st + of_nat (parks_in cs)"
  using shared_pop.pop_turns_contract [of park ts st r st' cs False] assms
  by (simp add: blocking_pop_def turn_attempts_def)

text \<open>A pop that parks once, is woken, and takes the event; it passes the wake on.\<close>

definition woken_pop :: "pop_turn list" where
  "woken_pop =
     [\<lparr>q_try1 = PopEmpty, q_try2 = PopEmpty, q_word = 4, q_head = 0, q_late = False,
       q_try3 = PopEmpty, q_word2 = 6, q_head2 = 2, q_late2 = False, q_woke = True, q_late3 = False,
       q_try4 = PopOk, q_more = True, q_notified = True\<rparr>]"

lemma blocking_pop_contract_witness:
  "registrations False
     [TryPop PopEmpty, TryPop PopEmpty, LookTail False, Prepare, TryPop PopEmpty, LookTail False, Park,
      TryPop PopOk, PassOn] = Some False"
proof -
  have "blocking_pop True woken_pop no_stats =
     Some (PopOk, no_stats\<lparr>holes := 1, parks := 1, wakes := 1\<rparr>,
       [TryPop PopEmpty, TryPop PopEmpty, LookTail False, Prepare, TryPop PopEmpty, LookTail False, Park,
        TryPop PopOk, PassOn])"
    by (simp add: blocking_pop_def woken_pop_def pop_turn_def pop_parking_def pop_after_wait_def
        no_stats_def is_closed_def kClosed_def)
  from blocking_pop_contract [OF this] show ?thesis by simp
qed

lemma sh_blocking_pop_contract:
  assumes "sh_blocking_pop ts st = Some (r, st', cs)"
  shows "turn_attempts (Some r) cs \<and> registrations False cs = Some False \<and>
    parks st' = parks st + of_nat (parks_in cs) \<and> park_looks c cs"
  using sharded_pop.pop_turns_contract assms unfolding sh_blocking_pop_def by blast

text \<open>Drained is returned only on a closed tail that the head has reached.\<close>

lemma pop_drained:
  "blocking_pop park ts st = Some (PopDrained, st', cs) \<Longrightarrow>
   \<exists>t \<in> set ts. is_closed (q_word t) \<and> q_head t = drop_bit 1 (q_word t)"
  unfolding blocking_pop_def
proof (induction ts arbitrary: st cs)
  case (Cons t ts)
  obtain x st1 cs1 where t: "pop_turn park t st = (x, st1, cs1)" by (cases "pop_turn park t st")
  show ?case
  proof (cases x)
    case None
    then show ?thesis using Cons t by auto
  next
    case (Some y)
    then have "fst (pop_turn park t st) = Some PopDrained" using Cons.prems t by auto
    then have "is_closed (q_word t) \<and> q_head t = drop_bit 1 (q_word t)"
      by (simp add: pop_turn_def pop_parking_def pop_after_wait_def Let_def split: if_splits)
    then show ?thesis by simp
  qed
qed simp

section \<open>A ticket holder's wait\<close>

text \<open>
  \<open>await_turn\<close> on the readings of its slot's sequence, oldest first: at most \<open>kSpins\<close> of them
  spinning, at most \<open>kYields\<close> yielding, then two for each park. It returns the readings it did not
  need and the calls it made; \<open>None\<close> is that it is still waiting.
\<close>

fun look_for :: "nat \<Rightarrow> u64 \<Rightarrow> u64 list \<Rightarrow> (bool \<times> u64 list) option" where
  "look_for 0 pos rs = Some (False, rs)"
| "look_for (Suc n) pos [] = None"
| "look_for (Suc n) pos (r # rs) = (if r = pos then Some (True, rs) else look_for n pos rs)"

fun park_for :: "u64 \<Rightarrow> u64 list \<Rightarrow> (u64 list \<times> call list) option" where
  "park_for pos [] = None"
| "park_for pos [r] = (if r = pos then Some ([], []) else None)"
| "park_for pos (r # r2 # rs) =
     (if r = pos then Some (r2 # rs, [])
      else if r2 = pos then Some (rs, [Prepare, Cancel])
      else map_option (\<lambda>(rest, cs). (rest, Prepare # Park # cs)) (park_for pos rs))"

definition await_turn_on :: "u64 \<Rightarrow> u64 list \<Rightarrow> (u64 list \<times> call list) option" where
  "await_turn_on pos rs =
     (case look_for kSpins pos rs of
        None \<Rightarrow> None
      | Some (True, rs1) \<Rightarrow> Some (rs1, [])
      | Some (False, rs1) \<Rightarrow>
          (case look_for kYields pos rs1 of
             None \<Rightarrow> None
           | Some (True, rs2) \<Rightarrow> Some (rs2, [])
           | Some (False, rs2) \<Rightarrow> park_for pos rs2))"

lemma look_for_spec:
  "look_for n pos rs = Some (found, rest) \<Longrightarrow>
   \<exists>pre. pos \<notin> set pre \<and> rs = pre @ (if found then pos # rest else rest) \<and>
     (if found then length pre < n else length pre = n)"
proof (induction n pos rs rule: look_for.induct)
  case (3 n pos r rs)
  show ?case
  proof (cases "r = pos")
    case True
    then show ?thesis using "3.prems" by (auto intro: exI [of _ "[]"])
  next
    case False
    then obtain pre where "pos \<notin> set pre" "rs = pre @ (if found then pos # rest else rest)"
      "if found then length pre < n else length pre = n" using 3 by auto
    then show ?thesis using False by (auto intro!: exI [of _ "r # pre"])
  qed
qed auto

lemma park_for_spec:
  "park_for pos rs = Some (rest, cs) \<Longrightarrow>
   (\<exists>pre. pos \<notin> set pre \<and> rs = pre @ pos # rest) \<and> registrations False cs = Some False"
proof (induction pos rs arbitrary: rest cs rule: park_for.induct)
  case (3 pos r r2 rs)
  consider "r = pos" | "r \<noteq> pos" "r2 = pos" | "r \<noteq> pos" "r2 \<noteq> pos" by blast
  then show ?case
  proof cases
    case 1
    then show ?thesis using "3.prems" by (auto intro: exI [of _ "[]"])
  next
    case 2
    then show ?thesis using "3.prems" by (auto intro: exI [of _ "[r]"])
  next
    case 3
    then obtain cs' where "park_for pos rs = Some (rest, cs')" and cs: "cs = Prepare # Park # cs'"
      using "3.prems" by auto
    then obtain pre where "pos \<notin> set pre" "rs = pre @ pos # rest" "registrations False cs' = Some False"
      using "3.IH" 3 by blast
    then show ?thesis using 3 by (auto simp: cs intro!: exI [of _ "r # r2 # pre"])
  qed
qed (auto split: if_splits intro: exI [of _ "[]"])

text \<open>
  A ticket holder goes on exactly at the first reading that shows its slot vacated, having
  registered with the event count for no longer than it waited, and not at all if the slot is
  vacated within the first 192 readings.
\<close>

theorem await_turn_exact:
  assumes "await_turn_on pos rs = Some (rest, cs)"
  shows "\<exists>pre. rs = pre @ pos # rest \<and> pos \<notin> set pre \<and> registrations False cs = Some False \<and>
    (length pre < kSpins + kYields \<longrightarrow> cs = [])"
proof -
  obtain found rs1 where l: "look_for kSpins pos rs = Some (found, rs1)"
    using assms by (auto simp: await_turn_on_def split: option.splits)
  obtain pre1 where pre1: "pos \<notin> set pre1" "rs = pre1 @ (if found then pos # rs1 else rs1)"
    "if found then length pre1 < kSpins else length pre1 = kSpins"
    using look_for_spec [OF l] by blast
  show ?thesis
  proof (cases found)
    case True
    then show ?thesis using assms l pre1 by (auto simp: await_turn_on_def)
  next
    case False
    obtain found2 rs2 where l2: "look_for kYields pos rs1 = Some (found2, rs2)"
      using assms l False by (auto simp: await_turn_on_def split: option.splits)
    obtain pre2 where pre2: "pos \<notin> set pre2" "rs1 = pre2 @ (if found2 then pos # rs2 else rs2)"
      "if found2 then length pre2 < kYields else length pre2 = kYields"
      using look_for_spec [OF l2] by blast
    show ?thesis
    proof (cases found2)
      case True
      then show ?thesis
        using assms l l2 False pre1 pre2
        by (auto simp: await_turn_on_def intro!: exI [of _ "pre1 @ pre2"])
    next
      case False2: False
      then have p: "park_for pos rs2 = Some (rest, cs)"
        using assms l l2 False by (simp add: await_turn_on_def)
      obtain pre3 where "pos \<notin> set pre3" "rs2 = pre3 @ pos # rest" "registrations False cs = Some False"
        using park_for_spec [OF p] by blast
      then show ?thesis
        using False False2 pre1 pre2 by (auto intro!: exI [of _ "pre1 @ pre2 @ pre3"])
    qed
  qed
qed

lemma await_turn_exact_witness:
  "\<exists>pre. replicate 200 0 @ [5, 7] = pre @ (5 :: u64) # [7] \<and> 5 \<notin> set pre"
proof -
  have spin: "look_for n 5 (replicate m 0 @ xs) = Some (False, replicate (m - n) 0 @ xs)" if "n \<le> m" for n m xs
    using that
  proof (induction n arbitrary: m)
    case (Suc n)
    then obtain k where "m = Suc k" by (cases m) auto
    then show ?case using Suc by simp
  qed simp
  have "await_turn_on 5 (replicate 200 0 @ [5, 7]) = park_for 5 (replicate 8 0 @ [5, 7])"
    by (simp add: await_turn_on_def spin kSpins_def kYields_def)
  also have "replicate 8 (0 :: u64) = [0, 0, 0, 0, 0, 0, 0, 0]" by (simp add: numeral_eq_Suc)
  also have "park_for 5 ([0, 0, 0, 0, 0, 0, 0, 0] @ [5, 7]) =
      Some ([7], [Prepare, Park, Prepare, Park, Prepare, Park, Prepare, Park])" by simp
  finally show ?thesis using await_turn_exact by blast
qed

section \<open>Wakes for blocked producers\<close>

definition kFullWakeEvery :: "options \<Rightarrow> nat \<Rightarrow> nat" where
  "kFullWakeEvery opts n =
     (if \<not> o_batch_full_wakes opts then 1 else if 128 \<le> n then 64 else n div 2)"

definition release_wakes :: "options \<Rightarrow> nat \<Rightarrow> u64 \<Rightarrow> bool" where
  "release_wakes opts n pos \<longleftrightarrow> pos mod of_nat (kFullWakeEvery opts n) = 0"

text \<open>The tests behind the wake passed on after a pop and after a push.\<close>

definition head_published :: "'a mpmc \<Rightarrow> bool" where
  "head_published q \<longleftrightarrow> seq_at q (head_w q) AND NOT kDead = head_w q + 1"

definition chain_full_wake :: "'a mpmc \<Rightarrow> bool \<Rightarrow> op_stats \<Rightarrow> bool \<times> op_stats" where
  "chain_full_wake q notified st =
     (let t = drop_bit 1 (tail_w q); room = (seq_at q t AND NOT kDead = t)
      in (room, if room \<and> notified then st\<lparr>wakes := wakes st + 1\<rparr> else st))"

lemma full_wake_divides:
  assumes "ring_cap n"
  shows "kFullWakeEvery opts n dvd 2 ^ 64" "0 < kFullWakeEvery opts n" "kFullWakeEvery opts n < 2 ^ 64"
    "2 * kFullWakeEvery opts n \<le> max 2 n"
proof -
  obtain k where k: "n = 2 ^ k" "1 \<le> k" "k < 64" using ring_cap_power [OF assms] by blast
  have half: "n div 2 = 2 ^ (k - 1)" using k by (cases k) simp_all
  have "(64 :: nat) dvd 2 ^ 64" by simp
  moreover have "(2 :: nat) ^ (k - 1) dvd 2 ^ 64" using k by (intro le_imp_power_dvd) simp
  ultimately show dvd: "kFullWakeEvery opts n dvd 2 ^ 64" unfolding kFullWakeEvery_def half by simp
  show pos: "0 < kFullWakeEvery opts n" unfolding kFullWakeEvery_def half by simp
  show "2 * kFullWakeEvery opts n \<le> max 2 n" by (auto simp: kFullWakeEvery_def)
  then show "kFullWakeEvery opts n < 2 ^ 64" using ring_capD(2) [OF assms] by simp
qed

text \<open>
  A blocked producer is not forgotten: among any \<open>kFullWakeEvery\<close> releases at consecutive
  positions, wherever they start and across the wrap-around, exactly one looks for a producer to
  wake; with batching that is at least twice a lap of the ring.
\<close>

theorem full_wake_once_per_batch:
  assumes "ring_cap n"
  shows "(\<exists>!k. k < kFullWakeEvery opts n \<and> release_wakes opts n (pos + of_nat k)) \<and>
    2 * kFullWakeEvery opts n \<le> max 2 n"
proof
  let ?e = "kFullWakeEvery opts n"
  note e = full_wake_divides [OF assms, of opts]
  have wakes: "release_wakes opts n (pos + of_nat k) \<longleftrightarrow> (unat pos + k) mod ?e = 0" for k
  proof -
    have "unat (of_nat ?e :: u64) = ?e" using e(3) by (simp add: unat_of_nat)
    then have "release_wakes opts n (pos + of_nat k) \<longleftrightarrow> unat (pos + of_nat k) mod ?e = 0"
      by (simp add: release_wakes_def word_unat_eq_iff unat_mod)
    also have "unat (pos + of_nat k) = (unat pos + k) mod 2 ^ 64"
      by (simp add: unat_word_ariths unat_of_nat mod_simps)
    finally show ?thesis using e(1) by (simp add: mod_mod_cancel)
  qed
  define k0 where "k0 = (?e - unat pos mod ?e) mod ?e"
  have "unat pos mod ?e + (?e - unat pos mod ?e) = ?e"
    using e(2) by (simp add: mod_less_divisor less_imp_le_nat)
  then have "(unat pos mod ?e + (?e - unat pos mod ?e)) mod ?e = 0" by simp
  then have hit: "(unat pos + k0) mod ?e = 0" by (simp add: k0_def mod_simps)
  have lt: "k0 < ?e" using e(2) by (simp add: k0_def)
  show "\<exists>!k. k < ?e \<and> release_wakes opts n (pos + of_nat k)"
    unfolding wakes
  proof (rule ex1I [of _ k0])
    show "k0 < ?e \<and> (unat pos + k0) mod ?e = 0" using hit lt by simp
  next
    fix k assume k: "k < ?e \<and> (unat pos + k) mod ?e = 0"
    have "unat pos + k = unat pos + k0"
      by (rule mod_eq_within [of _ ?e]) (use k hit lt in simp_all)
    then show "k = k0" by simp
  qed
qed (rule full_wake_divides(4) [OF assms])

lemma full_wake_once_per_batch_witness:
  "\<exists>!k. k < kFullWakeEvery default_options 65536 \<and>
     release_wakes default_options 65536 (2 ^ 64 - 3 + of_nat k)"
proof -
  have "ring_cap 65536" by (simp add: ring_cap_def has_single_bit_def)
  then show ?thesis using full_wake_once_per_batch by blast
qed

end
