(* ===== verification/Tq_Driver.thy ===== *)
theory Tq_Driver
  imports Complex_Main Tq_Event Tq_Api
begin

text \<open>
  mpmc-work-queue-kata/cpp/bench/driver.hpp: the run every phase of the bench is built from, and
  the checks it ends with. What the queue and the clock answer are arguments: one record per turn
  of a producer's or a consumer's loop, and a call to the queue is a function on the caller's
  statistics. Durations and rates are rational numbers, the conversions of the calibrated clock
  parameters; floating-point rounding is not modelled. The deadline of a blocking push is passed
  to the queue as the turn at which the clock was read for it.
\<close>

section \<open>Specification of a run\<close>

datatype push_mode = Block | Reject | Mixed

record run_spec =
  rs_producers :: nat
  rs_consumers :: nat
  rs_events :: u64
  rs_rate :: rat
  rs_seconds :: rat
  rs_consumer_work_ns :: rat
  rs_mode :: push_mode
  rs_batch :: nat
  rs_latency :: bool
  rs_block_timeout :: nat
  rs_close_after :: nat
  rs_hot_share :: rat
  rs_pop_latency :: bool

definition default_spec :: run_spec where
  "default_spec =
     \<lparr>rs_producers = kProducers, rs_consumers = kConsumers, rs_events = 250000, rs_rate = 0,
      rs_seconds = 0, rs_consumer_work_ns = 0, rs_mode = Block, rs_batch = 1, rs_latency = False,
      rs_block_timeout = 2 * 10 ^ 9, rs_close_after = 0, rs_hot_share = 0, rs_pop_latency = False\<rparr>"

text \<open>What the template tests of a queue: which overloads it has, and whether it is built from rings.\<close>

record queue_kind =
  qk_ids :: bool
  qk_try_push :: bool
  qk_try_pop :: bool
  qk_batch :: bool
  qk_positions :: bool
  qk_rings :: "(nat \<times> nat) option"

definition counts_fit :: "queue_kind \<Rightarrow> run_spec \<Rightarrow> bool" where
  "counts_fit k spec \<longleftrightarrow>
     (case qk_rings k of None \<Rightarrow> True
      | Some (p, c) \<Rightarrow> rs_producers spec = p \<and> rs_consumers spec = c)"

definition producer_mode :: "run_spec \<Rightarrow> nat \<Rightarrow> push_mode" where
  "producer_mode spec i =
     (if rs_mode spec = Mixed then (if odd i then Block else Reject) else rs_mode spec)"

definition push_one :: "queue_kind \<Rightarrow> push_mode \<Rightarrow> 'c \<Rightarrow> 'c \<Rightarrow> 'c" where
  "push_one k mode try_push push =
     (if qk_ids k then (if mode = Reject then try_push else push)
      else if qk_try_push k \<and> mode = Reject then try_push else push)"

definition try_pop_one :: "queue_kind \<Rightarrow> (op_stats \<Rightarrow> pop_res \<times> event \<times> op_stats) \<Rightarrow>
    op_stats \<Rightarrow> pop_res \<times> event \<times> op_stats" where
  "try_pop_one k try_pop st =
     (if qk_ids k \<or> qk_try_pop k then try_pop st else (PopEmpty, zero_event, st))"

definition occupancy :: "u64 \<Rightarrow> u64 \<Rightarrow> u64" where
  "occupancy reserved claimed = (if claimed < reserved then reserved - claimed else 0)"

text \<open>The spacing of a producer's events.\<close>

definition interval_of :: "(rat \<Rightarrow> u64) \<Rightarrow> run_spec \<Rightarrow> nat \<Rightarrow> u64" where
  "interval_of ticks spec i =
     (if \<not> 0 < rs_rate spec then 0
      else if rs_hot_share spec \<le> 0 \<or> 1 \<le> rs_hot_share spec \<or> rs_producers spec < 2
      then ticks (10 ^ 9 * of_nat (rs_producers spec) / rs_rate spec)
      else let share = if i = 0 then rs_hot_share spec
                       else (1 - rs_hot_share spec) / of_nat (rs_producers spec - 1)
           in ticks (10 ^ 9 / (rs_rate spec * share)))"

section \<open>Producers\<close>

record producer_state =
  ps_accepted :: tally
  ps_offered :: u64
  ps_rejected :: u64
  ps_refused :: u64
  ps_t_done :: u64
  ps_first_full :: u64
  ps_finished :: bool
  ps_bursts :: u64
  ps_push :: histogram
  ps_ready :: histogram
  ps_ops :: op_stats

text \<open>The histogram \<open>window\<close> of a producer is the one its statistics point to.\<close>

definition new_producer :: producer_state where
  "new_producer =
     \<lparr>ps_accepted = empty_tally, ps_offered = 0, ps_rejected = 0, ps_refused = 0, ps_t_done = 0,
      ps_first_full = 0, ps_finished = False, ps_bursts = 0, ps_push = empty_histogram,
      ps_ready = empty_histogram, ps_ops = no_stats\<lparr>window := Some empty_histogram\<rparr>\<rparr>"

fun account :: "push_res \<Rightarrow> u32 \<Rightarrow> u32 \<Rightarrow> u64 \<Rightarrow> producer_state \<Rightarrow> producer_state" where
  "account PushOk p q now s =
     s\<lparr>ps_offered := ps_offered s + 1, ps_accepted := tally_add p q (ps_accepted s)\<rparr>"
| "account PushClosed p q now s =
     s\<lparr>ps_offered := ps_offered s + 1, ps_refused := ps_refused s + 1\<rparr>"
| "account _ p q now s =
     s\<lparr>ps_offered := ps_offered s + 1, ps_rejected := ps_rejected s + 1,
       ps_first_full := if ps_first_full s = 0 then now else ps_first_full s\<rparr>"

text \<open>One call to the queue, its two forms taking the event, the deadline and the statistics.\<close>

type_synonym push_call = "event \<Rightarrow> nat \<Rightarrow> op_stats \<Rightarrow> push_res \<times> op_stats"

record push_obs =
  po_ready :: u64
  po_t0 :: u64
  po_try :: push_call
  po_push :: push_call
  po_t1 :: u64

definition push_timed ::
    "queue_kind \<Rightarrow> run_spec \<Rightarrow> nat \<Rightarrow> nat \<Rightarrow> u32 \<Rightarrow> u64 \<Rightarrow> push_obs \<Rightarrow> producer_state \<Rightarrow>
     push_res \<times> producer_state" where
  "push_timed k spec i until q ready x s =
     (let call = push_one k (producer_mode spec i) (po_try x) (po_push x);
          (r, st) = call (make_event (of_nat i) q (po_t0 x)) until (ps_ops s);
          s1 = s\<lparr>ps_ops := st\<rparr>;
          s2 = if rs_latency spec
               then s1\<lparr>ps_push := hist_record (po_t1 x - po_t0 x) (ps_push s1),
                       ps_ready := hist_record (po_t1 x - min ready (po_t0 x)) (ps_ready s1)\<rparr>
               else s1
      in (r, account r (of_nat i) q (po_t1 x) s2))"

record batch_obs =
  bo_t0 :: u64
  bo_push :: "event list \<Rightarrow> nat \<Rightarrow> op_stats \<Rightarrow> nat \<times> op_stats"
  bo_t1 :: u64
  bo_closed :: "nat \<Rightarrow> bool"
  bo_closed_end :: bool

text \<open>The call of \<open>push_batch\<close> and the accounting of its events: how many were taken, and the state.\<close>

definition batch_push ::
    "run_spec \<Rightarrow> nat \<Rightarrow> nat \<Rightarrow> nat \<Rightarrow> nat \<Rightarrow> batch_obs \<Rightarrow> producer_state \<Rightarrow> nat \<times> producer_state" where
  "batch_push spec i until n j x s =
     (let evs = map (\<lambda>m. make_event (of_nat i) (of_nat (j + m)) (bo_t0 x)) [0..<n];
          (got, st) = bo_push x evs until (ps_ops s);
          s1 = s\<lparr>ps_ops := st\<rparr>;
          s2 = if rs_latency spec
               then s1\<lparr>ps_push := hist_record (bo_t1 x - bo_t0 x) (ps_push s1)\<rparr> else s1
      in (got,
          fold (\<lambda>m. account (if m < got then PushOk
                             else if bo_closed x m then PushClosed else PushTimeout)
                    (of_nat i) (of_nat (j + m)) (bo_t1 x)) [0..<n] s2))"

text \<open>One turn of the saturated loop: how many events it offered, whether the loop goes on.\<close>

definition sat_turn ::
    "queue_kind \<Rightarrow> run_spec \<Rightarrow> nat \<Rightarrow> push_obs \<Rightarrow> batch_obs \<Rightarrow> nat \<Rightarrow> nat \<Rightarrow> nat \<Rightarrow>
     producer_state \<Rightarrow> nat \<times> bool \<times> producer_state" where
  "sat_turn k spec i x bx quota until j s =
     (if qk_batch k \<and> 1 < rs_batch spec then
        let n = min (rs_batch spec) (quota - j); (got, s') = batch_push spec i until n j bx s
        in (n, \<not> (got < n \<and> bo_closed_end bx), s')
      else
        let (r, s') = push_timed k spec i until (of_nat j) (po_ready x) x s
        in (1, r \<noteq> PushClosed, s'))"

lemma sat_turn_offers:
  assumes "j < quota" "sat_turn k spec i x bx quota until j s = (n, goes, s')"
  shows "0 < n" "n \<le> quota - j"
  using assms by (auto simp: sat_turn_def Let_def split: if_splits prod.splits)

text \<open>The saturated loop, from event \<open>j\<close> on; the deadline was last read for event \<open>until\<close>.\<close>

function saturated ::
    "queue_kind \<Rightarrow> run_spec \<Rightarrow> nat \<Rightarrow> (nat \<Rightarrow> push_obs) \<Rightarrow> (nat \<Rightarrow> batch_obs) \<Rightarrow> nat \<Rightarrow>
     nat \<Rightarrow> nat \<Rightarrow> producer_state \<Rightarrow> producer_state" where
  "saturated k spec i xs bs quota until j s =
     (if j < quota then
        let until' = if j AND 1023 = 0 then j else until in
        case sat_turn k spec i (xs j) (bs j) quota until' j s of
          (n, goes, s') \<Rightarrow>
            if goes then saturated k spec i xs bs quota until' (j + n) s' else s'
      else s)"
  by pat_completeness simp_all
termination
proof (relation "measure (\<lambda>(k, spec, i, xs, bs, quota, until, j, s). quota - j)", goal_cases)
  case (2 k spec i xs bs quota until j s until' n y goes s')
  then have "0 < n" using sat_turn_offers(1) by metis
  then show ?case using 2(1) by simp
qed simp

declare saturated.simps [simp del]

definition quota_of :: "run_spec \<Rightarrow> nat" where
  "quota_of spec = (if rs_events spec \<noteq> 0 then unat (rs_events spec) else 2 ^ 32 - 1)"

definition saturated_producer ::
    "queue_kind \<Rightarrow> run_spec \<Rightarrow> nat \<Rightarrow> (nat \<Rightarrow> push_obs) \<Rightarrow> (nat \<Rightarrow> batch_obs) \<Rightarrow> u64 \<Rightarrow>
     producer_state" where
  "saturated_producer k spec i xs bs t_done =
     (let s = saturated k spec i xs bs (quota_of spec) 0 0 new_producer
      in s\<lparr>ps_finished := rs_events spec \<noteq> 0 \<and> ps_offered s = rs_events spec,
           ps_t_done := t_done\<rparr>)"

text \<open>The paced loop: a step is one pass of its outer loop up to the burst, or one pass of a burst.\<close>

record pace =
  pa_next :: u64
  pa_woke :: u64
  pa_seq :: u32
  pa_open :: bool
  pa_burst :: bool
  pa_now :: u64
  pa_turn :: nat
  pa_state :: producer_state

record pace_obs =
  pb_now :: u64
  pb_woke :: u64
  pb_push :: push_obs
  pb_after :: u64

definition pace_begin :: "run_spec \<Rightarrow> nat \<Rightarrow> u64 \<Rightarrow> u64 \<Rightarrow> pace" where
  "pace_begin spec i start interval =
     \<lparr>pa_next = start + interval * of_nat i div of_nat (rs_producers spec), pa_woke = start,
      pa_seq = 0, pa_open = True, pa_burst = False, pa_now = start, pa_turn = 0,
      pa_state = new_producer\<rparr>"

definition pace_step ::
    "queue_kind \<Rightarrow> run_spec \<Rightarrow> nat \<Rightarrow> u64 \<Rightarrow> u64 \<Rightarrow> pace_obs \<Rightarrow> pace \<Rightarrow> pace" where
  "pace_step k spec i interval stop x a =
     (if pa_burst a then
        if pa_next a \<le> pa_now a \<and> pa_next a < stop then
          let (r, s) = push_timed k spec i (pa_turn a) (pa_seq a) (max (pa_next a) (pa_woke a))
                         (pb_push x) (pa_state a)
          in a\<lparr>pa_state := s, pa_seq := pa_seq a + 1, pa_next := pa_next a + interval,
               pa_now := pb_after x, pa_open := r \<noteq> PushClosed, pa_burst := r \<noteq> PushClosed\<rparr>
        else a\<lparr>pa_burst := False\<rparr>
      else if pa_open a \<and> pa_next a < stop then
        if pb_now x < pa_next a then a\<lparr>pa_now := pb_now x, pa_woke := pb_woke x\<rparr>
        else a\<lparr>pa_now := pb_now x, pa_burst := True, pa_turn := pa_turn a + 1,
               pa_state := (pa_state a)\<lparr>ps_bursts := ps_bursts (pa_state a) + 1\<rparr>\<rparr>
      else a)"

definition pace_done :: "u64 \<Rightarrow> pace \<Rightarrow> bool" where
  "pace_done stop a \<longleftrightarrow> \<not> pa_burst a \<and> \<not> (pa_open a \<and> pa_next a < stop)"

definition paced_producer :: "u64 \<Rightarrow> pace \<Rightarrow> producer_state" where
  "paced_producer t_done a = (pa_state a)\<lparr>ps_finished := pa_open a, ps_t_done := t_done\<rparr>"

section \<open>Consumers\<close>

record consumer_state =
  cs_consumed :: tally
  cs_torn :: u64
  cs_disorder :: u64
  cs_t_last :: u64
  cs_last_seq :: "int list"
  cs_e2e :: histogram
  cs_pop :: histogram
  cs_ops :: op_stats

definition new_consumer :: consumer_state where
  "new_consumer =
     \<lparr>cs_consumed = empty_tally, cs_torn = 0, cs_disorder = 0, cs_t_last = 0,
      cs_last_seq = replicate 128 (- 1), cs_e2e = empty_histogram, cs_pop = empty_histogram,
      cs_ops = no_stats\<rparr>"

definition take_event :: "run_spec \<Rightarrow> u64 \<times> event \<Rightarrow> consumer_state \<Rightarrow> consumer_state" where
  "take_event spec = (\<lambda>(t, e) s0.
     let s = s0\<lparr>cs_t_last := t\<rparr>; p = unat (producer e); q = uint (seq_no e) in
     if \<not> intact e \<or> length (cs_last_seq s) \<le> p then s\<lparr>cs_torn := cs_torn s + 1\<rparr>
     else s\<lparr>cs_e2e := if rs_latency spec then hist_record (t - stamp e) (cs_e2e s) else cs_e2e s,
            cs_consumed := tally_add (producer e) (seq_no e) (cs_consumed s),
            cs_disorder := if q \<le> cs_last_seq s ! p then cs_disorder s + 1 else cs_disorder s,
            cs_last_seq := (cs_last_seq s)[p := q]\<rparr>)"

record pop_obs =
  co_batch :: "op_stats \<Rightarrow> (u64 \<times> event) list \<times> op_stats"
  co_t0 :: u64
  co_try :: "op_stats \<Rightarrow> pop_res \<times> event \<times> op_stats"
  co_t1 :: u64
  co_pop :: "op_stats \<Rightarrow> pop_res \<times> event \<times> op_stats"
  co_now :: u64

text \<open>One turn of the consumer's loop: whether it goes on, the events it took, and its state.\<close>

definition consume_turn ::
    "queue_kind \<Rightarrow> run_spec \<Rightarrow> pop_obs \<Rightarrow> consumer_state \<Rightarrow>
     bool \<times> (u64 \<times> event) list \<times> consumer_state" where
  "consume_turn k spec x s =
     (if qk_batch k \<and> 1 < rs_batch spec then
        let (evs, st) = co_batch x (cs_ops s) in
        if evs = [] then (False, [], s\<lparr>cs_ops := st\<rparr>)
        else (True, evs, fold (take_event spec) evs (s\<lparr>cs_ops := st\<rparr>))
      else
        let (rt, et, st) = if rs_pop_latency spec then try_pop_one k (co_try x) (cs_ops s)
                           else (PopEmpty, zero_event, cs_ops s);
            s1 = s\<lparr>cs_ops := st\<rparr>
        in if rs_pop_latency spec \<and> rt = PopOk then
             (True, [(co_now x, et)],
              take_event spec (co_now x, et)
                (s1\<lparr>cs_pop := hist_record (co_t1 x - co_t0 x) (cs_pop s1)\<rparr>))
           else
             let (r, e, st') = co_pop x (cs_ops s1); s2 = s1\<lparr>cs_ops := st'\<rparr>
             in if r = PopDrained then (False, [], s2)
                else if r = PopOk
                then (True, [(co_now x, e)], take_event spec (co_now x, e) s2)
                else (True, [], s2))"

text \<open>The loop, over the answers of its turns: whether it has ended, what it took, its state.\<close>

fun consume ::
    "queue_kind \<Rightarrow> run_spec \<Rightarrow> pop_obs list \<Rightarrow> consumer_state \<Rightarrow>
     bool \<times> (u64 \<times> event) list \<times> consumer_state" where
  "consume k spec [] s = (False, [], s)"
| "consume k spec (x # xs) s =
     (let (goes, evs, s') = consume_turn k spec x s in
      if goes then let (e, evs', s'') = consume k spec xs s' in (e, evs @ evs', s'')
      else (True, evs, s'))"

section \<open>The run\<close>

text \<open>What the calling thread does after it has released the threads.\<close>

datatype main_act = SleepCloseAfter | JoinProducers | ReadBacklog | CloseQueue | JoinConsumers

definition main_acts :: "queue_kind \<Rightarrow> run_spec \<Rightarrow> main_act list" where
  "main_acts k spec =
     (let backlog = if qk_positions k then [ReadBacklog] else [] in
      if 0 < rs_close_after spec
      then [SleepCloseAfter] @ backlog @ [CloseQueue, JoinProducers, JoinConsumers]
      else [JoinProducers] @ backlog @ [CloseQueue, JoinConsumers])"

record run_result =
  rr_offered :: u64
  rr_accepted :: u64
  rr_rejected :: u64
  rr_refused :: u64
  rr_consumed :: u64
  rr_torn :: u64
  rr_disorder :: u64
  rr_exactly_once :: bool
  rr_t_go :: u64
  rr_t_end :: u64
  rr_first_full :: u64
  rr_seconds :: rat
  rr_rate :: rat
  rr_push :: histogram
  rr_ready :: histogram
  rr_e2e :: histogram
  rr_window :: histogram
  rr_pop :: histogram
  rr_producer_ops :: op_stats
  rr_consumer_ops :: op_stats
  rr_min_rate :: rat
  rr_max_rate :: rat
  rr_max_consumer_rate :: rat
  rr_unfinished :: nat
  rr_refused_producers :: nat
  rr_bursts :: u64
  rr_hot_offered :: u64
  rr_hot_rejected :: u64

definition empty_result :: run_result where
  "empty_result =
     \<lparr>rr_offered = 0, rr_accepted = 0, rr_rejected = 0, rr_refused = 0, rr_consumed = 0, rr_torn = 0,
      rr_disorder = 0, rr_exactly_once = False, rr_t_go = 0, rr_t_end = 0, rr_first_full = 0,
      rr_seconds = 0, rr_rate = 0, rr_push = empty_histogram, rr_ready = empty_histogram,
      rr_e2e = empty_histogram, rr_window = empty_histogram, rr_pop = empty_histogram,
      rr_producer_ops = no_stats, rr_consumer_ops = no_stats, rr_min_rate = 0, rr_max_rate = 0,
      rr_max_consumer_rate = 0, rr_unfinished = 0, rr_refused_producers = 0, rr_bursts = 0,
      rr_hot_offered = 0, rr_hot_rejected = 0\<rparr>"

text \<open>\<open>std::numeric_limits<double>::max()\<close>.\<close>

definition dbl_max :: rat where "dbl_max = (2 ^ 53 - 1) * 2 ^ 971"

definition the_window :: "producer_state \<Rightarrow> histogram" where
  "the_window s = (case window (ps_ops s) of None \<Rightarrow> empty_histogram | Some h \<Rightarrow> h)"

definition merge_producer ::
    "(u64 \<Rightarrow> rat) \<Rightarrow> producer_state \<Rightarrow> tally \<times> run_result \<Rightarrow> tally \<times> run_result" where
  "merge_producer to_ns s = (\<lambda>(acc, out).
     let secs = to_ns (ps_t_done s - rr_t_go out) / 10 ^ 9;
         r = if 0 < secs then of_nat (unat (t_n (ps_accepted s))) / secs else 0
     in (tally_merge (ps_accepted s) acc,
         out\<lparr>rr_offered := rr_offered out + ps_offered s,
             rr_rejected := rr_rejected out + ps_rejected s,
             rr_refused := rr_refused out + ps_refused s,
             rr_push := hist_merge (ps_push s) (rr_push out),
             rr_ready := hist_merge (ps_ready s) (rr_ready out),
             rr_window := hist_merge (the_window s) (rr_window out),
             rr_producer_ops := stats_merge (ps_ops s) (rr_producer_ops out),
             rr_unfinished := if ps_finished s then rr_unfinished out else rr_unfinished out + 1,
             rr_refused_producers :=
               if ps_rejected s \<noteq> 0 then rr_refused_producers out + 1 else rr_refused_producers out,
             rr_bursts := rr_bursts out + ps_bursts s,
             rr_first_full :=
               if ps_first_full s \<noteq> 0 \<and> (rr_first_full out = 0 \<or> ps_first_full s < rr_first_full out)
               then ps_first_full s else rr_first_full out,
             rr_min_rate := min (rr_min_rate out) r,
             rr_max_rate := max (rr_max_rate out) r\<rparr>))"

definition merge_consumer :: "consumer_state \<Rightarrow> tally \<times> run_result \<Rightarrow> tally \<times> run_result" where
  "merge_consumer s = (\<lambda>(con, out).
     (tally_merge (cs_consumed s) con,
      out\<lparr>rr_torn := rr_torn out + cs_torn s,
          rr_disorder := rr_disorder out + cs_disorder s,
          rr_e2e := hist_merge (cs_e2e s) (rr_e2e out),
          rr_pop := hist_merge (cs_pop s) (rr_pop out),
          rr_consumer_ops := stats_merge (cs_ops s) (rr_consumer_ops out),
          rr_t_end := max (rr_t_end out) (cs_t_last s)\<rparr>))"

definition finish_run ::
    "(u64 \<Rightarrow> rat) \<Rightarrow> u64 \<Rightarrow> producer_state list \<Rightarrow> consumer_state list \<Rightarrow> run_result" where
  "finish_run to_ns t_go ps cs =
     (let (acc, out1) = fold (merge_producer to_ns) ps
            (empty_tally, empty_result\<lparr>rr_t_go := t_go, rr_min_rate := dbl_max\<rparr>);
          out2 = out1\<lparr>rr_hot_offered := ps_offered (hd ps), rr_hot_rejected := ps_rejected (hd ps)\<rparr>;
          (con, out3) = fold merge_consumer cs (empty_tally, out2);
          secs = if t_go < rr_t_end out3 then to_ns (rr_t_end out3 - t_go) / 10 ^ 9 else 0;
          rate_of = (\<lambda>n :: u64. if 0 < secs then of_nat (unat n) / secs else 0)
      in out3\<lparr>rr_accepted := t_n acc, rr_consumed := t_n con,
              rr_exactly_once := cs \<noteq> [] \<and> acc = con \<and> rr_torn out3 = 0,
              rr_seconds := secs, rr_rate := rate_of (t_n con),
              rr_max_consumer_rate :=
                fold (\<lambda>c m. max m (rate_of (t_n (cs_consumed c)))) cs (rr_max_consumer_rate out3)\<rparr>)"

text \<open>The four checks of \<open>check_run\<close>, in order.\<close>

definition check_run :: "run_result \<Rightarrow> bool list" where
  "check_run r =
     [rr_offered r = rr_accepted r + rr_rejected r + rr_refused r,
      rr_torn r = 0, rr_exactly_once r, rr_disorder r = 0]"

section \<open>The occupancy monitor\<close>

type_synonym sample = "u64 \<times> u64"

definition kSamples :: nat where "kSamples = 2 ^ 16"

text \<open>The sampling loop, over what \<open>stop\<close> and the clock and counters were read as.\<close>

fun monitor_loop :: "(bool \<times> u64 \<times> u64 \<times> u64) list \<Rightarrow> sample list \<Rightarrow> sample list" where
  "monitor_loop [] ss = ss"
| "monitor_loop ((stop, t, reserved, claimed) # xs) ss =
     (if \<not> stop \<and> length ss < kSamples
      then monitor_loop xs (ss @ [(t, occupancy reserved claimed)]) else ss)"

definition peak :: "sample list \<Rightarrow> u64" where
  "peak ss = foldl (\<lambda>m x. max m (snd x)) 0 ss"

fun sample_at :: "u64 \<Rightarrow> u64 \<Rightarrow> sample list \<Rightarrow> u64" where
  "sample_at t v [] = v"
| "sample_at t v (x # xs) = (if t < fst x then v else sample_at t (snd x) xs)"

definition at_time :: "sample list \<Rightarrow> u64 \<Rightarrow> u64" where
  "at_time ss t = sample_at t 0 ss"

section \<open>What a producer reports\<close>

text \<open>
  The log of a producer: the sequence numbers it offered, in order, each with the queue's answer.
  It is no part of the driver; a state accounts for a log when its counters and tally say so.
\<close>

type_synonym push_log = "(u32 \<times> push_res) list"

definition accepts :: "u32 \<Rightarrow> push_log \<Rightarrow> (u32 \<times> u32) list" where
  "accepts p l = map (\<lambda>x. (p, fst x)) (filter (\<lambda>x. snd x = PushOk) l)"

definition answered :: "push_res set \<Rightarrow> push_log \<Rightarrow> nat" where
  "answered R l = length (filter (\<lambda>x. snd x \<in> R) l)"

definition accounted :: "u32 \<Rightarrow> push_log \<Rightarrow> producer_state \<Rightarrow> bool" where
  "accounted p l s \<longleftrightarrow>
     ps_offered s = of_nat (length l) \<and> ps_accepted s = tally_of (accepts p l) \<and>
     ps_refused s = of_nat (answered {PushClosed} l) \<and>
     ps_rejected s = of_nat (answered {PushFull, PushTimeout} l)"

lemmas log_defs = accounted_def accepts_def answered_def

lemma tally_of_snoc: "tally_of (xs @ [(p, q)]) = tally_add p q (tally_of xs)"
  by (simp add: tally_of_def)

lemma answered_total: "length l = length (accepts p l) + answered {PushClosed} l +
    answered {PushFull, PushTimeout} l"
proof (induction l)
  case (Cons x l)
  then show ?case by (cases "snd x") (simp_all add: accepts_def answered_def)
qed (simp add: accepts_def answered_def)

lemma accounted_new: "accounted p [] new_producer"
  by (simp add: log_defs new_producer_def tally_of_def)

lemma account_log: "accounted p l s \<Longrightarrow> accounted p (l @ [(q, r)]) (account r p q now s)"
  by (cases r) (simp_all add: log_defs tally_of_snoc)

lemma accounted_cong:
  "accounted p l s \<Longrightarrow> ps_offered s' = ps_offered s \<Longrightarrow> ps_accepted s' = ps_accepted s \<Longrightarrow>
   ps_refused s' = ps_refused s \<Longrightarrow> ps_rejected s' = ps_rejected s \<Longrightarrow> accounted p l s'"
  by (simp add: accounted_def)

lemma push_timed_log:
  "push_timed k spec i until q ready x s = (r, s') \<Longrightarrow> accounted (of_nat i) l s \<Longrightarrow>
   accounted (of_nat i) (l @ [(q, r)]) s'"
  by (auto simp: push_timed_def Let_def split: prod.splits if_splits
      intro!: account_log elim: accounted_cong)

lemma batch_push_log:
  assumes "batch_push spec i until n j x s = (got, s')" "accounted (of_nat i) l s"
  shows "\<exists>l'. map fst l' = map of_nat [j..<j + n] \<and> accounted (of_nat i) (l @ l') s'"
proof -
  let ?r = "\<lambda>m. if m < got then PushOk else if bo_closed x m then PushClosed else PushTimeout"
  let ?f = "\<lambda>m. account (?r m) (of_nat i) (of_nat (j + m)) (bo_t1 x)"
  define s1 where "s1 st = (if rs_latency spec
      then s\<lparr>ps_ops := st, ps_push := hist_record (bo_t1 x - bo_t0 x) (ps_push s)\<rparr>
      else s\<lparr>ps_ops := st\<rparr>)" for st
  have "accounted (of_nat i) l (s1 st)" for st
    using assms(2) by (simp add: s1_def accounted_def)
  moreover have "\<exists>st. s' = fold ?f [0..<n] (s1 st)"
    using assms(1) by (auto simp: batch_push_def Let_def s1_def split: prod.splits)
  ultimately obtain s2 where s': "s' = fold ?f [0..<n] s2" and s2: "accounted (of_nat i) l s2"
    by blast
  have "accounted (of_nat i) (l @ map (\<lambda>m. (of_nat (j + m), ?r m)) [0..<n]) (fold ?f [0..<n] s2)"
  proof (induction n)
    case (Suc n)
    from account_log [OF Suc, of "of_nat (j + n)" "?r n" "bo_t1 x"] show ?case by simp
  qed (simp add: s2)
  moreover have "map fst (map (\<lambda>m. (of_nat (j + m) :: u32, ?r m)) [0..<n]) = map of_nat [j..<j + n]"
    by (rule nth_equalityI) simp_all
  ultimately show ?thesis unfolding s' by blast
qed

text \<open>A log offers the numbers from 0 on without a gap.\<close>

definition consecutive :: "push_log \<Rightarrow> bool" where
  "consecutive l \<longleftrightarrow> map fst l = map of_nat [0..<length l]"

lemma consecutive_append:
  "consecutive l \<Longrightarrow> map fst l' = map of_nat [length l..<length l + n] \<Longrightarrow>
   consecutive (l @ l') \<and> length (l @ l') = length l + n"
proof -
  assume l: "consecutive l" and l': "map fst l' = map of_nat [length l..<length l + n]"
  have "length (map fst l') = length (map of_nat [length l..<length l + n] :: u32 list)"
    unfolding l' ..
  then have n: "length l' = n" by simp
  show ?thesis using l l' by (simp add: consecutive_def upt_add_eq_append [of 0 "length l" n] n)
qed

lemma sat_turn_log:
  assumes "sat_turn k spec i x bx quota until (length l) s = (n, goes, s')"
    "accounted (of_nat i) l s" "consecutive l"
  shows "\<exists>l'. accounted (of_nat i) (l @ l') s' \<and> consecutive (l @ l') \<and>
    length (l @ l') = length l + n \<and>
    (\<not> (qk_batch k \<and> 1 < rs_batch spec) \<and> \<not> goes \<longrightarrow> snd (last (l @ l')) = PushClosed)"
proof (cases "qk_batch k \<and> 1 < rs_batch spec")
  case True
  then obtain got where "batch_push spec i until n (length l) bx s = (got, s')"
    using assms(1) by (auto simp: sat_turn_def Let_def split: prod.splits)
  from batch_push_log [OF this assms(2)] obtain l' where
    "map fst l' = map of_nat [length l..<length l + n]" "accounted (of_nat i) (l @ l') s'"
    by blast
  then show ?thesis using consecutive_append [OF assms(3)] True by blast
next
  case False
  then obtain r where r: "push_timed k spec i until (of_nat (length l)) (po_ready x) x s = (r, s')"
    and n: "n = 1" and goes: "goes \<longleftrightarrow> r \<noteq> PushClosed"
    using assms(1) by (auto simp: sat_turn_def Let_def split: prod.splits)
  let ?l' = "[(of_nat (length l), r)] :: push_log"
  have "map fst ?l' = map of_nat [length l..<length l + n]" by (simp add: n)
  then have "consecutive (l @ ?l') \<and> length (l @ ?l') = length l + n"
    by (rule consecutive_append [OF assms(3)])
  moreover have "accounted (of_nat i) (l @ ?l') s'" by (rule push_timed_log [OF r assms(2)])
  moreover have "\<not> goes \<longrightarrow> snd (last (l @ ?l')) = PushClosed" using goes by simp
  ultimately show ?thesis by blast
qed

lemma saturated_log:
  assumes "accounted (of_nat i) l s" "consecutive l" "length l \<le> quota"
  shows "\<exists>l'. accounted (of_nat i) l' (saturated k spec i xs bs quota until (length l) s) \<and>
    consecutive l' \<and> length l' \<le> quota \<and>
    (\<not> (qk_batch k \<and> 1 < rs_batch spec) \<and> length l' < quota \<longrightarrow> snd (last l') = PushClosed)"
  using assms
proof (induction "quota - length l" arbitrary: l s until rule: less_induct)
  case less
  show ?case
  proof (cases "length l < quota")
    case False
    then show ?thesis using less.prems by (auto simp: saturated.simps)
  next
    case True
    define until' where "until' = (if length l AND 1023 = 0 then length l else until)"
    obtain n goes s' where t: "sat_turn k spec i (xs (length l)) (bs (length l)) quota until'
        (length l) s = (n, goes, s')" by (metis prod_cases3)
    have step: "saturated k spec i xs bs quota until (length l) s =
      (if goes then saturated k spec i xs bs quota until' (length l + n) s' else s')"
      using True t by (subst saturated.simps) (simp add: Let_def until'_def)
    obtain l' where l': "accounted (of_nat i) (l @ l') s'" "consecutive (l @ l')"
      "length (l @ l') = length l + n"
      "\<not> (qk_batch k \<and> 1 < rs_batch spec) \<and> \<not> goes \<longrightarrow> snd (last (l @ l')) = PushClosed"
      using sat_turn_log [OF t less.prems(1, 2)] by blast
    note n = sat_turn_offers [OF True t]
    have le: "length (l @ l') \<le> quota" and dec: "quota - length (l @ l') < quota - length l"
      using l'(3) n True by simp_all
    show ?thesis
    proof (cases goes)
      case True
      then show ?thesis unfolding step using less.hyps [OF dec l'(1, 2) le] l'(3) by simp
    next
      case False
      then show ?thesis unfolding step using l' le by auto
    qed
  qed
qed

text \<open>
  A saturated producer offers the numbers from 0 on, without a gap and at most its quota, and
  reports them all: its counters and its tally are those of some log of the queue's answers. It
  has finished its quota exactly when it offered as many events as the run asked for, and one that
  does not push batches stops early only when its last push was refused as closed.
\<close>

theorem saturated_accounts:
  "\<exists>l. accounted (of_nat i) l (saturated_producer k spec i xs bs t_done) \<and> consecutive l \<and>
     length l \<le> quota_of spec \<and>
     (ps_finished (saturated_producer k spec i xs bs t_done) \<longleftrightarrow>
        rs_events spec \<noteq> 0 \<and> length l = unat (rs_events spec)) \<and>
     (\<not> (qk_batch k \<and> 1 < rs_batch spec) \<and> length l < quota_of spec \<longrightarrow>
        snd (last l) = PushClosed)"
proof -
  have "consecutive []" by (simp add: consecutive_def)
  then obtain l where l: "accounted (of_nat i) l (saturated k spec i xs bs (quota_of spec) 0 0 new_producer)"
    "consecutive l" "length l \<le> quota_of spec"
    "\<not> (qk_batch k \<and> 1 < rs_batch spec) \<and> length l < quota_of spec \<longrightarrow> snd (last l) = PushClosed"
    using saturated_log [OF accounted_new, of "quota_of spec" i k spec xs bs 0] by auto
  have "of_nat (length l) = rs_events spec \<longleftrightarrow> length l = unat (rs_events spec)"
    if "rs_events spec \<noteq> 0"
  proof -
    have "length l \<le> unat (rs_events spec)" using l(3) that by (simp add: quota_of_def)
    then have "length l < 2 ^ 64" using unsigned_less [of "rs_events spec", where 'a = nat] by simp
    then have "unat (of_nat (length l) :: u64) = length l" by (simp add: unat_of_nat)
    then show ?thesis by (metis word_unat_eq_iff)
  qed
  then show ?thesis
    using l by (intro exI [of _ l])
      (auto simp: saturated_producer_def Let_def accounted_def)
qed

section \<open>Paced producers keep to the schedule\<close>

definition pace_ok :: "nat \<Rightarrow> nat \<Rightarrow> u64 \<Rightarrow> nat \<Rightarrow> nat \<Rightarrow> pace \<Rightarrow> bool" where
  "pace_ok i n0 interval bound stop a \<longleftrightarrow>
     unat (pa_now a) \<le> bound \<and>
     (\<exists>l. accounted (of_nat i) l (pa_state a) \<and> consecutive l \<and> pa_seq a = of_nat (length l) \<and>
        unat (pa_next a) = n0 + unat interval * length l \<and>
        (\<forall>j < length l. n0 + unat interval * j < stop \<and> n0 + unat interval * j \<le> bound))"

lemma consecutive_snoc: "consecutive l \<Longrightarrow> consecutive (l @ [(of_nat (length l), r)])"
  by (simp add: consecutive_def)

lemma pace_ok_push:
  assumes ok: "pace_ok i n0 interval bound (unat stop) a"
    and fits: "unat stop + unat interval < 2 ^ 64"
    and due: "pa_next a \<le> pa_now a" "pa_next a < stop"
    and p: "push_timed k spec i u (pa_seq a) ready x (pa_state a) = (r, s)"
    and now: "unat now \<le> bound"
  shows "pace_ok i n0 interval bound (unat stop)
    (a\<lparr>pa_state := s, pa_seq := pa_seq a + 1, pa_next := pa_next a + interval, pa_now := now,
       pa_open := v, pa_burst := w\<rparr>)"
proof -
  obtain l where l: "accounted (of_nat i) l (pa_state a)" "consecutive l" "pa_seq a = of_nat (length l)"
    "unat (pa_next a) = n0 + unat interval * length l"
    "\<forall>j < length l. n0 + unat interval * j < unat stop \<and> n0 + unat interval * j \<le> bound"
    and b: "unat (pa_now a) \<le> bound"
    using ok by (auto simp: pace_ok_def)
  let ?l = "l @ [(of_nat (length l), r)]"
  have "accounted (of_nat i) ?l s" using push_timed_log [OF p l(1)] l(3) by simp
  moreover have "consecutive ?l" using l(2) by (rule consecutive_snoc)
  moreover have "unat (pa_next a + interval) = n0 + unat interval * length ?l"
  proof -
    have "unat (pa_next a) < unat stop" using due(2) by (simp add: word_less_nat_alt)
    then have "unat (pa_next a) + unat interval < 2 ^ LENGTH(64)" using fits by simp
    then have "unat (pa_next a + interval) = unat (pa_next a) + unat interval"
      using unat_plus_if_size [of "pa_next a" interval] by (simp add: size_word.rep_eq)
    then show ?thesis using l(4) by simp
  qed
  moreover have "\<forall>j < length ?l. n0 + unat interval * j < unat stop \<and> n0 + unat interval * j \<le> bound"
    using l(4, 5) due b by (auto simp: less_Suc_eq word_le_nat_alt word_less_nat_alt)
  ultimately show ?thesis
    using now l(3) by (auto simp: pace_ok_def intro!: exI [of _ ?l])
qed

lemma pace_ok_step:
  assumes ok: "pace_ok i n0 interval bound (unat stop) a"
    and fits: "unat stop + unat interval < 2 ^ 64"
    and "unat (pb_now x) \<le> bound" "unat (pb_after x) \<le> bound"
  shows "pace_ok i n0 interval bound (unat stop) (pace_step k spec i interval stop x a)"
proof (cases "pa_burst a \<and> pa_next a \<le> pa_now a \<and> pa_next a < stop")
  case True
  obtain r s where p: "push_timed k spec i (pa_turn a) (pa_seq a) (max (pa_next a) (pa_woke a))
    (pb_push x) (pa_state a) = (r, s)" by fastforce
  from pace_ok_push [OF ok fits _ _ p assms(4)] True show ?thesis
    by (simp add: pace_step_def p)
next
  case False
  then show ?thesis using assms
    by (auto simp: pace_step_def pace_ok_def accounted_def)
qed

text \<open>
  C32: A paced producer keeps to its schedule: every event it has offered was due at a time some
  reading of the clock had reached, and before the end. A producer that has fallen behind catches up, so it may
  make such a push later than the end. When its loop is over with the queue still open it has
  offered every event due before the end. Every event is accounted for.
\<close>

theorem paced_on_schedule:
  assumes "unat stop + unat interval < 2 ^ 64" "unat start \<le> bound"
    and "\<forall>x \<in> set xs. unat (pb_now x) \<le> bound \<and> unat (pb_after x) \<le> bound"
  shows "\<exists>l. accounted (of_nat i) l (paced_producer t_done
        (fold (pace_step k spec i interval stop) xs (pace_begin spec i start interval))) \<and>
    consecutive l \<and>
    (\<forall>j < length l.
       unat (pa_next (pace_begin spec i start interval)) + unat interval * j < unat stop \<and>
       unat (pa_next (pace_begin spec i start interval)) + unat interval * j \<le> bound) \<and>
    (pace_done stop (fold (pace_step k spec i interval stop) xs (pace_begin spec i start interval)) \<and>
     ps_finished (paced_producer t_done
       (fold (pace_step k spec i interval stop) xs (pace_begin spec i start interval))) \<longrightarrow>
       unat stop \<le> unat (pa_next (pace_begin spec i start interval)) + unat interval * length l)"
proof -
  let ?a = "pace_begin spec i start interval"
  have inv: "pace_ok i n0 interval bound (unat stop) (fold (pace_step k spec i interval stop) xs a)"
    if "pace_ok i n0 interval bound (unat stop) a"
      "\<forall>x \<in> set xs. unat (pb_now x) \<le> bound \<and> unat (pb_after x) \<le> bound" for a n0 xs
    using that
  proof (induction xs arbitrary: a)
    case (Cons x xs)
    from Cons.prems have "pace_ok i n0 interval bound (unat stop) (pace_step k spec i interval stop x a)"
      using pace_ok_step [OF _ assms(1)] by simp
    then show ?case using Cons by simp
  qed simp
  have "pace_ok i (unat (pa_next ?a)) interval bound (unat stop) ?a"
    using assms(2) accounted_new [of "of_nat i"]
    by (auto simp: pace_ok_def pace_begin_def consecutive_def intro: exI [of _ "[]"])
  from inv [OF this assms(3)] show ?thesis
    by (auto simp: pace_ok_def paced_producer_def accounted_def pace_done_def word_less_nat_alt not_less)
qed

definition steady_push :: push_call where
  "steady_push e u st = (PushOk, st)"

definition steady_obs :: "u64 \<Rightarrow> pace_obs" where
  "steady_obs t =
     \<lparr>pb_now = t, pb_woke = t,
      pb_push = \<lparr>po_ready = t, po_t0 = t, po_try = steady_push, po_push = steady_push, po_t1 = t\<rparr>,
      pb_after = t\<rparr>"

lemma paced_on_schedule_witness:
  "\<exists>l. accounted 0 l (paced_producer 0
     (fold (pace_step \<lparr>qk_ids = False, qk_try_push = True, qk_try_pop = True, qk_batch = False,
        qk_positions = True, qk_rings = None\<rparr> default_spec 0 10 100) [steady_obs 105, steady_obs 105]
       (pace_begin default_spec 0 90 10)))"
  using paced_on_schedule [of 100 10 90 200 "[steady_obs 105, steady_obs 105]" 0 0
      "\<lparr>qk_ids = False, qk_try_push = True, qk_try_pop = True, qk_batch = False,
        qk_positions = True, qk_rings = None\<rparr>" default_spec]
  by (auto simp: steady_obs_def)

section \<open>What a consumer reports\<close>

definition acceptable :: "event \<Rightarrow> bool" where
  "acceptable e \<longleftrightarrow> intact e \<and> unat (producer e) < 128"

definition ids :: "event list \<Rightarrow> (u32 \<times> u32) list" where
  "ids evs = map (\<lambda>e. (producer e, seq_no e)) evs"

text \<open>Every producer's numbers only go up.\<close>

definition in_order :: "event list \<Rightarrow> bool" where
  "in_order evs \<longleftrightarrow> sorted_wrt (\<lambda>a b. producer a = producer b \<longrightarrow> seq_no a < seq_no b) evs"

definition newest :: "event list \<Rightarrow> nat \<Rightarrow> int" where
  "newest evs p = last (- 1 # map (\<lambda>e. uint (seq_no e)) (filter (\<lambda>e. unat (producer e) = p) evs))"

definition received :: "event list \<Rightarrow> consumer_state \<Rightarrow> bool" where
  "received evs s \<longleftrightarrow>
     (let good = filter acceptable evs in
      cs_consumed s = tally_of (ids good) \<and>
      cs_torn s = of_nat (length (filter (\<lambda>e. \<not> acceptable e) evs)) \<and>
      length (cs_last_seq s) = 128 \<and> (\<forall>p < 128. cs_last_seq s ! p = newest good p) \<and>
      (\<exists>d. d \<le> length good \<and> cs_disorder s = of_nat d \<and> (d = 0 \<longleftrightarrow> in_order good)))"

lemma received_new: "received [] new_consumer"
  by (auto simp: received_def new_consumer_def tally_of_def ids_def newest_def in_order_def)

lemma newest_snoc: "newest (evs @ [e]) p = (if unat (producer e) = p then uint (seq_no e) else newest evs p)"
  by (simp add: newest_def)

lemma newest_max:
  assumes "in_order evs"
  shows "(\<forall>x \<in> set evs. producer x = producer e \<longrightarrow> seq_no x < seq_no e) \<longleftrightarrow>
    newest evs (unat (producer e)) < uint (seq_no e)"
  using assms
proof (induction evs rule: rev_induct)
  case Nil
  have "- 1 < uint (seq_no e)" by (rule less_le_trans [of _ 0]) simp_all
  then show ?case by (simp add: newest_def)
next
  case (snoc x evs)
  then have o': "in_order evs"
    and lt: "\<forall>y \<in> set evs. producer y = producer x \<longrightarrow> seq_no y < seq_no x"
    by (auto simp: in_order_def sorted_wrt_append)
  show ?case
  proof (cases "producer x = producer e")
    case True
    have "(\<forall>y \<in> set (evs @ [x]). producer y = producer e \<longrightarrow> seq_no y < seq_no e) \<longleftrightarrow>
        seq_no x < seq_no e"
      using lt True by (auto intro: order.strict_trans)
    then show ?thesis using True by (simp add: newest_snoc word_less_def)
  next
    case False
    then have "unat (producer x) \<noteq> unat (producer e)" by (simp add: word_unat_eq_iff)
    then show ?thesis using snoc.IH [OF o'] False by (simp add: newest_snoc)
  qed
qed

lemma in_order_snoc:
  "in_order (evs @ [e]) \<longleftrightarrow> in_order evs \<and> newest evs (unat (producer e)) < uint (seq_no e)"
  using newest_max [of evs e] by (auto simp: in_order_def sorted_wrt_append)

lemma take_event_log:
  assumes "received evs s" shows "received (evs @ [e]) (take_event spec (t, e) s)"
proof (cases "acceptable e")
  case True
  let ?good = "filter acceptable evs" and ?p = "unat (producer e)"
  have g: "filter acceptable (evs @ [e]) = ?good @ [e]" using True by simp
  obtain d where d: "d \<le> length ?good" "cs_disorder s = of_nat d" "d = 0 \<longleftrightarrow> in_order ?good"
    and r: "cs_consumed s = tally_of (ids ?good)" "length (cs_last_seq s) = 128"
      "\<forall>p < 128. cs_last_seq s ! p = newest ?good p"
      "cs_torn s = of_nat (length (filter (\<lambda>e. \<not> acceptable e) evs))"
    using assms by (auto simp: received_def Let_def)
  have e: "intact e" "?p < 128" using True by (simp_all add: acceptable_def)
  let ?late = "uint (seq_no e) \<le> cs_last_seq s ! ?p"
  define d' where "d' = (if ?late then Suc d else d)"
  have "d' \<le> length (?good @ [e])" "d' = 0 \<longleftrightarrow> in_order (?good @ [e])"
    using d(1, 3) e(2) r(3) by (auto simp: d'_def in_order_snoc)
  moreover have "cs_disorder (take_event spec (t, e) s) = of_nat d'"
    using e r(2) d(2) by (simp add: take_event_def Let_def d'_def)
  moreover have "cs_consumed (take_event spec (t, e) s) = tally_of (ids (?good @ [e]))"
    "cs_torn (take_event spec (t, e) s) = cs_torn s"
    "cs_last_seq (take_event spec (t, e) s) = (cs_last_seq s)[?p := uint (seq_no e)]"
    using e r(1, 2) by (simp_all add: take_event_def Let_def ids_def tally_of_snoc)
  moreover have "\<forall>p < 128. (cs_last_seq s)[?p := uint (seq_no e)] ! p = newest (?good @ [e]) p"
    using r(2, 3) e(2) by (simp add: newest_snoc nth_list_update)
  ultimately show ?thesis
    using r(2, 4) True unfolding received_def Let_def g by (simp; blast)
next
  case False
  then have "take_event spec (t, e) s = s\<lparr>cs_t_last := t, cs_torn := cs_torn s + 1\<rparr>"
    using assms by (auto simp: take_event_def Let_def acceptable_def received_def)
  then show ?thesis using assms False by (simp add: received_def Let_def)
qed

lemma take_events_log:
  "received evs s \<Longrightarrow> received (evs @ map snd tes) (fold (take_event spec) tes s)"
proof (induction tes arbitrary: evs s)
  case (Cons te tes)
  then show ?case using Cons.IH [OF take_event_log [OF Cons.prems]] by (cases te) simp
qed simp

lemma received_cong [simp]:
  "received evs (s\<lparr>cs_ops := st\<rparr>) = received evs s" "received evs (s\<lparr>cs_pop := h\<rparr>) = received evs s"
  by (simp_all add: received_def)

lemma consume_turn_log:
  "consume_turn k spec x s = (goes, tes, s') \<Longrightarrow> received evs s \<Longrightarrow> received (evs @ map snd tes) s'"
  by (auto simp: consume_turn_def Let_def split: prod.splits if_splits
      intro!: take_event_log take_events_log)

lemma consume_log:
  "consume k spec xs s = (ended, tes, s') \<Longrightarrow> received evs s \<Longrightarrow> received (evs @ map snd tes) s'"
proof (induction xs arbitrary: evs s tes)
  case (Cons x xs)
  obtain goes t1 s1 where t: "consume_turn k spec x s = (goes, t1, s1)" by (metis prod_cases3)
  note r = consume_turn_log [OF t Cons.prems(2)]
  show ?case
  proof (cases goes)
    case True
    obtain e t2 s2 where c: "consume k spec xs s1 = (e, t2, s2)" by (metis prod_cases3)
    then have "tes = t1 @ t2" "s' = s2" "ended = e" using Cons.prems(1) True t by simp_all
    then show ?thesis using Cons.IH [of s1 t2 "evs @ map snd t1"] c r by simp
  next
    case False
    then show ?thesis using Cons.prems(1) t r by simp
  qed
qed simp

section \<open>The verdict of a run\<close>

definition accepted_ids :: "(u32 \<times> push_log) list \<Rightarrow> (u32 \<times> u32) list" where
  "accepted_ids logs = concat (map (\<lambda>(p, l). accepts p l) logs)"

definition accounts_for :: "(u32 \<times> push_log) list \<Rightarrow> producer_state list \<Rightarrow> bool" where
  "accounts_for logs ps \<longleftrightarrow> list_all2 (\<lambda>(p, l) s. accounted p l s) logs ps"

lemma tally_merge_of: "tally_merge (tally_of ys) (tally_of xs) = tally_of (xs @ ys)"
  by (simp add: tally_of_eq tally_merge_def)

lemma tally_of_mset: "mset xs = mset ys \<Longrightarrow> tally_of xs = tally_of ys"
proof -
  assume eq: "mset xs = mset ys"
  have "sum_list (map f xs) = sum_list (map f ys)" for f :: "_ \<Rightarrow> u64"
    using eq by (metis mset_map sum_mset_sum_list)
  then show ?thesis using mset_eq_length [OF eq] by (simp add: tally_of_eq)
qed

lemma t_n_tally: "t_n (tally_of xs) = of_nat (length xs)"
  by (simp add: tally_of_eq)

text \<open>Merging the producers keeps the balance and collects the tally.\<close>

definition balanced :: "u64 \<Rightarrow> (u32 \<times> u32) list \<Rightarrow> tally \<times> run_result \<Rightarrow> bool" where
  "balanced t_go A x \<longleftrightarrow>
     fst x = tally_of A \<and> rr_t_go (snd x) = t_go \<and> rr_torn (snd x) = 0 \<and> rr_disorder (snd x) = 0 \<and>
     rr_offered (snd x) = t_n (fst x) + rr_rejected (snd x) + rr_refused (snd x)"

lemma merge_producer_balanced:
  assumes "balanced t_go A x" "accounted p l s"
  shows "balanced t_go (A @ accepts p l) (merge_producer to_ns s x)"
proof -
  obtain acc out where x: "x = (acc, out)" by fastforce
  have "(of_nat (length l) :: u64) = of_nat (length (accepts p l)) +
      of_nat (answered {PushClosed} l) + of_nat (answered {PushFull, PushTimeout} l)"
    using answered_total [of l p] by (metis of_nat_add)
  then show ?thesis
    using assms by (simp add: x balanced_def merge_producer_def Let_def accounted_def
      tally_merge_of t_n_tally add_ac)
qed

lemma merge_producers_balanced:
  "accounts_for logs ps \<Longrightarrow> balanced t_go A x \<Longrightarrow>
   balanced t_go (A @ accepted_ids logs) (fold (merge_producer to_ns) ps x)"
proof (induction logs arbitrary: ps A x)
  case (Cons pl logs)
  obtain p l where pl: "pl = (p, l)" by fastforce
  then obtain s ps' where ps: "ps = s # ps'" "accounted p l s" "accounts_for logs ps'"
    using Cons.prems(1) by (auto simp: accounts_for_def list_all2_Cons1)
  show ?case
    using Cons.IH [OF ps(3) merge_producer_balanced [OF Cons.prems(2) ps(2)]]
    by (simp add: ps(1) pl accepted_ids_def)
qed (simp add: accepted_ids_def accounts_for_def)

text \<open>Merging the consumers collects the tally and the faults.\<close>

definition good_ids :: "event list list \<Rightarrow> (u32 \<times> u32) list" where
  "good_ids es = concat (map (\<lambda>evs. ids (filter acceptable evs)) es)"

definition bad :: "event list list \<Rightarrow> nat" where
  "bad es = length (filter (\<lambda>e. \<not> acceptable e) (concat es))"

definition all_in_order :: "event list list \<Rightarrow> bool" where
  "all_in_order es \<longleftrightarrow> list_all (\<lambda>evs. in_order (filter acceptable evs)) es"

definition faults :: "run_result \<Rightarrow> event list list \<Rightarrow> tally \<times> run_result \<Rightarrow> bool" where
  "faults out es x \<longleftrightarrow>
     fst x = tally_of (good_ids es) \<and> rr_torn (snd x) = of_nat (bad es) \<and>
     (\<exists>d. d \<le> length (concat es) \<and> rr_disorder (snd x) = of_nat d \<and> (d = 0 \<longleftrightarrow> all_in_order es)) \<and>
     rr_offered (snd x) = rr_offered out \<and> rr_rejected (snd x) = rr_rejected out \<and>
     rr_refused (snd x) = rr_refused out"

lemma merge_consumer_faults:
  assumes "faults out es x" "received evs s"
  shows "faults out (es @ [evs]) (merge_consumer s x)"
proof -
  obtain con out' where x: "x = (con, out')" by fastforce
  obtain d where d: "d \<le> length (concat es)" "rr_disorder out' = of_nat d" "d = 0 \<longleftrightarrow> all_in_order es"
    using assms(1) by (auto simp: faults_def x)
  obtain d' where d': "d' \<le> length (filter acceptable evs)" "cs_disorder s = of_nat d'"
    "d' = 0 \<longleftrightarrow> in_order (filter acceptable evs)"
    using assms(2) by (auto simp: received_def Let_def)
  have le: "d + d' \<le> length (concat (es @ [evs]))"
    using add_mono [OF d(1) le_trans [OF d'(1) length_filter_le]] by simp
  have "d + d' = 0 \<longleftrightarrow> all_in_order (es @ [evs])"
    using d(3) d'(3) by (simp add: all_in_order_def)
  moreover have "rr_disorder (snd (merge_consumer s x)) = of_nat (d + d')"
    by (simp add: x merge_consumer_def d(2) d'(2))
  ultimately have "\<exists>d. d \<le> length (concat (es @ [evs])) \<and>
      rr_disorder (snd (merge_consumer s x)) = of_nat d \<and> (d = 0 \<longleftrightarrow> all_in_order (es @ [evs]))"
    using le by blast
  then show ?thesis
    using assms unfolding faults_def
    by (simp add: x merge_consumer_def received_def Let_def tally_merge_of good_ids_def bad_def)
qed

lemma merge_consumers_faults:
  "list_all2 received es cs \<Longrightarrow> faults out es' x \<Longrightarrow> faults out (es' @ es) (fold merge_consumer cs x)"
proof (induction es arbitrary: cs es' x)
  case (Cons evs es)
  then obtain s cs' where cs: "cs = s # cs'" "received evs s" "list_all2 received es cs'"
    by (auto simp: list_all2_Cons1)
  show ?case
    using Cons.IH [OF cs(3) merge_consumer_faults [OF Cons.prems(2) cs(2)]] by (simp add: cs(1))
qed simp

text \<open>The outcome of the four checks.\<close>

lemma run_checks:
  assumes "accounts_for logs ps" "list_all2 received es cs" "cs \<noteq> []" "length (concat es) < 2 ^ 64"
  shows "check_run (finish_run to_ns t_go ps cs) =
    [True, bad es = 0, tally_of (accepted_ids logs) = tally_of (good_ids es) \<and> bad es = 0,
     all_in_order es]"
proof -
  let ?start = "(empty_tally, empty_result\<lparr>rr_t_go := t_go, rr_min_rate := dbl_max\<rparr>)"
  obtain acc out1 where m1: "fold (merge_producer to_ns) ps ?start = (acc, out1)" by fastforce
  have "balanced t_go [] ?start"
    by (simp add: balanced_def empty_result_def empty_tally_def tally_of_eq)
  from merge_producers_balanced [OF assms(1) this, of to_ns]
  have acc: "acc = tally_of (accepted_ids logs)" and sum: "rr_torn out1 = 0" "rr_disorder out1 = 0"
    "rr_offered out1 = t_n acc + rr_rejected out1 + rr_refused out1"
    by (simp_all add: m1 balanced_def)
  let ?out2 = "out1\<lparr>rr_hot_offered := ps_offered (hd ps), rr_hot_rejected := ps_rejected (hd ps)\<rparr>"
  obtain con out3 where m2: "fold merge_consumer cs (empty_tally, ?out2) = (con, out3)" by fastforce
  have "faults ?out2 [] (empty_tally, ?out2)"
    using sum by (simp add: faults_def good_ids_def bad_def all_in_order_def tally_of_def)
  from merge_consumers_faults [OF assms(2) this]
  have con: "con = tally_of (good_ids es)" and torn: "rr_torn out3 = of_nat (bad es)"
    and rest: "rr_offered out3 = rr_offered out1" "rr_rejected out3 = rr_rejected out1"
      "rr_refused out3 = rr_refused out1"
    and ex: "\<exists>d. d \<le> length (concat es) \<and> rr_disorder out3 = of_nat d \<and> (d = 0 \<longleftrightarrow> all_in_order es)"
    by (simp_all add: m2 faults_def)
  have zero: "(of_nat n :: u64) = 0 \<longleftrightarrow> n = 0" if "n \<le> length (concat es)" for n
  proof -
    have "n < 2 ^ 64" using that assms(4) by (rule le_less_trans)
    then show ?thesis using pos_eq_iff [of 0 n] by auto
  qed
  have "bad es \<le> length (concat es)" by (simp only: bad_def length_filter_le)
  then have t: "rr_torn out3 = 0 \<longleftrightarrow> bad es = 0" using zero torn by simp
  have d: "rr_disorder out3 = 0 \<longleftrightarrow> all_in_order es" using ex zero by auto
  show ?thesis
    unfolding finish_run_def m1 Let_def prod.case m2
    using assms(3) by (auto simp: check_run_def acc con t d rest sum(3) add_ac)
qed

lemma good_ids_length: "length (good_ids es) \<le> length (concat es)"
proof (induction es)
  case (Cons evs es)
  then show ?case using add_mono [OF length_filter_le [of acceptable evs] Cons]
    by (simp add: good_ids_def ids_def)
qed (simp add: good_ids_def)

lemma tally_counts:
  assumes "length xs < 2 ^ 64" "length ys < 2 ^ 64" "tally_of xs = tally_of ys"
  shows "length xs = length ys"
proof -
  have "(of_nat (length xs) :: u64) = of_nat (length ys)" using assms(3) t_n_tally by metis
  then have "unat (of_nat (length xs) :: u64) = unat (of_nat (length ys) :: u64)" by (rule arg_cong)
  then show ?thesis using assms(1, 2) by (simp add: unat_of_nat)
qed

text \<open>
  The checks are right about a run. The balance of the counters always holds. When the consumers
  together took exactly the accepted events, each intact, and each consumer saw every producer's
  numbers go up, all four checks pass. They fail, as they must, when one event was torn or read
  unpublished, when a consumer saw a producer's events out of order, when the number of events
  taken is not the number accepted, and when one event was taken in place of another.
\<close>

theorem run_verdict:
  assumes "accounts_for logs ps" "list_all2 received es cs" "cs \<noteq> []"
    and "length (concat es) < 2 ^ 64" "length (accepted_ids logs) < 2 ^ 64"
  shows "hd (check_run (finish_run to_ns t_go ps cs)) \<and>
    (bad es = 0 \<and> all_in_order es \<and> mset (good_ids es) = mset (accepted_ids logs) \<longrightarrow>
       list_all id (check_run (finish_run to_ns t_go ps cs))) \<and>
    (bad es \<noteq> 0 \<or> \<not> all_in_order es \<or> length (good_ids es) \<noteq> length (accepted_ids logs) \<or>
     (\<exists>x y m. x \<noteq> y \<and> mset (accepted_ids logs) = add_mset x m \<and> mset (good_ids es) = add_mset y m) \<longrightarrow>
       \<not> list_all id (check_run (finish_run to_ns t_go ps cs)))"
proof -
  let ?A = "accepted_ids logs" and ?G = "good_ids es"
  have lt: "length ?G < 2 ^ 64" using good_ids_length [of es] assms(4) by (rule le_less_trans)
  have pass: "mset ?G = mset ?A \<Longrightarrow> tally_of ?A = tally_of ?G"
    by (rule tally_of_mset [OF sym])
  have count: "length ?G \<noteq> length ?A \<Longrightarrow> tally_of ?A \<noteq> tally_of ?G"
    using tally_counts [OF assms(5) lt] by metis
  have swap: "\<exists>x y m. x \<noteq> y \<and> mset ?A = add_mset x m \<and> mset ?G = add_mset y m \<Longrightarrow>
      tally_of ?A \<noteq> tally_of ?G"
    using tally_detects_exchange by metis
  show ?thesis
    unfolding run_checks [OF assms(1-4), of to_ns t_go] list.pred_inject(2) id_def list.sel
    using pass count swap by (simp only: list.pred_inject(1)) blast
qed

lemma run_verdict_witness:
  "\<not> list_all id (check_run (finish_run (\<lambda>_. 0) 0 [new_producer]
      [take_event default_spec (5, make_event 0 0 0) new_consumer]))"
proof -
  have "list_all2 received [[make_event 0 0 0]]
      [take_event default_spec (5, make_event 0 0 0) new_consumer]"
    using take_event_log [OF received_new, of "make_event 0 0 0"] by simp
  moreover have "acceptable (make_event 0 0 0)"
    using intact_iff [of "make_event 0 0 0"] by (simp add: acceptable_def make_event_def Let_def)
  ultimately show ?thesis
    using run_verdict [of "[(0, [])]" "[new_producer]" "[[make_event 0 0 0]]"
        "[take_event default_spec (5, make_event 0 0 0) new_consumer]" "\<lambda>_. 0" 0] accounted_new
    by (simp add: accounts_for_def accepted_ids_def accepts_def good_ids_def ids_def bad_def)
qed

section \<open>Rates and occupancy\<close>

text \<open>The producers' shares add up to the rate of the run.\<close>

theorem rates_add_up:
  assumes "0 < rs_rate spec" "0 < rs_producers spec"
  shows "\<exists>spacing. (\<forall>ticks i. interval_of ticks spec i = ticks (spacing i)) \<and>
    (\<Sum>i < rs_producers spec. 10 ^ 9 / spacing i) = rs_rate spec"
proof -
  let ?P = "rs_producers spec" and ?h = "rs_hot_share spec"
  show ?thesis
  proof (cases "?h \<le> 0 \<or> 1 \<le> ?h \<or> ?P < 2")
    case True
    then show ?thesis using assms
      by (intro exI [of _ "\<lambda>i. 10 ^ 9 * of_nat ?P / rs_rate spec"])
        (auto simp: interval_of_def)
  next
    case False
    define share where "share i = (if i = 0 then ?h else (1 - ?h) / of_nat (?P - 1))" for i :: nat
    have "{..<?P} = insert 0 {1..<?P}" using False by auto
    then have "(\<Sum>i < ?P. share i) = ?h + of_nat (?P - 1) * ((1 - ?h) / of_nat (?P - 1))"
      by (simp add: share_def)
    also have "\<dots> = 1" using False by simp
    finally have "(\<Sum>i < ?P. rs_rate spec * share i) = rs_rate spec"
      by (simp add: sum_distrib_left [symmetric])
    then show ?thesis using assms False
      by (intro exI [of _ "\<lambda>i. 10 ^ 9 / (rs_rate spec * share i)"])
        (auto simp: interval_of_def share_def Let_def)
  qed
qed

theorem rates_add_up_witness:
  "\<exists>spacing. interval_of (\<lambda>_. 7) (default_spec\<lparr>rs_rate := 1000\<rparr>) 3 = (\<lambda>_. 7) (spacing (3 :: nat) :: rat) \<and>
     (\<Sum>i < 32. 10 ^ 9 / spacing i) = (1000 :: rat)"
  using rates_add_up [of "default_spec\<lparr>rs_rate := 1000\<rparr>"]
  by (auto simp: default_spec_def kProducers_def)

lemma monitor_bounded: "length ss \<le> kSamples \<Longrightarrow> length (monitor_loop xs ss) \<le> kSamples"
  by (induction xs ss rule: monitor_loop.induct) auto

lemma sample_at_last: "sorted (map fst ss) \<Longrightarrow>
    sample_at t v ss = last (v # map snd (filter (\<lambda>x. fst x \<le> t) ss))"
proof (induction ss arbitrary: v)
  case (Cons x ss)
  show ?case
  proof (cases "t < fst x")
    case True
    then have "filter (\<lambda>x. fst x \<le> t) (x # ss) = []"
      using Cons.prems by (auto simp: filter_empty_conv)
    then show ?thesis using True by (metis last.simps list.map(1) sample_at.simps(2))
  next
    case False
    then show ?thesis using Cons by auto
  qed
qed simp

lemma peak_from: "foldl (\<lambda>m x. max m (snd x)) v ss = Max (insert v (snd ` set ss))"
  for ss :: "sample list"
proof (induction ss arbitrary: v)
  case (Cons x ss)
  have "Max (insert (max v (snd x)) (snd ` set ss)) = Max (insert v (insert (snd x) (snd ` set ss)))"
    by (cases "ss = []") (simp_all add: max.assoc)
  then show ?case using Cons by simp
qed simp

text \<open>
  The monitor never outgrows its timeline; the occupancy it reads is never a wrapped
  difference; \<open>peak\<close> is the largest sample, and \<open>at\<close> the last one taken by then.
\<close>

theorem monitor_reads:
  assumes "sorted (map fst (monitor_loop xs []))"
  shows "length (monitor_loop xs []) \<le> kSamples \<and>
    peak (monitor_loop xs []) = Max (insert 0 (snd ` set (monitor_loop xs []))) \<and>
    at_time (monitor_loop xs []) t =
      last (0 # map snd (filter (\<lambda>x. fst x \<le> t) (monitor_loop xs []))) \<and>
    occupancy r c \<le> r"
  using monitor_bounded [of "[]" xs] sample_at_last [OF assms]
  by (auto simp: peak_def peak_from at_time_def occupancy_def word_sub_le)

theorem monitor_reads_witness:
  "at_time (monitor_loop [(False, 10, 5, 3), (False, 20, 9, 3), (True, 30, 9, 9)] []) 25 = 6"
  using monitor_reads [of "[(False, 10, 5, 3), (False, 20, 9, 3), (True, 30, 9, 9)]" 25]
  by (simp add: kSamples_def occupancy_def)

end
