(* ===== verification/Clock_Gap.thy ===== *)
theory Clock_Gap
  imports Prelude
begin

text \<open>
  The smallest tick of a clock as both benches compute it (mpmc-work-queue-kata/cpp/bench/instrument.cpp
  and plugin-dispatch-kata/cpp/bench/instrument.cpp): the readings sorted, repeats erased, the
  smallest gap between neighbours. It is the smallest difference of any two readings that differ.
\<close>

fun smallest_gap :: "int list \<Rightarrow> int" where
  "smallest_gap (x # y # zs) =
     fold (\<lambda>(a, b) m. min m (b - a)) (zip (y # zs) zs) (y - x)"
| "smallest_gap _ = 0"

lemma fold_min: "fold (\<lambda>x m. min m (f x)) xs (m :: 'a :: linorder) = Min (insert m (f ` set xs))"
proof (induction xs arbitrary: m)
  case (Cons x xs)
  have "Min (insert (min m (f x)) (f ` set xs)) = Min (insert m (insert (f x) (f ` set xs)))"
    by (cases "f ` set xs = {}") (simp_all add: min.assoc Min_insert)
  then show ?case using Cons by simp
qed simp

lemma fold_min_le:
  fixes m :: "'a :: linorder"
  shows "fold (\<lambda>x m. min m (f x)) xs m \<le> m" "x \<in> set xs \<Longrightarrow> fold (\<lambda>x m. min m (f x)) xs m \<le> f x"
    "fold (\<lambda>x m. min m (f x)) xs m \<in> insert m (f ` set xs)"
  unfolding fold_min by (auto intro: Min_le) (metis Min_in finite.insertI finite_imageI finite_set insert_iff insert_not_empty)

lemma smallest_gap_adjacent:
  "2 \<le> length xs \<Longrightarrow>
   smallest_gap xs = Min ((\<lambda>i. xs ! Suc i - xs ! i) ` {i. Suc i < length xs})"
proof -
  assume "2 \<le> length xs"
  then obtain x y zs where xs: "xs = x # y # zs" by (metis Suc_le_length_iff numeral_2_eq_2)
  have "smallest_gap xs = Min ((\<lambda>(a, b). b - a) ` set (zip xs (y # zs)))"
    unfolding xs smallest_gap.simps using fold_min [of "\<lambda>(a, b). b - a" "zip (y # zs) zs" "y - x"]
    by (simp add: case_prod_unfold)
  moreover have "set (zip xs (drop 1 xs)) = (\<lambda>i. (xs ! i, xs ! Suc i)) ` {i. Suc i < length xs}"
    by (auto simp: set_zip)
  moreover have "drop 1 xs = y # zs" by (simp add: xs)
  ultimately show ?thesis by (simp only: image_image prod.case)
qed

lemma sorted_distinct_remdups_adj: "sorted xs \<Longrightarrow> distinct (remdups_adj xs)"
  by (induction xs rule: remdups_adj.induct) auto

lemma smallest_difference:
  assumes "a \<in> set rs" "b \<in> set rs" "a \<noteq> b"
  shows "2 \<le> length (remdups_adj (sort rs))"
    and "smallest_gap (remdups_adj (sort rs)) = Min {y - x | x y. x \<in> set rs \<and> y \<in> set rs \<and> x < y}"
proof -
  let ?v = "remdups_adj (sort rs)"
  have set: "set ?v = set rs" by simp
  have "sorted ?v" by (simp add: sorted_remdups_adj)
  moreover have "distinct ?v" by (simp add: sorted_distinct_remdups_adj)
  ultimately have s: "sorted_wrt (<) ?v" by (simp add: strict_sorted_iff)
  have "card {a, b} \<le> card (set ?v)" by (rule card_mono) (use assms set in auto)
  also have "\<dots> \<le> length ?v" by (rule card_length)
  finally have len: "2 \<le> length ?v" using assms(3) by simp
  then show "2 \<le> length ?v" .
  let ?G = "(\<lambda>i. ?v ! Suc i - ?v ! i) ` {i. Suc i < length ?v}"
  let ?A = "{y - x | x y. x \<in> set rs \<and> y \<in> set rs \<and> x < y}"
  have "Suc 0 < length ?v" using len by simp
  then have ne: "?G \<noteq> {}" by blast
  have finG: "finite ?G" by (rule finite_imageI, rule finite_subset [of _ "{..<length ?v}"]) auto
  have "?A \<subseteq> (\<lambda>(x, y). y - x) ` (set rs \<times> set rs)" by auto
  then have fin: "finite ?A" by (rule finite_subset) simp
  have lt: "i < j \<Longrightarrow> j < length ?v \<Longrightarrow> ?v ! i < ?v ! j" for i j
    using s by (simp add: sorted_wrt_nth_less)
  have sub: "?G \<subseteq> ?A"
    using lt [OF lessI] set by (smt (verit) Suc_lessD image_subset_iff mem_Collect_eq nth_mem)
  have low: "\<exists>g \<in> ?G. g \<le> d" if "d \<in> ?A" for d
  proof -
    from that obtain x y where xy: "d = y - x" "x \<in> set ?v" "y \<in> set ?v" "x < y" using set by auto
    obtain i where i: "i < length ?v" "?v ! i = x" using xy(2) unfolding in_set_conv_nth by blast
    obtain j where j: "j < length ?v" "?v ! j = y" using xy(3) unfolding in_set_conv_nth by blast
    have "i < j" using xy(4) lt [of j i] i j by (metis linorder_neqE_nat order.asym)
    then have "?v ! Suc i \<le> ?v ! j" using lt [of "Suc i" j] j by (cases "Suc i = j") (simp_all add: less_imp_le)
    then have "?v ! Suc i - ?v ! i \<le> d" using i j xy(1) by simp
    moreover have "Suc i < length ?v" using \<open>i < j\<close> j(1) by simp
    ultimately show ?thesis by blast
  qed
  have "Min ?G = Min ?A"
  proof (rule antisym)
    have "?A \<noteq> {}" using sub ne by blast
    then have "Min ?A \<in> ?A" by (rule Min_in [OF fin])
    then show "Min ?G \<le> Min ?A" using low finG by (meson Min_le order.trans)
    show "Min ?A \<le> Min ?G" using sub ne fin by (rule Min_antimono)
  qed
  then show "smallest_gap ?v = Min ?A" unfolding smallest_gap_adjacent [OF len] .
qed

end
