(* ===== verification/Tq_Platform.thy ===== *)
theory Tq_Platform
  imports Tq_Driver Clock_Gap
begin

text \<open>
  mpmc-work-queue-kata/cpp/src/platform.hpp and bench/instrument.cpp: the conversions of the
  calibrated clock, what a timed wait asks of the operating system, which processors are of which
  kind, and the measurements the bench rests on: the smallest tick of a clock and the skew between
  two cores. Clock readings, and what the operating system says, are arguments; doubles are
  rational numbers.
\<close>

section \<open>The calibrated clock\<close>

definition calibrate :: "rat \<Rightarrow> u64 \<Rightarrow> u64 \<Rightarrow> rat" where
  "calibrate ns t0 t1 = ns / of_nat (unat (t1 - t0))"

definition to_ns :: "rat \<Rightarrow> u64 \<Rightarrow> rat" where
  "to_ns per_tick ticks = of_nat (unat ticks) * per_tick"

text \<open>A conversion of a double to an unsigned integer drops the fraction.\<close>

definition ticks :: "rat \<Rightarrow> rat \<Rightarrow> u64" where
  "ticks per_tick ns = of_int \<lfloor>ns / per_tick\<rfloor>"

text \<open>
  A duration in ticks is the longest that does not exceed the one asked for, as long as it fits a
  word.
\<close>

theorem ticks_round_down:
  assumes "0 < per_tick" "0 \<le> ns" "ns < 2 ^ 64 * per_tick"
  shows "to_ns per_tick (ticks per_tick ns) \<le> ns \<and> ns < to_ns per_tick (ticks per_tick ns) + per_tick"
proof -
  let ?k = "\<lfloor>ns / per_tick\<rfloor>"
  have k: "0 \<le> ?k" using assms by simp
  have "ns / per_tick < 2 ^ 64" using assms by (simp add: pos_divide_less_eq)
  then have "?k < 2 ^ 64" by (simp add: floor_less_iff)
  then have "uint (of_int ?k :: u64) = ?k"
    using k by (simp add: uint_word_of_int_eq take_bit_int_eq_self)
  then have "of_nat (unat (ticks per_tick ns)) = (of_int ?k :: rat)"
    unfolding ticks_def by (metis of_int_of_nat_eq uint_nat)
  then have eq: "to_ns per_tick (ticks per_tick ns) = of_int ?k * per_tick" by (simp add: to_ns_def)
  have "of_int ?k * per_tick \<le> ns" using floor_divide_lower [OF assms(1), of ns] by simp
  moreover have "ns < (of_int ?k + 1) * per_tick" using floor_divide_upper [OF assms(1), of ns] by simp
  ultimately show ?thesis unfolding eq by (simp add: distrib_right)
qed

theorem ticks_round_down_witness:
  "to_ns (2 / 5) (ticks (2 / 5) 1000) \<le> 1000 \<and> 1000 < to_ns (2 / 5) (ticks (2 / 5) 1000) + 2 / 5"
  by (rule ticks_round_down) simp_all

text \<open>Whether \<open>burn\<close> goes on: the loop of readings ends at the first that reaches the end.\<close>

definition burn :: "u64 \<Rightarrow> u64 \<Rightarrow> u64 list \<Rightarrow> u64 list" where
  "burn now duration readings = takeWhile (\<lambda>t. t < now + duration) readings"

section \<open>Timed waits\<close>

text \<open>What \<open>wait_on\<close> asks the operating system for: nothing, milliseconds, or no limit.\<close>

datatype wait_call = NoWait | WaitMs nat | WaitForever | WaitTimespec int int

definition wait_windows :: "int \<Rightarrow> wait_call" where
  "wait_windows timeout =
     (if timeout \<le> 0 then NoWait
      else let ms = (timeout + 999999) div 1000000
           in if 2147483647 < ms then WaitForever else WaitMs (nat ms))"

definition wait_linux :: "int \<Rightarrow> wait_call" where
  "wait_linux timeout =
     (if timeout \<le> 0 then NoWait
      else WaitTimespec (timeout div 1000000000) (timeout mod 1000000000))"

fun allows :: "wait_call \<Rightarrow> int option" where
  "allows NoWait = Some 0"
| "allows (WaitMs n) = Some (int n * 1000000)"
| "allows WaitForever = None"
| "allows (WaitTimespec s n) = Some (s * 1000000000 + n)"

fun valid_call :: "wait_call \<Rightarrow> bool" where
  "valid_call (WaitMs n) \<longleftrightarrow> 0 < n \<and> n < 2 ^ 32 - 1"
| "valid_call (WaitTimespec s n) \<longleftrightarrow> 0 \<le> s \<and> 0 \<le> n \<and> n < 1000000000"
| "valid_call _ \<longleftrightarrow> True"

text \<open>
  The wait asked for is never shorter than the caller's timeout, so a deadline is not missed by
  rounding: on Linux it is exact, on Windows less than a millisecond longer, and without a limit
  only beyond twenty-four days. The arguments of the call are in the range the system accepts.
\<close>

theorem wait_not_shorter:
  fixes timeout :: int
  defines "t \<equiv> max 0 timeout"
  shows "valid_call (wait_linux timeout) \<and> allows (wait_linux timeout) = Some t \<and>
    valid_call (wait_windows timeout) \<and>
    (case allows (wait_windows timeout) of
       None \<Rightarrow> 2147483647 * 1000000 < t
     | Some w \<Rightarrow> t \<le> w \<and> w < t + 1000000)"
proof (cases "timeout \<le> 0")
  case True
  then show ?thesis by (simp add: t_def wait_linux_def wait_windows_def)
next
  case False
  let ?ms = "(timeout + 999999) div 1000000"
  have ms: "?ms * 1000000 \<le> timeout + 999999" "timeout + 999999 < ?ms * 1000000 + 1000000"
    by linarith+
  then have "0 < ?ms" using False by linarith
  then show ?thesis
    using False ms by (auto simp: t_def wait_linux_def wait_windows_def Let_def)
qed

section \<open>Processors\<close>

text \<open>
  \<open>cpu_efficiency_classes\<close> on Windows: one record per core, with the mask of its processors and
  its class. \<open>cpus\<close> is the number of logical processors.
\<close>

definition put_core :: "u64 \<times> int \<Rightarrow> int list \<Rightarrow> int list" where
  "put_core c out =
     fold (\<lambda>cpu out. if bit (fst c) cpu \<and> cpu < length out then out[cpu := snd c] else out) [0..<64] out"

definition efficiency_classes :: "nat \<Rightarrow> (u64 \<times> int) list \<Rightarrow> int list" where
  "efficiency_classes cpus cores = fold put_core cores (replicate cpus (- 1))"

record bench_context =
  fast_cpu :: int
  slow_cpu :: int
  hybrid :: bool

text \<open>\<open>max_element\<close> and \<open>min_element\<close> return the first.\<close>

fun first_best :: "(int \<Rightarrow> int \<Rightarrow> bool) \<Rightarrow> int list \<Rightarrow> nat \<Rightarrow> nat \<Rightarrow> nat \<Rightarrow> nat" where
  "first_best better xs best i 0 = best"
| "first_best better xs best i (Suc k) =
     first_best better xs (if better (xs ! i) (xs ! best) then i else best) (Suc i) k"

definition max_element :: "int list \<Rightarrow> nat" where
  "max_element xs = first_best (\<lambda>a b. b < a) xs 0 1 (length xs - 1)"

definition min_element :: "int list \<Rightarrow> nat" where
  "min_element xs = first_best (<) xs 0 1 (length xs - 1)"

definition make_context :: "int \<Rightarrow> int list \<Rightarrow> bench_context" where
  "make_context cpus eff =
     (if eff = [] then \<lparr>fast_cpu = 0, slow_cpu = cpus - 1, hybrid = False\<rparr>
      else let hi = max_element eff; lo = min_element eff
           in \<lparr>fast_cpu = int hi, slow_cpu = int lo, hybrid = eff ! lo \<noteq> eff ! hi\<rparr>)"

lemma put_core_from:
  "fold (\<lambda>cpu out. if bit m cpu \<and> cpu < length out then out[cpu := c] else out) is out =
   map (\<lambda>i. if i \<in> set is \<and> bit m i then c else out ! i) [0..<length out]"
proof (induction "is" arbitrary: out)
  case Nil
  show ?case by (simp add: map_nth)
next
  case (Cons i "is")
  let ?out = "if bit m i \<and> i < length out then out[i := c] else out"
  have len: "length ?out = length out" by simp
  show ?case
    unfolding fold.simps comp_def Cons.IH [of ?out] len
    by (rule map_cong) (auto simp: nth_list_update)
qed

lemma put_core_nth: "put_core (m, c) out = map (\<lambda>i. if i < 64 \<and> bit m i then c else out ! i) [0..<length out]"
  by (simp add: put_core_def put_core_from)

lemma put_cores_nth:
  "length (fold put_core cores out) = length out \<and>
   (i < length out \<longrightarrow> fold put_core cores out ! i =
      (case find (\<lambda>(m, c). i < 64 \<and> bit m i) (rev cores) of None \<Rightarrow> out ! i | Some (m, c) \<Rightarrow> c))"
proof (induction cores rule: rev_induct)
  case (snoc x cores)
  then show ?case by (cases x) (auto simp: put_core_nth)
qed simp

text \<open>
  A processor of the first group gets the class of the core that names it, the last one if several
  do; every other keeps the mark for unknown.
\<close>

theorem efficiency_of_core:
  assumes "i < cpus"
  shows "efficiency_classes cpus cores ! i =
    (case find (\<lambda>(m, c). i < 64 \<and> bit m i) (rev cores) of None \<Rightarrow> - 1 | Some (m, c) \<Rightarrow> c)"
  using assms put_cores_nth [of cores "replicate cpus (- 1)" i]
  by (auto simp: efficiency_classes_def split: option.splits)

theorem efficiency_of_core_witness: "efficiency_classes 4 [(3, 1), (12, 0)] ! 2 = 0"
  using efficiency_of_core [of 2 4 "[(3, 1), (12, 0)]"] by (simp add: bit_numeral_rec)

lemma first_best_picks:
  assumes "\<And>a b c. better a b \<Longrightarrow> better b c \<Longrightarrow> better a c" "\<And>a. \<not> better a a"
    "\<And>a b c. better a c \<Longrightarrow> better a b \<or> better b c"
    "best < i" "i + k = length xs"
    "\<forall>j < best. better (xs ! best) (xs ! j)" "\<forall>j < i. \<not> better (xs ! j) (xs ! best)"
  shows "let r = first_best better xs best i k in r < length xs \<and>
    (\<forall>j < r. better (xs ! r) (xs ! j)) \<and> (\<forall>j < length xs. \<not> better (xs ! j) (xs ! r))"
  using assms(4-)
proof (induction k arbitrary: best i)
  case 0
  then show ?case by simp
next
  case (Suc k)
  show ?case
  proof (cases "better (xs ! i) (xs ! best)")
    case True
    have "\<forall>j < i. better (xs ! i) (xs ! j)"
      using True Suc.prems(4) assms(3) by blast
    moreover have "\<forall>j < Suc i. \<not> better (xs ! j) (xs ! i)"
      using calculation assms(1,2) by (metis less_Suc_eq)
    ultimately show ?thesis using Suc.IH [of i "Suc i"] True Suc.prems by simp
  next
    case False
    have "\<forall>j < Suc i. \<not> better (xs ! j) (xs ! best)" using False Suc.prems(4) by (metis less_Suc_eq)
    then show ?thesis using Suc.IH [of best "Suc i"] False Suc.prems by simp
  qed
qed

text \<open>
  The context names the first processor of the fastest class and the first of the slowest, and
  calls the machine hybrid exactly when some two processors differ.
\<close>

theorem context_extremes:
  assumes "eff \<noteq> []"
  shows "\<exists>hi lo. fast_cpu (make_context cpus eff) = int hi \<and> slow_cpu (make_context cpus eff) = int lo \<and>
    hi < length eff \<and> lo < length eff \<and> eff ! hi = Max (set eff) \<and> eff ! lo = Min (set eff) \<and>
    (\<forall>j < hi. eff ! j < eff ! hi) \<and> (\<forall>j < lo. eff ! lo < eff ! j) \<and>
    (hybrid (make_context cpus eff) \<longleftrightarrow> (\<exists>x \<in> set eff. \<exists>y \<in> set eff. x \<noteq> y))"
proof -
  have len: "1 + (length eff - 1) = length eff" using assms by (simp add: Suc_leI)
  note best = first_best_picks [where best = 0 and i = 1 and k = "length eff - 1" and xs = eff]
  have "let r = max_element eff in r < length eff \<and> (\<forall>j < r. eff ! j < eff ! r) \<and>
      (\<forall>j < length eff. \<not> eff ! r < eff ! j)"
    unfolding max_element_def by (rule best) (use len in \<open>auto\<close>)
  then have hi: "max_element eff < length eff" "\<forall>j < max_element eff. eff ! j < eff ! max_element eff"
    "\<forall>j < length eff. eff ! j \<le> eff ! max_element eff"
    by (simp_all add: Let_def not_less)
  have "let r = min_element eff in r < length eff \<and> (\<forall>j < r. eff ! r < eff ! j) \<and>
      (\<forall>j < length eff. \<not> eff ! j < eff ! r)"
    unfolding min_element_def by (rule best) (use len in \<open>auto\<close>)
  then have lo: "min_element eff < length eff" "\<forall>j < min_element eff. eff ! min_element eff < eff ! j"
    "\<forall>j < length eff. eff ! min_element eff \<le> eff ! j"
    by (simp_all add: Let_def not_less)
  have mx: "eff ! max_element eff = Max (set eff)"
    using hi by (intro Max_eqI [symmetric]) (auto simp: in_set_conv_nth)
  have mn: "eff ! min_element eff = Min (set eff)"
    using lo by (intro Min_eqI [symmetric]) (auto simp: in_set_conv_nth)
  have "Min (set eff) \<noteq> Max (set eff) \<longleftrightarrow> (\<exists>x \<in> set eff. \<exists>y \<in> set eff. x \<noteq> y)"
  proof
    assume "Min (set eff) \<noteq> Max (set eff)"
    then show "\<exists>x \<in> set eff. \<exists>y \<in> set eff. x \<noteq> y"
      using hi(1) lo(1) mx mn nth_mem by metis
  next
    assume "\<exists>x \<in> set eff. \<exists>y \<in> set eff. x \<noteq> y"
    then obtain x y where "x \<in> set eff" "y \<in> set eff" "x < y" by (metis linorder_neqE)
    then have "Min (set eff) \<le> x" "y \<le> Max (set eff)" "x < y" by simp_all
    then show "Min (set eff) \<noteq> Max (set eff)" by linarith
  qed
  then have "hybrid (make_context cpus eff) \<longleftrightarrow> (\<exists>x \<in> set eff. \<exists>y \<in> set eff. x \<noteq> y)"
    using assms mx mn by (simp add: make_context_def)
  then show ?thesis
    using assms hi(1,2) lo(1,2) mx mn
    by (intro exI [of _ "max_element eff"] exI [of _ "min_element eff"])
      (simp add: make_context_def Let_def)
qed

theorem context_extremes_witness:
  "\<exists>hi lo. fast_cpu (make_context 4 [0, 1, 1, 0]) = int hi \<and> hi < 4 \<and> lo < 4 \<and>
     slow_cpu (make_context 4 [0, 1, 1, 0]) = int lo"
  using context_extremes [of "[0, 1, 1, 0]" 4] by auto

section \<open>The instrument\<close>

text \<open>The smallest tick: the readings sorted, repeats erased, the smallest gap.\<close>

definition steady_tick :: "int list \<Rightarrow> int" where
  "steady_tick readings = smallest_gap (remdups_adj (sort readings))"

text \<open>
  Two threads bounce a turn: the smallest difference each way. \<open>ab\<close> and \<open>ba\<close> are the readings of
  the receiver and the stamps they are compared with.
\<close>

definition int64_max :: int where "int64_max = 2 ^ 63 - 1"

definition min_delay :: "(int \<times> int) list \<Rightarrow> int" where
  "min_delay xs = fold (\<lambda>(t, stamp) m. min m (t - stamp)) xs int64_max"

definition ping_pong :: "rat \<Rightarrow> (int \<times> int) list \<Rightarrow> (int \<times> int) list \<Rightarrow> rat \<times> rat" where
  "ping_pong per_tick ab ba =
     (let x = min_delay ab; y = min_delay ba
      in (of_int (x - y) / 2 * per_tick, of_int (x + y) / 2 * per_tick))"

text \<open>The best of several readings of the pause.\<close>

definition clock_indicator :: "rat list \<Rightarrow> rat" where
  "clock_indicator readings = fold (\<lambda>x best. min best x) readings (10 ^ 9)"

text \<open>The two figures of the contended counter: per operation and thread, and altogether.\<close>

definition contended :: "nat \<Rightarrow> nat \<Rightarrow> rat \<Rightarrow> rat \<times> rat" where
  "contended k ops ns = (ns / of_nat ops, of_nat k * of_nat ops / (ns / 10 ^ 9))"

text \<open>
  The reported tick is the smallest difference between two readings that differ, whatever order
  they came in.
\<close>

theorem steady_tick_smallest:
  assumes "a \<in> set rs" "b \<in> set rs" "a \<noteq> b"
  shows "steady_tick rs = Min {y - x | x y. x \<in> set rs \<and> y \<in> set rs \<and> x < y}"
  unfolding steady_tick_def by (rule smallest_difference(2) [OF assms])

theorem steady_tick_smallest_witness: "steady_tick [300, 100, 100, 150] = 50"
proof -
  have "{y - x | x y :: int. x \<in> {300, 100, 150} \<and> y \<in> {300, 100, 150} \<and> x < y} = {200, 150, 50}"
    by (intro subset_antisym subsetI) (auto, presburger+)
  then show ?thesis using steady_tick_smallest [of 300 "[300, 100, 100, 150]" 100] by simp
qed

lemma ping_pong_bound:
  fixes per_tick :: rat
  assumes "0 \<le> per_tick" "skew \<le> min_delay ab" "- skew \<le> min_delay ba"
  shows "\<bar>fst (ping_pong per_tick ab ba) - of_int skew * per_tick\<bar> \<le> snd (ping_pong per_tick ab ba)"
proof -
  let ?x = "min_delay ab" and ?y = "min_delay ba"
  have "\<bar>of_int (?x - ?y) / 2 - of_int skew\<bar> \<le> (of_int (?x + ?y) / 2 :: rat)"
    using assms(2,3) by (simp add: abs_le_iff field_simps)
  then have "\<bar>of_int (?x - ?y) / 2 - of_int skew\<bar> * per_tick \<le> of_int (?x + ?y) / 2 * per_tick"
    using assms(1) by (rule mult_right_mono)
  then have "\<bar>(of_int (?x - ?y) / 2 - of_int skew) * per_tick\<bar> \<le> of_int (?x + ?y) / 2 * per_tick"
    using assms(1) by (simp add: abs_mult)
  then show ?thesis by (simp add: ping_pong_def Let_def left_diff_distrib)
qed

text \<open>
  What the skew check can mean. If B's clock is \<open>skew\<close> ahead of A's and no transfer takes negative
  time, then the reported skew is wrong by at most the reported one-way transfer: a skew under
  100 ns by the check is a true skew under 100 ns and one transfer. The transfer reported is at
  most the average of any one transfer there and any one back.
\<close>

theorem skew_within_transfer:
  fixes d d' sent sent' :: "nat \<Rightarrow> int" and skew n and per_tick :: rat
  defines "ab \<equiv> map (\<lambda>i. (sent i + d i + skew, sent i)) [0..<n]"
    and "ba \<equiv> map (\<lambda>i. (sent' i + d' i - skew, sent' i)) [0..<n]"
  assumes "0 \<le> per_tick" "i < n" "j < n"
    and "\<And>k. 0 \<le> d k" "\<And>k. 0 \<le> d' k"
    and "d i + skew < int64_max" "d' j - skew < int64_max"
  shows "\<bar>fst (ping_pong per_tick ab ba) - of_int skew * per_tick\<bar> \<le> snd (ping_pong per_tick ab ba) \<and>
    snd (ping_pong per_tick ab ba) \<le> of_int (d i + d' j) / 2 * per_tick"
proof -
  have big: "skew \<le> int64_max" "- skew \<le> int64_max"
    using assms(6) [of i] assms(7) [of j] assms(8,9) by linarith+
  have x: "min_delay ab \<le> d i + skew" "skew \<le> min_delay ab"
  proof -
    show "min_delay ab \<le> d i + skew"
      using fold_min_le(2) [of "(sent i + d i + skew, sent i)" ab "\<lambda>(t, s). t - s" int64_max] assms(4)
      by (auto simp: min_delay_def ab_def case_prod_unfold)
    show "skew \<le> min_delay ab"
      using fold_min_le(3) [of "\<lambda>(t, s). t - s" ab int64_max] big assms(6)
      by (auto simp: min_delay_def ab_def case_prod_unfold)
  qed
  have y: "min_delay ba \<le> d' j - skew" "- skew \<le> min_delay ba"
  proof -
    show "min_delay ba \<le> d' j - skew"
      using fold_min_le(2) [of "(sent' j + d' j - skew, sent' j)" ba "\<lambda>(t, s). t - s" int64_max] assms(5)
      by (auto simp: min_delay_def ba_def case_prod_unfold)
    show "- skew \<le> min_delay ba"
      using fold_min_le(3) [of "\<lambda>(t, s). t - s" ba int64_max] big assms(7)
      by (auto simp: min_delay_def ba_def case_prod_unfold)
  qed
  let ?x = "min_delay ab" and ?y = "min_delay ba"
  have "\<bar>fst (ping_pong per_tick ab ba) - of_int skew * per_tick\<bar> \<le> snd (ping_pong per_tick ab ba)"
    by (rule ping_pong_bound [OF assms(3) x(2) y(2)])
  moreover have "?x + ?y \<le> d i + d' j" using x(1) y(1) by simp
  then have "of_int (?x + ?y) \<le> (of_int (d i + d' j) :: rat)" by (rule of_int_le_iff [THEN iffD2])
  then have "of_int (?x + ?y) / 2 * per_tick \<le> of_int (d i + d' j) / 2 * per_tick"
    using assms(3) by (intro mult_right_mono divide_right_mono) simp_all
  ultimately show ?thesis by (simp add: ping_pong_def Let_def)
qed

theorem skew_within_transfer_witness:
  "\<bar>fst (ping_pong (2 / 5) [(1130, 1000)] [(2090, 2000)]) - 30 * (2 / 5)\<bar> \<le>
     snd (ping_pong (2 / 5) [(1130, 1000)] [(2090, 2000)])"
  using skew_within_transfer [of "2 / 5" 0 1 0 "\<lambda>_. 100" "\<lambda>_. 120" 30 "\<lambda>_. 1000" "\<lambda>_. 2000"]
  by (simp add: int64_max_def)

section \<open>Hooks\<close>

text \<open>
  bench/arms.hpp: the generator both sides of the engineered race draw their pauses from, the hook
  that stalls at one position, and the hook that announces a consumer about to sleep.
\<close>

unbundle bit_operations_syntax

definition xorshift :: "u64 \<Rightarrow> u64" where
  "xorshift x = (let x1 = x XOR push_bit 13 x; x2 = x1 XOR drop_bit 7 x1 in x2 XOR push_bit 17 x2)"

record stall_control =
  producer_at :: u64
  consumer_at :: u64
  began :: u64
  ended :: u64

definition kNever :: u64 where "kNever = - 1"

definition new_stall :: stall_control where
  "new_stall = \<lparr>producer_at = kNever, consumer_at = kNever, began = 0, ended = 0\<rparr>"

definition stall :: "u64 \<Rightarrow> u64 \<Rightarrow> stall_control \<Rightarrow> stall_control" where
  "stall t0 t1 c = c\<lparr>began := t0, ended := t1\<rparr>"

definition reserved_hook :: "u64 \<Rightarrow> u64 \<Rightarrow> u64 \<Rightarrow> stall_control \<Rightarrow> stall_control" where
  "reserved_hook t0 t1 pos c = (if pos = producer_at c then stall t0 t1 c else c)"

definition claimed_hook :: "u64 \<Rightarrow> u64 \<Rightarrow> u64 \<Rightarrow> stall_control \<Rightarrow> stall_control" where
  "claimed_hook t0 t1 pos c = (if pos = consumer_at c then stall t0 t1 c else c)"

record park_control =
  parking :: u64
  rng :: u64
  spread :: u64

definition new_park :: "u64 \<Rightarrow> park_control" where
  "new_park s = \<lparr>parking = 0, rng = 0x9e3779b97f4a7c15, spread = s\<rparr>"

text \<open>The announcement, and how many loop iterations the consumer then waits.\<close>

definition parking_hook :: "park_control \<Rightarrow> u64 \<times> park_control" where
  "parking_hook c =
     (let r = xorshift (rng c) in (r mod spread c, c\<lparr>parking := parking c + 1, rng := r\<rparr>))"

lemma shift_out:
  fixes x :: u64
  assumes "0 < k"
  shows "push_bit (k * 64) x = 0" "drop_bit (k * 64) x = 0"
proof -
  have "64 \<le> k * 64" using assms by simp
  then show "push_bit (k * 64) x = 0" "drop_bit (k * 64) x = 0"
    by (auto intro!: bit_word_eqI simp: bit_simps)
qed

lemma shift_fixed:
  fixes x :: u64
  assumes "0 < k"
  shows "x = push_bit k x \<Longrightarrow> x = 0" "x = drop_bit k x \<Longrightarrow> x = 0"
proof -
  have "x = push_bit (k * m) x" if "x = push_bit k x" for m
    using that by (induction m) (simp_all add: push_bit_add [symmetric] flip: push_bit_push_bit)
  then show "x = push_bit k x \<Longrightarrow> x = 0" using shift_out(1) [OF assms] by metis
  have "x = drop_bit (k * m) x" if "x = drop_bit k x" for m
    using that by (induction m) (simp_all flip: drop_bit_drop_bit)
  then show "x = drop_bit k x \<Longrightarrow> x = 0" using shift_out(2) [OF assms] by metis
qed

lemma xor_zero: "a XOR b = 0 \<Longrightarrow> a = (b :: u64)"
proof -
  assume "a XOR b = 0"
  moreover have "(a XOR b) XOR b = a" by (simp add: xor.assoc)
  ultimately show ?thesis by simp
qed

lemma xor_shift_inj:
  fixes x y :: u64
  assumes "0 < k"
  shows "x XOR push_bit k x = y XOR push_bit k y \<Longrightarrow> x = y"
    "x XOR drop_bit k x = y XOR drop_bit k y \<Longrightarrow> x = y"
proof -
  show "x = y" if "x XOR push_bit k x = y XOR push_bit k y"
  proof -
    have "(x XOR y) XOR push_bit k (x XOR y) = (x XOR push_bit k x) XOR (y XOR push_bit k y)"
      by (simp add: ac_simps)
    then have "(x XOR y) XOR push_bit k (x XOR y) = 0" using that by simp
    then show ?thesis using shift_fixed(1) [OF assms] xor_zero by blast
  qed
  show "x = y" if "x XOR drop_bit k x = y XOR drop_bit k y"
  proof -
    have "(x XOR y) XOR drop_bit k (x XOR y) = (x XOR drop_bit k x) XOR (y XOR drop_bit k y)"
      by (simp add: ac_simps)
    then have "(x XOR y) XOR drop_bit k (x XOR y) = 0" using that by simp
    then show ?thesis using shift_fixed(2) [OF assms] xor_zero by blast
  qed
qed

lemma park_generator_inj: "xorshift x = xorshift y \<Longrightarrow> x = y"
  unfolding xorshift_def Let_def
  by (drule xor_shift_inj(1) [rotated], simp, drule xor_shift_inj(2) [rotated], simp,
      drule xor_shift_inj(1) [rotated], simp_all)

text \<open>
  The generator is a bijection that fixes only zero: from a seed that is not zero the pauses never
  get stuck, however long the race.
\<close>

theorem xorshift_never_stuck: "bij xorshift \<and> ((xorshift ^^ n) x = 0 \<longleftrightarrow> x = 0)"
proof -
  have inj: "inj xorshift" using park_generator_inj by (rule injI)
  then have "bij xorshift" by (simp add: bij_def finite_UNIV_inj_surj)
  moreover have z: "xorshift 0 = 0" by (simp add: xorshift_def)
  have "xorshift x = 0 \<longleftrightarrow> x = 0" for x using park_generator_inj [of x 0] z by auto
  then have "(xorshift ^^ n) x = 0 \<longleftrightarrow> x = 0" by (induction n) simp_all
  ultimately show ?thesis by blast
qed

end
