(* ===== verification/Tq_Main.thy ===== *)
theory Tq_Main
  imports Tq_Driver Tq_Blocking
begin

text \<open>
  The verdicts of the turnstile bench: the command line and exit code (bench/main.cpp), the
  stress of the deliberately broken queues (bench/bugs.cpp), and the checks of a close under
  load (bench/shutdown.cpp), on top of the driver's model of a run. What the runs and phases do
  is an argument.
\<close>

section \<open>Phases on the command line\<close>

fun decimal :: "nat \<Rightarrow> string" where
  "decimal n = (if n < 10 then [char_of (48 + n)] else decimal (n div 10) @ [char_of (48 + n mod 10)])"

declare decimal.simps [simp del]

text \<open>\<open>s.find(t) != npos\<close>.\<close>

fun contains :: "string \<Rightarrow> string \<Rightarrow> bool" where
  "contains t [] \<longleftrightarrow> t = []"
| "contains t (c # cs) \<longleftrightarrow> take (length t) (c # cs) = t \<or> contains t cs"

definition selected :: "string option \<Rightarrow> nat \<Rightarrow> bool" where
  "selected phases n =
     (case phases of None \<Rightarrow> True
      | Some l \<Rightarrow> contains ('','' @ decimal n @ '','') ('','' @ l @ '',''))"

text \<open>A list written with commas.\<close>

fun join :: "string list \<Rightarrow> string" where
  "join [] = ''''"
| "join [t] = t"
| "join (t # ts) = t @ '','' @ join ts"

definition comma_free :: "string \<Rightarrow> bool" where
  "comma_free t \<longleftrightarrow> CHR '','' \<notin> set t"

lemma decimal_nonempty: "decimal n \<noteq> []"
  by (simp add: decimal.simps [of n])

lemma digit_no_comma: "k < 10 \<Longrightarrow> char_of (48 + k) \<noteq> CHR '',''" for k :: nat
proof
  assume k: "k < 10" and eq: "char_of (48 + k) = CHR '',''"
  have "of_char (char_of (48 + k) :: char) = (of_char CHR '','' :: nat)" using eq by (rule arg_cong)
  moreover have "of_char (char_of (48 + k) :: char) = 48 + k"
    using k by (simp only: of_char_of) simp
  moreover have "(of_char CHR '','' :: nat) = 44" by simp
  ultimately show False by linarith
qed

lemma decimal_comma_free: "comma_free (decimal n)"
proof (induction n rule: decimal.induct)
  case (1 n)
  show ?case
  proof (cases "n < 10")
    case True
    then show ?thesis using digit_no_comma [of n] by (auto simp: decimal.simps [of n] comma_free_def)
  next
    case False
    have "n mod 10 < 10" by simp
    then have "char_of (48 + n mod 10) \<noteq> CHR '',''" by (rule digit_no_comma)
    then show ?thesis using 1 [OF False] False by (auto simp: decimal.simps [of n] comma_free_def)
  qed
qed

lemma contains_skip: "comma_free t \<Longrightarrow> contains (CHR '','' # p) (t @ s) \<longleftrightarrow> contains (CHR '','' # p) s"
  by (induction t) (auto simp: comma_free_def)

lemma token_prefix:
  assumes "comma_free d" "comma_free t"
  shows "take (Suc (length d)) (t @ CHR '','' # s) = d @ '','' \<longleftrightarrow> t = d"
proof
  assume "take (Suc (length d)) (t @ CHR '','' # s) = d @ '',''"
  then obtain r where "t @ CHR '','' # s = d @ CHR '','' # r"
    by (metis append.assoc append_Cons append_Nil append_take_drop_id)
  then show "t = d" using assms
  proof (induction t arbitrary: d)
    case Nil
    then show ?case by (cases d) (auto simp: comma_free_def)
  next
    case (Cons c t)
    then obtain d' where "d = c # d'" by (cases d) (auto simp: comma_free_def)
    then show ?case using Cons by (auto simp: comma_free_def)
  qed
qed simp

lemma join_tokens: "ts \<noteq> [] \<Longrightarrow> join ts @ '','' = concat (map (\<lambda>t. t @ '','') ts)"
  by (induction ts rule: join.induct) auto

lemma contains_tokens:
  assumes "comma_free d" "d \<noteq> []"
  shows "\<forall>t \<in> set ts. comma_free t \<Longrightarrow>
    contains (CHR '','' # d @ '','') (CHR '','' # concat (map (\<lambda>t. t @ '','') ts)) \<longleftrightarrow> d \<in> set ts"
proof (induction ts)
  case Nil
  then show ?case using assms(2) by simp
next
  case (Cons t ts)
  let ?rest = "concat (map (\<lambda>t. t @ '','') ts)"
  have "contains (CHR '','' # d @ '','') (CHR '','' # t @ CHR '','' # ?rest) \<longleftrightarrow>
      take (Suc (length d)) (t @ CHR '','' # ?rest) = d @ '','' \<or>
      contains (CHR '','' # d @ '','') (CHR '','' # ?rest)"
    using contains_skip [of t "d @ '',''" "CHR '','' # ?rest"] Cons.prems by simp
  then show ?case using token_prefix [OF assms(1), of t ?rest] Cons by auto
qed

lemma decimal_values: "decimal 2 = ''2''" "decimal 3 = ''3''" "decimal 12 = ''12''"
  by code_simp+

text \<open>
  A phase runs exactly when the list given on the command line names it: for every list of
  names separated by commas, and whatever else stands in it.
\<close>

theorem selected_exact:
  assumes "\<forall>t \<in> set ts. comma_free t"
  shows "selected (Some (join ts)) n \<longleftrightarrow> decimal n \<in> set ts"
proof (cases "ts = []")
  case True
  then show ?thesis
    using contains_tokens [OF decimal_comma_free, of n "['''']"] decimal_nonempty [of n]
    by (simp add: selected_def comma_free_def)
next
  case False
  then show ?thesis
    using contains_tokens [OF decimal_comma_free [of n] decimal_nonempty assms] join_tokens [OF False]
    by (simp add: selected_def)
qed

theorem selected_exact_witness: "selected (Some ''3,12'') 3 \<and> \<not> selected (Some ''3,12'') 2"
  using selected_exact [of "[''3'', ''12'']" 3] selected_exact [of "[''3'', ''12'']" 2]
  by (simp add: comma_free_def decimal_values)

section \<open>The command line\<close>

fun parse_args :: "string list \<Rightarrow> string option \<times> string option \<Rightarrow> (string option \<times> string option) option" where
  "parse_args [] pb = Some pb"
| "parse_args [a] pb = None"
| "parse_args (a # v # rest) (p, b) =
     (if a = ''--phase'' then parse_args rest (Some v, b)
      else if a = ''--bug'' then parse_args rest (p, Some v) else None)"

text \<open>
  What \<open>main\<close> prints last and returns. \<open>bug_result\<close> is \<open>run_bug\<close>, \<open>failures\<close> what
  \<open>failure_count\<close> returns after the phases given.
\<close>

definition main_result :: "string list \<Rightarrow> (string \<Rightarrow> nat) \<Rightarrow> (nat list \<Rightarrow> nat) \<Rightarrow> string \<times> nat" where
  "main_result args bug_result failures =
     (case parse_args args (None, None) of
        None \<Rightarrow> (''usage'', 2)
      | Some (phases, Some b) \<Rightarrow>
          let d = bug_result b in (if d \<noteq> 0 then ''DETECTED'' else ''not detected'', d)
      | Some (phases, None) \<Rightarrow>
          let f = failures (filter (selected phases) [0..<10])
          in (if f = 0 then ''all checks passed'' else ''CHECKS FAILED'', if f = 0 then 0 else 1))"

section \<open>The stress\<close>

definition stress :: "run_result \<Rightarrow> nat" where
  "stress r = (if rr_exactly_once r \<and> rr_torn r = 0 \<and> rr_disorder r = 0 then 0 else 1)"

text \<open>\<open>results\<close> is the run on the queue with the bug, \<open>lost\<close> the wakeups lost without the fence.\<close>

definition run_bug :: "(bug \<Rightarrow> run_result) \<Rightarrow> nat \<Rightarrow> string \<Rightarrow> nat" where
  "run_bug results lost name =
     (if name = ''none'' then stress (results NoBug)
      else if name = ''relaxed-seq-load'' then stress (results RelaxedSeqLoad)
      else if name = ''relaxed-seq-store'' then stress (results RelaxedSeqStore)
      else if name = ''no-full-check'' then stress (results NoFullCheck)
      else if name = ''no-fence'' then (if 0 < lost then 1 else 0)
      else 2)"

definition known_bugs :: "string list" where
  "known_bugs = [''none'', ''relaxed-seq-load'', ''relaxed-seq-store'', ''no-full-check'', ''no-fence'']"

text \<open>
  A bug whose name the program does not know is reported as detected: \<open>run_bug\<close> returns 2 for the
  usage error, and \<open>main\<close> prints its verdict from that number.
\<close>

theorem unknown_bug_detected:
  assumes "name \<notin> set known_bugs"
  shows "main_result [''--bug'', name] (run_bug results lost) failures = (''DETECTED'', 2)"
  using assms by (auto simp: main_result_def run_bug_def known_bugs_def)

theorem unknown_bug_detected_witness:
  "main_result [''--bug'', ''no-fense''] (run_bug (\<lambda>_. empty_result) 0) length = (''DETECTED'', 2)"
  by (rule unknown_bug_detected) (simp add: known_bugs_def)

text \<open>
  The exit code without a bug: a phase list runs exactly the phases it names, in order, and the
  program succeeds exactly when no check failed. A list that names no phase succeeds as well.
\<close>

theorem main_runs_listed:
  assumes "\<forall>t \<in> set ts. comma_free t"
  shows "main_result [''--phase'', join ts] bug_result failures =
    (let f = failures (filter (\<lambda>n. decimal n \<in> set ts) [0..<10])
     in (if f = 0 then ''all checks passed'' else ''CHECKS FAILED'', if f = 0 then 0 else 1))"
proof -
  have "selected (Some (join ts)) = (\<lambda>n. decimal n \<in> set ts)"
    using selected_exact [OF assms] by blast
  then show ?thesis by (simp add: main_result_def)
qed

theorem main_runs_listed_witness:
  "main_result [''--phase'', ''12''] (\<lambda>_. 0) length = (''all checks passed'', 0)"
  using main_runs_listed [of "[''12'']" "\<lambda>_. 0" length]
  by (simp add: comma_free_def decimal.simps char_of_def upt_rec)

section \<open>Close under load\<close>

text \<open>\<open>kScale\<close> belongs to the watchdog only, so the runs do not depend on it.\<close>

definition load_spec :: run_spec where
  "load_spec = default_spec\<lparr>rs_events := 0, rs_consumer_work_ns := 4000, rs_mode := Block,
     rs_block_timeout := 10 * 10 ^ 9, rs_close_after := 300 * 10 ^ 6\<rparr>"

definition round_spec :: "push_mode \<Rightarrow> nat \<Rightarrow> run_spec" where
  "round_spec mode n = default_spec\<lparr>rs_producers := 8, rs_consumers := 8, rs_events := 0,
     rs_mode := mode, rs_close_after := (1000 + 997 * n) * 1000\<rparr>"

definition stall_spec :: run_spec where
  "stall_spec = default_spec\<lparr>rs_events := 0, rs_mode := Block, rs_block_timeout := 10 * 10 ^ 9,
     rs_close_after := 150 * 10 ^ 6\<rparr>"

text \<open>The checks of a close under load, of the rounds, and of a close during a stall.\<close>

definition close_under_load :: "run_result \<Rightarrow> bool list" where
  "close_under_load r = check_run r @ [rr_refused r = of_nat (rs_producers load_spec)]"

definition close_versus_reserve :: "run_result list \<Rightarrow> (bool list \<times> nat \<times> u64) \<times> bool" where
  "close_versus_reserve rs =
     (let (checks, clean, accepted) =
            fold (\<lambda>r (checks, clean, accepted).
                    (checks @ check_run r,
                     clean + (if rr_exactly_once r \<and> rr_refused r = 8 then 1 else 0),
                     accepted + rr_accepted r)) rs ([], 0, 0)
      in ((checks, clean, accepted), clean = 20))"

definition close_during_stall :: "u64 \<Rightarrow> run_result \<Rightarrow> bool list" where
  "close_during_stall ended r = check_run r @ [ended \<noteq> 0 \<and> ended \<le> rr_t_end r]"

text \<open>A producer that pushes one event at a time stops at its first refusal.\<close>

lemma account_refused:
  "ps_refused (account r p q now s) = (if r = PushClosed then ps_refused s + 1 else ps_refused s)"
  "ps_offered (account r p q now s) = ps_offered s + 1"
  by (cases r; simp)+

lemma push_timed_refused:
  assumes "push_timed k spec i until q ready x s = (r, s')"
  shows "ps_refused s' = (if r = PushClosed then ps_refused s + 1 else ps_refused s)"
    "ps_offered s' = ps_offered s + 1"
  using assms
  by (auto simp: push_timed_def Let_def account_refused simp del: account.simps
      split: prod.splits if_splits)

lemma saturated_refused:
  assumes "\<not> (qk_batch k \<and> 1 < rs_batch spec)" "j \<le> quota"
    "ps_refused s = 0" "ps_offered s = of_nat j"
  shows "ps_refused (saturated k spec i xs bs quota until j s) = 1 \<or>
    ps_refused (saturated k spec i xs bs quota until j s) = 0 \<and>
    ps_offered (saturated k spec i xs bs quota until j s) = of_nat quota"
  using assms(2-)
proof (induction "quota - j" arbitrary: j s until rule: less_induct)
  case less
  show ?case
  proof (cases "j < quota")
    case False
    then show ?thesis using less.prems by (simp add: saturated.simps)
  next
    case True
    define until' where "until' = (if j AND 1023 = 0 then j else until)"
    obtain r s' where t: "push_timed k spec i until' (of_nat j) (po_ready (xs j)) (xs j) s = (r, s')"
      by fastforce
    have step: "saturated k spec i xs bs quota until j s =
      (if r \<noteq> PushClosed then saturated k spec i xs bs quota until' (Suc j) s' else s')"
      using True t assms(1) by (subst saturated.simps) (auto simp: Let_def until'_def sat_turn_def)
    have le: "Suc j \<le> quota" and dec: "quota - Suc j < quota - j" using True by auto
    note p = push_timed_refused [OF t]
    show ?thesis
    proof (cases "r = PushClosed")
      case True
      then show ?thesis unfolding step using p less.prems by simp
    next
      case False
      then show ?thesis unfolding step using p less.prems less.hyps [OF dec le] by (simp add: add.commute)
    qed
  qed
qed

definition producers_of :: "queue_kind \<Rightarrow> run_spec \<Rightarrow> (nat \<Rightarrow> nat \<Rightarrow> push_obs) \<Rightarrow>
    (nat \<Rightarrow> nat \<Rightarrow> batch_obs) \<Rightarrow> (nat \<Rightarrow> u64) \<Rightarrow> producer_state list" where
  "producers_of k spec xs bs t_done =
     map (\<lambda>i. saturated_producer k spec i (xs i) (bs i) (t_done i)) [0..<rs_producers spec]"

lemma merge_refused:
  "rr_refused (snd (fold (merge_producer to_ns) ps x)) = rr_refused (snd x) + sum_list (map ps_refused ps)"
  by (induction ps arbitrary: x) (auto simp: merge_producer_def Let_def split: prod.splits)

lemma merge_consumer_refused:
  "rr_refused (snd (fold merge_consumer cs x)) = rr_refused (snd x)"
  by (induction cs arbitrary: x) (auto simp: merge_consumer_def split: prod.splits)

lemma finish_refused: "rr_refused (finish_run to_ns t_go ps cs) = sum_list (map ps_refused ps)"
proof -
  let ?start = "(empty_tally, empty_result\<lparr>rr_t_go := t_go, rr_min_rate := dbl_max\<rparr>)"
  obtain acc out1 where m1: "fold (merge_producer to_ns) ps ?start = (acc, out1)" by fastforce
  let ?out2 = "out1\<lparr>rr_hot_offered := ps_offered (hd ps), rr_hot_rejected := ps_rejected (hd ps)\<rparr>"
  obtain con out3 where m2: "fold merge_consumer cs (empty_tally, ?out2) = (con, out3)" by fastforce
  have "rr_refused out1 = sum_list (map ps_refused ps)"
    using merge_refused [of to_ns ps ?start] unfolding m1 by (simp add: empty_result_def)
  moreover have "rr_refused out3 = rr_refused out1"
    using merge_consumer_refused [of cs "(empty_tally, ?out2)"] unfolding m2 by simp
  ultimately show ?thesis
    unfolding finish_run_def m1 Let_def prod.case m2 by simp
qed

lemma sum_of_bits:
  "\<forall>x \<in> set xs. x = 0 \<or> x = (1 :: u64) \<Longrightarrow> sum_list xs = of_nat (length (filter (\<lambda>x. x = 1) xs))"
  by (induction xs) auto

lemma filter_all: "length (filter P xs) = length xs \<longleftrightarrow> list_all P xs"
  by (induction xs) (auto simp: le_imp_less_Suc less_imp_neq)

lemma of_nat_same:
  "m < 2 ^ 64 \<Longrightarrow> n < 2 ^ 64 \<Longrightarrow> (of_nat m :: u64) = of_nat n \<longleftrightarrow> m = n"
  by (simp add: word_of_nat_eq_iff take_bit_nat_eq_self)

lemma bits_all:
  assumes "\<forall>x \<in> set xs. x = 0 \<or> x = (1 :: u64)" "length xs < 2 ^ 64"
  shows "sum_list xs = of_nat (length xs) \<longleftrightarrow> list_all (\<lambda>x. x = 1) xs"
proof -
  have "length (filter (\<lambda>x. x = 1) xs) < 2 ^ 64"
    using length_filter_le assms(2) by (rule le_less_trans)
  then show ?thesis
    unfolding sum_of_bits [OF assms(1)] using of_nat_same [OF _ assms(2)] filter_all by metis
qed

lemma producer_refused:
  assumes "\<not> (qk_batch k \<and> 1 < rs_batch spec)"
  shows "ps_refused (saturated_producer k spec i xs bs t_done) = 1 \<or>
    ps_refused (saturated_producer k spec i xs bs t_done) = 0 \<and>
    ps_offered (saturated_producer k spec i xs bs t_done) = of_nat (quota_of spec)"
  using saturated_refused [OF assms, of 0 "quota_of spec" new_producer i xs bs 0]
  by (auto simp: saturated_producer_def Let_def new_producer_def)

lemma refusals_all:
  fixes k spec xs bs t_done
  defines "ps \<equiv> producers_of k spec xs bs t_done"
  assumes single: "\<not> (qk_batch k \<and> 1 < rs_batch spec)" and P: "rs_producers spec < 2 ^ 64"
  shows "rr_refused (finish_run to_ns t_go ps cs) = of_nat (rs_producers spec) \<longleftrightarrow>
    list_all (\<lambda>s. ps_refused s = 1) ps"
proof -
  have "\<forall>x \<in> set (map ps_refused ps). x = 0 \<or> x = 1"
    using producer_refused [OF single] by (auto simp: ps_def producers_of_def)
  from bits_all [OF this] have "sum_list (map ps_refused ps) = of_nat (rs_producers spec) \<longleftrightarrow>
      list_all (\<lambda>x. x = 1) (map ps_refused ps)"
    using P by (simp add: ps_def producers_of_def)
  then show ?thesis by (simp add: finish_refused list.pred_map comp_def)
qed

text \<open>
  The check that every producer learned of the close by refusal says just that: a producer counts
  at most one refusal, so the sum of the refusals is the number of producers exactly when each of
  them was refused, and one that was not has pushed all the events its loop allows.
\<close>

theorem close_check_exact:
  "last (close_under_load (finish_run to_ns t_go (producers_of k load_spec xs bs t_done) cs)) \<longleftrightarrow>
     list_all (\<lambda>s. ps_refused s = 1) (producers_of k load_spec xs bs t_done)"
  by (simp add: close_under_load_def)
    (subst refusals_all, simp_all add: load_spec_def default_spec_def kProducers_def)

text \<open>
  The rounds of close-versus-reserve pass exactly when all twenty are clean, and a clean round is one
  in which each of the eight producers was refused and the two tallies agree.
\<close>

definition clean_round :: "run_result \<Rightarrow> bool" where
  "clean_round r \<longleftrightarrow> rr_exactly_once r \<and> rr_refused r = 8"

lemma rounds_fold:
  "fold (\<lambda>r (checks, clean, accepted).
       (checks @ check_run r,
        clean + (if rr_exactly_once r \<and> rr_refused r = 8 then 1 else 0),
        accepted + rr_accepted r)) rs (c, n, a) =
   (c @ concat (map check_run rs), n + length (filter clean_round rs), a + sum_list (map rr_accepted rs))"
  by (induction rs arbitrary: c n a) (simp_all add: clean_round_def add_ac)

theorem rounds_all_clean:
  assumes "length rs = 20"
  shows "snd (close_versus_reserve rs) \<longleftrightarrow> list_all clean_round rs"
proof -
  have "length (filter clean_round rs) = 20 \<longleftrightarrow> list_all clean_round rs"
    using assms filter_all [of clean_round rs] by simp
  then show ?thesis unfolding close_versus_reserve_def rounds_fold by simp
qed

lemma clean_round_refusals:
  "rr_refused (finish_run to_ns t_go (producers_of k (round_spec mode n) xs bs t_done) cs) = 8 \<longleftrightarrow>
     list_all (\<lambda>s. ps_refused s = 1) (producers_of k (round_spec mode n) xs bs t_done)"
  using refusals_all [of k "round_spec mode n" to_ns t_go xs bs t_done cs]
  by (simp add: round_spec_def default_spec_def)

end
