(* ===== verification/Mpmc_Protocol.thy ===== *)
theory Mpmc_Protocol
  imports Mpmc_Queue
begin

text \<open>
  The slot protocol of the MPMC ring with unbounded positions: the abstract machine the 64-bit
  one refines. A slot is free for a position or holds its publication; a ghost map says where
  every position stands in its life, from unreserved to done, and which thread is responsible for
  it. The invariant ties the three together: a slot hosts one position at a time, every earlier
  position of the slot is done, every later one is at most reserved.
\<close>

section \<open>The machine\<close>

datatype status = Free (spos: nat) | Pub (spos: nat) (sdead: bool)

fun sval :: "status \<Rightarrow> nat" where
  "sval (Free p) = p"
| "sval (Pub p d) = p + 1"

datatype 'a phase =
    Unres
  | Res nat "'a option"     \<comment> \<open>reserved by a thread\<close>
  | Built nat 'a            \<comment> \<open>object constructed, not published\<close>
  | Live "'a option"        \<comment> \<open>published\<close>
  | Claimed nat "'a option" \<comment> \<open>claimed by a consumer\<close>
  | Taken nat 'a            \<comment> \<open>moved out\<close>
  | Done "(nat \<times> 'a) option" \<comment> \<open>released, having been delivered to a thread or been a tombstone\<close>

record 'a pq =
  pT :: nat
  pC :: bool
  pH :: nat
  pseq :: "status list"
  pstore :: "'a option list"
  ph :: "nat \<Rightarrow> 'a phase"
  pK :: nat  \<comment> \<open>ghost: the tail when the queue was closed\<close>

type_synonym 'a npc = "('a, nat \<times> bool, nat, status) pc"
type_synonym 'a nev = "('a, nat) ev"

definition new_pq :: "nat \<Rightarrow> 'a pq" where
  "new_pq n = \<lparr>pT = 0, pC = False, pH = 0, pseq = map Free [0..<n], pstore = replicate n None,
     ph = (\<lambda>_. Unres), pK = 0\<rparr>"

definition pn :: "'a pq \<Rightarrow> nat" where "pn q = length (pseq q)"

definition pslot :: "'a pq \<Rightarrow> nat \<Rightarrow> status" where
  "pslot q p = pseq q ! (p mod pn q)"

definition pset :: "nat \<Rightarrow> status \<Rightarrow> 'a phase \<Rightarrow> 'a pq \<Rightarrow> 'a pq" where
  "pset p s f q = q\<lparr>pseq := (pseq q)[p mod pn q := s], ph := (ph q)(p := f)\<rparr>"

definition pput :: "nat \<Rightarrow> 'a option \<Rightarrow> 'a phase \<Rightarrow> 'a pq \<Rightarrow> 'a pq" where
  "pput p x f q = q\<lparr>pstore := (pstore q)[p mod pn q := x], ph := (ph q)(p := f)\<rparr>"

definition preserve :: "nat \<Rightarrow> 'a option \<Rightarrow> 'a pq \<Rightarrow> 'a pq" where
  "preserve t x q = q\<lparr>pT := pT q + 1, ph := (ph q)(pT q := Res t x)\<rparr>"

definition pclaim :: "nat \<Rightarrow> 'a option \<Rightarrow> 'a pq \<Rightarrow> 'a pq" where
  "pclaim t x q = q\<lparr>pH := pH q + 1, ph := (ph q)(pH q := Claimed t x)\<rparr>"

text \<open>The value of the object a publication holds, none for a tombstone.\<close>

definition held :: "'a pq \<Rightarrow> nat \<Rightarrow> status \<Rightarrow> 'a option" where
  "held q p s = (case s of Pub _ True \<Rightarrow> None | _ \<Rightarrow> pstore q ! (p mod pn q))"

definition pstart :: "nat \<Rightarrow> 'a op \<Rightarrow> 'a pq \<Rightarrow> 'a pq \<times> 'a npc \<times> 'a nev list" where
  "pstart t p q =
     (case p of
        TryPush v \<Rightarrow> (q, PushLook v (pT q, pC q), [])
      | TicketPush v \<Rightarrow>
          if pC q then (q, Idle, [EvPush t PushClosed]) else (q, TicketTake v, [])
      | TryPop \<Rightarrow> (q, PopLook (pH q), [])
      | DrainCheck \<Rightarrow> if pC q then (q, DrainHead (pT q, pC q), []) else (q, Idle, [])
      | Close \<Rightarrow> (q\<lparr>pC := True, pK := (if pC q then pK q else pT q)\<rparr>, Idle, [EvClose t]))"

fun pstep :: "bool \<Rightarrow> nat \<Rightarrow> 'a npc \<Rightarrow> 'a pq \<Rightarrow> 'a pq \<times> 'a npc \<times> 'a nev list" where
  "pstep weak t Idle q = (q, Idle, [])"
| "pstep weak t (PushReload v) q = (q, PushLook v (pT q, pC q), [])"
| "pstep weak t (PushLook v w) q =
     (if snd w then (q, Idle, [EvPush t PushClosed])
      else if sval (pslot q (fst w)) = fst w then (q, PushCas v w, [])
      else if sval (pslot q (fst w)) < fst w then (q, Idle, [EvPush t PushFull])
      else (q, PushReload v, []))"
| "pstep weak t (PushCas v w) q =
     (if (pT q, pC q) = w \<and> \<not> weak
      then (preserve t (Some v) q, Construct v (fst w), [EvReserve t (fst w) (Some v)])
      else (q, PushLook v (pT q, pC q), []))"
| "pstep weak t (TicketTake v) q =
     (let x = (if pC q then None else Some v) in
      (preserve t x q, TicketWait v (pT q, pC q), [EvReserve t (pT q) x]))"
| "pstep weak t (TicketWait v w) q =
     (if pslot q (fst w) = Free (fst w)
      then if snd w then (q, TicketPay w, []) else (q, Construct v (fst w), [])
      else (q, TicketWait v w, []))"
| "pstep weak t (TicketPay w) q =
     (pset (fst w) (Pub (fst w) True) (Live None) q, Idle, [EvPush t PushClosed])"
| "pstep weak t (Construct v p) q =
     (pput p (Some v) (Built t v) q, Publish v p,
      if pstore q ! (p mod pn q) = None then [] else [EvFault])"
| "pstep weak t (Publish v p) q =
     (pset p (Pub p False) (Live (Some v)) q, Idle, [EvPush t PushOk])"
| "pstep weak t PopReload q = (q, PopLook (pH q), [])"
| "pstep weak t (PopLook p) q =
     (let s = pslot q p in
      if sval s = p + 1 then (q, PopCas p s, [])
      else if sval s < p + 1 then (q, Idle, [EvEmpty t])
      else (q, PopReload, []))"
| "pstep weak t (PopCas p s) q =
     (if pH q = p \<and> \<not> weak
      then (pclaim t (held q p s) q, case s of Pub _ True \<Rightarrow> ReleaseDead p | _ \<Rightarrow> Read p, [])
      else (q, PopLook (pH q), []))"
| "pstep weak t (Read p) q =
     (case pstore q ! (p mod pn q) of
        None \<Rightarrow> (q, Idle, [EvFault])
      | Some v \<Rightarrow> (pput p None (Taken t v) q, Release p v, []))"
| "pstep weak t (Release p v) q =
     (pset p (Free (p + pn q)) (Done (Some (t, v))) q, Idle, [EvDeliver t p v])"
| "pstep weak t (ReleaseDead p) q =
     (pset p (Free (p + pn q)) (Done None) q, PopLook (p + 1), [])"
| "pstep weak t (DrainHead w) q = (q, Idle, if pH q = fst w then [EvDrained t] else [])"

record 'a psys =
  p_mem :: "'a pq"
  p_pcs :: "nat \<Rightarrow> 'a npc"
  p_trace :: "'a nev list"

definition new_psys :: "nat \<Rightarrow> 'a psys" where
  "new_psys n = \<lparr>p_mem = new_pq n, p_pcs = (\<lambda>_. Idle), p_trace = []\<rparr>"

text \<open>The machine as a transition relation, one rule per kind of action.\<close>

inductive psys_step :: "'a psys \<Rightarrow> 'a psys \<Rightarrow> bool" where
  start: "p_pcs s t = Idle \<Longrightarrow> pstart t p (p_mem s) = (q, c, es) \<Longrightarrow>
    psys_step s \<lparr>p_mem = q, p_pcs = (p_pcs s)(t := c), p_trace = p_trace s @ es\<rparr>"
| go: "pstep weak t (p_pcs s t) (p_mem s) = (q, c, es) \<Longrightarrow>
    psys_step s \<lparr>p_mem = q, p_pcs = (p_pcs s)(t := c), p_trace = p_trace s @ es\<rparr>"

inductive psys_reach :: "nat \<Rightarrow> nat \<Rightarrow> 'a psys \<Rightarrow> bool" for n :: nat where
  init: "psys_reach n 0 (new_psys n)"
| stay: "psys_reach n k s \<Longrightarrow> psys_reach n (Suc k) s"
| step: "psys_reach n k s \<Longrightarrow> psys_step s s' \<Longrightarrow> psys_reach n (Suc k) s'"

inductive_cases psys_stepE: "psys_step s s'"

section \<open>Phases\<close>

fun owner :: "'a phase \<Rightarrow> nat option" where
  "owner (Res t x) = Some t"
| "owner (Built t v) = Some t"
| "owner (Claimed t x) = Some t"
| "owner (Taken t v) = Some t"
| "owner _ = None"

fun pval :: "'a phase \<Rightarrow> 'a option" where
  "pval Unres = None"
| "pval (Res t x) = x"
| "pval (Built t v) = Some v"
| "pval (Live x) = x"
| "pval (Claimed t x) = x"
| "pval (Taken t v) = Some v"
| "pval (Done x) = map_option snd x"

fun waiting :: "'a phase \<Rightarrow> bool" where
  "waiting Unres \<longleftrightarrow> True" | "waiting (Res t x) \<longleftrightarrow> True" | "waiting _ \<longleftrightarrow> False"

fun unpublished :: "'a phase \<Rightarrow> bool" where
  "unpublished Unres \<longleftrightarrow> True" | "unpublished (Res t x) \<longleftrightarrow> True"
| "unpublished (Built t v) \<longleftrightarrow> True" | "unpublished _ \<longleftrightarrow> False"

fun published :: "'a phase \<Rightarrow> bool" where
  "published (Live x) \<longleftrightarrow> True" | "published (Claimed t x) \<longleftrightarrow> True"
| "published (Taken t v) \<longleftrightarrow> True" | "published _ \<longleftrightarrow> False"

fun is_done :: "'a phase \<Rightarrow> bool" where
  "is_done (Done x) \<longleftrightarrow> True" | "is_done _ \<longleftrightarrow> False"

fun past_claim :: "'a phase \<Rightarrow> bool" where
  "past_claim (Claimed t x) \<longleftrightarrow> True" | "past_claim (Taken t v) \<longleftrightarrow> True"
| "past_claim (Done x) \<longleftrightarrow> True" | "past_claim _ \<longleftrightarrow> False"

fun stored :: "'a phase \<Rightarrow> 'a option" where
  "stored (Built t v) = Some v"
| "stored (Live x) = x"
| "stored (Claimed t x) = x"
| "stored _ = None"

text \<open>The position a thread is responsible for.\<close>

fun own_pos :: "'a npc \<Rightarrow> nat option" where
  "own_pos (TicketWait v w) = Some (fst w)"
| "own_pos (TicketPay w) = Some (fst w)"
| "own_pos (Construct v p) = Some p"
| "own_pos (Publish v p) = Some p"
| "own_pos (Read p) = Some p"
| "own_pos (Release p v) = Some p"
| "own_pos (ReleaseDead p) = Some p"
| "own_pos _ = None"

section \<open>The invariant\<close>

text \<open>A slot and the positions that pass through it.\<close>

definition slot_ok :: "'a pq \<Rightarrow> nat \<Rightarrow> bool" where
  "slot_ok q i \<longleftrightarrow>
     (let s = pseq q ! i; p = spos s in
      p mod pn q = i \<and>
      (\<forall>r. r mod pn q = i \<longrightarrow> (r < p \<longrightarrow> is_done (ph q r)) \<and> (p < r \<longrightarrow> waiting (ph q r))) \<and>
      (case s of
         Free _ \<Rightarrow> unpublished (ph q p)
       | Pub _ d \<Rightarrow> published (ph q p) \<and> (d \<longleftrightarrow> pval (ph q p) = None)) \<and>
      pstore q ! i = stored (ph q p))"

definition mem_ok :: "nat \<Rightarrow> 'a pq \<Rightarrow> bool" where
  "mem_ok n q \<longleftrightarrow>
     2 \<le> n \<and> pn q = n \<and> length (pstore q) = n \<and>
     (\<forall>i < n. slot_ok q i) \<and>
     (\<forall>p. ph q p = Unres \<longleftrightarrow> pT q \<le> p) \<and>
     (\<forall>p. past_claim (ph q p) \<longleftrightarrow> p < pH q) \<and>
     (pC q \<longrightarrow> pK q \<le> pT q) \<and>
     (\<forall>p < pT q. pval (ph q p) = None \<longleftrightarrow> pC q \<and> pK q \<le> p)"

fun pc_ok :: "'a pq \<Rightarrow> nat \<Rightarrow> 'a npc \<Rightarrow> bool" where
  "pc_ok q t (PushLook v w) \<longleftrightarrow> fst w \<le> pT q"
| "pc_ok q t (PushCas v w) \<longleftrightarrow>
     fst w \<le> pT q \<and> \<not> snd w \<and> (pslot q (fst w) = Free (fst w) \<or> ph q (fst w) \<noteq> Unres)"
| "pc_ok q t (TicketWait v w) \<longleftrightarrow> ph q (fst w) = Res t (if snd w then None else Some v)"
| "pc_ok q t (TicketPay w) \<longleftrightarrow> ph q (fst w) = Res t None \<and> pslot q (fst w) = Free (fst w)"
| "pc_ok q t (Construct v p) \<longleftrightarrow> ph q p = Res t (Some v) \<and> pslot q p = Free p"
| "pc_ok q t (Publish v p) \<longleftrightarrow> ph q p = Built t v"
| "pc_ok q t (PopLook p) \<longleftrightarrow> p \<le> pH q"
| "pc_ok q t (PopCas p s) \<longleftrightarrow> p \<le> pH q \<and> sval s = p + 1 \<and> (pslot q p = s \<or> p < pH q)"
| "pc_ok q t (Read p) \<longleftrightarrow> (\<exists>v. ph q p = Claimed t (Some v))"
| "pc_ok q t (Release p v) \<longleftrightarrow> ph q p = Taken t v"
| "pc_ok q t (ReleaseDead p) \<longleftrightarrow> ph q p = Claimed t None"
| "pc_ok q t (DrainHead w) \<longleftrightarrow> pC q \<and> pK q \<le> fst w \<and> fst w \<le> pT q"
| "pc_ok q t _ \<longleftrightarrow> True"

definition threads_ok :: "'a pq \<Rightarrow> (nat \<Rightarrow> 'a npc) \<Rightarrow> bool" where
  "threads_ok q pcs \<longleftrightarrow>
     (\<forall>t. pc_ok q t (pcs t)) \<and> (\<forall>t p. owner (ph q p) = Some t \<longrightarrow> own_pos (pcs t) = Some p)"

section \<open>Slots\<close>

lemma mem_okD:
  assumes "mem_ok n q"
  shows "2 \<le> n" "pn q = n" "length (pstore q) = n" "length (pseq q) = n"
    "i < n \<Longrightarrow> slot_ok q i" "ph q p = Unres \<longleftrightarrow> pT q \<le> p" "past_claim (ph q p) \<longleftrightarrow> p < pH q"
    "pC q \<Longrightarrow> pK q \<le> pT q" "p < pT q \<Longrightarrow> pval (ph q p) = None \<longleftrightarrow> pC q \<and> pK q \<le> p"
    "0 < n" "r mod n < n"
  using assms by (auto simp: mem_ok_def pn_def)

text \<open>The slot of a position: who it hosts, and what that says about the position.\<close>

lemma slot_host:
  assumes "mem_ok n q"
  shows "spos (pslot q p) mod n = p mod n"
    "p < spos (pslot q p) \<Longrightarrow> is_done (ph q p)"
    "spos (pslot q p) < p \<Longrightarrow> waiting (ph q p)"
    "spos (pslot q p) = p \<Longrightarrow> pslot q p = Free p \<and> unpublished (ph q p) \<or>
       pslot q p = Pub p (pval (ph q p) = None) \<and> published (ph q p)"
    "spos (pslot q p) = p \<Longrightarrow> pstore q ! (p mod n) = stored (ph q p)"
proof -
  have n: "pn q = n" using mem_okD(2) [OF assms] .
  have ok: "slot_ok q (p mod n)" using mem_okD(5,11) [OF assms] by blast
  then have all: "\<forall>r. r mod n = p mod n \<longrightarrow> (r < spos (pslot q p) \<longrightarrow> is_done (ph q r)) \<and>
      (spos (pslot q p) < r \<longrightarrow> waiting (ph q r))"
    by (simp add: slot_ok_def pslot_def n Let_def)
  show "spos (pslot q p) mod n = p mod n" using ok by (simp add: slot_ok_def pslot_def n Let_def)
  show "p < spos (pslot q p) \<Longrightarrow> is_done (ph q p)" "spos (pslot q p) < p \<Longrightarrow> waiting (ph q p)"
    using all by blast+
  assume h: "spos (pslot q p) = p"
  show "pstore q ! (p mod n) = stored (ph q p)"
    using ok h by (simp add: slot_ok_def pslot_def n Let_def)
  show "pslot q p = Free p \<and> unpublished (ph q p) \<or>
      pslot q p = Pub p (pval (ph q p) = None) \<and> published (ph q p)"
    using ok h by (cases "pslot q p") (simp_all add: slot_ok_def pslot_def n Let_def)
qed

lemma slot_free:
  assumes "mem_ok n q" "sval (pslot q p) = p"
  shows "pslot q p = Free p"
proof (cases "pslot q p")
  case (Pub r d)
  then have "Suc r mod n = r mod n" using slot_host(1) [OF assms(1), of p] assms(2) by auto
  then show ?thesis using mod_neq_within [of r "Suc r" n] mem_okD(1) [OF assms(1)] by auto
qed (use assms in auto)

lemma slot_pub:
  assumes "mem_ok n q" "sval (pslot q p) = p + 1"
  shows "\<exists>d. pslot q p = Pub p d"
proof (cases "pslot q p")
  case (Free r)
  then have "Suc p mod n = p mod n" using slot_host(1) [OF assms(1), of p] assms(2) by auto
  then show ?thesis using mod_neq_within [of p "Suc p" n] mem_okD(1) [OF assms(1)] by auto
qed (use assms in auto)

lemma hosted:
  assumes "mem_ok n q" "\<not> is_done (ph q p)" "\<not> waiting (ph q p)"
  shows "spos (pslot q p) = p"
  using slot_host(2,3) [OF assms(1)] assms(2,3) by (metis nat_neq_iff)

text \<open>A step that touches one slot and the phase of one position of it.\<close>

lemma slots_update:
  assumes ok: "\<forall>j < n. slot_ok q j" "pn q = n"
    and same: "pn q' = n" "\<And>j. j \<noteq> p mod n \<Longrightarrow> pseq q' ! j = pseq q ! j"
      "\<And>j. j \<noteq> p mod n \<Longrightarrow> pstore q' ! j = pstore q ! j" "\<And>r. r \<noteq> p \<Longrightarrow> ph q' r = ph q r"
    and new: "slot_ok q' (p mod n)"
  shows "\<forall>j < n. slot_ok q' j"
proof (intro allI impI)
  fix j assume j: "j < n"
  show "slot_ok q' j"
  proof (cases "j = p mod n")
    case False
    have r: "ph q' r = ph q r" if "r mod n = j" for r
      using that False by (intro same(4)) auto
    have "slot_ok q j" using ok j by blast
    then show ?thesis
      using r same(1) ok(2) same(2,3) [OF False]
      unfolding slot_ok_def Let_def by (cases "pseq q ! j") simp_all
  qed (use new in simp)
qed

section \<open>What one thread's step means to the others\<close>

definition others :: "nat \<Rightarrow> 'a pq \<Rightarrow> 'a pq \<Rightarrow> bool" where
  "others t q q' \<longleftrightarrow>
     pT q \<le> pT q' \<and> pH q \<le> pH q' \<and> (pC q \<longrightarrow> pC q' \<and> pK q' = pK q) \<and>
     (\<forall>p u. owner (ph q p) = Some u \<longrightarrow> u \<noteq> t \<longrightarrow>
        ph q' p = ph q p \<and> (pslot q p = Free p \<longrightarrow> pslot q' p = Free p)) \<and>
     (\<forall>p. ph q p \<noteq> Unres \<longrightarrow> ph q' p \<noteq> Unres) \<and>
     (\<forall>p. pslot q p = Free p \<longrightarrow> pslot q' p = Free p \<or> ph q' p \<noteq> Unres) \<and>
     (\<forall>p. sval (pslot q p) = p + 1 \<longrightarrow> pslot q' p = pslot q p \<or> p < pH q') \<and>
     (\<forall>p u. u \<noteq> t \<longrightarrow> owner (ph q' p) = Some u \<longrightarrow> owner (ph q p) = Some u)"

lemma others_refl: "others t q q"
  by (auto simp: others_def)

lemma othersD:
  assumes "others t q q'"
  shows "pT q \<le> pT q'" "pH q \<le> pH q'" "pC q \<Longrightarrow> pC q' \<and> pK q' = pK q"
    "owner (ph q p) = Some u \<Longrightarrow> u \<noteq> t \<Longrightarrow> ph q' p = ph q p"
    "owner (ph q p) = Some u \<Longrightarrow> u \<noteq> t \<Longrightarrow> pslot q p = Free p \<Longrightarrow> pslot q' p = Free p"
    "ph q p \<noteq> Unres \<Longrightarrow> ph q' p \<noteq> Unres"
    "pslot q p = Free p \<Longrightarrow> pslot q' p = Free p \<or> ph q' p \<noteq> Unres"
    "sval (pslot q p) = p + 1 \<Longrightarrow> pslot q' p = pslot q p \<or> p < pH q'"
    "u \<noteq> t \<Longrightarrow> owner (ph q' p) = Some u \<Longrightarrow> owner (ph q p) = Some u"
  using assms unfolding others_def by blast+

lemma pc_ok_others:
  assumes "pc_ok q u c" "others t q q'" "u \<noteq> t"
  shows "pc_ok q' u c"
proof -
  note o = othersD [OF assms(2)]
  have own: "owner (ph q p) = Some u \<Longrightarrow> ph q' p = ph q p"
    "owner (ph q p) = Some u \<Longrightarrow> pslot q p = Free p \<Longrightarrow> pslot q' p = Free p" for p
    using o(4,5) assms(3) by blast+
  show ?thesis
  proof (cases c)
    case (PopCas p s)
    then show ?thesis using assms(1) o(2) o(8) [of p] by auto
  next
    case (PushCas v w)
    then show ?thesis using assms(1) o(1) o(6,7) [of "fst w"] by auto
  next
    case (PushLook v w)
    then show ?thesis using assms(1) o(1) by simp
  next
    case (PopLook p)
    then show ?thesis using assms(1) o(2) by simp
  next
    case (DrainHead w)
    then show ?thesis using assms(1) o(1,3) by simp
  next
    case (Read p)
    then show ?thesis using assms(1) own(1) [of p] by auto
  next
    case (TicketWait v w)
    then show ?thesis using assms(1) own [of "fst w"] by simp
  next
    case (TicketPay w)
    then show ?thesis using assms(1) own [of "fst w"] by simp
  next
    case (Construct v p)
    then show ?thesis using assms(1) own [of p] by simp
  next
    case (Publish v p)
    then show ?thesis using assms(1) own [of p] by simp
  next
    case (Release p v)
    then show ?thesis using assms(1) own [of p] by simp
  next
    case (ReleaseDead p)
    then show ?thesis using assms(1) own [of p] by simp
  qed simp_all
qed

text \<open>The stepping thread moves to a new counter, every other one stays.\<close>

lemma threads_step:
  assumes th: "threads_ok q pcs" and o: "others t q q'" and c: "pc_ok q' t c"
    and mine: "\<And>p. owner (ph q' p) = Some t \<Longrightarrow> own_pos c = Some p"
  shows "threads_ok q' (pcs(t := c))"
  unfolding threads_ok_def
proof (intro conjI allI impI)
  fix u
  show "pc_ok q' u ((pcs(t := c)) u)"
  proof (cases "u = t")
    case False
    then show ?thesis using pc_ok_others [OF _ o False] th by (simp add: threads_ok_def)
  qed (use c in simp)
next
  fix u p assume ow: "owner (ph q' p) = Some u"
  show "own_pos ((pcs(t := c)) u) = Some p"
  proof (cases "u = t")
    case False
    then have "owner (ph q p) = Some u" using othersD(9) [OF o False ow] by blast
    then show ?thesis using th False by (simp add: threads_ok_def)
  qed (use mine ow in simp)
qed

text \<open>A step that leaves memory alone and keeps what the thread owns.\<close>

lemma local_step:
  assumes "threads_ok q pcs" "pc_ok q t c" "own_pos c = own_pos (pcs t)"
  shows "threads_ok q (pcs(t := c))"
  using assms(1) by (intro threads_step [OF assms(1) others_refl assms(2)])
    (simp add: assms(3) threads_ok_def)

lemma only_owner:
  "threads_ok q pcs \<Longrightarrow> owner (ph q p) = Some t \<Longrightarrow> owner (ph q r) = Some t \<Longrightarrow> p = r"
  unfolding threads_ok_def by (metis option.inject)

section \<open>The steps\<close>

lemma reserve_ok:
  assumes q: "mem_ok n q" and x: "x = None \<longleftrightarrow> pC q"
  shows "mem_ok n (preserve t x q)" and "others t q (preserve t x q)"
proof -
  let ?q = "preserve t x q"
  have T: "ph q (pT q) = Unres" using mem_okD(6) [OF q] by simp
  then have H: "\<not> pT q < pH q" using mem_okD(7) [OF q, of "pT q"] by simp
  have sl: "slot_ok ?q j" if "j < n" for j
    using mem_okD(5) [OF q that] T
    unfolding slot_ok_def Let_def preserve_def
    by (auto simp: pn_def split: status.splits)
  show "mem_ok n ?q"
    unfolding mem_ok_def
    using mem_okD [OF q] sl x T H by (auto simp: preserve_def pn_def less_Suc_eq not_less_eq_eq)
  show "others t q ?q" using T by (auto simp: others_def preserve_def pslot_def pn_def)
qed

lemma host_here:
  assumes q: "mem_ok n q" and p: "pslot q p = Free p \<or> published (ph q p)"
  shows "spos (pslot q p) = p"
  using p hosted [OF q, of p] by (cases "ph q p") auto

text \<open>A step of the position a slot hosts, which stays there.\<close>

lemma hosted_step:
  assumes q: "mem_ok n q" and host: "spos (pslot q p) = p" "spos s = p"
    and q': "pseq q' = (pseq q)[p mod n := s]" "pstore q' = (pstore q)[p mod n := x]"
      "ph q' = (ph q)(p := f)" "pT q' = pT q" "pH q' = pH q" "pC q' = pC q" "pK q' = pK q"
    and f: "(case s of Free _ \<Rightarrow> unpublished f | Pub _ d \<Rightarrow> published f \<and> (d \<longleftrightarrow> pval f = None))"
      "x = stored f" "f \<noteq> Unres" "ph q p \<noteq> Unres" "past_claim f = past_claim (ph q p)"
      "pval f = pval (ph q p)"
  shows "mem_ok n q'"
proof -
  note m = mem_okD [OF q]
  have s: "\<forall>j < n. slot_ok q' j"
  proof (rule slots_update [of n q q' p])
    have "slot_ok q (p mod n)" using m(5) m(11) by blast
    then show "slot_ok q' (p mod n)"
      using host f m(2,3,4,10) q'
      unfolding slot_ok_def Let_def by (cases s) (auto simp: pn_def pslot_def)
  qed (use m q' in \<open>auto simp: pn_def\<close>)
  have n': "pn q' = n" "length (pstore q') = n" using q' m by (simp_all add: pn_def)
  have u: "ph q' r = Unres \<longleftrightarrow> pT q' \<le> r" for r using m(6) [of r] q' f by auto
  have c: "past_claim (ph q' r) \<longleftrightarrow> r < pH q'" for r using m(7) [of r] q' f by auto
  have v: "pval (ph q' r) = None \<longleftrightarrow> pC q' \<and> pK q' \<le> r" if "r < pT q'" for r
    using m(9) [of r] that q' f by auto
  show ?thesis unfolding mem_ok_def using m(1) n' s u c v m(8) q' by simp
qed

lemma pslot_update:
  "pseq q' = (pseq q)[p mod n := s] \<Longrightarrow> pn q = n \<Longrightarrow> 0 < n \<Longrightarrow>
   pslot q' r = (if r mod n = p mod n then s else pslot q r)"
  by (simp add: pslot_def pn_def nth_list_update)

text \<open>Steps of an owner on its own position that keep the slot's status.\<close>

lemma owner_step_others:
  assumes q: "mem_ok n q" and p: "owner (ph q p) = Some t" and f: "f \<noteq> Unres"
    and q': "pseq q' = pseq q" "ph q' = (ph q)(p := f)" "pT q' = pT q" "pH q' = pH q"
      "pC q' = pC q" "pK q' = pK q"
    and own: "owner f = None \<or> owner f = Some t"
  shows "others t q q'"
  using p f q' own unfolding others_def pslot_def pn_def by (auto split: if_splits)

lemma construct_ok:
  assumes q: "mem_ok n q" and p: "ph q p = Res t (Some v)" "pslot q p = Free p"
  shows "mem_ok n (pput p (Some v) (Built t v) q)" and "others t q (pput p (Some v) (Built t v) q)"
    and "pstore q ! (p mod pn q) = None"
proof -
  have i: "p mod n < length (pseq q)" and n: "pn q = n" using mem_okD [OF q] by (simp_all add: pn_def)
  then have "(pseq q)[p mod n := Free p] = pseq q"
    using p(2) by (metis list_update_id pslot_def)
  then show "mem_ok n (pput p (Some v) (Built t v) q)"
    using p n by (intro hosted_step [OF q, of p "Free p" _ "Some v" "Built t v"])
      (simp_all add: pput_def)
  show "others t q (pput p (Some v) (Built t v) q)"
    using p by (intro owner_step_others [OF q, of p t "Built t v"]) (simp_all add: pput_def)
  show "pstore q ! (p mod pn q) = None"
    using slot_host(5) [OF q, of p] p n by simp
qed

lemma read_ok:
  assumes q: "mem_ok n q" and p: "ph q p = Claimed t (Some v)"
  shows "mem_ok n (pput p None (Taken t v) q)" and "others t q (pput p None (Taken t v) q)"
    and "pstore q ! (p mod pn q) = Some v"
proof -
  have i: "p mod n < length (pseq q)" and n: "pn q = n" using mem_okD [OF q] by (simp_all add: pn_def)
  have h: "spos (pslot q p) = p" by (rule host_here [OF q]) (simp add: p)
  then have s: "pslot q p = Pub p False" using slot_host(4) [OF q h] p by simp
  then have "(pseq q)[p mod n := Pub p False] = pseq q"
    using n by (metis list_update_id pslot_def)
  then show "mem_ok n (pput p None (Taken t v) q)"
    using p n h by (intro hosted_step [OF q, of p "Pub p False" _ None "Taken t v"])
      (simp_all add: pput_def)
  show "others t q (pput p None (Taken t v) q)"
    using p by (intro owner_step_others [OF q, of p t "Taken t v"]) (simp_all add: pput_def)
  show "pstore q ! (p mod pn q) = Some v" using slot_host(5) [OF q h] p n by simp
qed

lemma pset_pslot:
  assumes "mem_ok n q"
  shows "pslot (pset p s f q) r = (if r mod n = p mod n then s else pslot q r)"
  using mem_okD(2,10) [OF assms] by (simp add: pset_def pslot_update [of _ _ p n])

lemma same_slot: "mem_ok n q \<Longrightarrow> r mod n = p mod n \<Longrightarrow> pslot q r = pslot q p"
  by (simp add: pslot_def mem_okD(2))

lemma pset_others:
  assumes q: "mem_ok n q" and host: "spos (pslot q p) = p" and own: "owner (ph q p) = Some t"
    and f: "f \<noteq> Unres" "owner f = None" and c: "pslot q p = Free p \<or> p < pH q"
  shows "others t q (pset p s f q)"
proof -
  let ?q = "pset p s f q"
  note sl = pset_pslot [OF q, of p s f]
  have same: "pslot q r = pslot q p" if "r mod n = p mod n" for r using same_slot [OF q that] .
  have phs: "ph ?q r = (if r = p then f else ph q r)" for r by (simp add: pset_def)
  have fields: "pT ?q = pT q" "pH ?q = pH q" "pC ?q = pC q" "pK ?q = pK q" by (simp_all add: pset_def)
  show ?thesis
    unfolding others_def fields
  proof (intro conjI allI impI)
    fix r u assume r: "owner (ph q r) = Some u" "u \<noteq> t"
    then have "r \<noteq> p" using own by auto
    then show "ph ?q r = ph q r" by (simp add: phs)
    assume "pslot q r = Free r"
    then have "spos (pslot q r) = r" by simp
    then have "r mod n \<noteq> p mod n" using same [of r] host \<open>r \<noteq> p\<close> by metis
    then show "pslot ?q r = Free r" using \<open>pslot q r = Free r\<close> by (simp add: sl)
  next
    fix r assume "ph q r \<noteq> Unres"
    then show "ph ?q r \<noteq> Unres" using f by (simp add: phs)
  next
    fix r assume r: "pslot q r = Free r"
    show "pslot ?q r = Free r \<or> ph ?q r \<noteq> Unres"
    proof (cases "r mod n = p mod n")
      case True
      moreover have "spos (pslot q r) = r" using r by simp
      ultimately have "r = p" using same [of r] host by metis
      then show ?thesis using f by (simp add: phs)
    qed (use r in \<open>simp add: sl\<close>)
  next
    fix r assume r: "sval (pslot q r) = r + 1"
    show "pslot ?q r = pslot q r \<or> r < pH q"
    proof (cases "r mod n = p mod n")
      case True
      obtain d where "pslot q r = Pub r d" using slot_pub [OF q r] by blast
      then have "r = p" "pslot q p \<noteq> Free p" using same [OF True] host by auto
      then show ?thesis using c by simp
    qed (simp add: sl)
  next
    fix r u assume "u \<noteq> t" "owner (ph ?q r) = Some u"
    then show "owner (ph q r) = Some u" using f by (simp add: phs split: if_splits)
  qed auto
qed

lemma publish_ok:
  assumes q: "mem_ok n q"
    and p: "ph q p = Built t v \<and> x = Some v \<and> \<not> d \<or>
      ph q p = Res t None \<and> pslot q p = Free p \<and> x = None \<and> d"
  shows "mem_ok n (pset p (Pub p d) (Live x) q)" and "others t q (pset p (Pub p d) (Live x) q)"
    and "pslot q p = Free p"
proof -
  have n: "pn q = n" by (rule mem_okD(2) [OF q])
  have h: "spos (pslot q p) = p" using p hosted [OF q, of p] by auto
  then show free: "pslot q p = Free p" using slot_host(4) [OF q h] p by auto
  have st: "pstore q ! (p mod n) = x" using slot_host(5) [OF q h] p by auto
  then have "(pstore q)[p mod n := x] = pstore q" by (metis list_update_id)
  then show "mem_ok n (pset p (Pub p d) (Live x) q)"
    using p n h by (intro hosted_step [OF q, of p "Pub p d" _ x "Live x"]) (auto simp: pset_def)
  show "others t q (pset p (Pub p d) (Live x) q)"
    using p free h by (intro pset_others [OF q]) auto
qed

lemma claim_ok:
  assumes q: "mem_ok n q" and s: "pslot q (pH q) = s" "sval s = pH q + 1"
  shows "mem_ok n (pclaim t (held q (pH q) s) q)" and "others t q (pclaim t (held q (pH q) s) q)"
    and "s = Pub (pH q) (held q (pH q) s = None)"
proof -
  let ?H = "pH q"
  have n: "pn q = n" by (rule mem_okD(2) [OF q])
  obtain d where d: "pslot q ?H = Pub ?H d" using slot_pub [OF q] s by metis
  then have h: "spos (pslot q ?H) = ?H" by simp
  have pub: "published (ph q ?H)" and dv: "d \<longleftrightarrow> pval (ph q ?H) = None"
    using slot_host(4) [OF q h] d by auto
  have "\<not> past_claim (ph q ?H)" using mem_okD(7) [OF q] by simp
  then obtain y where y: "ph q ?H = Live y" using pub by (cases "ph q ?H") auto
  then have dy: "d \<longleftrightarrow> y = None" using dv by simp
  have "pstore q ! (?H mod n) = y" using slot_host(5) [OF q h] y by simp
  then have held: "held q ?H s = y" unfolding s(1) [symmetric] d held_def using dy n by (cases d) auto
  then show "s = Pub ?H (held q ?H s = None)" using s(1) d dy by simp
  let ?q = "pclaim t y q"
  note m = mem_okD [OF q]
  have "?H < pT q" using m(6) [of ?H] y by (simp add: not_le)
  moreover have sl: "slot_ok ?q j" if j: "j < n" for j
  proof (cases "j = ?H mod n")
    case True
    have "slot_ok q j" using m(5) j by blast
    then show ?thesis
      using True d dy y n unfolding slot_ok_def Let_def pclaim_def
      by (simp add: pslot_def pn_def)
  next
    case False
    have "slot_ok q j" using m(5) j by blast
    then show ?thesis
      using False n unfolding slot_ok_def Let_def pclaim_def
      by (cases "pseq q ! j") (simp_all add: pn_def, metis+)
  qed
  have u: "ph ?q r = Unres \<longleftrightarrow> pT ?q \<le> r" for r
    using m(6) [of r] y by (auto simp: pclaim_def)
  have c: "past_claim (ph ?q r) \<longleftrightarrow> r < pH ?q" for r
    using m(7) [of r] by (auto simp: pclaim_def)
  have v: "pval (ph ?q r) = None \<longleftrightarrow> pC ?q \<and> pK ?q \<le> r" if "r < pT ?q" for r
    using m(9) [of r] that y by (auto simp: pclaim_def)
  have l: "pn ?q = n" "length (pstore ?q) = n" "pC ?q \<longrightarrow> pK ?q \<le> pT ?q"
    using m(2,3,8) by (simp_all add: pclaim_def pn_def)
  show "mem_ok n (pclaim t (held q ?H s) q)"
    unfolding held mem_ok_def using m(1) sl u c v l by blast
  show "others t q (pclaim t (held q ?H s) q)"
    unfolding held using y by (auto simp: others_def pclaim_def pslot_def pn_def)
qed

lemma release_ok:
  assumes q: "mem_ok n q"
    and p: "ph q p = Taken t v \<and> y = Some (t, v) \<or> ph q p = Claimed t None \<and> y = None"
  shows "mem_ok n (pset p (Free (p + pn q)) (Done y) q)"
    and "others t q (pset p (Free (p + pn q)) (Done y) q)"
proof -
  note m = mem_okD [OF q]
  let ?q = "pset p (Free (p + pn q)) (Done y) q"
  have h: "spos (pslot q p) = p" using p by (intro host_here [OF q]) auto
  have s: "pslot q p = Pub p (pval (ph q p) = None)" using slot_host(4) [OF q h] p by auto
  have st: "pstore q ! (p mod n) = None" using slot_host(5) [OF q h] p by auto
  have ok: "slot_ok q (p mod n)" using m(5,11) by blast
  have pl: "r < p \<Longrightarrow> is_done (ph q r)" "p < r \<Longrightarrow> waiting (ph q r)" if "r mod n = p mod n" for r
    using slot_host(2,3) [OF q, of r] same_slot [OF q that] h by auto
  have gap: "\<not> (p < r \<and> r < p + n)" if "r mod n = p mod n" for r
    using mod_eq_within [of r n p] that by auto
  have new: "slot_ok ?q (p mod n)"
  proof -
    have w: "waiting (ph q (p + n))" by (rule pl(2)) (use m(10) in simp_all)
    have i: "p mod n < length (pseq q)" using m(4,11) by simp
    have "(r < p + n \<longrightarrow> is_done (((ph q)(p := Done y)) r)) \<and>
        (p + n < r \<longrightarrow> waiting (((ph q)(p := Done y)) r))" if "r mod n = p mod n" for r
      using pl [OF that] gap [OF that] by (cases "r = p") (auto simp: not_less)
    moreover have "unpublished (ph q (p + n))" "stored (ph q (p + n)) = None"
      using w by (cases "ph q (p + n)"; simp)+
    ultimately show ?thesis
      using m(2,10) i st unfolding slot_ok_def Let_def pset_def by (simp add: pn_def)
  qed
  have sl: "\<forall>j < n. slot_ok ?q j"
    by (rule slots_update [of n q ?q p])
      (use m(2,5,4) new in \<open>auto simp: pset_def pn_def\<close>)
  have u: "ph ?q r = Unres \<longleftrightarrow> pT ?q \<le> r" for r
    using m(6) [of r] p by (auto simp: pset_def)
  have c: "past_claim (ph ?q r) \<longleftrightarrow> r < pH ?q" for r
    using m(7) [of r] p by (auto simp: pset_def)
  have v: "pval (ph ?q r) = None \<longleftrightarrow> pC ?q \<and> pK ?q \<le> r" if "r < pT ?q" for r
    using m(9) [of r] that p by (auto simp: pset_def)
  have l: "pn ?q = n" "length (pstore ?q) = n" "pC ?q \<longrightarrow> pK ?q \<le> pT ?q"
    using m(2,3,8) by (simp_all add: pset_def pn_def)
  show "mem_ok n ?q" unfolding mem_ok_def using m(1) sl u c v l by blast
  have pH: "p < pH q" using m(7) [of p] p by auto
  show "others t q ?q" using p h pH by (intro pset_others [OF q]) auto
qed

lemma close_ok:
  assumes q: "mem_ok n q"
  shows "mem_ok n (q\<lparr>pC := True, pK := (if pC q then pK q else pT q)\<rparr>)"
    and "others t q (q\<lparr>pC := True, pK := (if pC q then pK q else pT q)\<rparr>)"
proof -
  note m = mem_okD [OF q]
  let ?q = "q\<lparr>pC := True, pK := (if pC q then pK q else pT q)\<rparr>"
  have "slot_ok ?q j" if "j < n" for j
    using m(5) [OF that] unfolding slot_ok_def Let_def
    by (cases "pseq q ! j") (simp_all add: pn_def)
  moreover have "pval (ph ?q r) = None \<longleftrightarrow> pC ?q \<and> pK ?q \<le> r" if "r < pT ?q" for r
    using m(9) [of r] that by auto
  ultimately show "mem_ok n ?q"
    unfolding mem_ok_def using m(1-3,6-8) by (auto simp: pn_def)
  show "others t q ?q" by (auto simp: others_def pslot_def pn_def)
qed

section \<open>Every step keeps the invariant\<close>

theorem pstart_ok:
  assumes "mem_ok n q" "threads_ok q pcs" "pcs t = Idle" "pstart t p q = (q', c, es)"
  shows "mem_ok n q' \<and> threads_ok q' (pcs(t := c))"
proof -
  have idle: "owner (ph q r) \<noteq> Some t" for r
    using assms(2,3) unfolding threads_ok_def by fastforce
  have loc: "threads_ok q (pcs(t := c))" if "pc_ok q t c" "own_pos c = None" for c
    using that by (intro local_step [OF assms(2)]) (simp_all add: assms(3))
  show ?thesis
  proof (cases p)
    case Close
    let ?q = "q\<lparr>pC := True, pK := (if pC q then pK q else pT q)\<rparr>"
    have "threads_ok ?q (pcs(t := Idle))"
      using idle by (intro threads_step [OF assms(2) close_ok(2) [OF assms(1)]]) auto
    then show ?thesis using Close assms(4) close_ok(1) [OF assms(1)] by (auto simp: pstart_def)
  qed (use assms(1,4) loc mem_okD(8) [OF assms(1)] in \<open>auto simp: pstart_def split: if_splits\<close>)
qed

text \<open>
  A step that changes the phase of the one position the thread owns, or takes a new one while it
  owns none.
\<close>

lemma owner_step:
  assumes th: "threads_ok q pcs" and o: "others t q q'" and c: "pc_ok q' t c"
    and f: "\<And>r. r \<noteq> p \<Longrightarrow> ph q' r = ph q r"
    and mine: "own_pos (pcs t) = Some p \<or> own_pos (pcs t) = None"
    and p: "owner (ph q' p) = Some t \<Longrightarrow> own_pos c = Some p"
  shows "threads_ok q' (pcs(t := c))"
proof (rule threads_step [OF th o c])
  fix r assume r: "owner (ph q' r) = Some t"
  show "own_pos c = Some r"
  proof (cases "r = p")
    case False
    then have "own_pos (pcs t) = Some r" using r f [OF False] th by (simp add: threads_ok_def)
    then show ?thesis using mine False by auto
  qed (use p r in simp)
qed

lemma ph_simps [simp]:
  "ph (pset p s f q) = (ph q)(p := f)" "ph (pput p x f q) = (ph q)(p := f)"
  "ph (preserve t x q) = (ph q)(pT q := Res t x)" "ph (pclaim t x q) = (ph q)(pH q := Claimed t x)"
  by (simp_all add: pset_def pput_def preserve_def pclaim_def)

lemma field_simps' [simp]:
  "pslot (pput p x f q) r = pslot q r" "pslot (preserve t x q) r = pslot q r"
  "pslot (pclaim t x q) r = pslot q r" "pH (pset p s f q) = pH q" "pT (pset p s f q) = pT q"
  "pC (pset p s f q) = pC q" "pC (preserve t x q) = pC q" "pn (pset p s f q) = pn q"
  by (simp_all add: pset_def pput_def preserve_def pclaim_def pslot_def pn_def)

theorem pstep_ok:
  assumes q: "mem_ok n q" and th: "threads_ok q pcs"
    and st: "pstep weak t (pcs t) q = (q', c, es)"
  shows "mem_ok n q' \<and> threads_ok q' (pcs(t := c)) \<and> EvFault \<notin> set es"
proof -
  have ok: "pc_ok q t (pcs t)" using th by (simp add: threads_ok_def)
  have loc: ?thesis if "q' = q" "pc_ok q t c" "own_pos c = own_pos (pcs t)" "EvFault \<notin> set es"
    using that q local_step [OF th that(2,3)] by simp
  show ?thesis
  proof (cases "pcs t")
    case Idle
    then show ?thesis using loc st by simp
  next
    case (PushReload v)
    then show ?thesis using loc st by auto
  next
    case (PushLook v w)
    then show ?thesis
      using loc st ok slot_free [OF q, of "fst w"] by (auto split: if_splits)
  next
    case (PushCas v w)
    show ?thesis
    proof (cases "(pT q, pC q) = w \<and> \<not> weak")
      case True
      then have w: "fst w = pT q" "\<not> pC q" and r: "q' = preserve t (Some v) q"
        "c = Construct v (pT q)" "EvFault \<notin> set es" using st PushCas ok by auto
      have "pslot q (pT q) = Free (pT q)" using ok PushCas w mem_okD(6) [OF q, of "pT q"] by auto
      then have "threads_ok q' (pcs(t := c))"
        unfolding r using PushCas w
        by (intro owner_step [OF th reserve_ok(2) [OF q], where p = "pT q"]) auto
      then show ?thesis using reserve_ok(1) [OF q, of "Some v"] w(2) r by auto
    next
      case False
      then show ?thesis using loc st PushCas by (auto split: if_splits)
    qed
  next
    case (TicketTake v)
    let ?x = "if pC q then None else Some v"
    have r: "q' = preserve t ?x q" "c = TicketWait v (pT q, pC q)" "EvFault \<notin> set es"
      using st TicketTake by (auto simp: Let_def)
    have x: "?x = None \<longleftrightarrow> pC q" by simp
    have "threads_ok q' (pcs(t := c))"
      unfolding r using TicketTake
      by (intro owner_step [OF th reserve_ok(2) [OF q x], where p = "pT q"]) auto
    then show ?thesis using reserve_ok(1) [OF q x] r by auto
  next
    case (TicketWait v w)
    show ?thesis
    proof (cases "pslot q (fst w) = Free (fst w)")
      case True
      then show ?thesis using loc st ok TicketWait by (auto split: if_splits)
    next
      case False
      then have "q' = q" "c = pcs t" "es = []" using st TicketWait by simp_all
      then show ?thesis using loc ok by simp
    qed
  next
    case (TicketPay w)
    then have r: "q' = pset (fst w) (Pub (fst w) True) (Live None) q" "c = Idle" "EvFault \<notin> set es"
      using st by auto
    note p = publish_ok [OF q, of "fst w" t _ None True]
    have "threads_ok q' (pcs(t := c))"
      unfolding r using TicketPay ok
      by (intro owner_step [OF th p(2), where p = "fst w"]) auto
    then show ?thesis using p(1) ok TicketPay r by auto
  next
    case (Construct v p)
    then have ph: "ph q p = Res t (Some v)" "pslot q p = Free p" using ok by auto
    note k = construct_ok [OF q ph]
    have r: "q' = pput p (Some v) (Built t v) q" "c = Publish v p" "EvFault \<notin> set es"
      using st Construct k(3) by auto
    have "threads_ok q' (pcs(t := c))"
      unfolding r using Construct by (intro owner_step [OF th k(2), where p = p]) auto
    then show ?thesis using k(1) r by auto
  next
    case (Publish v p)
    then have r: "q' = pset p (Pub p False) (Live (Some v)) q" "c = Idle" "EvFault \<notin> set es"
      using st by auto
    note k = publish_ok [OF q, of p t v "Some v" False]
    have "threads_ok q' (pcs(t := c))"
      unfolding r using Publish ok by (intro owner_step [OF th k(2), where p = p]) auto
    then show ?thesis using k(1) ok Publish r by auto
  next
    case PopReload
    then show ?thesis using loc st by auto
  next
    case (PopLook p)
    then show ?thesis
      using loc st ok by (auto simp: Let_def split: if_splits)
  next
    case (PopCas p s)
    show ?thesis
    proof (cases "pH q = p \<and> \<not> weak")
      case True
      then have s: "pslot q (pH q) = s" "sval s = pH q + 1" using ok PopCas by auto
      note k = claim_ok(1,2) [OF q s, of t] claim_ok(3) [OF q s]
      let ?x = "held q (pH q) s"
      have r: "q' = pclaim t ?x q" "EvFault \<notin> set es"
        "c = (case s of Pub _ True \<Rightarrow> ReleaseDead p | _ \<Rightarrow> Read p)" using st PopCas True by auto
      have c: "c = (if ?x = None then ReleaseDead p else Read p)"
      proof (cases "?x = None")
        case True
        then have "s = Pub (pH q) True" using k(3) by metis
        then show ?thesis using True r(3) by simp
      next
        case False
        then have "s = Pub (pH q) False" using k(3) by metis
        then show ?thesis using False r(3) by simp
      qed
      have "threads_ok q' (pcs(t := c))"
        unfolding r(1) using PopCas True c
        by (intro owner_step [OF th k(2), where p = "pH q"]) auto
      then show ?thesis using k(1) r by auto
    next
      case False
      then show ?thesis using loc st PopCas by (auto split: if_splits)
    qed
  next
    case (Read p)
    then obtain v where ph: "ph q p = Claimed t (Some v)" using ok by auto
    note k = read_ok [OF q ph]
    have r: "q' = pput p None (Taken t v) q" "c = Release p v" "EvFault \<notin> set es"
      using st Read k(3) by auto
    have "threads_ok q' (pcs(t := c))"
      unfolding r using Read by (intro owner_step [OF th k(2), where p = p]) auto
    then show ?thesis using k(1) r by auto
  next
    case (Release p v)
    then have r: "q' = pset p (Free (p + pn q)) (Done (Some (t, v))) q" "c = Idle" "EvFault \<notin> set es"
      using st by auto
    note k = release_ok [OF q, of p t v "Some (t, v)"]
    have "threads_ok q' (pcs(t := c))"
      unfolding r using Release ok by (intro owner_step [OF th k(2), where p = p]) auto
    then show ?thesis using k(1) ok Release r by auto
  next
    case (ReleaseDead p)
    then have ph: "ph q p = Claimed t None" using ok by simp
    have r: "q' = pset p (Free (p + pn q)) (Done None) q" "c = PopLook (p + 1)" "EvFault \<notin> set es"
      using st ReleaseDead by auto
    note k = release_ok [OF q, of p t _ None]
    have "p < pH q" using mem_okD(7) [OF q, of p] ph by simp
    then have "threads_ok q' (pcs(t := c))"
      unfolding r using ReleaseDead ph by (intro owner_step [OF th k(2), where p = p]) auto
    then show ?thesis using k(1) ph r by auto
  next
    case (DrainHead w)
    then show ?thesis using loc st by auto
  qed
qed

section \<open>The trace\<close>

text \<open>
  The trace tells the same story as the phases: what it reserved are the positions in order, with
  the value each phase carries, and what it delivered are the positions done. A thread's
  deliveries come in the order of their positions.
\<close>

definition trace_ok :: "'a pq \<Rightarrow> 'a nev list \<Rightarrow> bool" where
  "trace_ok q tr \<longleftrightarrow>
     map (\<lambda>(t, p, x). p) (reserves tr) = [0..<pT q] \<and>
     (\<forall>t p x. (t, p, x) \<in> set (reserves tr) \<longrightarrow> pval (ph q p) = x) \<and>
     (\<forall>t p v. (t, p, v) \<in> set (delivers tr) \<longleftrightarrow> ph q p = Done (Some (t, v))) \<and>
     distinct (map (\<lambda>(t, p, v). p) (delivers tr)) \<and>
     (\<forall>t. sorted_wrt (<) (map (\<lambda>(u, p, v). p) (filter (\<lambda>(u, p, v). u = t) (delivers tr)))) \<and>
     (\<forall>t p r v. past_claim (ph q p) \<longrightarrow> owner (ph q p) = Some t \<longrightarrow>
        (t, r, v) \<in> set (delivers tr) \<longrightarrow> r < p) \<and>
     ((\<exists>t. EvDrained t \<in> set tr) \<longrightarrow> pC q \<and> pK q \<le> pH q) \<and>
     EvFault \<notin> set tr"

lemma trace_okD:
  assumes "trace_ok q tr"
  shows "map (\<lambda>(t, p, x). p) (reserves tr) = [0..<pT q]"
    "(t, p, x) \<in> set (reserves tr) \<Longrightarrow> pval (ph q p) = x"
    "(t, p, v) \<in> set (delivers tr) \<longleftrightarrow> ph q p = Done (Some (t, v))"
    "distinct (map (\<lambda>(t, p, v). p) (delivers tr))"
    "sorted_wrt (<) (map (\<lambda>(u, p, v). p) (filter (\<lambda>(u, p, v). u = t) (delivers tr)))"
    "past_claim (ph q p) \<Longrightarrow> owner (ph q p) = Some t \<Longrightarrow> (t, r, v) \<in> set (delivers tr) \<Longrightarrow> r < p"
    "EvDrained t \<in> set tr \<Longrightarrow> pC q \<and> pK q \<le> pH q" "EvFault \<notin> set tr"
  using assms unfolding trace_ok_def by blast+

lemma reserved_below: "trace_ok q tr \<Longrightarrow> (t, p, x) \<in> set (reserves tr) \<Longrightarrow> p < pT q"
proof -
  assume tr: "trace_ok q tr" and m: "(t, p, x) \<in> set (reserves tr)"
  have "p \<in> set (map (\<lambda>(t, p, x). p) (reserves tr))" using m by (force simp: image_iff)
  then show ?thesis unfolding trace_okD(1) [OF tr] by simp
qed

text \<open>Events that neither reserve nor deliver nor find the queue drained.\<close>

definition quiet :: "('a, 'p) ev list \<Rightarrow> bool" where
  "quiet es \<longleftrightarrow> reserves es = [] \<and> delivers es = [] \<and> (\<forall>t. EvDrained t \<notin> set es) \<and> EvFault \<notin> set es"

lemma quiet_simps [simp]:
  "quiet []" "quiet [EvPush t r]" "quiet [EvEmpty t]" "quiet [EvClose t]"
  by (simp_all add: quiet_def)

lemma trace_quiet:
  assumes tr: "trace_ok q tr" and q: "mem_ok n q" and es: "quiet es"
    and same: "pT q' = pT q" "pH q \<le> pH q'" "pC q \<Longrightarrow> pC q' \<and> pK q' = pK q"
    and v: "\<And>p. p < pT q \<Longrightarrow> pval (ph q' p) = pval (ph q p)"
    and d: "\<And>p y. ph q' p = Done (Some y) \<longleftrightarrow> ph q p = Done (Some y)"
    and o: "\<And>p t. past_claim (ph q' p) \<Longrightarrow> owner (ph q' p) = Some t \<Longrightarrow>
      past_claim (ph q p) \<and> owner (ph q p) = Some t \<or> p = pH q"
  shows "trace_ok q' (tr @ es)"
proof -
  note k = trace_okD [OF tr]
  have r: "reserves (tr @ es) = reserves tr" "delivers (tr @ es) = delivers tr"
    using es by (simp_all add: quiet_def)
  have vals: "pval (ph q' p) = x" if "(t, p, x) \<in> set (reserves tr)" for t p x
    using k(2) [OF that] v [OF reserved_below [OF tr that]] by simp
  have del: "(t, p, x) \<in> set (delivers tr) \<longleftrightarrow> ph q' p = Done (Some (t, x))" for t p x
    using k(3) d by blast
  have ord: "r < p" if "past_claim (ph q' p)" "owner (ph q' p) = Some t" "(t, r, x) \<in> set (delivers tr)"
    for t p r x
  proof -
    have "past_claim (ph q r)" using k(3) that(3) by simp
    then have "r < pH q" using mem_okD(7) [OF q] by blast
    then show ?thesis using o [OF that(1,2)] k(6) that(3) by blast
  qed
  have dr: "pC q' \<and> pK q' \<le> pH q'" if "EvDrained t \<in> set (tr @ es)" for t
    using that es k(7) [of t] same(2,3) by (fastforce simp: quiet_def)
  have "EvFault \<notin> set (tr @ es)" using k(8) es by (simp add: quiet_def)
  then show ?thesis
    unfolding trace_ok_def r same(1) using k(1,4,5) vals del ord dr by blast
qed

theorem trace_start_ok:
  assumes "mem_ok n q" "trace_ok q tr" "pstart t p q = (q', c, es)"
  shows "trace_ok q' (tr @ es)"
  using assms(3)
  by (intro trace_quiet [OF assms(2,1)])
    (auto simp: pstart_def split: op.splits if_splits)

lemma trace_reserve:
  assumes q: "mem_ok n q" and tr: "trace_ok q tr"
  shows "trace_ok (preserve t x q) (tr @ [EvReserve t (pT q) x])"
proof -
  note k = trace_okD [OF tr]
  have T: "ph q (pT q) = Unres" using mem_okD(6) [OF q] by simp
  have "pval (((ph q)(pT q := Res t x)) p) = y" if "(u, p, y) \<in> set (reserves tr)" for u p y
    using k(2) [OF that] reserved_below [OF tr that] by simp
  moreover have "(u, p, v) \<in> set (delivers tr) \<longleftrightarrow> ((ph q)(pT q := Res t x)) p = Done (Some (u, v))"
    for u p v using k(3) T by auto
  moreover have "r < p" if "past_claim (((ph q)(pT q := Res t x)) p)"
    "owner (((ph q)(pT q := Res t x)) p) = Some u" "(u, r, v) \<in> set (delivers tr)" for u p r v
    using that k(6) [of p u] by (auto split: if_splits)
  ultimately show ?thesis
    unfolding trace_ok_def using k(1,4,5,7,8) by (auto simp: preserve_def)
qed

lemma trace_deliver:
  assumes q: "mem_ok n q" and tr: "trace_ok q tr" and p: "ph q p = Taken t v"
    and own: "\<And>r. owner (ph q r) = Some t \<Longrightarrow> r = p"
  shows "trace_ok (pset p s (Done (Some (t, v))) q) (tr @ [EvDeliver t p v])"
proof -
  note k = trace_okD [OF tr]
  let ?ph = "(ph q)(p := Done (Some (t, v)))"
  have new: "p \<notin> set (map (\<lambda>(t, p, v). p) (delivers tr))" using k(3) p by auto
  have vals: "pval (?ph r) = y" if "(u, r, y) \<in> set (reserves tr)" for u r y
    using k(2) [OF that] p by auto
  have del: "(u, r, x) \<in> set (delivers tr @ [(t, p, v)]) \<longleftrightarrow> ?ph r = Done (Some (u, x))" for u r x
    using k(3) [of u r x] p by auto
  have last: "r < p" if "(t, r, x) \<in> set (delivers tr)" for r x
    using k(6) [of p t r x] p that by simp
  have srt: "sorted_wrt (<) (map (\<lambda>(u, p, v). p) (filter (\<lambda>(u, p, v). u = w) (delivers tr @ [(t, p, v)])))" for w
    using k(5) [of w] last by (auto simp: sorted_wrt_append)
  have ord: "r < i" if "past_claim (?ph i)" "owner (?ph i) = Some u"
    "(u, r, x) \<in> set (delivers tr @ [(t, p, v)])" for u i r x
  proof -
    have i: "i \<noteq> p" "past_claim (ph q i)" "owner (ph q i) = Some u"
      using that(1,2) by (auto split: if_splits)
    then have "u \<noteq> t" using own by blast
    then show ?thesis using that(3) k(6) [OF i(2,3)] by auto
  qed
  show ?thesis
    unfolding trace_ok_def reserves_append delivers_append reserves.simps delivers.simps append_Nil2
    using k(1,4,7,8) new vals del srt ord by (auto simp: pset_def)
qed

theorem trace_step_ok:
  assumes q: "mem_ok n q" and th: "threads_ok q pcs" and tr: "trace_ok q tr"
    and st: "pstep weak t (pcs t) q = (q', c, es)"
  shows "trace_ok q' (tr @ es)"
proof -
  have ok: "pc_ok q t (pcs t)" using th by (simp add: threads_ok_def)
  have same: ?thesis if "q' = q" "quiet es"
    using that by (intro trace_quiet [OF tr q]) auto
  have pset_same: ?thesis if "q' = pset p s f q" "quiet es" "pval f = pval (ph q p)" "owner f = None"
    "\<forall>y. f \<noteq> Done (Some y)" "\<forall>y. ph q p \<noteq> Done (Some y)" for p s f
    using that by (intro trace_quiet [OF tr q]) (auto simp: pset_def split: if_splits)
  show ?thesis
  proof (cases "pcs t")
    case (PushCas v w)
    then show ?thesis
      using st ok same trace_reserve [OF q tr, of t "Some v"] by (auto split: if_splits)
  next
    case (TicketTake v)
    then show ?thesis
      using st trace_reserve [OF q tr, of t "if pC q then None else Some v"]
      by (auto simp: Let_def)
  next
    case (TicketPay w)
    then show ?thesis using st ok pset_same by auto
  next
    case (Construct v p)
    then have ph: "ph q p = Res t (Some v)" "pslot q p = Free p" using ok by auto
    then have "q' = pput p (Some v) (Built t v) q" "quiet es"
      using st Construct construct_ok(3) [OF q ph] by auto
    then show ?thesis
      using ph by (intro trace_quiet [OF tr q]) (auto simp: pput_def split: if_splits)
  next
    case (Publish v p)
    then show ?thesis using st ok pset_same by auto
  next
    case (PopCas p s)
    show ?thesis
    proof (cases "pH q = p \<and> \<not> weak")
      case True
      then have s: "pslot q (pH q) = s" "sval s = pH q + 1" using ok PopCas by auto
      obtain d where d: "pslot q (pH q) = Pub (pH q) d" using slot_pub [OF q] s by metis
      then have h: "spos (pslot q (pH q)) = pH q" by simp
      have "\<not> past_claim (ph q (pH q))" using mem_okD(7) [OF q] by simp
      then obtain y where y: "ph q (pH q) = Live y"
        using slot_host(4) [OF q h] d by (cases "ph q (pH q)") auto
      have "pstore q ! (pH q mod n) = y" "d \<longleftrightarrow> y = None"
        using slot_host(4,5) [OF q h] d y by auto
      then have "held q (pH q) s = y"
        unfolding s(1) [symmetric] d held_def using mem_okD(2) [OF q] by (cases d) auto
      then have "q' = pclaim t y q" "quiet es" using st PopCas True by auto
      then show ?thesis
        using y by (intro trace_quiet [OF tr q]) (auto simp: pclaim_def split: if_splits)
    next
      case False
      then show ?thesis using same st PopCas by (auto split: if_splits)
    qed
  next
    case (Read p)
    then obtain v where ph: "ph q p = Claimed t (Some v)" using ok by auto
    have "q' = pput p None (Taken t v) q" "quiet es"
      using st Read read_ok(3) [OF q ph] by auto
    then show ?thesis
      using ph by (intro trace_quiet [OF tr q]) (auto simp: pput_def split: if_splits)
  next
    case (Release p v)
    then have ph: "ph q p = Taken t v" using ok by simp
    then have "r = p" if "owner (ph q r) = Some t" for r
      using only_owner [OF th that, of p] by simp
    from trace_deliver [OF q tr ph this] show ?thesis using st Release by auto
  next
    case (ReleaseDead p)
    then show ?thesis using st ok pset_same by auto
  next
    case (DrainHead w)
    then have w: "pC q" "pK q \<le> fst w" using ok by auto
    show ?thesis
    proof (cases "pH q = fst w")
      case True
      then have "q' = q" "es = [EvDrained t]" using st DrainHead by auto
      then show ?thesis
        using trace_okD [OF tr] w True unfolding trace_ok_def by auto
    next
      case False
      then show ?thesis using st DrainHead same by auto
    qed
  next
    case (PushLook v w)
    then show ?thesis using st same by (auto split: if_splits)
  next
    case (PopLook p)
    then show ?thesis using st same by (auto simp: Let_def split: if_splits)
  next
    case (TicketWait v w)
    then show ?thesis using st same by (auto split: if_splits)
  qed (use st same in auto)
qed

section \<open>Reachable states\<close>

definition psys_ok :: "nat \<Rightarrow> 'a psys \<Rightarrow> bool" where
  "psys_ok n s \<longleftrightarrow> mem_ok n (p_mem s) \<and> threads_ok (p_mem s) (p_pcs s) \<and> trace_ok (p_mem s) (p_trace s)"

lemma new_psys_ok: "2 \<le> n \<Longrightarrow> psys_ok n (new_psys n)"
proof -
  assume n: "2 \<le> n"
  have "slot_ok (new_pq n) i" if "i < n" for i
    using that
    by (auto simp: slot_ok_def new_pq_def pn_def Let_def) (metis mod_less_eq_dividend not_less)
  then have "mem_ok n (new_pq n)" using n by (auto simp: mem_ok_def new_pq_def pn_def)
  then show ?thesis
    by (simp add: psys_ok_def new_psys_def threads_ok_def trace_ok_def) (simp add: new_pq_def)
qed

lemma psys_step_ok: "psys_step s s' \<Longrightarrow> psys_ok n s \<Longrightarrow> psys_ok n s'"
proof (induction rule: psys_step.induct)
  case (start s t p q c es)
  then show ?case
    using pstart_ok [of n "p_mem s" "p_pcs s" t p q c es]
      trace_start_ok [of n "p_mem s" "p_trace s" t p q c es]
    by (simp add: psys_ok_def)
next
  case (go weak t s q c es)
  then show ?case
    using pstep_ok [of n "p_mem s" "p_pcs s" weak t q c es]
      trace_step_ok [of n "p_mem s" "p_pcs s" "p_trace s" weak t q c es]
    by (simp add: psys_ok_def)
qed

theorem psys_reach_ok: "psys_reach n k s \<Longrightarrow> 2 \<le> n \<Longrightarrow> psys_ok n s"
  by (induction rule: psys_reach.induct) (simp_all add: new_psys_ok psys_step_ok)

text \<open>Positions never outrun the number of steps.\<close>

lemma psys_step_tail: "psys_step s s' \<Longrightarrow> pT (p_mem s') \<le> Suc (pT (p_mem s))"
proof (induction rule: psys_step.induct)
  case (start s t p q c es)
  then show ?case by (auto simp: pstart_def split: op.splits if_splits)
next
  case (go weak t s q c es)
  then show ?case
    by (cases "p_pcs s t") (auto simp: Let_def preserve_def pclaim_def pput_def split: if_splits option.splits)
qed

theorem psys_reach_tail: "psys_reach n k s \<Longrightarrow> pT (p_mem s) \<le> k"
proof (induction rule: psys_reach.induct)
  case init
  show ?case by (simp add: new_psys_def new_pq_def)
next
  case (step k s s')
  then show ?case using psys_step_tail [of s s'] by simp
qed simp

end
