(* ===== verification/Mpmc_Refine.thy ===== *)
theory Mpmc_Refine
  imports Mpmc_Protocol
begin

text \<open>
  The 64-bit machine of Mpmc_Queue refines the protocol of Mpmc_Protocol: as long as fewer than
  \<open>2^61\<close> steps have been taken, on a ring of at most \<open>2^61\<close> slots, every word of the machine is
  the encoding of a number of the protocol, and each step of the one is the step of the other.
  At a billion steps a second the bound is seventy years. The properties of the ring are then
  read off the protocol's invariant.
\<close>

section \<open>Encoding\<close>

definition enc_word :: "nat \<times> bool \<Rightarrow> u64" where
  "enc_word w = of_nat (2 * fst w + (if snd w then 1 else 0))"

fun enc_status :: "status \<Rightarrow> u64" where
  "enc_status (Free p) = of_nat p"
| "enc_status (Pub p d) = of_nat (p + 1 + (if d then 2 ^ 63 else 0))"

abbreviation enc_pos :: "nat \<Rightarrow> u64" where "enc_pos \<equiv> of_nat"

abbreviation enc_pc :: "'a npc \<Rightarrow> 'a wpc" where
  "enc_pc \<equiv> map_pc id enc_word enc_pos enc_status"

abbreviation enc_ev :: "'a nev \<Rightarrow> 'a wev" where "enc_ev \<equiv> map_ev id enc_pos"

definition enc_mem :: "'a pq \<Rightarrow> 'a mpmc" where
  "enc_mem q = \<lparr>tail_w = enc_word (pT q, pC q), head_w = enc_pos (pH q),
     seqs = map enc_status (pseq q), store = pstore q\<rparr>"

definition enc_sys :: "'a psys \<Rightarrow> 'a wsys" where
  "enc_sys s = \<lparr>w_mem = enc_mem (p_mem s), w_pcs = (\<lambda>t. enc_pc (p_pcs s t)),
     w_trace = map enc_ev (p_trace s)\<rparr>"

section \<open>Words\<close>

lemma unat_pos: "k < 2 ^ 64 \<Longrightarrow> unat (enc_pos k) = k"
  by (simp add: unat_of_nat)

lemma enc_pos_inj: "a < 2 ^ 64 \<Longrightarrow> b < 2 ^ 64 \<Longrightarrow> enc_pos a = enc_pos b \<longleftrightarrow> a = b"
  using unat_pos by metis

lemma closed_enc [simp]: "is_closed (enc_word w) = snd w"
  by (auto simp: is_closed_def enc_word_def kClosed_def and_one_eq mod_2_eq_odd)

lemma pos_enc: "fst w < 2 ^ 62 \<Longrightarrow> drop_bit (Suc 0) (enc_word w) = enc_pos (fst w)"
proof -
  assume w: "fst w < 2 ^ 62"
  have d: "drop_bit 1 (enc_pos k) = enc_pos (k div 2)" if "k < 2 ^ 64" for k
    using that unfolding drop_bit_eq_div by (simp add: word_unat_eq_iff unat_of_nat unat_div)
  have "2 * fst w + (if snd w then 1 else 0) < 2 ^ 64" using w by simp
  from d [OF this] show ?thesis unfolding enc_word_def by simp
qed

lemma next_enc: "enc_word w + 2 = enc_word (fst w + 1, snd w)"
  by (simp add: enc_word_def)

lemma close_enc: "enc_word (t, c) OR kClosed = enc_word (t, True)"
  by (simp add: enc_word_def kClosed_def or_one_eq)

lemma enc_word_inj:
  assumes "fst w < 2 ^ 62" "fst w' < 2 ^ 62"
  shows "enc_word w = enc_word w' \<longleftrightarrow> w = w'"
proof -
  have b: "2 * fst w + (if snd w then 1 else 0) < 2 ^ 64" "2 * fst w' + (if snd w' then 1 else 0) < 2 ^ 64"
    using assms by simp_all
  have "enc_word w = enc_word w' \<longleftrightarrow>
      2 * fst w + (if snd w then 1 else 0) = 2 * fst w' + (if snd w' then 1 else 0)"
    unfolding enc_word_def by (rule enc_pos_inj [OF b])
  also have "\<dots> \<longleftrightarrow> fst w = fst w' \<and> snd w = snd w'" by (auto split: if_splits; presburger)
  finally show ?thesis by (simp add: prod_eq_iff)
qed

lemma not_dead: "NOT kDead = (mask 63 :: u64)"
  by (simp add: kDead_def mask_eq_exp_minus_1)

lemma value_enc: "sval s < 2 ^ 62 \<Longrightarrow> enc_status s AND NOT kDead = enc_pos (sval s)"
proof -
  assume s: "sval s < 2 ^ 62"
  have m: "enc_pos k AND NOT kDead = enc_pos (k mod 2 ^ 63)" for k
  proof -
    have "enc_pos k AND NOT kDead = take_bit 63 (enc_pos k)"
      by (simp only: not_dead take_bit_eq_mask)
    also have "\<dots> = enc_pos (take_bit 63 k)" by (simp only: take_bit_of_nat)
    finally show ?thesis by (simp only: take_bit_eq_mod)
  qed
  show ?thesis
  proof (cases s)
    case (Free p)
    then show ?thesis using s m [of p] by simp
  next
    case (Pub p d)
    have "(p + 1 + 2 ^ 63) mod 2 ^ 63 = (p + 1) mod 2 ^ 63" by (rule mod_add_self2)
    then have "(p + 1 + (if d then 2 ^ 63 else 0)) mod 2 ^ 63 = p + 1"
      using s Pub by (cases d) simp_all
    then show ?thesis unfolding Pub enc_status.simps m by simp
  qed
qed

lemma bit_pos: "k < 2 ^ 64 \<Longrightarrow> bit (enc_pos k) 63 \<longleftrightarrow> bit k 63"
proof -
  assume "k < 2 ^ 64"
  then have "unat (enc_pos k) = k" by (rule unat_pos)
  moreover have "bit (unat (enc_pos k)) 63 \<longleftrightarrow> bit (enc_pos k) 63" by (simp add: bit_unsigned_iff)
  ultimately show ?thesis by simp
qed

lemma dead_enc:
  assumes "sval s < 2 ^ 62" "\<exists>d. s = Pub p d"
  shows "enc_status s AND kDead = 0 \<longleftrightarrow> s = Pub p False"
proof -
  obtain d where d: "s = Pub p d" using assms(2) by blast
  let ?k = "p + 1 + (if d then 2 ^ 63 else 0)"
  have k: "?k < 2 ^ 64" using assms(1) d by simp
  have "enc_status s AND kDead = 0 \<longleftrightarrow> \<not> bit (enc_pos ?k) 63"
    using bit_iff_and_push_bit_not_eq_0 [of "enc_pos ?k" 63] by (simp add: d kDead_def)
  also have "bit (enc_pos ?k) 63 \<longleftrightarrow> bit ?k 63"
    using k by (rule bit_pos)
  also have "bit ?k 63 \<longleftrightarrow> d"
  proof -
    have "(p + 1 + 2 ^ 63) div 2 ^ 63 = (p + 1) div 2 ^ 63 + 1" by (rule div_add_self2) simp
    then show ?thesis using assms(1) d by (cases d) (simp_all add: bit_iff_odd)
  qed
  finally show ?thesis using d by simp
qed

lemma sdif_enc: "a < 2 ^ 62 \<Longrightarrow> b < 2 ^ 62 \<Longrightarrow> sdif (enc_pos a) (enc_pos b) = int a - int b"
proof -
  assume "a < 2 ^ 62" "b < 2 ^ 62"
  then have b: "- (2 ^ 63) \<le> int a - int b" "int a - int b < 2 ^ 63" by simp_all
  have "enc_pos a - enc_pos b = of_int (int a - int b)" by simp
  then have "sdif (enc_pos a) (enc_pos b) = sint (of_int (int a - int b) :: u64)"
    by (simp only: sdif_def)
  also have "\<dots> = int a - int b"
    using b by (simp add: signed_of_int signed_take_bit_int_eq_self del: of_int_diff)
  finally show ?thesis .
qed

lemma tomb_enc: "p < 2 ^ 62 \<Longrightarrow> (enc_pos p + 1) OR kDead = enc_status (Pub p True)"
proof -
  assume p: "p < 2 ^ 62"
  have "\<not> bit (enc_pos (p + 1)) 63"
  proof -
    have "p + 1 < 2 ^ 64" using p by simp
    then have "bit (enc_pos (p + 1)) 63 \<longleftrightarrow> bit (p + 1) 63" by (rule bit_pos)
    then show ?thesis using p by (simp add: bit_iff_odd)
  qed
  then have "enc_pos (p + 1) AND kDead = 0"
    using bit_iff_and_push_bit_not_eq_0 [of "enc_pos (p + 1)" 63] by (simp add: kDead_def)
  then have "enc_pos (p + 1) OR kDead = enc_pos (p + 1) + kDead"
    by (rule disjunctive_add_eq_or [symmetric])
  then show ?thesis by (simp add: kDead_def add.commute)
qed

section \<open>Simulation\<close>

definition fits :: "nat \<Rightarrow> 'a pq \<Rightarrow> bool" where
  "fits n q \<longleftrightarrow> ring_cap n \<and> n \<le> 2 ^ 61 \<and> pT q < 2 ^ 61"

lemma head_le_tail: "mem_ok n q \<Longrightarrow> pH q \<le> pT q"
proof (rule ccontr)
  assume q: "mem_ok n q" and "\<not> pH q \<le> pT q"
  then have "past_claim (ph q (pT q))" using mem_okD(7) [OF q] by simp
  moreover have "ph q (pT q) = Unres" using mem_okD(6) [OF q] by simp
  ultimately show False by simp
qed

lemma host_bound: "mem_ok n q \<Longrightarrow> spos (pslot q p) < pH q + n"
proof (rule ccontr)
  assume q: "mem_ok n q" and "\<not> spos (pslot q p) < pH q + n"
  then have b: "pH q + n \<le> spos (pslot q p)" by simp
  let ?r = "spos (pslot q p) - n"
  have "spos (pslot q p) = ?r + n" using b by simp
  then have "spos (pslot q p) mod n = ?r mod n" by (metis mod_add_self2)
  then have "?r mod n = p mod n" using slot_host(1) [OF q, of p] by simp
  then have "pslot q ?r = pslot q p" by (rule same_slot [OF q])
  moreover have "0 < n" by (rule mem_okD(10) [OF q])
  ultimately have "?r < spos (pslot q ?r)" using b by simp
  then have "is_done (ph q ?r)" by (rule slot_host(2) [OF q])
  then have "past_claim (ph q ?r)" by (cases "ph q ?r") simp_all
  then have "?r < pH q" using mem_okD(7) [OF q] by blast
  then show False using b by simp
qed

lemma fits_bounds:
  assumes q: "mem_ok n q" and f: "fits n q"
  shows "pT q < 2 ^ 62" "pH q < 2 ^ 61" "sval (pslot q p) < 2 ^ 62" "n \<le> 2 ^ 61" "ring_cap n"
proof -
  show "pT q < 2 ^ 62" "n \<le> 2 ^ 61" "ring_cap n" using f by (simp_all add: fits_def)
  show H: "pH q < 2 ^ 61" using head_le_tail [OF q] f by (simp add: fits_def)
  have h: "spos (pslot q p) < pH q + n" by (rule host_bound [OF q])
  show "sval (pslot q p) < 2 ^ 62"
  proof (cases "pslot q p")
    case (Free r)
    then show ?thesis using h H f by (simp add: fits_def)
  next
    case (Pub r d)
    then have "published (ph q r)" using slot_host(4) [OF q, of r] same_slot [OF q, of r p]
        slot_host(1) [OF q, of p] by simp
    then have "ph q r \<noteq> Unres" by auto
    then have "r < pT q" using mem_okD(6) [OF q] not_le by blast
    then show ?thesis using Pub f by (simp add: fits_def)
  qed
qed

lemma seq_enc:
  assumes "mem_ok n q" "ring_cap n"
  shows "slot (enc_mem q) (enc_pos p) = p mod n"
    and "seq_at (enc_mem q) (enc_pos p) = enc_status (pslot q p)"
    and "set_seq (enc_pos p) (enc_status s) (enc_mem q) = enc_mem (pset p s f q)"
    and "set_store (enc_pos p) x (enc_mem q) = enc_mem (pput p x f q)"
    and "store (enc_mem q) = pstore q" "length (seqs (enc_mem q)) = n"
proof -
  note m = mem_okD [OF assms(1)]
  show sl: "slot (enc_mem q) (enc_pos p) = p mod n" for p
    using assms(2) m(4) by (simp add: slot_def enc_mem_def slot_ix_of_nat)
  show "seq_at (enc_mem q) (enc_pos p) = enc_status (pslot q p)"
    unfolding seq_at_def sl using m(2,4,11) by (simp add: enc_mem_def pslot_def)
  show "set_seq (enc_pos p) (enc_status s) (enc_mem q) = enc_mem (pset p s f q)"
    unfolding set_seq_def sl using m(2) by (simp add: enc_mem_def pset_def map_update)
  show "set_store (enc_pos p) x (enc_mem q) = enc_mem (pput p x f q)"
    unfolding set_store_def sl using m(2) by (simp add: enc_mem_def pput_def)
  show "store (enc_mem q) = pstore q" "length (seqs (enc_mem q)) = n"
    using m(4) by (simp_all add: enc_mem_def)
qed

lemma free_enc:
  assumes q: "mem_ok n q" and f: "fits n q" and p: "p < 2 ^ 62"
  shows "enc_status (pslot q p) = enc_pos p \<longleftrightarrow> pslot q p = Free p"
proof (cases "pslot q p")
  case (Free r)
  then show ?thesis using fits_bounds(3) [OF q f, of p] p enc_pos_inj [of r p] by simp
next
  case (Pub r d)
  have "enc_status (pslot q p) \<noteq> enc_pos p"
  proof
    assume e: "enc_status (pslot q p) = enc_pos p"
    have b: "r + 1 < 2 ^ 62" using fits_bounds(3) [OF q f, of p] Pub by simp
    then have "r + 1 + (if d then 2 ^ 63 else 0) = p"
      using e Pub p enc_pos_inj [of "r + 1 + (if d then 2 ^ 63 else 0)" p] by (cases d) simp_all
    then have "sval (pslot q p) = p" using p Pub by (cases d) simp_all
    then show False using slot_free [OF q, of p] Pub by simp
  qed
  then show ?thesis using Pub by simp
qed

lemma own_bound:
  assumes q: "mem_ok n q" and f: "fits n q" and c: "pc_ok q t c" "own_pos c = Some p"
  shows "p < 2 ^ 61"
proof -
  have "ph q p \<noteq> Unres" using c by (cases c) auto
  then have "p < pT q" using mem_okD(6) [OF q] not_le by blast
  then show ?thesis using f by (simp add: fits_def)
qed

lemma enc_fields: "tail_w (enc_mem q) = enc_word (pT q, pC q)" "head_w (enc_mem q) = enc_pos (pH q)"
  by (simp_all add: enc_mem_def)

lemma start_sim:
  assumes "pstart t p q = (q', c, es)"
  shows "start_op t p (enc_mem q) = (enc_mem q', enc_pc c, map enc_ev es)"
  using assms
  by (cases p) (auto simp: pstart_def start_op_def enc_fields close_enc enc_mem_def split: if_splits)

lemma reserve_enc:
  "(enc_mem q)\<lparr>tail_w := enc_word (pT q, pC q) + 2\<rparr> = enc_mem (preserve t x q)"
  by (simp add: enc_mem_def preserve_def next_enc)

lemma claim_enc: "(enc_mem q)\<lparr>head_w := enc_pos (pH q) + 1\<rparr> = enc_mem (pclaim t x q)"
  by (simp add: enc_mem_def pclaim_def)

theorem step_sim:
  assumes q: "mem_ok n q" and f: "fits n q" and c: "pc_ok q t c0"
    and st: "pstep weak t c0 q = (q', c, es)"
  shows "wstep False weak t (enc_pc c0) (enc_mem q) = (enc_mem q', enc_pc c, map enc_ev es)"
proof -
  note b = fits_bounds [OF q f]
  note e = seq_enc [OF q b(5)]
  show ?thesis
  proof (cases c0)
    case (PushLook v w)
    then have w: "fst w < 2 ^ 61" "fst w < 2 ^ 62" using c f by (simp_all add: fits_def)
    have d: "sdif (seq_at (enc_mem q) (enc_pos (fst w)) AND NOT kDead) (enc_pos (fst w)) =
        int (sval (pslot q (fst w))) - int (fst w)"
      using b(3) w by (simp add: e(2) value_enc sdif_enc)
    show ?thesis
      using st unfolding PushLook
      by (auto simp: Let_def pos_enc [OF w(2)] d split: if_splits)
  next
    case (PushCas v w)
    then have w: "fst w < 2 ^ 62" using c f by (simp add: fits_def)
    have "enc_word (pT q, pC q) = enc_word w \<longleftrightarrow> (pT q, pC q) = w"
      using w b(1) by (intro enc_word_inj) simp_all
    then show ?thesis
      using st unfolding PushCas
      by (auto simp: enc_fields pos_enc [OF w] reserve_enc [symmetric] split: if_splits)
  next
    case (TicketTake v)
    have "drop_bit (Suc 0) (enc_word (pT q, pC q)) = enc_pos (pT q)" using b(1) by (simp add: pos_enc)
    then show ?thesis
      using st unfolding TicketTake
      by (auto simp: Let_def enc_fields) (simp_all add: enc_mem_def preserve_def next_enc)
  next
    case (TicketWait v w)
    then have w: "fst w < 2 ^ 62" using own_bound [OF q f c] by simp
    show ?thesis
      using st unfolding TicketWait
      by (auto simp: Let_def pos_enc [OF w] e(2) free_enc [OF q f w] split: if_splits)
  next
    case (TicketPay w)
    then have w: "fst w < 2 ^ 62" using own_bound [OF q f c] by simp
    show ?thesis
      using st unfolding TicketPay
      by (auto simp: Let_def pos_enc [OF w] tomb_enc [OF w] e(3) simp del: enc_status.simps)
  next
    case (Construct v p)
    then show ?thesis
      using st mem_okD(2) [OF q] by (auto simp: e(1,4,5))
  next
    case (Publish v p)
    have "enc_pos p + 1 = enc_status (Pub p False)" by simp
    then show ?thesis
      using st unfolding Publish by (auto simp: e(3) simp del: enc_status.simps)
  next
    case (PopLook p)
    then have p: "p + 1 < 2 ^ 62" using c b(2) by simp
    have d: "sdif (enc_status (pslot q p) AND NOT kDead) (enc_pos p + 1) =
        int (sval (pslot q p)) - int (p + 1)"
      using b(3) [of p] p sdif_enc [of "sval (pslot q p)" "p + 1"] by (simp add: e(2) value_enc add.commute)
    show ?thesis
      using st unfolding PopLook by (auto simp: Let_def d e(2) split: if_splits)
  next
    case (PopCas p s)
    then have p: "p \<le> pH q" "sval s = p + 1" "pslot q p = s \<or> p < pH q" using c by simp_all
    have eq: "enc_pos (pH q) = enc_pos p \<longleftrightarrow> pH q = p" using b(2) p(1) by (intro enc_pos_inj) simp_all
    show ?thesis
    proof (cases "pH q = p \<and> \<not> weak")
      case True
      then have s: "pslot q p = s" using p(3) by simp
      then obtain d where d: "s = Pub p d" using slot_pub [OF q] p(2) by metis
      have "enc_status s AND kDead = 0 \<longleftrightarrow> \<not> d" using dead_enc [of s p] b(3) [of p] s d by auto
      then show ?thesis
        using st True d unfolding PopCas
        by (auto simp: enc_fields claim_enc [symmetric] simp del: enc_status.simps split: bool.splits)
    next
      case False
      then show ?thesis using st eq unfolding PopCas by (auto simp: enc_fields)
    qed
  next
    case (Read p)
    then show ?thesis
      using st mem_okD(2) [OF q] by (auto simp: e(1,4,5) split: option.splits)
  next
    case (Release p v)
    have "enc_pos p + of_nat (length (seqs (enc_mem q))) = enc_status (Free (p + pn q))"
      using mem_okD(2) [OF q] e(6) by simp
    then show ?thesis
      using st unfolding Release by (auto simp: e(3) simp del: enc_status.simps)
  next
    case (ReleaseDead p)
    have "enc_pos p + of_nat (length (seqs (enc_mem q))) = enc_status (Free (p + pn q))"
      using mem_okD(2) [OF q] e(6) by simp
    then show ?thesis
      using st unfolding ReleaseDead by (auto simp: e(3) add.commute simp del: enc_status.simps)
  next
    case (DrainHead w)
    then have w: "fst w < 2 ^ 62" using c f by (simp add: fits_def)
    show ?thesis
      using st b(2) enc_pos_inj [of "pH q" "fst w"] w unfolding DrainHead
      by (auto simp: enc_fields pos_enc [OF w])
  qed (use st in \<open>auto simp: enc_fields\<close>)
qed

text \<open>A whole run of the 64-bit machine is the encoding of a run of the protocol.\<close>

fun psys_act :: "'a act \<Rightarrow> 'a psys \<Rightarrow> 'a psys" where
  "psys_act (Start t p) s =
     (if p_pcs s t = Idle
      then let (q, c, es) = pstart t p (p_mem s)
           in \<lparr>p_mem = q, p_pcs = (p_pcs s)(t := c), p_trace = p_trace s @ es\<rparr>
      else s)"
| "psys_act (Go t weak) s =
     (let (q, c, es) = pstep weak t (p_pcs s t) (p_mem s)
      in \<lparr>p_mem = q, p_pcs = (p_pcs s)(t := c), p_trace = p_trace s @ es\<rparr>)"

lemma psys_act_step: "psys_step s (psys_act a s) \<or> psys_act a s = s"
  by (cases a) (auto intro: psys_step.intros split: prod.splits)

lemma act_sim:
  assumes "psys_ok n s" "fits n (p_mem s)"
  shows "wsys_step False a (enc_sys s) = enc_sys (psys_act a s)"
proof (cases a)
  case (Start t p)
  obtain q c es where r: "pstart t p (p_mem s) = (q, c, es)" by (cases "pstart t p (p_mem s)")
  have "enc_pc (p_pcs s t) = Idle \<longleftrightarrow> p_pcs s t = Idle" by (cases "p_pcs s t") simp_all
  then show ?thesis using start_sim [OF r] r by (auto simp: Start enc_sys_def)
next
  case (Go t weak)
  obtain q c es where r: "pstep weak t (p_pcs s t) (p_mem s) = (q, c, es)"
    by (cases "pstep weak t (p_pcs s t) (p_mem s)")
  have "pc_ok (p_mem s) t (p_pcs s t)" "mem_ok n (p_mem s)"
    using assms(1) by (simp_all add: psys_ok_def threads_ok_def)
  then show ?thesis using step_sim [OF _ assms(2) _ r] r by (auto simp: Go enc_sys_def)
qed

lemma new_sim: "enc_sys (new_psys n) = new_wsys n"
  by (simp add: enc_sys_def new_psys_def new_wsys_def enc_mem_def new_pq_def new_mpmc_def enc_word_def
      comp_def)

lemma wsys_run_snoc: "wsys_run b (xs @ [a]) s = wsys_step b a (wsys_run b xs s)"
  by (simp add: wsys_run_def)

definition psys_run :: "'a act list \<Rightarrow> nat \<Rightarrow> 'a psys" where
  "psys_run xs n = foldl (\<lambda>s a. psys_act a s) (new_psys n) xs"

lemma psys_run_snoc: "psys_run (xs @ [a]) n = psys_act a (psys_run xs n)"
  by (simp add: psys_run_def)

lemma psys_run_reach: "psys_reach n (length xs) (psys_run xs n)"
proof (induction xs rule: rev_induct)
  case Nil
  show ?case by (simp add: psys_run_def psys_reach.init)
next
  case (snoc a xs)
  then show ?case
    using psys_act_step [of "psys_run xs n" a]
    by (auto simp: psys_run_snoc intro: psys_reach.stay psys_reach.step)
qed

theorem run_sim_eq:
  assumes "ring_cap n" "n \<le> 2 ^ 61"
  shows "length xs < 2 ^ 61 \<Longrightarrow> wsys_run False xs (new_wsys n) = enc_sys (psys_run xs n)"
proof (induction xs rule: rev_induct)
  case Nil
  show ?case by (simp add: wsys_run_def psys_run_def new_sim)
next
  case (snoc a xs)
  let ?s = "psys_run xs n"
  have ok: "psys_ok n ?s" using psys_reach_ok [OF psys_run_reach ring_capD(1) [OF assms(1)]] .
  have "pT (p_mem ?s) \<le> length xs" by (rule psys_reach_tail [OF psys_run_reach])
  then have "fits n (p_mem ?s)" using assms snoc.prems by (simp add: fits_def)
  from act_sim [OF ok this, of a] show ?case
    using snoc by (simp add: wsys_run_snoc psys_run_snoc)
qed

theorem run_sim:
  assumes "ring_cap n" "n \<le> 2 ^ 61" "length xs < 2 ^ 61"
  shows "\<exists>s. psys_reach n (length xs) s \<and> wsys_run False xs (new_wsys n) = enc_sys s"
  using run_sim_eq [OF assms] psys_run_reach by blast

lemmas run_facts = psys_reach_ok psys_reach_tail

section \<open>Properties of the ring\<close>

lemma reserves_enc: "reserves (map enc_ev tr) = map (\<lambda>(t, p, x). (t, enc_pos p, x)) (reserves tr)"
proof (induction tr)
  case (Cons e tr)
  then show ?case by (cases e) (simp_all add: option.map_ident)
qed simp

lemma delivers_enc: "delivers (map enc_ev tr) = map (\<lambda>(t, p, v). (t, enc_pos p, v)) (delivers tr)"
proof (induction tr)
  case (Cons e tr)
  then show ?case by (cases e) simp_all
qed simp

lemma fault_enc: "EvFault \<in> set (map enc_ev tr) \<longleftrightarrow> EvFault \<in> set tr"
proof (induction tr)
  case (Cons e tr)
  then show ?case by (cases e) simp_all
qed simp

lemma drained_enc: "EvDrained t \<in> set (map enc_ev tr) \<longleftrightarrow> EvDrained t \<in> set tr"
proof (induction tr)
  case (Cons e tr)
  then show ?case by (cases e) simp_all
qed simp

lemma enc_pos_list_inj:
  "\<forall>x \<in> set xs. x < 2 ^ 64 \<Longrightarrow> distinct xs \<Longrightarrow> distinct (map enc_pos xs)"
  by (auto simp: distinct_map inj_on_def enc_pos_inj)

text \<open>
  C4: The ring never constructs an event over a live one and never reads a slot that holds none,
  in any interleaving of any number of threads pushing by compare-and-swap or by ticket, popping
  and closing, with any spurious compare-and-swap failures.
\<close>

theorem mpmc_no_overwrite:
  assumes "ring_cap n" "n \<le> 2 ^ 61" "length xs < 2 ^ 61"
  shows "EvFault \<notin> set (w_trace (wsys_run False xs (new_wsys n)))"
proof -
  obtain s where s: "psys_reach n (length xs) s" "wsys_run False xs (new_wsys n) = enc_sys s"
    using run_sim [OF assms] by blast
  have "psys_ok n s" using psys_reach_ok [OF s(1) ring_capD(1) [OF assms(1)]] .
  then have "EvFault \<notin> set (p_trace s)" using trace_okD(8) by (auto simp: psys_ok_def)
  then show ?thesis unfolding s(2) by (simp only: enc_sys_def wsys.simps fault_enc simp_thms)
qed

text \<open>Two producers, whose accesses interleave, and a consumer that takes both events.\<close>

definition demo_run :: "nat act list" where
  "demo_run = [Start 0 (TryPush 7), Start 2 (TryPush 8), Go 0 False, Go 2 False, Go 0 False, Go 2 True,
     Go 0 False, Go 2 False, Go 0 False, Go 0 False, Start 1 TryPop, Go 1 False, Go 2 False,
     Go 2 False, Go 1 False, Go 2 False, Go 1 False, Go 2 False, Go 1 False, Go 2 False, Go 1 False,
     Start 1 TryPop, Go 1 False, Go 1 False, Go 1 False, Go 1 False]"

lemma demo_cap: "ring_cap 4" "(4 :: nat) \<le> 2 ^ 61" "length demo_run < 2 ^ 61"
  by (simp_all add: ring_cap_def has_single_bit_def demo_run_def)

lemma demo_delivers: "delivers (w_trace (wsys_run False demo_run (new_wsys 4))) = [(1, 0, 7), (1, 1, 8)]"
  by (simp add: demo_run_def wsys_run_def new_wsys_def new_mpmc_def start_op_def is_closed_def
      kClosed_def kDead_def seq_at_def slot_def slot_ix_def sdif_def set_seq_def set_store_def
      Let_def upt_rec)

theorem mpmc_no_overwrite_witness:
  "EvFault \<notin> set (w_trace (wsys_run False demo_run (new_wsys 4)))"
  by (rule mpmc_no_overwrite [OF demo_cap])

text \<open>
  C1: Delivery is exactly once: positions are reserved in order, one each; every delivery is of a
  reserved position with the very value its producer reserved it for; and no position is delivered
  twice.
\<close>

theorem mpmc_exactly_once:
  assumes "ring_cap n" "n \<le> 2 ^ 61" "length xs < 2 ^ 61"
  defines "tr \<equiv> w_trace (wsys_run False xs (new_wsys n))"
  shows "map (\<lambda>(t, p, x). p) (reserves tr) = map of_nat [0..<length (reserves tr)] \<and>
    (\<forall>(t, p, v) \<in> set (delivers tr). \<exists>u. (u, p, Some v) \<in> set (reserves tr)) \<and>
    distinct (map (\<lambda>(t, p, v). p) (delivers tr)) \<and>
    length (delivers tr) \<le> length (reserves tr)"
proof -
  obtain s where s: "psys_reach n (length xs) s" "wsys_run False xs (new_wsys n) = enc_sys s"
    using run_sim [OF assms(1-3)] by blast
  have ok: "mem_ok n (p_mem s)" "trace_ok (p_mem s) (p_trace s)"
    using psys_reach_ok [OF s(1) ring_capD(1) [OF assms(1)]] by (simp_all add: psys_ok_def)
  have T: "pT (p_mem s) < 2 ^ 61" using psys_reach_tail [OF s(1)] assms(3) by simp
  let ?r = "reserves (p_trace s)" and ?d = "delivers (p_trace s)"
  note k = trace_okD [OF ok(2)]
  have r: "reserves tr = map (\<lambda>(t, p, x). (t, enc_pos p, x)) ?r"
    and d: "delivers tr = map (\<lambda>(t, p, v). (t, enc_pos p, v)) ?d"
    unfolding tr_def s(2) enc_sys_def by (simp_all only: wsys.simps reserves_enc delivers_enc)
  have len: "length ?r = pT (p_mem s)" using arg_cong [OF k(1), of length] by simp
  have "map (\<lambda>(t, p, x). p) (reserves tr) = map enc_pos (map (\<lambda>(t, p, x). p) ?r)"
    unfolding r by (simp add: comp_def split_beta)
  then have 1: "map (\<lambda>(t, p, x). p) (reserves tr) = map of_nat [0..<length (reserves tr)]"
    unfolding k(1) using len r by simp
  have del: "\<exists>u. (u, p, Some v) \<in> set ?r" if m: "(t, p, v) \<in> set ?d" for t p v
  proof -
    have ph: "ph (p_mem s) p = Done (Some (t, v))" using m k(3) by blast
    then have "p \<in> set [0..<pT (p_mem s)]" using mem_okD(6) [OF ok(1), of p] by auto
    then have "p \<in> set (map (\<lambda>(t, p, x). p) ?r)" unfolding k(1) .
    then obtain u x where u: "(u, p, x) \<in> set ?r" by auto
    then have "x = Some v" using k(2) [OF u] ph by simp
    then show ?thesis using u by blast
  qed
  then have 2: "\<forall>(t, p, v) \<in> set (delivers tr). \<exists>u. (u, p, Some v) \<in> set (reserves tr)"
    unfolding r d by (auto simp: image_iff split_beta) (metis fst_conv snd_conv)
  have b: "\<forall>p \<in> set (map (\<lambda>(t, p, v). p) ?d). p < 2 ^ 64"
  proof
    fix p assume "p \<in> set (map (\<lambda>(t, p, v). p) ?d)"
    then obtain t v where "(t, p, v) \<in> set ?d" by auto
    then have "ph (p_mem s) p = Done (Some (t, v))" using k(3) by blast
    then have "p < pT (p_mem s)" using mem_okD(6) [OF ok(1), of p] by (simp add: not_le [symmetric])
    then show "p < 2 ^ 64" using T by simp
  qed
  have "map (\<lambda>(t, p, v). p) (delivers tr) = map enc_pos (map (\<lambda>(t, p, v). p) ?d)"
    unfolding d by (simp add: comp_def split_beta)
  then have 3: "distinct (map (\<lambda>(t, p, v). p) (delivers tr))"
    using enc_pos_list_inj [OF b k(4)] by simp
  have "set (map (\<lambda>(t, p, v). p) ?d) \<subseteq> set (map (\<lambda>(t, p, x). p) ?r)"
    using del by (force simp: image_iff)
  then have "card (set (map (\<lambda>(t, p, v). p) ?d)) \<le> card (set (map (\<lambda>(t, p, x). p) ?r))"
    by (intro card_mono) simp_all
  then have "length ?d \<le> length ?r"
    using distinct_card [OF k(4)] k(1) len by simp
  then have "length (delivers tr) \<le> length (reserves tr)" unfolding r d by simp
  with 1 2 3 show ?thesis by blast
qed

theorem mpmc_exactly_once_witness:
  "delivers (w_trace (wsys_run False demo_run (new_wsys 4))) = [(1, 0, 7), (1, 1, 8)] \<and>
   (\<exists>u. (u, 0, Some 7) \<in> set (reserves (w_trace (wsys_run False demo_run (new_wsys 4))))) \<and>
   (\<exists>u. (u, 1, Some 8) \<in> set (reserves (w_trace (wsys_run False demo_run (new_wsys 4)))))"
  using mpmc_exactly_once [OF demo_cap] demo_delivers by simp

text \<open>
  C13: A consumer receives events in the order they were reserved: the positions of each thread's
  deliveries grow, so any two events of one producer that the same consumer receives arrive in the
  order that producer pushed them.
\<close>

theorem mpmc_consumer_order:
  assumes "ring_cap n" "n \<le> 2 ^ 61" "length xs < 2 ^ 61"
  shows "sorted_wrt (<) (map (\<lambda>(u, p, v). p) (filter (\<lambda>(u, p, v). u = t)
    (delivers (w_trace (wsys_run False xs (new_wsys n))))))"
proof -
  obtain s where s: "psys_reach n (length xs) s" "wsys_run False xs (new_wsys n) = enc_sys s"
    using run_sim [OF assms] by blast
  have ok: "mem_ok n (p_mem s)" "trace_ok (p_mem s) (p_trace s)"
    using psys_reach_ok [OF s(1) ring_capD(1) [OF assms(1)]] by (simp_all add: psys_ok_def)
  have T: "pT (p_mem s) < 2 ^ 61" using psys_reach_tail [OF s(1)] assms(3) by simp
  let ?d = "delivers (p_trace s)" and ?f = "filter (\<lambda>(u, p, v). u = t)"
  note k = trace_okD [OF ok(2)]
  have d: "delivers (w_trace (wsys_run False xs (new_wsys n))) = map (\<lambda>(t, p, v). (t, enc_pos p, v)) ?d"
    unfolding s(2) enc_sys_def by (simp only: wsys.simps delivers_enc)
  have eq: "map (\<lambda>(u, p, v). p) (?f (map (\<lambda>(t, p, v). (t, enc_pos p, v)) xs)) =
      map enc_pos (map (\<lambda>(u, p, v). p) (?f xs))" for xs :: "(nat \<times> nat \<times> 'a) list"
    by (induction xs) auto
  have b: "p < 2 ^ 61" if "(u, p, v) \<in> set ?d" for u p v
  proof -
    have "ph (p_mem s) p = Done (Some (u, v))" using that k(3) by blast
    then have "p < pT (p_mem s)" using mem_okD(6) [OF ok(1), of p] by (simp add: not_le [symmetric])
    then show ?thesis using T by simp
  qed
  have "sorted_wrt (<) (map enc_pos xs)"
    if "sorted_wrt (<) xs" "\<forall>x \<in> set xs. x < 2 ^ 61" for xs :: "nat list"
    using that by (induction xs) (auto simp: word_less_nat_alt unat_of_nat)
  from this [OF k(5) [of t]] b show ?thesis unfolding d eq by fastforce
qed

theorem mpmc_consumer_order_witness:
  "length (delivers (w_trace (wsys_run False demo_run (new_wsys 4)))) = 2 \<and>
   sorted_wrt (<) (map (\<lambda>(u, p, v). p) (filter (\<lambda>(u, p, v). u = 1)
    (delivers (w_trace (wsys_run False demo_run (new_wsys 4))))))"
  using mpmc_consumer_order [OF demo_cap, of 1] demo_delivers by simp

text \<open>
  C11: When a consumer is told the queue is drained, everything ever accepted has been claimed: in
  that and every later state, each event reserved with a value stands below the head, so no
  accepted event is left behind and none can still arrive.
\<close>

theorem mpmc_drained_is_final:
  assumes "ring_cap n" "n \<le> 2 ^ 61" "length xs < 2 ^ 61"
  defines "s \<equiv> wsys_run False xs (new_wsys n)"
  assumes "EvDrained t \<in> set (w_trace s)" "(u, p, Some v) \<in> set (reserves (w_trace s))"
  shows "p < head_w (w_mem s) \<and> is_closed (tail_w (w_mem s))"
proof -
  obtain ps where ps: "psys_reach n (length xs) ps" "s = enc_sys ps"
    using run_sim [OF assms(1-3)] unfolding s_def by blast
  have ok: "mem_ok n (p_mem ps)" "trace_ok (p_mem ps) (p_trace ps)"
    using psys_reach_ok [OF ps(1) ring_capD(1) [OF assms(1)]] by (simp_all add: psys_ok_def)
  have T: "pT (p_mem ps) < 2 ^ 61" using psys_reach_tail [OF ps(1)] assms(3) by simp
  note k = trace_okD [OF ok(2)]
  have tr: "w_trace s = map enc_ev (p_trace ps)" by (simp add: ps(2) enc_sys_def)
  have "EvDrained t \<in> set (p_trace ps)" using assms(5) unfolding tr drained_enc .
  then have c: "pC (p_mem ps)" "pK (p_mem ps) \<le> pH (p_mem ps)" using k(7) by blast+
  obtain r where r: "p = enc_pos r" "(u, r, Some v) \<in> set (reserves (p_trace ps))"
    using assms(6) unfolding tr reserves_enc by auto
  have "r < pT (p_mem ps)" by (rule reserved_below [OF ok(2) r(2)])
  moreover have "pval (ph (p_mem ps) r) = Some v" using k(2) [OF r(2)] .
  ultimately have "\<not> pK (p_mem ps) \<le> r" using mem_okD(9) [OF ok(1), of r] c(1) by simp
  then have "r < pH (p_mem ps)" using c(2) by simp
  moreover have "pH (p_mem ps) < 2 ^ 61" using head_le_tail [OF ok(1)] T by simp
  ultimately have "p < head_w (w_mem s)"
    unfolding r(1) by (simp add: ps(2) enc_sys_def enc_mem_def word_less_nat_alt unat_of_nat)
  then show ?thesis using c(1) by (simp add: ps(2) enc_sys_def enc_mem_def)
qed

theorem mpmc_drained_is_final_witness:
  "is_closed (tail_w (w_mem (wsys_run False [Start 0 (TryPush (7 :: nat)), Go 0 False, Go 0 False,
     Go 0 False, Go 0 False, Start 1 TryPop, Go 1 False, Go 1 False, Go 1 False, Go 1 False,
     Start 0 Close, Start 1 DrainCheck, Go 1 False] (new_wsys 2))))"
proof -
  let ?xs = "[Start 0 (TryPush (7 :: nat)), Go 0 False, Go 0 False,
     Go 0 False, Go 0 False, Start 1 TryPop, Go 1 False, Go 1 False, Go 1 False, Go 1 False,
     Start 0 Close, Start 1 DrainCheck, Go 1 False]"
  have "w_trace (wsys_run False ?xs (new_wsys 2)) =
      [EvReserve 0 0 (Some 7), EvPush 0 PushOk, EvDeliver 1 0 7, EvClose 0, EvDrained 1]"
    by (simp add: wsys_run_def new_wsys_def new_mpmc_def start_op_def is_closed_def kClosed_def
        kDead_def seq_at_def slot_def slot_ix_def sdif_def set_seq_def set_store_def Let_def upt_rec)
  then show ?thesis
    using mpmc_drained_is_final [of 2 ?xs 1 0 0 7]
    by (simp add: ring_cap_def has_single_bit_def)
qed

text \<open>
  C2: Nothing is lost: when no operation is in progress, each event ever reserved with a value
  either has been delivered or still sits in its slot, published and unclaimed; and the ring holds
  at most its capacity.
\<close>

theorem mpmc_nothing_lost:
  assumes "ring_cap n" "n \<le> 2 ^ 61" "length xs < 2 ^ 61"
  defines "s \<equiv> wsys_run False xs (new_wsys n)"
  assumes "\<forall>t. w_pcs s t = Idle" "(u, p, Some v) \<in> set (reserves (w_trace s))"
  shows "((\<exists>t. (t, p, v) \<in> set (delivers (w_trace s))) \<or>
      (head_w (w_mem s) \<le> p \<and> seq_at (w_mem s) p = p + 1 \<and>
       store (w_mem s) ! slot (w_mem s) p = Some v)) \<and>
    drop_bit 1 (tail_w (w_mem s)) - head_w (w_mem s) \<le> of_nat n"
proof -
  obtain ps where ps: "psys_reach n (length xs) ps" "s = enc_sys ps"
    using run_sim [OF assms(1-3)] unfolding s_def by blast
  let ?q = "p_mem ps"
  have ok: "mem_ok n ?q" "threads_ok ?q (p_pcs ps)" "trace_ok ?q (p_trace ps)"
    using psys_reach_ok [OF ps(1) ring_capD(1) [OF assms(1)]] by (simp_all add: psys_ok_def)
  note m = mem_okD [OF ok(1)]
  have T: "pT ?q < 2 ^ 61" using psys_reach_tail [OF ps(1)] assms(3) by simp
  have f: "fits n ?q" using T assms(1,2) by (simp add: fits_def)
  note e = seq_enc [OF ok(1) assms(1)]
  have mem: "w_mem s = enc_mem ?q" and tr: "w_trace s = map enc_ev (p_trace ps)"
    by (simp_all add: ps(2) enc_sys_def)
  have "p_pcs ps t = Idle" for t
  proof -
    have "enc_pc (p_pcs ps t) = Idle" using assms(5) by (simp add: ps(2) enc_sys_def)
    then show ?thesis by (cases "p_pcs ps t") simp_all
  qed
  then have idle: "owner (ph ?q r) = None" for r
    using ok(2) unfolding threads_ok_def by (cases "owner (ph ?q r)") fastforce+
  have live: "ph ?q r = Live (pval (ph ?q r)) \<or> is_done (ph ?q r)" if "r < pT ?q" for r
    using idle [of r] m(6) [of r] that by (cases "ph ?q r") simp_all
  obtain r where r: "p = enc_pos r" "(u, r, Some v) \<in> set (reserves (p_trace ps))"
    using assms(6) unfolding tr reserves_enc by auto
  have rT: "r < pT ?q" by (rule reserved_below [OF ok(3) r(2)])
  have val: "pval (ph ?q r) = Some v" using trace_okD(2) [OF ok(3) r(2)] .
  have one: "(\<exists>t. (t, p, v) \<in> set (delivers (w_trace s))) \<or>
      (head_w (w_mem s) \<le> p \<and> seq_at (w_mem s) p = p + 1 \<and>
       store (w_mem s) ! slot (w_mem s) p = Some v)"
  proof (cases "is_done (ph ?q r)")
    case True
    then obtain t where "ph ?q r = Done (Some (t, v))" using val by (cases "ph ?q r") auto
    then have "(t, r, v) \<in> set (delivers (p_trace ps))" using trace_okD(3) [OF ok(3)] by blast
    then have "(t, p, v) \<in> set (delivers (w_trace s))"
      unfolding tr delivers_enc r(1) by (force simp: image_iff)
    then show ?thesis by blast
  next
    case False
    then have l: "ph ?q r = Live (Some v)" using live [OF rT] val by simp
    have h: "spos (pslot ?q r) = r" by (rule host_here [OF ok(1)]) (simp add: l)
    then have "pslot ?q r = Pub r False" "pstore ?q ! (r mod n) = Some v"
      using slot_host(4,5) [OF ok(1) h] l by simp_all
    then have "seq_at (w_mem s) p = p + 1" "store (w_mem s) ! slot (w_mem s) p = Some v"
      unfolding mem r(1) by (simp_all add: e(1,2,5) add.commute)
    moreover have "pH ?q \<le> r" using m(7) [of r] l by simp
    then have "head_w (w_mem s) \<le> p"
      unfolding mem r(1) using rT T by (simp add: enc_mem_def word_le_nat_alt unat_of_nat)
    ultimately show ?thesis by blast
  qed
  have cap: "pT ?q \<le> pH ?q + n"
  proof (rule ccontr)
    assume "\<not> pT ?q \<le> pH ?q + n"
    then have r: "pH ?q + n < pT ?q" by simp
    have "spos (pslot ?q (pH ?q + n)) \<noteq> pH ?q + n" using host_bound [OF ok(1), of "pH ?q + n"] by simp
    then have "\<not> published (ph ?q (pH ?q + n))" using host_here [OF ok(1)] by blast
    then have "is_done (ph ?q (pH ?q + n))" using live [OF r] by (metis published.simps(1))
    then have "past_claim (ph ?q (pH ?q + n))" by (cases "ph ?q (pH ?q + n)") simp_all
    then show False using m(7) by simp
  qed
  have "drop_bit (Suc 0) (enc_word (pT ?q, pC ?q)) = enc_pos (pT ?q)" using T by (simp add: pos_enc)
  then have "drop_bit 1 (tail_w (w_mem s)) - head_w (w_mem s) = enc_pos (pT ?q - pH ?q)"
    using head_le_tail [OF ok(1)] by (simp add: mem enc_fields)
  also have "\<dots> \<le> of_nat n"
    using cap T assms(2) by (simp add: word_le_nat_alt unat_of_nat)
  finally show ?thesis using one by blast
qed

theorem mpmc_nothing_lost_witness:
  "store (w_mem (wsys_run False [Start 0 (TryPush (7 :: nat)), Go 0 False, Go 0 False,
     Go 0 False, Go 0 False] (new_wsys 2))) ! 0 = Some 7"
proof -
  let ?xs = "[Start 0 (TryPush (7 :: nat)), Go 0 False, Go 0 False, Go 0 False, Go 0 False]"
  note ev = wsys_run_def new_wsys_def new_mpmc_def start_op_def is_closed_def kClosed_def
        kDead_def seq_at_def slot_def slot_ix_def sdif_def set_seq_def set_store_def Let_def upt_rec
  have r: "w_trace (wsys_run False ?xs (new_wsys 2)) = [EvReserve 0 0 (Some 7), EvPush 0 PushOk]"
    "\<forall>t. w_pcs (wsys_run False ?xs (new_wsys 2)) t = Idle"
    "slot (w_mem (wsys_run False ?xs (new_wsys 2))) 0 = 0"
    by (simp_all add: ev)
  then show ?thesis
    using mpmc_nothing_lost [of 2 ?xs 0 0 7] by (simp add: ring_cap_def has_single_bit_def)
qed

section \<open>The deliberate bug\<close>

definition push_alone :: "nat \<Rightarrow> 'a \<Rightarrow> 'a act list" where
  "push_alone t v = [Start t (TryPush v), Go t False, Go t False, Go t False, Go t False]"

text \<open>
  The full test is what keeps a producer off a live slot: with \<open>Bug::no_full_check\<close> a single
  thread pushing once more than the capacity constructs an event over one nobody has read, and
  with the test the same pushes end in \<open>full\<close> and no fault.
\<close>

theorem no_full_check_overwrites:
  "EvFault \<in> set (w_trace (wsys_run True
      (push_alone 0 1 @ push_alone 0 2 @ push_alone 0 (3 :: nat)) (new_wsys 2))) \<and>
   w_trace (wsys_run False
      (push_alone 0 1 @ push_alone 0 2 @ push_alone 0 (3 :: nat)) (new_wsys 2)) =
     [EvReserve 0 0 (Some 1), EvPush 0 PushOk, EvReserve 0 1 (Some 2), EvPush 0 PushOk,
      EvPush 0 PushFull]"
  by (simp add: push_alone_def wsys_run_def new_wsys_def new_mpmc_def start_op_def
      is_closed_def kClosed_def kDead_def seq_at_def slot_def slot_ix_def sdif_def set_seq_def
      set_store_def Let_def upt_rec)

end
