(* ===== verification/Mpmc_Fill.thy ===== *)
theory Mpmc_Fill
  imports Mpmc_Refine
begin

text \<open>
  The full test of mpmc_queue.hpp seen from outside, which bench/backpressure.cpp measures: with
  producers and no consumer the ring takes exactly its capacity. A push is refused only when the
  ring is full, and nothing is ever accepted beyond that.
\<close>

fun pushes_only :: "'a act \<Rightarrow> bool" where
  "pushes_only (Start t (TryPush v)) \<longleftrightarrow> True"
| "pushes_only (Start t p) \<longleftrightarrow> False"
| "pushes_only (Go t weak) \<longleftrightarrow> True"

fun ok_by :: "('a, 'p) ev list \<Rightarrow> nat list" where
  "ok_by [] = []"
| "ok_by (EvPush t r # es) = (if r = PushOk then t # ok_by es else ok_by es)"
| "ok_by (_ # es) = ok_by es"

lemma ok_by_append [simp]: "ok_by (xs @ ys) = ok_by xs @ ok_by ys"
  by (induction xs rule: ok_by.induct) simp_all

fun pushing :: "'a npc \<Rightarrow> bool" where
  "pushing Idle \<longleftrightarrow> True"
| "pushing (PushReload v) \<longleftrightarrow> True"
| "pushing (PushLook v w) \<longleftrightarrow> \<not> snd w"
| "pushing (PushCas v w) \<longleftrightarrow> \<not> snd w"
| "pushing (Construct v p) \<longleftrightarrow> True"
| "pushing (Publish v p) \<longleftrightarrow> True"
| "pushing _ \<longleftrightarrow> False"

fun owes :: "'a npc \<Rightarrow> nat" where
  "owes (Construct v p) = 1"
| "owes (Publish v p) = 1"
| "owes _ = 0"

text \<open>While only producers have run.\<close>

definition filling :: "nat \<Rightarrow> 'a psys \<Rightarrow> bool" where
  "filling n s \<longleftrightarrow>
     pH (p_mem s) = 0 \<and> \<not> pC (p_mem s) \<and> (\<forall>t. pushing (p_pcs s t)) \<and>
     (\<forall>t. count_list (map fst (reserves (p_trace s))) t =
          count_list (ok_by (p_trace s)) t + owes (p_pcs s t)) \<and>
     (\<forall>t. EvPush t PushFull \<in> set (p_trace s) \<longrightarrow> n \<le> pT (p_mem s))"

lemma same_slot_zero: "mem_ok n q \<Longrightarrow> pslot q n = pslot q 0"
  using mem_okD(2) [of n q] by (simp add: pslot_def)

lemma filling_bound:
  assumes ok: "psys_ok n s" and f: "filling n s"
  shows "pT (p_mem s) \<le> n"
proof (rule ccontr)
  let ?q = "p_mem s"
  assume "\<not> pT ?q \<le> n"
  then have T: "n < pT ?q" by simp
  have m: "mem_ok n ?q" and th: "threads_ok ?q (p_pcs s)" using ok by (simp_all add: psys_ok_def)
  have H: "\<not> past_claim (ph ?q r)" for r
    using mem_okD(7) [OF m, of r] f by (simp add: filling_def)
  have not_done: "\<not> is_done (ph ?q r)" for r using H [of r] by (cases "ph ?q r") simp_all
  have res: "ph ?q n \<noteq> Unres" using mem_okD(6) [OF m, of n] T by simp
  have "spos (pslot ?q n) = n"
  proof (cases "waiting (ph ?q n)")
    case False
    then show ?thesis using hosted [OF m] not_done by blast
  next
    case True
    then obtain t x where r: "ph ?q n = Res t x" using res by (cases "ph ?q n") simp_all
    then have own: "own_pos (p_pcs s t) = Some n" using th by (simp add: threads_ok_def)
    have pc: "pc_ok ?q t (p_pcs s t)" using th by (simp add: threads_ok_def)
    have "pushing (p_pcs s t)" using f by (simp add: filling_def)
    then have "pslot ?q n = Free n" using own pc r by (cases "p_pcs s t") simp_all
    then show ?thesis by simp
  qed
  then have "0 < spos (pslot ?q 0)" using same_slot_zero [OF m] mem_okD(10) [OF m] by simp
  then show False using slot_host(2) [OF m, of 0] not_done by blast
qed

lemma full_bound:
  assumes m: "mem_ok n q" and "sval (pslot q p) < p"
  shows "n \<le> p"
proof (rule ccontr)
  assume "\<not> n \<le> p"
  then have "spos (pslot q p) mod n = p" using slot_host(1) [OF m, of p] by simp
  then have "p \<le> spos (pslot q p)" by (metis mod_less_eq_dividend)
  also have "\<dots> \<le> sval (pslot q p)" by (cases "pslot q p") simp_all
  finally show False using assms(2) by simp
qed

lemma new_filling: "filling n (new_psys n)"
  by (simp add: filling_def new_psys_def new_pq_def)

lemma filling_act:
  assumes ok: "psys_ok n s" and f: "filling n s" and a: "pushes_only a"
  shows "filling n (psys_act a s)"
proof (cases a)
  case (Start t p)
  then obtain v where "p = TryPush v" using a by (cases p) simp_all
  then show ?thesis using f by (auto simp: Start filling_def pstart_def)
next
  case (Go t weak)
  have m: "mem_ok n (p_mem s)" and pc: "pc_ok (p_mem s) t (p_pcs s t)"
    using ok by (simp_all add: psys_ok_def threads_ok_def)
  have p: "pushing (p_pcs s t)" using f by (simp add: filling_def)
  show ?thesis
  proof (cases "p_pcs s t")
    case (PushLook v w)
    then have "fst w \<le> pT (p_mem s)" using pc by simp
    then show ?thesis
      using f p full_bound [OF m, of "fst w"] by (auto simp: Go PushLook filling_def)
  next
    case (PushCas v w)
    then show ?thesis using f p by (auto simp: Go filling_def preserve_def)
  next
    case (Construct v w)
    then show ?thesis using f p by (auto simp: Go filling_def pput_def)
  next
    case (Publish v w)
    then show ?thesis using f p by (auto simp: Go filling_def pset_def)
  qed (use f p in \<open>auto simp: Go filling_def\<close>)
qed

lemma run_filling: "2 \<le> n \<Longrightarrow> list_all pushes_only xs \<Longrightarrow> filling n (psys_run xs n)"
proof (induction xs rule: rev_induct)
  case Nil
  show ?case by (simp add: psys_run_def new_filling)
next
  case (snoc a xs)
  have "psys_ok n (psys_run xs n)" using psys_reach_ok [OF psys_run_reach snoc.prems(1)] .
  from filling_act [OF this] show ?case using snoc by (simp add: psys_run_snoc)
qed

lemma ok_by_enc: "ok_by (map enc_ev tr) = ok_by tr"
proof (induction tr)
  case (Cons e tr)
  then show ?case by (cases e) simp_all
qed simp

lemma full_enc: "EvPush t PushFull \<in> set (map enc_ev tr) \<longleftrightarrow> EvPush t PushFull \<in> set tr"
proof (induction tr)
  case (Cons e tr)
  then show ?case by (cases e) auto
qed simp

text \<open>Once every producer has returned, the accepted pushes are the positions reserved.\<close>

lemma quiet_fill:
  assumes "ring_cap n" "n \<le> 2 ^ 61" "length xs < 2 ^ 61" "list_all pushes_only xs"
  defines "s \<equiv> wsys_run False xs (new_wsys n)"
  assumes "\<forall>t. w_pcs s t = Idle"
  shows "length (ok_by (w_trace s)) \<le> n"
    and "EvPush t PushFull \<in> set (w_trace s) \<Longrightarrow> length (ok_by (w_trace s)) = n"
proof -
  let ?p = "psys_run xs n"
  have s: "s = enc_sys ?p" unfolding s_def by (rule run_sim_eq [OF assms(1-3)])
  have tr: "w_trace s = map enc_ev (p_trace ?p)" by (simp add: s enc_sys_def)
  have n: "2 \<le> n" using ring_capD(1) [OF assms(1)] .
  have ok: "psys_ok n ?p" using psys_reach_ok [OF psys_run_reach n] .
  have f: "filling n ?p" using run_filling [OF n assms(4)] .
  have idle: "p_pcs ?p t = Idle" for t
  proof -
    have "enc_pc (p_pcs ?p t) = Idle" using assms(6) by (simp add: s enc_sys_def)
    then show ?thesis by (cases "p_pcs ?p t") simp_all
  qed
  have "count_list (map fst (reserves (p_trace ?p))) t = count_list (ok_by (p_trace ?p)) t" for t
    using f idle by (simp add: filling_def)
  then have "mset (map fst (reserves (p_trace ?p))) = mset (ok_by (p_trace ?p))"
    by (intro multiset_eqI) (simp only: count_mset)
  then have "length (ok_by (p_trace ?p)) = length (reserves (p_trace ?p))"
    by (metis size_mset length_map)
  also have "\<dots> = pT (p_mem ?p)"
    using arg_cong [OF trace_okD(1), of "p_mem ?p" "p_trace ?p" length] ok by (simp add: psys_ok_def)
  finally have len: "length (ok_by (w_trace s)) = pT (p_mem ?p)"
    by (simp add: s enc_sys_def ok_by_enc)
  moreover have le: "pT (p_mem ?p) \<le> n" by (rule filling_bound [OF ok f])
  ultimately show "length (ok_by (w_trace s)) \<le> n" by simp
  show "length (ok_by (w_trace s)) = n" if "EvPush t PushFull \<in> set (w_trace s)"
    using that f len le unfolding tr full_enc filling_def by force
qed

text \<open>
  C12: Any number of producers that only call \<open>try_push\<close>, on a ring that nobody consumes from, in any
  interleaving and with any spurious failures: in a state in which all their pushes have returned, the
  number accepted is at most the capacity, and if any push was refused it is exactly the
  capacity. While a push is between its reservation and its publication another may be refused with fewer
  accepted so far.
\<close>

theorem fills_exactly:
  assumes "ring_cap n" "n \<le> 2 ^ 61" "length xs < 2 ^ 61" "list_all pushes_only xs"
  defines "s \<equiv> wsys_run False xs (new_wsys n)"
  assumes "\<forall>t. w_pcs s t = Idle"
  shows "length (ok_by (w_trace s)) \<le> n \<and>
    (EvPush t PushFull \<in> set (w_trace s) \<longrightarrow> length (ok_by (w_trace s)) = n)"
  using quiet_fill [OF assms(1-4), folded s_def, OF assms(6)] by blast

theorem fills_exactly_witness:
  "length (ok_by (w_trace (wsys_run False
     (push_alone 0 1 @ push_alone 1 2 @ push_alone 0 (3 :: nat)) (new_wsys 2)))) = 2"
proof -
  let ?xs = "push_alone 0 1 @ push_alone 1 2 @ push_alone 0 (3 :: nat)"
  note ev = push_alone_def wsys_run_def new_wsys_def new_mpmc_def start_op_def is_closed_def
    kClosed_def kDead_def seq_at_def slot_def slot_ix_def sdif_def set_seq_def set_store_def
    Let_def upt_rec
  have "\<forall>t. w_pcs (wsys_run False ?xs (new_wsys 2)) t = Idle"
    "EvPush 0 PushFull \<in> set (w_trace (wsys_run False ?xs (new_wsys 2)))"
    by (simp_all add: ev)
  then show ?thesis
    using fills_exactly [of 2 ?xs 0] by (simp add: ring_cap_def has_single_bit_def push_alone_def)
qed

end
