(* ===== verification/Brief_Queue.thy ===== *)
theory Brief_Queue
  imports Tq_Api
begin

text \<open>
  mpmc-work-queue-kata/cpp/src/brief_queue.hpp: the queue the brief proposes, kept to be broken.
  The accesses to its two counters interleave; the accesses to the buffer are plain ones, whose
  race is the point. Three of its failures are proved: a push that overwrites an event nobody has
  taken, a pop that returns a slot nobody has written, and two pops that take one event.
\<close>

record 'a brief =
  b_buffer :: "'a list"
  b_head :: u64
  b_tail :: u64

definition new_brief :: "nat \<Rightarrow> 'a \<Rightarrow> 'a brief" where
  "new_brief n x = \<lparr>b_buffer = replicate n x, b_head = 0, b_tail = 0\<rparr>"

definition b_slot :: "'a brief \<Rightarrow> u64 \<Rightarrow> nat" where
  "b_slot q pos = unat (pos mod of_nat (length (b_buffer q)))"

text \<open>Where a thread is in \<open>push\<close> and in \<open>pop\<close>.\<close>

datatype 'a bpc =
    BIdle
  | BWrite 'a u64     \<comment> \<open>the position is taken: about to write the slot\<close>
  | BTail u64         \<comment> \<open>the head is loaded: about to load the tail\<close>
  | BTake             \<comment> \<open>found it not empty: about to take a position\<close>
  | BRead u64         \<comment> \<open>about to read the slot\<close>

datatype 'a bop = BPush 'a | BPop

datatype 'a bres = Pushed | Popped 'a | Nothing

text \<open>One access, with what the call returns if it was its last. A call starts with its first access.\<close>

fun b_start :: "'a bop \<Rightarrow> 'a brief \<Rightarrow> 'a brief \<times> 'a bpc" where
  "b_start (BPush v) q = (q\<lparr>b_tail := b_tail q + 1\<rparr>, BWrite v (b_tail q))"
| "b_start BPop q = (q, BTail (b_head q))"

fun b_access :: "'a bpc \<Rightarrow> 'a brief \<Rightarrow> 'a brief \<times> 'a bpc \<times> 'a bres option" where
  "b_access BIdle q = (q, BIdle, None)"
| "b_access (BWrite v pos) q =
     (q\<lparr>b_buffer := (b_buffer q)[b_slot q pos := v]\<rparr>, BIdle, Some Pushed)"
| "b_access (BTail h) q = (if h = b_tail q then (q, BIdle, Some Nothing) else (q, BTake, None))"
| "b_access BTake q = (q\<lparr>b_head := b_head q + 1\<rparr>, BRead (b_head q), None)"
| "b_access (BRead pos) q = (q, BIdle, Some (Popped (b_buffer q ! b_slot q pos)))"

text \<open>The calls run on their own.\<close>

definition b_push :: "'a \<Rightarrow> 'a brief \<Rightarrow> bool \<times> 'a brief" where
  "b_push v q =
     (let pos = b_tail q; q1 = q\<lparr>b_tail := b_tail q + 1\<rparr>
      in (True, q1\<lparr>b_buffer := (b_buffer q1)[b_slot q1 pos := v]\<rparr>))"

definition b_pop :: "'a brief \<Rightarrow> 'a option \<times> 'a brief" where
  "b_pop q =
     (if b_head q = b_tail q then (None, q)
      else let pos = b_head q in (Some (b_buffer q ! b_slot q pos), q\<lparr>b_head := pos + 1\<rparr>))"

text \<open>Any number of threads.\<close>

record 'a bsys =
  bs_q :: "'a brief"
  bs_pcs :: "nat \<Rightarrow> 'a bpc"
  bs_results :: "(nat \<times> 'a bres) list"

datatype 'a bact = BStart nat "'a bop" | BGo nat

fun b_step :: "'a bact \<Rightarrow> 'a bsys \<Rightarrow> 'a bsys" where
  "b_step (BStart t p) s =
     (if bs_pcs s t = BIdle
      then let (q, c) = b_start p (bs_q s) in s\<lparr>bs_q := q, bs_pcs := (bs_pcs s)(t := c)\<rparr> else s)"
| "b_step (BGo t) s =
     (let (q, c, r) = b_access (bs_pcs s t) (bs_q s)
      in s\<lparr>bs_q := q, bs_pcs := (bs_pcs s)(t := c),
           bs_results := bs_results s @ (case r of None \<Rightarrow> [] | Some x \<Rightarrow> [(t, x)])\<rparr>)"

definition new_bsys :: "nat \<Rightarrow> 'a \<Rightarrow> 'a bsys" where
  "new_bsys n x = \<lparr>bs_q = new_brief n x, bs_pcs = (\<lambda>_. BIdle), bs_results = []\<rparr>"

section \<open>Its failures\<close>

definition b_pushes :: "'a list \<Rightarrow> 'a brief \<Rightarrow> 'a brief" where
  "b_pushes xs q = fold (\<lambda>x q. snd (b_push x q)) xs q"

lemma b_pushes_state:
  assumes "0 < n" "n < 2 ^ 63" "length xs \<le> n"
  shows "b_buffer (b_pushes xs (new_brief n x)) = xs @ replicate (n - length xs) x \<and>
    b_head (b_pushes xs (new_brief n x)) = 0 \<and>
    b_tail (b_pushes xs (new_brief n x)) = of_nat (length xs)"
  using assms(3)
proof (induction xs rule: rev_induct)
  case Nil
  then show ?case by (simp add: b_pushes_def new_brief_def)
next
  case (snoc y ys)
  let ?q = "b_pushes ys (new_brief n x)"
  have lt: "length ys < n" using snoc.prems by simp
  have ih: "b_buffer ?q = ys @ replicate (n - length ys) x" "b_head ?q = 0" "b_tail ?q = of_nat (length ys)"
    using snoc by simp_all
  have "b_slot ?q (of_nat (length ys)) = length ys"
    using lt assms(2) by (simp add: b_slot_def ih unat_mod unat_of_nat)
  moreover have "replicate (n - length ys) x = x # replicate (n - Suc (length ys)) x"
    using lt by (metis Suc_diff_Suc replicate_Suc)
  ultimately show ?case
    using ih by (simp add: b_pushes_def b_push_def b_slot_def Let_def list_update_append add.commute)
qed

text \<open>
  The brief's queue has no full check: whatever its capacity, one push more than it holds still
  returns true, and the next pop returns that last event instead of the first, which is lost.
\<close>

theorem brief_overwrites:
  assumes "0 < n" "n < 2 ^ 63" "length xs = n"
  shows "fst (b_push y (b_pushes xs (new_brief n x))) = True \<and>
    fst (b_pop (snd (b_push y (b_pushes xs (new_brief n x))))) = Some y"
proof -
  let ?q = "b_pushes xs (new_brief n x)"
  have st: "b_buffer ?q = xs" "b_head ?q = 0" "b_tail ?q = of_nat n"
    using b_pushes_state [OF assms(1,2), of xs x] assms(3) by simp_all
  have wrap: "b_slot (?q\<lparr>b_tail := t\<rparr>) (of_nat n) = 0" "b_slot (?q\<lparr>b_tail := t, b_buffer := xs[0 := y]\<rparr>) 0 = 0" for t
    using assms by (simp_all add: b_slot_def st)
  have "unat (of_nat (Suc n) :: u64) = Suc n"
    unfolding unat_of_nat using assms(2) by (intro mod_less) simp
  then have "(of_nat (Suc n) :: u64) \<noteq> 0" by (metis unat_0 nat.distinct(1))
  then have "(of_nat n + 1 :: u64) \<noteq> 0" by (simp add: add.commute)
  then show ?thesis
    using assms by (simp add: b_push_def b_pop_def st wrap Let_def)
qed

lemma brief_overwrites_witness:
  "fst (b_pop (snd (b_push 8 (b_pushes [0, 1, 2, 3, 4, 5, 6, 7] (new_brief 8 (99 :: nat)))))) = Some 8"
  by (rule conjunct2 [OF brief_overwrites]) simp_all

definition b_run :: "'a bact list \<Rightarrow> 'a bsys \<Rightarrow> 'a bsys" where
  "b_run as s = fold b_step as s"

text \<open>The position is taken before the event is written: a pop in between returns ok with what was there.\<close>

lemma brief_reads_unwritten:
  "bs_results (b_run [BStart 0 (BPush 7), BStart 1 BPop, BGo 1, BGo 1, BGo 1, BGo 0] (new_bsys 8 99)) =
     [(1, Popped 99), (0, Pushed)]"
  by (simp add: b_run_def new_bsys_def new_brief_def b_slot_def)

text \<open>
  Two pops that both found the one event take two positions: both return ok, and the head passes
  the tail, so that the queue looks non-empty from then on.
\<close>

lemma brief_pops_twice:
  "let s = b_run [BStart 0 (BPush 7), BGo 0, BStart 1 BPop, BStart 2 BPop, BGo 1, BGo 2, BGo 1, BGo 2,
      BGo 1, BGo 2] (new_bsys 8 99)
   in bs_results s = [(0, Pushed), (1, Popped 7), (2, Popped 99)] \<and>
      b_head (bs_q s) = 2 \<and> b_tail (bs_q s) = 1"
  by (simp add: b_run_def new_bsys_def new_brief_def b_slot_def)

text \<open>The calls on their own are their accesses.\<close>

lemma b_push_alone:
  "(let (q1, c) = b_start (BPush v) q in b_access c q1) = (snd (b_push v q), BIdle, Some Pushed)"
  by (simp add: b_push_def Let_def)

end
