(* ===== verification/Tq_Phases.thy ===== *)
theory Tq_Phases
  imports Tq_Platform Tq_Main Mpmc_Fill Brief_Queue
begin

text \<open>
  The phases of the turnstile bench that check something: the brief's queue (bench/brief.cpp), the
  runs of the invariants phase (invariants.cpp), the engineered race for lost wake-ups (wakeup.cpp),
  a queue nobody consumes from (backpressure.cpp), stalls (preemption.cpp, outline.cpp) and the
  repetitions every comparison is made of. Each is the code between two runs of the driver; what a
  run returns, and the readings of the clock, are arguments.
\<close>

section \<open>The brief's queue\<close>

text \<open>Nine pushes into eight slots, then pops until one fails or nine have returned.\<close>

fun pop_some :: "nat \<Rightarrow> 'a brief \<Rightarrow> 'a list" where
  "pop_some 0 q = []"
| "pop_some (Suc n) q = (case b_pop q of (None, _) \<Rightarrow> [] | (Some e, q') \<Rightarrow> e # pop_some n q')"

definition nine_pushes :: "event list" where
  "nine_pushes =
     pop_some 9 (b_pushes (map (\<lambda>i. make_event 0 (of_nat i) 0) [0..<9]) (new_brief 8 zero_event))"

definition overwrote :: "event list \<Rightarrow> bool" where
  "overwrote got \<longleftrightarrow> got \<noteq> [] \<and> seq_no (hd got) = 8"

lemma pop_nine: "pop_some 9 q = pop_some (Suc (Suc (Suc (Suc (Suc (Suc (Suc (Suc (Suc 0))))))))) q"
  by (simp only: eval_nat_numeral Num.BitM.simps One_nat_def)

lemma nine_pops:
  "pop_some 9 (b_pushes [a0, a1, a2, a3, a4, a5, a6, a7, a8] (new_brief 8 z)) =
   [a8, a1, a2, a3, a4, a5, a6, a7, a8]"
  unfolding pop_nine by (simp add: b_pushes_def b_push_def b_pop_def new_brief_def b_slot_def)

text \<open>
  The phase's deterministic check holds, and its message is exact: the last event is delivered
  twice, first and last, the first event never, and the other seven in order.
\<close>

theorem nine_pushes_overwrite:
  "overwrote nine_pushes \<and> map seq_no nine_pushes = [8, 1, 2, 3, 4, 5, 6, 7, 8]"
proof -
  have "map (\<lambda>i. make_event 0 (of_nat i) 0) [0..<9] =
      [make_event 0 0 0, make_event 0 1 0, make_event 0 2 0, make_event 0 3 0, make_event 0 4 0,
       make_event 0 5 0, make_event 0 6 0, make_event 0 7 0, make_event 0 8 0]"
    by (simp add: upt_rec)
  then show ?thesis
    by (simp add: nine_pushes_def nine_pops overwrote_def make_event_def Let_def)
qed

text \<open>Under threads: the deliveries, sorted, split into first ones and repeats.\<close>

definition delivery_key :: "event \<Rightarrow> u64" where
  "delivery_key e = (push_bit 32 (ucast (producer e)) OR ucast (seq_no e))"

text \<open>A consumer, over what its pops return until it is told to stop: deliveries, torn reads, pops.\<close>

fun brief_consume :: "event option list \<Rightarrow> u64 list \<Rightarrow> nat \<Rightarrow> nat \<Rightarrow> u64 list \<times> nat \<times> nat" where
  "brief_consume [] mine torn pops = (mine, torn, pops)"
| "brief_consume (None # es) mine torn pops = brief_consume es mine torn pops"
| "brief_consume (Some e # es) mine torn pops =
     (let good = intact e \<and> producer e < 4 \<and> seq_no e < 200000;
          mine' = (if good then mine @ [delivery_key e] else mine);
          torn' = (if good then torn else torn + 1)
      in if 4 * 4 * 200000 < length mine' + torn' then (mine', torn', pops + 1)
         else brief_consume es mine' torn' (pops + 1))"

fun count_repeats :: "u64 list \<Rightarrow> nat \<times> nat" where
  "count_repeats [] = (0, 0)"
| "count_repeats [x] = (0, 1)"
| "count_repeats (x # y # zs) =
     (let (dup, distinct) = count_repeats (y # zs)
      in if x = y then (dup + 1, distinct) else (dup, distinct + 1))"

definition brief_figures :: "nat \<Rightarrow> u64 list list \<Rightarrow> nat list \<Rightarrow> int \<times> nat \<times> nat" where
  "brief_figures pushed seen torn =
     (let (dup, distinct) = count_repeats (sort (concat seen))
      in (int pushed - int distinct, dup, sum_list torn))"

definition brief_broken :: "int \<times> nat \<times> nat \<Rightarrow> bool" where
  "brief_broken f = (case f of (lost, dup, torn) \<Rightarrow> 0 < lost + int dup + int torn)"

lemma count_repeats_sorted:
  "sorted xs \<Longrightarrow> count_repeats xs = (length xs - card (set xs), card (set xs))"
proof (induction xs rule: count_repeats.induct)
  case (3 x y zs)
  have le: "card (set (y # zs)) \<le> length (y # zs)" by (rule card_length)
  show ?case
  proof (cases "x = y")
    case True
    then show ?thesis using 3 le by (simp add: insert_absorb Suc_diff_le)
  next
    case False
    then have "x \<notin> set (y # zs)" using 3(2) by (auto simp: less_le_trans)
    then have "card (set (x # y # zs)) = Suc (card (set (y # zs)))" by simp
    then show ?thesis using 3 False by simp
  qed
qed simp_all

text \<open>
  The three figures are what they are called: the events pushed that no consumer got, the
  deliveries beyond the first of each event, and the torn reads; so the check passes exactly when
  the deliveries are not one of each event pushed, unless torn reads make up the difference.
\<close>

theorem brief_figures_exact:
  "brief_figures pushed seen torn =
     (int pushed - int (card (set (concat seen))),
      length (concat seen) - card (set (concat seen)), sum_list torn)"
  by (simp add: brief_figures_def count_repeats_sorted)

section \<open>The engineered race\<close>

record race =
  ra_recheck :: nat
  ra_woken :: nat
  ra_lost :: nat
  ra_late :: nat

definition new_race :: race where
  "new_race = \<lparr>ra_recheck = 0, ra_woken = 0, ra_lost = 0, ra_late = 0\<rparr>"

definition classify :: "u64 \<Rightarrow> op_stats \<Rightarrow> op_stats \<Rightarrow> u64 \<Rightarrow> u64 \<Rightarrow> race \<Rightarrow> race" where
  "classify one_ms before after now pushed_at r =
     (if backstops before < backstops after then
        if one_ms < now - pushed_at then r\<lparr>ra_lost := ra_lost r + 1\<rparr> else r\<lparr>ra_late := ra_late r + 1\<rparr>
      else if parks before < parks after then r\<lparr>ra_woken := ra_woken r + 1\<rparr>
      else r\<lparr>ra_recheck := ra_recheck r + 1\<rparr>)"

record race_obs =
  ro_pop :: "op_stats \<Rightarrow> pop_res \<times> op_stats"
  ro_now :: u64
  ro_pushed_at :: u64

text \<open>The consumer's loop, over the answers of its iterations.\<close>

fun race_consumer :: "u64 \<Rightarrow> race_obs list \<Rightarrow> op_stats \<Rightarrow> race \<Rightarrow> race" where
  "race_consumer one_ms [] st r = r"
| "race_consumer one_ms (x # xs) st r =
     (let (p, st') = ro_pop x st in
      if p \<noteq> PopOk then r
      else race_consumer one_ms xs st' (classify one_ms st st' (ro_now x) (ro_pushed_at x) r))"

text \<open>The producer's pause before its push, and its generator.\<close>

definition race_pause :: "u64 \<Rightarrow> u64 \<times> u64" where
  "race_pause seed = (let r = xorshift seed in (r mod 64, r))"

text \<open>What the producer has stored when its pushes returned at the times given: none yet is zero.\<close>

definition last_push :: "u64 list \<Rightarrow> u64" where
  "last_push returned = (if returned = [] then 0 else last returned)"

definition lost_wakeups_without_fence :: "race list \<Rightarrow> nat" where
  "lost_wakeups_without_fence rs = sum_list (map ra_lost rs)"

definition wakeup_checks :: "race list \<Rightarrow> race list \<Rightarrow> bool list" where
  "wakeup_checks fenced epoch = [sum_list (map ra_lost fenced) = 0, sum_list (map ra_lost epoch) = 0]"

fun popped :: "race_obs list \<Rightarrow> op_stats \<Rightarrow> nat" where
  "popped [] st = 0"
| "popped (x # xs) st = (let (p, st') = ro_pop x st in if p \<noteq> PopOk then 0 else Suc (popped xs st'))"

definition race_total :: "race \<Rightarrow> nat" where
  "race_total r = ra_recheck r + ra_woken r + ra_lost r + ra_late r"

lemma classify_total: "race_total (classify one_ms before after now p r) = Suc (race_total r)"
  by (simp add: classify_def race_total_def)

text \<open>Every event the consumer received is in one of the four classes.\<close>

theorem race_accounts:
  "race_total (race_consumer one_ms xs st new_race) = popped xs st"
proof -
  have "race_total (race_consumer one_ms xs st r) = race_total r + popped xs st" for r
    by (induction xs arbitrary: st r) (auto simp: Let_def classify_total split: prod.splits)
  then show ?thesis by (simp add: race_total_def new_race_def)
qed

text \<open>
  An iteration in which the producer had published its event but was descheduled before it could
  notify anyone is counted as a lost wake-up, although the comment in the code calls it late: the
  time the consumer compares with is that of an earlier push, from before it went to sleep.
\<close>

theorem late_counted_lost:
  assumes "backstops before < backstops after"
    and "returned = [] \<or> last returned \<le> asleep" "asleep \<le> now" "one_ms < now - asleep"
  shows "classify one_ms before after now (last_push returned) r = r\<lparr>ra_lost := ra_lost r + 1\<rparr>"
proof -
  have "last_push returned \<le> asleep" using assms(2) by (auto simp: last_push_def)
  moreover have "unat (now - asleep) \<le> unat (now - last_push returned)"
    using calculation assms(3) by (simp add: unat_sub word_le_nat_alt)
  ultimately have "one_ms < now - last_push returned"
    using assms(4) by (simp add: word_less_nat_alt)
  then show ?thesis using assms(1) by (simp add: classify_def)
qed

theorem late_counted_lost_witness:
  "classify 1000 no_stats (no_stats\<lparr>backstops := 1\<rparr>) 7000 (last_push [4000]) new_race =
     new_race\<lparr>ra_lost := ra_lost new_race + 1\<rparr>"
  by (rule late_counted_lost [of _ _ _ 5000]) (simp_all add: no_stats_def)

section \<open>Runs of the other phases\<close>

definition kStudyRate :: rat where "kStudyRate = 10 ^ 6"
definition kTargetEventsPerSec :: rat where "kTargetEventsPerSec = 5 * 10 ^ 6"
definition kConsumerWorkNs :: rat where "kConsumerWorkNs = 1000"
definition kP99BudgetNs :: rat where "kP99BudgetNs = 2000"
definition kDeficitRate :: rat where "kDeficitRate = 2 * 10 ^ 6"
definition kDeficitWorkNs :: rat where "kDeficitWorkNs = 16 / (16 * 10 ^ 5) * 10 ^ 9"

text \<open>Nobody consuming, and consumers that cannot keep up (bench/backpressure.cpp).\<close>

definition no_consumers :: run_spec where
  "no_consumers = default_spec\<lparr>rs_consumers := 0, rs_rate := kStudyRate, rs_seconds := 15 / 100,
     rs_mode := Reject\<rparr>"

definition no_consumers_checks :: "run_result \<Rightarrow> bool list" where
  "no_consumers_checks r =
     [rr_accepted r = of_nat kCapacity, rr_offered r = rr_accepted r + rr_rejected r]"

definition deficit :: "push_mode \<Rightarrow> run_spec" where
  "deficit mode = default_spec\<lparr>rs_rate := kDeficitRate, rs_seconds := 1,
     rs_consumer_work_ns := kDeficitWorkNs, rs_mode := mode, rs_latency := True,
     rs_block_timeout := 10 * 10 ^ 9\<rparr>"

text \<open>Time to fill a ring, in milliseconds, at a rate and under a deficit.\<close>

definition fill_ms :: "rat \<Rightarrow> rat" where "fill_ms rate = of_nat kCapacity / rate * 1000"

text \<open>One stall at position 200,000 (bench/preemption.cpp, outline.cpp).\<close>

definition stalled_at :: "bool \<Rightarrow> stall_control" where
  "stalled_at producer_side =
     (if producer_side then new_stall\<lparr>producer_at := 200000\<rparr> else new_stall\<lparr>consumer_at := 200000\<rparr>)"

definition stalled_spec :: run_spec where
  "stalled_spec = default_spec\<lparr>rs_rate := kStudyRate, rs_seconds := 6 / 10,
     rs_consumer_work_ns := kConsumerWorkNs, rs_mode := Reject, rs_latency := True\<rparr>"

definition stalled_checks :: "u64 \<Rightarrow> run_result \<Rightarrow> bool list" where
  "stalled_checks t r = check_run r @ [t \<noteq> 0]"

text \<open>The first refusal after the stall began and the occupancy then, if there was one.\<close>

definition first_refusal :: "(u64 \<Rightarrow> rat) \<Rightarrow> u64 \<Rightarrow> run_result \<Rightarrow> sample list \<Rightarrow> (rat \<times> u64) option" where
  "first_refusal ns t r mon =
     (if t \<noteq> 0 \<and> t < rr_first_full r then Some (ns (rr_first_full r - t), at_time mon (rr_first_full r))
      else None)"

text \<open>A hot source (bench/outline.cpp), and the scaling of producers (bench/contention.cpp).\<close>

definition skewed_spec :: "rat \<Rightarrow> rat \<Rightarrow> rat \<Rightarrow> run_spec" where
  "skewed_spec rate share work = default_spec\<lparr>rs_rate := rate, rs_hot_share := share,
     rs_seconds := 5 / 10, rs_consumer_work_ns := work, rs_mode := Reject, rs_latency := True\<rparr>"

definition scaling_spec :: "nat \<Rightarrow> run_spec" where
  "scaling_spec k = default_spec\<lparr>rs_producers := k, rs_consumers := max 1 (k div 2),
     rs_events := 2000000 div of_nat k\<rparr>"

text \<open>How many of the fastest class, and the CPUs an idle queue keeps busy.\<close>

definition idle_figures :: "rat \<Rightarrow> rat \<Rightarrow> rat \<Rightarrow> rat \<Rightarrow> op_stats list \<Rightarrow> rat \<times> rat" where
  "idle_figures c0 c1 wall lifetime stats =
     ((c1 - c0) / wall, of_nat (unat (sum_list (map parks stats))) / lifetime)"

text \<open>The median of a statistic over the repetitions (bench/harness.hpp).\<close>

definition median_of :: "('r \<Rightarrow> rat) \<Rightarrow> 'r list \<Rightarrow> rat" where
  "median_of get reps = sort (map get reps) ! (length reps div 2)"

text \<open>Repetitions of every arm in turn. An arm acts on the world it runs in.\<close>

fun one_rep :: "('arm \<Rightarrow> 'w \<Rightarrow> 'r \<times> 'w) \<Rightarrow> 'arm list \<Rightarrow> nat \<Rightarrow> 'r list list \<times> 'w \<Rightarrow> 'r list list \<times> 'w" where
  "one_rep go [] i s = s"
| "one_rep go (a # as) i (out, w) =
     (let (r, w') = go a w in one_rep go as (Suc i) (out[i := out ! i @ [r]], w'))"

fun repetitions :: "nat \<Rightarrow> ('arm \<Rightarrow> 'w \<Rightarrow> 'r \<times> 'w) \<Rightarrow> 'arm list \<Rightarrow> 'r list list \<times> 'w \<Rightarrow> 'r list list \<times> 'w" where
  "repetitions 0 go arms s = s"
| "repetitions (Suc n) go arms s = repetitions n go arms (one_rep go arms 0 s)"

definition interleaved :: "('arm \<Rightarrow> 'w \<Rightarrow> 'r \<times> 'w) \<Rightarrow> 'arm list \<Rightarrow> 'w \<Rightarrow> 'r list list \<times> 'w" where
  "interleaved go arms w = repetitions 3 go arms (replicate (length arms) [], w)"

text \<open>An arm of a phase is a run and its checks; the failures are counted in the world.\<close>

definition failing :: "run_result \<Rightarrow> nat" where
  "failing r = length (filter Not (check_run r))"

definition once :: "('arm \<Rightarrow> 'w \<Rightarrow> run_result \<times> 'w) \<Rightarrow> 'arm \<Rightarrow> 'w \<times> nat \<Rightarrow> run_result \<times> 'w \<times> nat" where
  "once runs a s = (let (w, failures) = s; (r, w') = runs a w in (r, w', failures + failing r))"

definition all_failing :: "run_result list list \<Rightarrow> nat" where
  "all_failing out = sum_list (map failing (concat out))"

lemma all_failing_put:
  "i < length out \<Longrightarrow> all_failing (out[i := out ! i @ [r]]) = all_failing out + failing r"
proof (induction out arbitrary: i)
  case (Cons x out)
  then show ?case by (cases i) (auto simp: all_failing_def)
qed simp

lemma one_rep_failures:
  assumes "i + length arms \<le> length out" "one_rep (once runs) arms i (out, w, f) = (out', w', f')"
  shows "f' + all_failing out = f + all_failing out' \<and> map length out' =
    map (\<lambda>j. length (out ! j) + (if i \<le> j \<and> j < i + length arms then 1 else 0)) [0..<length out]"
  using assms
proof (induction arms arbitrary: i out w f)
  case Nil
  then show ?case by (auto intro: nth_equalityI)
next
  case (Cons a arms)
  obtain r w1 where r: "runs a w = (r, w1)" by fastforce
  let ?out = "out[i := out ! i @ [r]]"
  have "once runs a (w, f) = (r, w1, f + failing r)" by (simp add: once_def r)
  then have "one_rep (once runs) arms (Suc i) (?out, w1, f + failing r) = (out', w', f')"
    using Cons.prems(2) by simp
  from Cons.IH [OF _ this] have ih: "f' + all_failing ?out = f + failing r + all_failing out'"
    "map length out' = map (\<lambda>j. length (?out ! j) +
       (if Suc i \<le> j \<and> j < Suc i + length arms then 1 else 0)) [0..<length ?out]"
    using Cons.prems(1) by simp_all
  have "all_failing ?out = all_failing out + failing r" using all_failing_put Cons.prems(1) by simp
  moreover have "map length out' =
      map (\<lambda>j. length (out ! j) + (if i \<le> j \<and> j < i + length (a # arms) then 1 else 0)) [0..<length out]"
    unfolding ih(2) using Cons.prems(1) by (intro nth_equalityI) (auto simp: nth_list_update)
  ultimately show ?case using ih(1) by simp
qed

lemma repetitions_failures:
  assumes "length out = length arms" "\<forall>x \<in> set out. length x = m"
    "repetitions n (once runs) arms (out, w, f) = (out', w', f')"
  shows "f' + all_failing out = f + all_failing out' \<and> length out' = length arms \<and>
    (\<forall>x \<in> set out'. length x = m + n)"
  using assms
proof (induction n arbitrary: out w f m)
  case (Suc n)
  obtain o1 w1 f1 where o: "one_rep (once runs) arms 0 (out, w, f) = (o1, w1, f1)" by (metis prod_cases3)
  have one: "f1 + all_failing out = f + all_failing o1"
    "map length o1 = map (\<lambda>j. length (out ! j) + (if 0 \<le> j \<and> j < 0 + length arms then 1 else 0)) [0..<length out]"
    using one_rep_failures [OF _ o] Suc.prems(1) by simp_all
  have len: "length o1 = length arms" using arg_cong [OF one(2), of length] Suc.prems(1) by simp
  have "length (o1 ! j) = Suc m" if "j < length o1" for j
    using arg_cong [OF one(2), of "\<lambda>l. l ! j"] that len Suc.prems(1,2) by simp
  then have "\<forall>x \<in> set o1. length x = Suc m" by (metis in_set_conv_nth)
  moreover have "repetitions n (once runs) arms (o1, w1, f1) = (out', w', f')"
    using Suc.prems(3) o by simp
  ultimately have "f' + all_failing o1 = f1 + all_failing out' \<and> length out' = length arms \<and>
      (\<forall>x \<in> set out'. length x = Suc m + n)"
    using Suc.IH [OF len] by blast
  then show ?case using one(1) by simp
qed simp

text \<open>
  A comparison passes over no repetition: every arm is run three times, and the failures it adds are
  the failing checks of the results it keeps, all of them.
\<close>

theorem interleaved_counts_failures:
  "length (fst (interleaved (once runs) arms (w, f))) = length arms \<and>
   list_all (\<lambda>rs. length rs = 3) (fst (interleaved (once runs) arms (w, f))) \<and>
   snd (snd (interleaved (once runs) arms (w, f))) =
     f + all_failing (fst (interleaved (once runs) arms (w, f)))"
proof -
  obtain out' w' f' where r: "interleaved (once runs) arms (w, f) = (out', w', f')" by (metis prod_cases3)
  then have "repetitions 3 (once runs) arms (replicate (length arms) [], w, f) = (out', w', f')"
    by (simp add: interleaved_def)
  from repetitions_failures [OF _ _ this, of 0] show ?thesis
    by (simp add: r list_all_iff all_failing_def)
qed

section \<open>Runs that fit their rings\<close>

text \<open>The kinds of queue the phases run, and the runs of the invariants phase (bench/invariants.cpp).\<close>

definition shared_queue :: queue_kind where
  "shared_queue = \<lparr>qk_ids = False, qk_try_push = True, qk_try_pop = True, qk_batch = False,
     qk_positions = True, qk_rings = None\<rparr>"

definition locked_queue :: queue_kind where
  "locked_queue = \<lparr>qk_ids = False, qk_try_push = True, qk_try_pop = True, qk_batch = True,
     qk_positions = False, qk_rings = None\<rparr>"

definition sharded_queue :: "nat \<Rightarrow> nat \<Rightarrow> queue_kind" where
  "sharded_queue p c = \<lparr>qk_ids = True, qk_try_push = False, qk_try_pop = False, qk_batch = False,
     qk_positions = True, qk_rings = Some (p, c)\<rparr>"

definition invariant_runs :: "u64 \<Rightarrow> (queue_kind \<times> run_spec) list" where
  "invariant_runs kScale =
     (let full = default_spec\<lparr>rs_events := 200000 div kScale\<rparr>;
          reject = full\<lparr>rs_mode := Reject\<rparr>; mixed = full\<lparr>rs_mode := Mixed\<rparr>;
          wrap = default_spec\<lparr>rs_producers := 8, rs_consumers := 8, rs_events := 250000 div kScale\<rparr>;
          wrap_in = (\<lambda>m. wrap\<lparr>rs_mode := m\<rparr>);
          rings = sharded_queue kProducers kConsumers; tiny = sharded_queue 8 8
      in [(shared_queue, full), (shared_queue, full), (shared_queue, full), (locked_queue, full),
          (shared_queue, full), (shared_queue, full), (rings, full),
          (shared_queue, reject), (rings, reject), (shared_queue, mixed),
          (shared_queue, wrap_in Reject), (shared_queue, wrap_in Block), (shared_queue, wrap_in Block),
          (shared_queue, wrap_in Mixed), (shared_queue, wrap_in Block), (shared_queue, wrap_in Block),
          (tiny, wrap_in Reject), (tiny, wrap_in Block), (tiny, wrap_in Mixed)])"

text \<open>
  No run of the invariants, shutdown, stall or skew phases is refused because its thread counts are
  not those its rings were built for.
\<close>

theorem ring_runs_fit:
  "list_all (\<lambda>(k, spec). counts_fit k spec) (invariant_runs kScale) \<and>
   counts_fit (sharded_queue kProducers kConsumers) load_spec \<and>
   counts_fit (sharded_queue 8 8) (round_spec mode n) \<and>
   counts_fit (sharded_queue kProducers kConsumers) stalled_spec \<and>
   counts_fit (sharded_queue kProducers kConsumers) (skewed_spec rate share work)"
  by (simp add: invariant_runs_def counts_fit_def Let_def shared_queue_def locked_queue_def
      sharded_queue_def default_spec_def load_spec_def round_spec_def stalled_spec_def skewed_spec_def)

section \<open>Nobody consuming\<close>

text \<open>
  The check that exactly 65,536 events are accepted when nobody consumes: if the accepted count of
  the run is the number of pushes of the modelled queue that returned ok, and some push was refused,
  the check holds, for every interleaving of the producers.
\<close>

theorem no_consumers_accepts_capacity:
  fixes tr :: "'a wev list"
  assumes "length xs < 2 ^ 61" "list_all pushes_only xs"
  defines "s \<equiv> wsys_run False xs (new_wsys kCapacity)"
  assumes "\<forall>t. w_pcs s t = Idle" "EvPush t PushFull \<in> set (w_trace s)"
    and "rr_accepted r = of_nat (length (ok_by (w_trace s)))"
  shows "hd (no_consumers_checks r)"
proof -
  have "ring_cap kCapacity" by (simp add: ring_cap_def has_single_bit_def kCapacity_def)
  moreover have "kCapacity \<le> 2 ^ 61" by (simp add: kCapacity_def)
  ultimately have "length (ok_by (w_trace s)) = kCapacity"
    using quiet_fill(2) [of kCapacity xs t] assms(1-5) by (simp add: s_def)
  then show ?thesis using assms(6) by (simp add: no_consumers_checks_def)
qed

end
