(* ===== verification/Mutex_Queue.thy ===== *)
theory Mutex_Queue
  imports Tq_Api
begin

text \<open>
  mpmc-work-queue-kata/cpp/src/mutex_queue.hpp: a ring under one mutex with two condition
  variables. Every critical section is one step. A wait on a condition variable gives the lock
  away: the list of wake-ups an operation sees says, for each, whether the wait timed out and
  what the other threads made of the queue in between; running out of the list is an operation
  still asleep, \<open>None\<close>. What an operation notifies is part of its result.
\<close>

record 'a mutex_queue =
  ring_buf :: "'a list"
  mq_head :: nat
  mq_size :: nat
  mq_closed :: bool

datatype signal = NotEmptyOne | NotEmptyAll | NotFullOne | NotFullAll

type_synonym 'a wakeup = "bool \<times> ('a mutex_queue \<Rightarrow> 'a mutex_queue)"

definition new_mutex_queue :: "nat \<Rightarrow> 'a \<Rightarrow> 'a mutex_queue" where
  "new_mutex_queue n d = \<lparr>ring_buf = replicate n d, mq_head = 0, mq_size = 0, mq_closed = False\<rparr>"

definition mq_cap :: "'a mutex_queue \<Rightarrow> nat" where
  "mq_cap q = length (ring_buf q)"

definition put :: "'a \<Rightarrow> 'a mutex_queue \<Rightarrow> 'a mutex_queue" where
  "put v q =
     q\<lparr>ring_buf := (ring_buf q)[(mq_head q + mq_size q) mod mq_cap q := v],
       mq_size := mq_size q + 1\<rparr>"

definition take_one :: "'a mutex_queue \<Rightarrow> 'a \<times> 'a mutex_queue" where
  "take_one q =
     (ring_buf q ! mq_head q,
      q\<lparr>mq_head := (mq_head q + 1) mod mq_cap q, mq_size := mq_size q - 1\<rparr>)"

definition mtry_push :: "'a \<Rightarrow> 'a mutex_queue \<Rightarrow> push_res \<times> 'a mutex_queue \<times> signal list" where
  "mtry_push v q =
     (if mq_closed q then (PushClosed, q, [])
      else if mq_size q = mq_cap q then (PushFull, q, [])
      else (PushOk, put v q, [NotEmptyOne]))"

definition mtry_pop :: "'a mutex_queue \<Rightarrow> pop_res \<times> 'a option \<times> 'a mutex_queue \<times> signal list" where
  "mtry_pop q =
     (if mq_size q = 0 then (PopEmpty, None, q, [])
      else let (v, q1) = take_one q in (PopOk, Some v, q1, [NotFullOne]))"

text \<open>The wait loop of \<open>push\<close> and \<open>push_batch\<close>: true if it timed out.\<close>

fun await_room :: "'a wakeup list \<Rightarrow> 'a mutex_queue \<Rightarrow> op_stats
    \<Rightarrow> (bool \<times> 'a wakeup list \<times> 'a mutex_queue \<times> op_stats) option" where
  "await_room ws q st =
     (if \<not> mq_closed q \<and> mq_size q = mq_cap q then
        (case ws of
           [] \<Rightarrow> None
         | (timed_out, others) # ws1 \<Rightarrow>
             (let q1 = others q; st1 = st\<lparr>parks := parks st + 1\<rparr> in
              if timed_out \<and> mq_size q1 = mq_cap q1 \<and> \<not> mq_closed q1
              then Some (True, ws1, q1, st1)
              else await_room ws1 q1 st1))
      else Some (False, ws, q, st))"

declare await_room.simps [simp del]

definition mpush :: "'a \<Rightarrow> 'a wakeup list \<Rightarrow> 'a mutex_queue \<Rightarrow> op_stats
    \<Rightarrow> (push_res \<times> 'a mutex_queue \<times> op_stats \<times> signal list) option" where
  "mpush v ws q st =
     (case await_room ws q st of
        None \<Rightarrow> None
      | Some (True, ws1, q1, st1) \<Rightarrow> Some (PushTimeout, q1, st1, [])
      | Some (False, ws1, q1, st1) \<Rightarrow>
          if mq_closed q1 then Some (PushClosed, q1, st1, [])
          else Some (PushOk, put v q1, st1, [NotEmptyOne]))"

text \<open>\<open>while (done < n && size_ < N) put(items[done++])\<close>: the items left over are the result.\<close>

fun put_all :: "'a list \<Rightarrow> 'a mutex_queue \<Rightarrow> 'a list \<times> 'a mutex_queue" where
  "put_all [] q = ([], q)"
| "put_all (v # vs) q = (if mq_size q < mq_cap q then put_all vs (put v q) else (v # vs, q))"

text \<open>
  \<open>push_batch\<close>: the outer loop gives the lock up after every fill, so each round also starts from
  what the others made of the queue. The result is the number accepted.
\<close>

fun mpush_batch :: "'a list \<Rightarrow> nat \<Rightarrow> 'a wakeup list \<Rightarrow> ('a mutex_queue \<Rightarrow> 'a mutex_queue) list
    \<Rightarrow> 'a mutex_queue \<Rightarrow> op_stats
    \<Rightarrow> (nat \<times> 'a mutex_queue \<times> op_stats \<times> signal list) option" where
  "mpush_batch [] d ws gaps q st = Some (d, q, st, [])"
| "mpush_batch (v # vs) d ws gaps q st =
     (case await_room ws q st of
        None \<Rightarrow> None
      | Some (True, ws1, q1, st1) \<Rightarrow> Some (d, q1, st1, [NotEmptyAll])
      | Some (False, ws1, q1, st1) \<Rightarrow>
          if mq_closed q1 then Some (d, q1, st1, [])
          else (let (rest, q2) = put_all (v # vs) q1 in
                case gaps of
                  [] \<Rightarrow>
                    if rest = [] then Some (d + length (v # vs), q2, st1, [NotEmptyAll]) else None
                | gap # gaps1 \<Rightarrow>
                    map_option (\<lambda>(n, q3, st3, sg). (n, q3, st3, NotEmptyAll # sg))
                      (mpush_batch rest (d + (length (v # vs) - length rest)) ws1 gaps1 (gap q2) st1)))"

text \<open>The wait loop of \<open>pop\<close> and \<open>pop_batch\<close>.\<close>

datatype pop_wait = HasItems | WaitDrained | WaitTimeout

fun await_item :: "'a wakeup list \<Rightarrow> 'a mutex_queue \<Rightarrow> op_stats
    \<Rightarrow> (pop_wait \<times> 'a mutex_queue \<times> op_stats) option" where
  "await_item ws q st =
     (if mq_size q = 0 then
        if mq_closed q then Some (WaitDrained, q, st)
        else (case ws of
           [] \<Rightarrow> None
         | (timed_out, others) # ws1 \<Rightarrow>
             (let q1 = others q; st1 = st\<lparr>parks := parks st + 1\<rparr> in
              if timed_out \<and> mq_size q1 = 0
              then Some (if mq_closed q1 then WaitDrained else WaitTimeout, q1, st1)
              else await_item ws1 q1 st1))
      else Some (HasItems, q, st))"

declare await_item.simps [simp del]

definition mpop :: "'a wakeup list \<Rightarrow> 'a mutex_queue \<Rightarrow> op_stats
    \<Rightarrow> (pop_res \<times> 'a option \<times> 'a mutex_queue \<times> op_stats \<times> signal list) option" where
  "mpop ws q st =
     (case await_item ws q st of
        None \<Rightarrow> None
      | Some (HasItems, q1, st1) \<Rightarrow>
          (let (v, q2) = take_one q1 in Some (PopOk, Some v, q2, st1, [NotFullOne]))
      | Some (WaitDrained, q1, st1) \<Rightarrow> Some (PopDrained, None, q1, st1, [])
      | Some (WaitTimeout, q1, st1) \<Rightarrow> Some (PopTimeout, None, q1, st1, []))"

fun take_upto :: "nat \<Rightarrow> 'a mutex_queue \<Rightarrow> 'a list \<times> 'a mutex_queue" where
  "take_upto 0 q = ([], q)"
| "take_upto (Suc m) q =
     (if mq_size q > 0 then
        let (v, q1) = take_one q; (vs, q2) = take_upto m q1 in (v # vs, q2)
      else ([], q))"

definition mpop_batch :: "nat \<Rightarrow> 'a wakeup list \<Rightarrow> 'a mutex_queue \<Rightarrow> op_stats
    \<Rightarrow> ('a list \<times> 'a mutex_queue \<times> op_stats \<times> signal list) option" where
  "mpop_batch m ws q st =
     (case await_item ws q st of
        None \<Rightarrow> None
      | Some (HasItems, q1, st1) \<Rightarrow>
          (let (vs, q2) = take_upto m q1 in Some (vs, q2, st1, [NotFullAll]))
      | Some (_, q1, st1) \<Rightarrow> Some ([], q1, st1, []))"

definition mclose :: "'a mutex_queue \<Rightarrow> 'a mutex_queue \<times> signal list" where
  "mclose q = (q\<lparr>mq_closed := True\<rparr>, [NotEmptyAll, NotFullAll])"

definition mclosed :: "'a mutex_queue \<Rightarrow> bool" where
  "mclosed q \<longleftrightarrow> mq_closed q"

section \<open>The ring\<close>

definition mq_inv :: "'a mutex_queue \<Rightarrow> bool" where
  "mq_inv q \<longleftrightarrow> 0 < mq_cap q \<and> mq_head q < mq_cap q \<and> mq_size q \<le> mq_cap q"

definition mq_contents :: "'a mutex_queue \<Rightarrow> 'a list" where
  "mq_contents q = seg (ring_buf q) (mq_head q) (mq_head q + mq_size q)"

lemma length_mq_contents [simp]: "length (mq_contents q) = mq_size q"
  by (simp add: mq_contents_def)

lemma put_facts:
  assumes "mq_inv q" "mq_size q < mq_cap q"
  shows "mq_inv (put v q)" "mq_cap (put v q) = mq_cap q" "mq_size (put v q) = mq_size q + 1"
    "mq_closed (put v q) = mq_closed q" "mq_contents (put v q) = mq_contents q @ [v]"
  using assms seg_push [of "mq_head q" "mq_head q + mq_size q" "ring_buf q" v]
  by (simp_all add: mq_inv_def mq_cap_def put_def mq_contents_def)

lemma seg_shift_mod:
  "h \<le> t \<Longrightarrow> seg xs (h mod length xs) (h mod length xs + (t - h)) = seg xs h t"
  by (rule nth_equalityI) (simp_all add: seg_nth mod_add_left_eq)

lemma take_one_facts:
  assumes "mq_inv q" "0 < mq_size q" "take_one q = (v, q1)"
  shows "mq_inv q1" "mq_cap q1 = mq_cap q" "mq_size q1 = mq_size q - 1" "mq_closed q1 = mq_closed q"
    "mq_contents q = v # mq_contents q1"
proof -
  have q1: "q1 = q\<lparr>mq_head := (mq_head q + 1) mod mq_cap q, mq_size := mq_size q - 1\<rparr>"
    and v: "v = ring_buf q ! mq_head q" using assms(3) by (auto simp: take_one_def)
  show "mq_inv q1" "mq_cap q1 = mq_cap q" "mq_size q1 = mq_size q - 1" "mq_closed q1 = mq_closed q"
    using assms(1) by (auto simp: q1 mq_inv_def mq_cap_def)
  have "mq_contents q = ring_buf q ! (mq_head q mod length (ring_buf q)) #
      seg (ring_buf q) (Suc (mq_head q)) (mq_head q + mq_size q)"
    unfolding mq_contents_def using assms(2) by (intro seg_Cons) simp
  then show "mq_contents q = v # mq_contents q1"
    using assms seg_shift_mod [of "mq_head q + 1" "mq_head q + mq_size q" "ring_buf q"]
    by (simp add: q1 v mq_contents_def mq_inv_def mq_cap_def)
qed

lemma new_mutex_queue_inv: "0 < n \<Longrightarrow> mq_inv (new_mutex_queue n d)"
  by (simp add: new_mutex_queue_def mq_inv_def mq_cap_def)

interpretation mutex: bounded_fifo mq_cap "\<lambda>q. mq_inv q \<and> \<not> mq_closed q" mq_contents
  "\<lambda>v q. (fst (mtry_push v q) = PushOk, fst (snd (mtry_push v q)))"
  "\<lambda>q. (fst (snd (mtry_pop q)), fst (snd (snd (mtry_pop q))))"
proof unfold_locales
  fix q :: "'a mutex_queue" and x
  assume inv: "mq_inv q \<and> \<not> mq_closed q"
  then have le: "mq_size q \<le> mq_cap q" and mq: "mq_inv q" by (auto simp: mq_inv_def)
  then show "length (mq_contents q) \<le> mq_cap q" by simp
  have push: "mtry_push x q = (if mq_size q < mq_cap q then (PushOk, put x q, [NotEmptyOne])
      else (PushFull, q, []))" using inv le by (auto simp: mtry_push_def)
  let ?e = "(fst (mtry_push x q) = PushOk, fst (snd (mtry_push x q)))"
  show "mq_inv (snd ?e) \<and> \<not> mq_closed (snd ?e)" "mq_cap (snd ?e) = mq_cap q"
    "fst ?e \<longleftrightarrow> length (mq_contents q) < mq_cap q"
    "mq_contents (snd ?e) = (if fst ?e then mq_contents q @ [x] else mq_contents q)"
    using inv push put_facts [OF mq, of x] by auto
  obtain v q1 where t: "take_one q = (v, q1)" by (cases "take_one q")
  have pop: "mtry_pop q = (if mq_size q = 0 then (PopEmpty, None, q, [])
      else (PopOk, Some v, q1, [NotFullOne]))" by (simp add: mtry_pop_def t)
  let ?d = "(fst (snd (mtry_pop q)), fst (snd (snd (mtry_pop q))))"
  have empty: "mq_contents q = []" if "mq_size q = 0"
    using that by (simp add: mq_contents_def)
  show "mq_inv (snd ?d) \<and> \<not> mq_closed (snd ?d)" "mq_cap (snd ?d) = mq_cap q"
    "fst ?d = (case mq_contents q of [] \<Rightarrow> None | x # _ \<Rightarrow> Some x)"
    "mq_contents (snd ?d) = tl (mq_contents q)"
    using inv pop empty take_one_facts [OF mq _ t] by (cases "mq_size q = 0"; simp)+
qed

text \<open>
  C18: Any script of \<open>try_push\<close> and \<open>try_pop\<close> on an open mutex queue returns what a list bounded
  by the capacity returns and leaves that list, wherever in its buffer the ring stands.
\<close>

theorem mutex_queue_refines_fifo:
  assumes "mq_inv q" "\<not> mq_closed q"
    and "run_ops (impl_step (\<lambda>v q. (fst (mtry_push v q) = PushOk, fst (snd (mtry_push v q))))
        (\<lambda>q. (fst (snd (mtry_pop q)), fst (snd (snd (mtry_pop q)))))) q ps = (rs, q')"
  shows "run_ops (spec_step (mq_cap q)) (mq_contents q) ps = (rs, mq_contents q') \<and>
    length (mq_contents q') \<le> mq_cap q"
  using mutex.run_simulates [OF conjI [OF assms(1,2)] assms(3)]
    mutex.run_bounded [OF conjI [OF assms(1,2)] assms(3)] by simp

theorem mutex_queue_refines_fifo_witness:
  "let (rs, q) = run_ops (impl_step (\<lambda>v q. (fst (mtry_push v q) = PushOk, fst (snd (mtry_push v q))))
        (\<lambda>q. (fst (snd (mtry_pop q)), fst (snd (snd (mtry_pop q))))))
      (new_mutex_queue 2 (0 :: nat)) [Enq 5, Enq 6, Deq, Enq 7]
   in run_ops (spec_step 2) [] [Enq 5, Enq 6, Deq, Enq 7] = (rs, mq_contents q)"
  using mutex_queue_refines_fifo [of "new_mutex_queue 2 (0 :: nat)" "[Enq 5, Enq 6, Deq, Enq 7]"]
  by (simp add: new_mutex_queue_inv split_beta)
    (simp add: new_mutex_queue_def mq_cap_def mq_contents_def)

section \<open>Blocking operations\<close>

text \<open>What the other threads do between sleeping and waking keeps the invariant and the capacity.\<close>

definition tame :: "'a wakeup list \<Rightarrow> bool" where
  "tame ws \<longleftrightarrow> (\<forall>(t, f) \<in> set ws. \<forall>q. mq_inv q \<longrightarrow> mq_inv (f q) \<and> mq_cap (f q) = mq_cap q)"

lemma tame_Cons: "tame ((t, f) # ws) \<longleftrightarrow>
    (\<forall>q. mq_inv q \<longrightarrow> mq_inv (f q) \<and> mq_cap (f q) = mq_cap q) \<and> tame ws"
  by (simp add: tame_def)

lemma await_room_full:
  "\<not> mq_closed q \<Longrightarrow> mq_size q = mq_cap q \<Longrightarrow> await_room ((t, f) # ws) q st =
    (if t \<and> mq_size (f q) = mq_cap (f q) \<and> \<not> mq_closed (f q)
     then Some (True, ws, f q, st\<lparr>parks := parks st + 1\<rparr>)
     else await_room ws (f q) (st\<lparr>parks := parks st + 1\<rparr>))"
  by (subst await_room.simps) (simp add: Let_def)

lemma await_item_empty:
  "\<not> mq_closed q \<Longrightarrow> mq_size q = 0 \<Longrightarrow> await_item ((t, f) # ws) q st =
    (if t \<and> mq_size (f q) = 0
     then Some (if mq_closed (f q) then WaitDrained else WaitTimeout, f q, st\<lparr>parks := parks st + 1\<rparr>)
     else await_item ws (f q) (st\<lparr>parks := parks st + 1\<rparr>))"
  by (subst await_item.simps) (simp add: Let_def)

lemma await_room_cases:
  "mq_inv q \<Longrightarrow> tame ws \<Longrightarrow> await_room ws q st = Some (b, ws1, q1, st1) \<Longrightarrow>
   mq_inv q1 \<and> mq_cap q1 = mq_cap q \<and> tame ws1 \<and>
   (if b then \<not> mq_closed q1 \<and> mq_size q1 = mq_cap q1 else mq_closed q1 \<or> mq_size q1 < mq_cap q1)"
proof (induction ws q st rule: await_room.induct)
  case (1 ws q st)
  show ?case
  proof (cases "\<not> mq_closed q \<and> mq_size q = mq_cap q")
    case False
    then show ?thesis
      using 1(2-4) by (auto simp: await_room.simps [of ws q st] mq_inv_def)
  next
    case full: True
    then obtain t f ws2 where ws: "ws = (t, f) # ws2"
      using 1(4) by (cases ws) (auto simp: await_room.simps [of "[]" q st])
    have f: "mq_inv (f q)" "mq_cap (f q) = mq_cap q" "tame ws2" using 1(2,3) ws by (auto simp: tame_Cons)
    show ?thesis
    proof (cases "t \<and> mq_size (f q) = mq_cap (f q) \<and> \<not> mq_closed (f q)")
      case True
      then show ?thesis
        using 1(4) ws full f by (auto simp: await_room_full)
    next
      case False
      have "await_room ws2 (f q) (st\<lparr>parks := parks st + 1\<rparr>) = Some (b, ws1, q1, st1)"
        using 1(4) unfolding ws await_room_full [OF conjunct1 [OF full] conjunct2 [OF full]] if_not_P [OF False] .
      from 1(1) [OF full ws refl refl refl False f(1) f(3) this] show ?thesis
        unfolding f(2) .
    qed
  qed
qed

lemma await_room_now:
  "mq_closed q \<or> mq_size q \<noteq> mq_cap q \<Longrightarrow> await_room ws q st = Some (False, ws, q, st)"
  by (subst await_room.simps) auto

lemma await_item_cases:
  "mq_inv q \<Longrightarrow> tame ws \<Longrightarrow> await_item ws q st = Some (r, q1, st1) \<Longrightarrow>
   mq_inv q1 \<and> mq_cap q1 = mq_cap q \<and>
   (case r of HasItems \<Rightarrow> 0 < mq_size q1
    | WaitDrained \<Rightarrow> mq_size q1 = 0 \<and> mq_closed q1
    | WaitTimeout \<Rightarrow> mq_size q1 = 0 \<and> \<not> mq_closed q1)"
proof (induction ws q st rule: await_item.induct)
  case (1 ws q st)
  show ?case
  proof (cases "mq_size q = 0 \<and> \<not> mq_closed q")
    case False
    then show ?thesis using 1(2-4) by (auto simp: await_item.simps [of ws q st] split: if_splits)
  next
    case empty: True
    then obtain t f ws2 where ws: "ws = (t, f) # ws2"
      using 1(4) by (cases ws) (auto simp: await_item.simps [of "[]" q st])
    have f: "mq_inv (f q)" "mq_cap (f q) = mq_cap q" "tame ws2" using 1(2,3) ws by (auto simp: tame_Cons)
    show ?thesis
    proof (cases "t \<and> mq_size (f q) = 0")
      case True
      then show ?thesis
        using 1(4) ws empty f by (auto simp: await_item_empty)
    next
      case False
      have "await_item ws2 (f q) (st\<lparr>parks := parks st + 1\<rparr>) = Some (r, q1, st1)"
        using 1(4) unfolding ws await_item_empty [OF conjunct2 [OF empty] conjunct1 [OF empty]] if_not_P [OF False] .
      from 1(1) [OF conjunct1 [OF empty] conjunct2 [OF empty] ws refl refl refl False f(1) f(3) this]
      show ?thesis using f(2) by simp
    qed
  qed
qed

text \<open>
  Whatever the other threads do while it sleeps, a blocking push that returns is right about
  the queue it returns on: ok has appended the value to an open queue that had room, closed
  was returned on a closed queue and timeout on an open, full one; it never answers full; and only
  a push that started on an open, full queue can still be asleep after all its wake-ups.
\<close>

theorem mutex_push_outcomes:
  assumes "mq_inv q" "tame ws"
  shows "case mpush v ws q st of
      None \<Rightarrow> \<not> mq_closed q \<and> mq_size q = mq_cap q
    | Some (r, q', st', sg) \<Rightarrow>
        mq_inv q' \<and> mq_cap q' = mq_cap q \<and>
        (r = PushOk \<longrightarrow> \<not> mq_closed q' \<and> sg = [NotEmptyOne] \<and>
           (\<exists>xs. length xs < mq_cap q \<and> mq_contents q' = xs @ [v])) \<and>
        (r = PushClosed \<longrightarrow> mq_closed q') \<and>
        (r = PushTimeout \<longrightarrow> \<not> mq_closed q' \<and> mq_size q' = mq_cap q) \<and> r \<noteq> PushFull"
proof (cases "await_room ws q st")
  case None
  then show ?thesis using await_room_now [of q ws st] by (auto simp: mpush_def)
next
  case (Some x)
  then obtain b ws1 q1 st1 where x: "await_room ws q st = Some (b, ws1, q1, st1)"
    by (cases x) auto
  note r = await_room_cases [OF assms x]
  show ?thesis
  proof (cases "b \<or> mq_closed q1")
    case True
    then show ?thesis using x r by (cases b) (auto simp: mpush_def)
  next
    case False
    then have q1: "mq_inv q1" "mq_size q1 < mq_cap q1" using r by auto
    then show ?thesis
      using x r False put_facts [OF q1, of v] by (auto simp: mpush_def)
  qed
qed

theorem mutex_push_outcomes_witness:
  "fst (the (mpush 9 [(True, id)] ((new_mutex_queue 1 (0 :: nat))\<lparr>mq_size := 1\<rparr>) no_stats)) = PushTimeout"
proof -
  have "mpush 9 [(True, id)] ((new_mutex_queue 1 (0 :: nat))\<lparr>mq_size := 1\<rparr>) no_stats =
      Some (PushTimeout, (new_mutex_queue 1 0)\<lparr>mq_size := 1\<rparr>, no_stats\<lparr>parks := 1\<rparr>, [])"
    by (simp add: mpush_def await_room.simps new_mutex_queue_def mq_cap_def Let_def no_stats_def)
  then show ?thesis
    using mutex_push_outcomes [of "(new_mutex_queue 1 (0 :: nat))\<lparr>mq_size := 1\<rparr>" "[(True, id)]" 9 no_stats]
    by (simp add: mq_inv_def mq_cap_def new_mutex_queue_def tame_def)
qed

text \<open>A whole drain: pop until the queue says it is drained.\<close>

fun mdrain :: "nat \<Rightarrow> 'a mutex_queue \<Rightarrow> op_stats \<Rightarrow> 'a list \<times> pop_res \<times> 'a mutex_queue" where
  "mdrain 0 q st = ([], PopTimeout, q)"
| "mdrain (Suc k) q st =
     (case mpop [] q st of
        Some (PopOk, Some v, q1, st1, sg) \<Rightarrow> (let (vs, r, q2) = mdrain k q1 st1 in (v # vs, r, q2))
      | Some (r, _, q1, st1, sg) \<Rightarrow> ([], r, q1)
      | None \<Rightarrow> ([], PopTimeout, q))"

text \<open>
  After a close no push is accepted and none sleeps, and consumers get everything accepted
  before it, in order, before they are told the queue is drained: size + 1 pops return the whole
  contents and then drained, without a park.
\<close>

theorem mutex_close_drains:
  assumes "mq_inv q"
  defines "qc \<equiv> fst (mclose q)"
  shows "mpush v ws qc st = Some (PushClosed, qc, st, []) \<and>
    (\<exists>q'. mdrain (mq_size q + 1) qc st = (mq_contents q, PopDrained, q') \<and> mq_size q' = 0)"
proof -
  have drain: "\<exists>q'. mdrain (n + 1) p st = (mq_contents p, PopDrained, q') \<and> mq_size q' = 0"
    if "mq_inv p" "mq_closed p" "mq_size p = n" for n and p :: "'a mutex_queue" and st
    using that
  proof (induction n arbitrary: p st)
    case 0
    then show ?case
      by (simp add: mpop_def await_item.simps mq_contents_def)
  next
    case (Suc n)
    obtain x p1 where t: "take_one p = (x, p1)" by (cases "take_one p")
    note f = take_one_facts [OF Suc.prems(1) _ t]
    have "\<exists>q'. mdrain (n + 1) p1 st = (mq_contents p1, PopDrained, q') \<and> mq_size q' = 0"
      using f Suc.prems by (intro Suc.IH) simp_all
    moreover have "mpop [] p st = Some (PopOk, Some x, p1, st, [NotFullOne])"
      using t Suc.prems(3) by (simp add: mpop_def await_item.simps)
    ultimately show ?case using f(5) Suc.prems(3) by auto
  qed
  have "mq_inv qc" "mq_closed qc" "mq_size qc = mq_size q" "mq_contents qc = mq_contents q"
    using assms(1) by (simp_all add: qc_def mclose_def mq_inv_def mq_cap_def mq_contents_def)
  moreover from this have "mpush v ws qc st = Some (PushClosed, qc, st, [])"
    by (simp add: mpush_def await_room_now)
  ultimately show ?thesis using drain [of qc "mq_size q" st] by auto
qed

theorem mutex_close_drains_witness:
  "mpush 9 [] (fst (mclose (new_mutex_queue 2 (0 :: nat)))) no_stats =
    Some (PushClosed, fst (mclose (new_mutex_queue 2 (0 :: nat))), no_stats, [])"
  using mutex_close_drains [OF new_mutex_queue_inv, of 2 9 "[]" "0 :: nat" no_stats] by simp

lemma put_all_fits:
  "mq_inv q \<Longrightarrow> mq_size q + length vs \<le> mq_cap q \<Longrightarrow>
   \<exists>q'. put_all vs q = ([], q') \<and> mq_inv q' \<and> mq_cap q' = mq_cap q \<and>
     mq_closed q' = mq_closed q \<and> mq_contents q' = mq_contents q @ vs"
proof (induction vs arbitrary: q)
  case (Cons v vs)
  then have room: "mq_size q < mq_cap q" by simp
  note f = put_facts [OF Cons.prems(1) room, of v]
  show ?case using Cons.IH [of "put v q"] f Cons.prems room by auto
qed simp

lemma take_upto_contents:
  "mq_inv q \<Longrightarrow> take_upto m q = (vs, q') \<Longrightarrow>
   vs = take m (mq_contents q) \<and> mq_contents q' = drop m (mq_contents q) \<and> mq_inv q' \<and>
   mq_cap q' = mq_cap q"
proof (induction m arbitrary: q vs q')
  case (Suc m)
  show ?case
  proof (cases "mq_size q > 0")
    case True
    obtain v q1 where t: "take_one q = (v, q1)" by (cases "take_one q")
    obtain ws q2 where r: "take_upto m q1 = (ws, q2)" by (cases "take_upto m q1")
    note f = take_one_facts [OF Suc.prems(1) True t]
    show ?thesis using Suc.IH [OF f(1) r] Suc.prems(2) t r True f by auto
  next
    case False
    then show ?thesis using Suc.prems by (auto simp: mq_contents_def)
  qed
qed auto

text \<open>
  The batch calls are so many single ones under one lock: a batch that fits an open queue is
  accepted whole, in order, behind what is there; a batch popped from a queue with anything in it
  is the first \<open>m\<close> events, and the rest stays.
\<close>

theorem mutex_batches:
  assumes "mq_inv q" "\<not> mq_closed q"
  shows "(mq_size q + length vs \<le> mq_cap q \<longrightarrow>
      (\<exists>q' sg. mpush_batch vs 0 ws [] q st = Some (length vs, q', st, sg) \<and>
         mq_contents q' = mq_contents q @ vs \<and> mq_inv q')) \<and>
    (0 < mq_size q \<longrightarrow>
      (\<exists>q'. mpop_batch m ws q st = Some (take m (mq_contents q), q', st, [NotFullAll]) \<and>
         mq_contents q' = drop m (mq_contents q) \<and> mq_inv q'))"
proof (intro conjI impI)
  assume fits: "mq_size q + length vs \<le> mq_cap q"
  obtain q' where p: "put_all vs q = ([], q')" "mq_inv q'" "mq_contents q' = mq_contents q @ vs"
    using put_all_fits [OF assms(1) fits] by blast
  show "\<exists>q' sg. mpush_batch vs 0 ws [] q st = Some (length vs, q', st, sg) \<and>
      mq_contents q' = mq_contents q @ vs \<and> mq_inv q'"
  proof (cases vs)
    case Nil
    then show ?thesis using assms(1) by simp
  next
    case (Cons a us)
    then have "await_room ws q st = Some (False, ws, q, st)" using fits by (intro await_room_now) simp
    then show ?thesis using Cons p assms by simp
  qed
next
  assume "0 < mq_size q"
  then have "await_item ws q st = Some (HasItems, q, st)" by (subst await_item.simps) simp
  moreover obtain us q' where t: "take_upto m q = (us, q')" by (cases "take_upto m q")
  ultimately show "\<exists>q'. mpop_batch m ws q st = Some (take m (mq_contents q), q', st, [NotFullAll]) \<and>
      mq_contents q' = drop m (mq_contents q) \<and> mq_inv q'"
    using take_upto_contents [OF assms(1) t] by (simp add: mpop_batch_def)
qed

theorem mutex_batches_witness:
  "\<exists>q' sg. mpush_batch [1, 2] 0 [] [] (new_mutex_queue 2 (0 :: nat)) no_stats =
    Some (2, q', no_stats, sg) \<and> mq_contents q' = [1, 2]"
  using mutex_batches [OF new_mutex_queue_inv [of 2 "0 :: nat"], of "[1, 2]" "[]" no_stats 0]
  by (auto simp: new_mutex_queue_def mq_cap_def mq_contents_def)

end
