(* ===== verification/Sharded_Ring.thy ===== *)
theory Sharded_Ring
  imports Tq_Api
begin

text \<open>
  One ring of mpmc-work-queue-kata/cpp/src/sharded_queue.hpp: an SPSC ring whose tail word carries
  a closed bit, with its one producer, its one consumer and the closing thread interleaving at
  every access to shared memory. The position in the tail word has 63 bits and the head 64, so the
  theorems assume that fewer than \<open>2 ^ 63\<close> events have been published.

  \<open>published\<close>, \<open>taken\<close> and \<open>at_close\<close> are history variables: no step reads them.
\<close>

section \<open>The ring\<close>

record 'a sring =
  sr_tail :: u64
  sr_cached_head :: u64
  sr_head :: u64
  sr_cached_tail :: u64
  sr_slots :: "'a list"

definition sr_closed_bit :: u64 where "sr_closed_bit = 1"

definition sr_cap :: "'a sring \<Rightarrow> nat" where "sr_cap r = length (sr_slots r)"

definition new_sring :: "nat \<Rightarrow> 'a \<Rightarrow> 'a sring" where
  "new_sring n x =
     \<lparr>sr_tail = 0, sr_cached_head = 0, sr_head = 0, sr_cached_tail = 0, sr_slots = replicate n x\<rparr>"

definition sr_closed :: "u64 \<Rightarrow> bool" where "sr_closed word \<longleftrightarrow> word AND sr_closed_bit \<noteq> 0"

definition tail_pos :: "u64 \<Rightarrow> u64" where "tail_pos word = drop_bit 1 word"

definition close_ring :: "'a sring \<Rightarrow> 'a sring" where
  "close_ring r = r\<lparr>sr_tail := sr_tail r OR sr_closed_bit\<rparr>"

section \<open>Accesses\<close>

text \<open>Where a push and a pop are, with their live local variables.\<close>

datatype 'a push_pc =
    PStart
  | PRefresh 'a u64    \<comment> \<open>believed full: about to load the head\<close>
  | PWrite 'a u64      \<comment> \<open>about to write the slot\<close>
  | PCommit 'a u64     \<comment> \<open>about to compare-and-swap the tail\<close>

datatype 'a pop_pc =
    DStart
  | DRefresh u64       \<comment> \<open>believed empty: about to load the tail\<close>
  | DRead u64          \<comment> \<open>about to read the slot\<close>
  | DRelease u64 'a    \<comment> \<open>about to store the head\<close>

text \<open>One access, with what the call returns if it was its last.\<close>

fun push_access ::
  "'a \<Rightarrow> 'a push_pc \<Rightarrow> 'a sring \<Rightarrow> 'a sring \<times> 'a push_pc \<times> push_res option" where
  "push_access v PStart r =
     (let word = sr_tail r; pos = tail_pos word in
      if sr_closed word then (r, PStart, Some PushClosed)
      else if pos - sr_cached_head r = of_nat (sr_cap r) then (r, PRefresh v word, None)
      else (r, PWrite v word, None))"
| "push_access v (PRefresh x word) r =
     (let pos = tail_pos word; r1 = r\<lparr>sr_cached_head := sr_head r\<rparr> in
      if pos - sr_cached_head r1 = of_nat (sr_cap r) then (r1, PStart, Some PushFull)
      else (r1, PWrite x word, None))"
| "push_access v (PWrite x word) r =
     (let pos = tail_pos word in
      (r\<lparr>sr_slots := (sr_slots r)[slot_ix (sr_cap r) pos := x]\<rparr>, PCommit x word, None))"
| "push_access v (PCommit x word) r =
     (if sr_tail r = word then (r\<lparr>sr_tail := word + 2\<rparr>, PStart, Some PushOk)
      else (r, PStart, Some PushClosed))"

fun pop_access :: "'a pop_pc \<Rightarrow> 'a sring \<Rightarrow> 'a sring \<times> 'a pop_pc \<times> 'a option option" where
  "pop_access DStart r =
     (let h = sr_head r in
      if h = sr_cached_tail r then (r, DRefresh h, None) else (r, DRead h, None))"
| "pop_access (DRefresh h) r =
     (let r1 = r\<lparr>sr_cached_tail := tail_pos (sr_tail r)\<rparr> in
      if h = sr_cached_tail r1 then (r1, DStart, Some None) else (r1, DRead h, None))"
| "pop_access (DRead h) r = (r, DRelease h (sr_slots r ! slot_ix (sr_cap r) h), None)"
| "pop_access (DRelease h x) r = (r\<lparr>sr_head := h + 1\<rparr>, DStart, Some (Some x))"

record 'a sring_sys =
  sy_ring :: "'a sring"
  sy_push :: "'a push_pc"
  sy_pop :: "'a pop_pc"
  published :: "'a list"
  taken :: "'a list"
  at_close :: "'a list option"

definition new_sring_sys :: "nat \<Rightarrow> 'a \<Rightarrow> 'a sring_sys" where
  "new_sring_sys n x = \<lparr>sy_ring = new_sring n x, sy_push = PStart, sy_pop = DStart,
     published = [], taken = [], at_close = None\<rparr>"

text \<open>The event a push that returned ok had in hand.\<close>

fun pc_event :: "'a push_pc \<Rightarrow> 'a list" where
  "pc_event (PCommit x word) = [x]"
| "pc_event _ = []"

datatype 'a sring_act = SPush 'a | SPop | SClose

fun sring_step :: "'a sring_act \<Rightarrow> 'a sring_sys \<Rightarrow> 'a sring_sys" where
  "sring_step (SPush v) s =
     (let (r, pc, res) = push_access v (sy_push s) (sy_ring s) in
      s\<lparr>sy_ring := r, sy_push := pc,
        published := published s @ (if res = Some PushOk then pc_event (sy_push s) else [])\<rparr>)"
| "sring_step SPop s =
     (let (r, pc, res) = pop_access (sy_pop s) (sy_ring s) in
      s\<lparr>sy_ring := r, sy_pop := pc,
        taken := taken s @ (case res of Some (Some x) \<Rightarrow> [x] | _ \<Rightarrow> [])\<rparr>)"
| "sring_step SClose s =
     s\<lparr>sy_ring := close_ring (sy_ring s),
       at_close := Some (case at_close s of None \<Rightarrow> published s | Some xs \<Rightarrow> xs)\<rparr>"

inductive sring_reach :: "nat \<Rightarrow> 'a \<Rightarrow> 'a sring_sys \<Rightarrow> bool" for n x where
  sring_start: "sring_reach n x (new_sring_sys n x)"
| sring_next: "sring_reach n x s \<Longrightarrow> sring_reach n x (sring_step a s)"

lemma sring_run: "sring_reach n x s \<Longrightarrow> sring_reach n x (fold sring_step as s)"
  by (induction "as" arbitrary: s) (simp_all add: sring_next)

section \<open>Tail words\<close>

text \<open>The tail word of position \<open>t\<close>, open or closed.\<close>

definition tail_word :: "nat \<Rightarrow> bool \<Rightarrow> u64" where
  "tail_word t closed = of_nat (2 * t + of_bool closed)"

lemma tail_pos_word: "t < 2 ^ 63 \<Longrightarrow> tail_pos (tail_word t c) = of_nat t"
proof -
  assume "t < 2 ^ 63"
  then have "unat (tail_word t c) = 2 * t + of_bool c"
    unfolding tail_word_def unat_of_nat by (intro mod_less) (cases c; simp)
  then have "unat (tail_pos (tail_word t c)) = drop_bit 1 (2 * t + of_bool c)"
    unfolding tail_pos_def by (simp only: unat_drop_bit_eq)
  then have "unat (tail_pos (tail_word t c)) = unat (of_nat t :: u64)"
    using \<open>t < 2 ^ 63\<close> by (simp add: drop_bit_Suc unat_of_nat)
  then show ?thesis by (simp only: word_unat_eq_iff)
qed

lemma tail_word_bit: "bit (tail_word t c) 0 \<longleftrightarrow> c"
  by (simp add: tail_word_def bit_of_nat_iff bit_0)

lemma sr_closed_word [simp]: "sr_closed (tail_word t c) \<longleftrightarrow> c"
proof -
  have "sr_closed w \<longleftrightarrow> bit w 0" for w :: u64
    by (simp add: sr_closed_def sr_closed_bit_def and_one_eq bit_0 odd_iff_mod_2_eq_one)
  then show ?thesis by (simp only: tail_word_bit)
qed

lemma close_tail_word: "tail_word t c OR sr_closed_bit = tail_word t True"
proof -
  have "of_nat (2 * t) OR (1 :: u64) = of_nat (2 * t + 1)"
    by (simp add: or_one_eq)
  then show ?thesis by (cases c) (simp_all add: tail_word_def sr_closed_bit_def or_one_eq)
qed

lemma tail_word_next: "tail_word t c + 2 = tail_word (Suc t) c"
  by (simp add: tail_word_def)

lemma tail_word_eq: "tail_word t c = tail_word t d \<longleftrightarrow> c = d"
  using tail_word_bit [of t c] tail_word_bit [of t d] by auto

section \<open>The invariant\<close>

definition sring_at :: "'a sring \<Rightarrow> nat \<Rightarrow> nat \<Rightarrow> nat \<Rightarrow> nat \<Rightarrow> bool \<Rightarrow> bool" where
  "sring_at r ch h ct t c \<longleftrightarrow> ring_cap (sr_cap r) \<and> t < 2 ^ 63 \<and>
     sr_cached_head r = of_nat ch \<and> sr_head r = of_nat h \<and> sr_cached_tail r = of_nat ct \<and>
     sr_tail r = tail_word t c \<and> ch \<le> h \<and> h \<le> ct \<and> ct \<le> t \<and> t \<le> ch + sr_cap r"

fun push_ok :: "'a sring \<Rightarrow> nat \<Rightarrow> nat \<Rightarrow> 'a push_pc \<Rightarrow> bool" where
  "push_ok r ch t PStart \<longleftrightarrow> True"
| "push_ok r ch t (PRefresh x w) \<longleftrightarrow> w = tail_word t False"
| "push_ok r ch t (PWrite x w) \<longleftrightarrow> w = tail_word t False \<and> t < ch + sr_cap r"
| "push_ok r ch t (PCommit x w) \<longleftrightarrow>
     w = tail_word t False \<and> t < ch + sr_cap r \<and> sr_slots r ! (t mod sr_cap r) = x"

fun pop_ok :: "'a sring \<Rightarrow> nat \<Rightarrow> nat \<Rightarrow> 'a pop_pc \<Rightarrow> bool" where
  "pop_ok r h ct DStart \<longleftrightarrow> True"
| "pop_ok r h ct (DRefresh w) \<longleftrightarrow> w = of_nat h"
| "pop_ok r h ct (DRead w) \<longleftrightarrow> w = of_nat h \<and> h < ct"
| "pop_ok r h ct (DRelease w x) \<longleftrightarrow> w = of_nat h \<and> h < ct \<and> x = sr_slots r ! (h mod sr_cap r)"

definition history_ok :: "'a sring_sys \<Rightarrow> bool \<Rightarrow> bool" where
  "history_ok s c \<longleftrightarrow>
     at_close s = (if c then Some (published s) else None) \<and>
     published s = taken s @ seg (sr_slots (sy_ring s)) (length (taken s)) (length (published s))"

definition sring_inv :: "'a sring_sys \<Rightarrow> bool" where
  "sring_inv s \<longleftrightarrow> (\<exists>ch ct c.
     sring_at (sy_ring s) ch (length (taken s)) ct (length (published s)) c \<and>
     push_ok (sy_ring s) ch (length (published s)) (sy_push s) \<and>
     pop_ok (sy_ring s) (length (taken s)) ct (sy_pop s) \<and> history_ok s c)"

lemma sring_invI:
  "\<lbrakk>sring_at (sy_ring s) ch (length (taken s)) ct (length (published s)) c;
    push_ok (sy_ring s) ch (length (published s)) (sy_push s);
    pop_ok (sy_ring s) (length (taken s)) ct (sy_pop s); history_ok s c\<rbrakk> \<Longrightarrow> sring_inv s"
  unfolding sring_inv_def by blast

lemma sr_cap_simps [simp]:
  "sr_cap (r\<lparr>sr_tail := a\<rparr>) = sr_cap r" "sr_cap (r\<lparr>sr_cached_head := a\<rparr>) = sr_cap r"
  "sr_cap (r\<lparr>sr_head := a\<rparr>) = sr_cap r" "sr_cap (r\<lparr>sr_cached_tail := a\<rparr>) = sr_cap r"
  "sr_cap (r\<lparr>sr_slots := (sr_slots r)[i := x]\<rparr>) = sr_cap r"
  by (simp_all add: sr_cap_def)

lemma push_ok_frame:
  "\<lbrakk>push_ok r ch t p; ch \<le> ch'; sr_slots r' = sr_slots r\<rbrakk> \<Longrightarrow> push_ok r' ch' t p"
  by (cases p) (auto simp: sr_cap_def)

lemma pop_ok_frame:
  "\<lbrakk>pop_ok r h ct p; ct \<le> ct'; sr_slots r' = sr_slots r\<rbrakk> \<Longrightarrow> pop_ok r' h ct' p"
  by (cases p) (auto simp: sr_cap_def)

lemma pop_ok_write:
  assumes "pop_ok r h ct p" "ct \<le> t" "t < h + sr_cap r"
  shows "pop_ok (r\<lparr>sr_slots := (sr_slots r)[t mod sr_cap r := x]\<rparr>) h ct p"
proof -
  have "h < ct \<Longrightarrow> h mod sr_cap r \<noteq> t mod sr_cap r"
    using assms mod_neq_within [of h t "sr_cap r"] by simp
  then show ?thesis using assms(1) by (cases p) auto
qed

lemma full_at:
  assumes "sring_at r ch h ct t c" "q \<in> {ch, h}"
  shows "(of_nat t - of_nat q :: u64) = of_nat (sr_cap r) \<longleftrightarrow> t = q + sr_cap r"
  using assms pos_diff_eq [of q t "sr_cap r"] ring_capD(2) [of "sr_cap r"]
  by (auto simp: sring_at_def)

lemma sring_inv_init: "ring_cap n \<Longrightarrow> sring_inv (new_sring_sys n x)"
  by (rule sring_invI [where ch = 0 and ct = 0 and c = False])
    (simp_all add: new_sring_sys_def new_sring_def sring_at_def sr_cap_def history_ok_def tail_word_def)

lemma sring_invE:
  assumes "sring_inv s"
  obtains ch ct c where
    "sring_at (sy_ring s) ch (length (taken s)) ct (length (published s)) c"
    "push_ok (sy_ring s) ch (length (published s)) (sy_push s)"
    "pop_ok (sy_ring s) (length (taken s)) ct (sy_pop s)" "history_ok s c"
    "ch \<le> length (taken s)" "length (taken s) \<le> ct" "ct \<le> length (published s)"
    "length (published s) \<le> ch + sr_cap (sy_ring s)" "length (published s) < 2 ^ 63"
    "ring_cap (sr_cap (sy_ring s))" "sr_tail (sy_ring s) = tail_word (length (published s)) c"
  using assms unfolding sring_inv_def sring_at_def by blast

lemma push_start_inv:
  assumes "sring_inv s" "sy_push s = PStart"
  shows "sring_inv (sring_step (SPush v) s)"
  using assms(1)
proof (rule sring_invE)
  let ?r = "sy_ring s" and ?h = "length (taken s)" and ?t = "length (published s)"
  fix ch ct c
  assume at: "sring_at ?r ch ?h ct ?t c" and d: "pop_ok ?r ?h ct (sy_pop s)"
    and hist: "history_ok s c" and b: "?t \<le> ch + sr_cap ?r" "?t < 2 ^ 63"
    and tl: "sr_tail ?r = tail_word ?t c"
  have f: "of_nat ?t - sr_cached_head ?r = of_nat (sr_cap ?r) \<longleftrightarrow> ?t = ch + sr_cap ?r"
    using full_at [OF at, of ch] at by (simp add: sring_at_def)
  obtain pc where st: "sring_step (SPush v) s = s\<lparr>sy_push := pc\<rparr>" and ok: "push_ok ?r ch ?t pc"
  proof (cases "c \<or> ?t = ch + sr_cap ?r")
    case True
    then show thesis
      using that [of PStart] that [of "PRefresh v (sr_tail ?r)"] assms(2) tl f tail_pos_word [OF b(2)]
      by (cases c) (simp_all add: Let_def)
  next
    case False
    then show thesis
      using that [of "PWrite v (sr_tail ?r)"] assms(2) tl f tail_pos_word [OF b(2)] b(1)
      by (simp add: Let_def)
  qed
  show ?thesis unfolding st
    by (rule sring_invI [where ch = ch and ct = ct and c = c])
      (use at d ok hist in \<open>simp_all add: history_ok_def\<close>)
qed

lemma push_refresh_inv:
  assumes "sring_inv s" "sy_push s = PRefresh x w"
  shows "sring_inv (sring_step (SPush v) s)"
  using assms(1)
proof (rule sring_invE)
  let ?r = "sy_ring s" and ?h = "length (taken s)" and ?t = "length (published s)"
  fix ch ct c
  assume at: "sring_at ?r ch ?h ct ?t c" and d: "pop_ok ?r ?h ct (sy_pop s)"
    and hist: "history_ok s c" and p: "push_ok ?r ch ?t (sy_push s)"
    and b: "ch \<le> ?h" "?t \<le> ch + sr_cap ?r" "?t < 2 ^ 63"
  let ?r1 = "?r\<lparr>sr_cached_head := sr_head ?r\<rparr>"
  have w: "w = tail_word ?t False" using p assms(2) by simp
  have f: "of_nat ?t - sr_head ?r = of_nat (sr_cap ?r) \<longleftrightarrow> ?t = ?h + sr_cap ?r"
    using full_at [OF at, of ?h] at by (simp add: sring_at_def)
  have at1: "sring_at ?r1 ?h ?h ct ?t c" using at by (simp add: sring_at_def)
  obtain pc where st: "sring_step (SPush v) s = s\<lparr>sy_ring := ?r1, sy_push := pc\<rparr>"
    and ok: "push_ok ?r1 ?h ?t pc"
  proof (cases "?t = ?h + sr_cap ?r")
    case True
    then show thesis using that [of PStart] assms(2) f w tail_pos_word [OF b(3)] by (simp add: Let_def)
  next
    case False
    then show thesis
      using that [of "PWrite x w"] assms(2) f w tail_pos_word [OF b(3)] b by (simp add: Let_def)
  qed
  show ?thesis unfolding st
    by (rule sring_invI [where ch = ?h and ct = ct and c = c])
      (use at1 pop_ok_frame [OF d order_refl, of ?r1] ok hist in \<open>simp_all add: history_ok_def\<close>)
qed

lemma push_write_inv:
  assumes "sring_inv s" "sy_push s = PWrite x w"
  shows "sring_inv (sring_step (SPush v) s)"
  using assms(1)
proof (rule sring_invE)
  let ?r = "sy_ring s" and ?h = "length (taken s)" and ?t = "length (published s)"
  fix ch ct c
  assume at: "sring_at ?r ch ?h ct ?t c" and d: "pop_ok ?r ?h ct (sy_pop s)"
    and hist: "history_ok s c" and p: "push_ok ?r ch ?t (sy_push s)"
    and b: "ch \<le> ?h" "ct \<le> ?t" "?t < 2 ^ 63" "ring_cap (sr_cap ?r)"
  let ?r1 = "?r\<lparr>sr_slots := (sr_slots ?r)[?t mod sr_cap ?r := x]\<rparr>"
  have w: "w = tail_word ?t False" and lt: "?t < ch + sr_cap ?r" using p assms(2) by simp_all
  have st: "sring_step (SPush v) s = s\<lparr>sy_ring := ?r1, sy_push := PCommit x w\<rparr>"
    using assms(2) w tail_pos_word [OF b(3)] slot_ix_of_nat [OF b(4)] by (simp add: Let_def)
  have "?t mod sr_cap ?r < length (sr_slots ?r)" using ring_capD(3) [OF b(4)] by (simp add: sr_cap_def)
  then have "push_ok ?r1 ch ?t (PCommit x w)" using w lt by simp
  moreover have "pop_ok ?r1 ?h ct (sy_pop s)" using pop_ok_write [OF d b(2)] lt b(1) by simp
  moreover have "seg (sr_slots ?r1) ?h ?t = seg (sr_slots ?r) ?h ?t"
    using seg_update_other [of ?t ?t ?h "sr_slots ?r" x] lt b(1) by (simp add: sr_cap_def)
  moreover have "sring_at ?r1 ch ?h ct ?t c" using at by (simp add: sring_at_def)
  ultimately show ?thesis unfolding st
    by (intro sring_invI [where ch = ch and ct = ct and c = c]) (use hist in \<open>simp_all add: history_ok_def\<close>)
qed

lemma push_commit_inv:
  assumes "sring_inv s" "sy_push s = PCommit x w"
    and bound: "length (published (sring_step (SPush v) s)) < 2 ^ 63"
  shows "sring_inv (sring_step (SPush v) s)"
  using assms(1)
proof (rule sring_invE)
  let ?r = "sy_ring s" and ?h = "length (taken s)" and ?t = "length (published s)"
  fix ch ct c
  assume at: "sring_at ?r ch ?h ct ?t c" and d: "pop_ok ?r ?h ct (sy_pop s)"
    and hist: "history_ok s c" and p: "push_ok ?r ch ?t (sy_push s)"
    and tl: "sr_tail ?r = tail_word ?t c" and b: "?h \<le> ct" "ct \<le> ?t"
  have w: "w = tail_word ?t False" and lt: "?t < ch + sr_cap ?r"
    and x: "sr_slots ?r ! (?t mod sr_cap ?r) = x" using p assms(2) by simp_all
  show ?thesis
  proof (cases c)
    case True
    then have "sring_step (SPush v) s = s\<lparr>sy_push := PStart\<rparr>"
      using assms(2) tl w by (simp add: tail_word_eq)
    then show ?thesis
      using at d hist by (auto intro!: sring_invI [where ch = ch and ct = ct and c = c] simp: history_ok_def)
  next
    case False
    let ?r1 = "?r\<lparr>sr_tail := tail_word (Suc ?t) False\<rparr>"
    have st: "sring_step (SPush v) s =
        s\<lparr>sy_ring := ?r1, sy_push := PStart, published := published s @ [x]\<rparr>"
      using assms(2) tl w False by (simp add: tail_word_next)
    have "sring_at ?r1 ch ?h ct (Suc ?t) c"
      using at lt bound False unfolding st by (simp add: sring_at_def)
    moreover have "pop_ok ?r1 ?h ct (sy_pop s)" by (rule pop_ok_frame [OF d order_refl]) simp
    moreover have "seg (sr_slots ?r) ?h (Suc ?t) = seg (sr_slots ?r) ?h ?t @ [x]"
      using x b by (simp add: seg_snoc sr_cap_def)
    ultimately show ?thesis unfolding st
      using hist False
      by (intro sring_invI [where ch = ch and ct = ct and c = c])
        (simp_all add: history_ok_def)
  qed
qed

lemma pop_step_inv:
  assumes "sring_inv s"
  shows "sring_inv (sring_step SPop s)"
  using assms
proof (rule sring_invE)
  let ?r = "sy_ring s" and ?h = "length (taken s)" and ?t = "length (published s)"
  fix ch ct c
  assume at: "sring_at ?r ch ?h ct ?t c" and d: "pop_ok ?r ?h ct (sy_pop s)"
    and hist: "history_ok s c" and p: "push_ok ?r ch ?t (sy_push s)"
    and b: "ch \<le> ?h" "?h \<le> ct" "ct \<le> ?t" "?t \<le> ch + sr_cap ?r" "?t < 2 ^ 63" "ring_cap (sr_cap ?r)"
    and tl: "sr_tail ?r = tail_word ?t c"
  have big: "sr_cap ?r < 2 ^ 64" using b(6) by (rule ring_capD)
  have eq: "(of_nat ?h :: u64) = of_nat q \<longleftrightarrow> ?h = q" if "?h \<le> q" "q \<le> ?t" for q
    using pos_eq_iff [of ?h q] that b big by simp
  show ?thesis
  proof (cases "sy_pop s")
    case DStart
    have "sr_head ?r = sr_cached_tail ?r \<longleftrightarrow> ?h = ct" using eq [of ct] at b by (simp add: sring_at_def)
    then have "\<exists>pc. sring_step SPop s = s\<lparr>sy_pop := pc\<rparr> \<and> pop_ok ?r ?h ct pc"
      using DStart at b(2) by (auto simp: Let_def sring_at_def)
    then obtain pc where "sring_step SPop s = s\<lparr>sy_pop := pc\<rparr>" "pop_ok ?r ?h ct pc" by blast
    then show ?thesis
      using at p hist by (auto intro!: sring_invI [where ch = ch and ct = ct and c = c] simp: history_ok_def)
  next
    case (DRefresh w)
    let ?r1 = "?r\<lparr>sr_cached_tail := of_nat ?t\<rparr>"
    have w: "w = of_nat ?h" using d DRefresh by simp
    have "\<exists>pc. sring_step SPop s = s\<lparr>sy_ring := ?r1, sy_pop := pc\<rparr> \<and> pop_ok ?r1 ?h ?t pc"
      using DRefresh w eq [of ?t] b tl tail_pos_word [OF b(5), of c] by (auto simp: Let_def)
    then obtain pc where "sring_step SPop s = s\<lparr>sy_ring := ?r1, sy_pop := pc\<rparr>" "pop_ok ?r1 ?h ?t pc"
      by blast
    moreover have "sring_at ?r1 ch ?h ?t ?t c" using at by (auto simp: sring_at_def)
    moreover have "push_ok ?r1 ch ?t (sy_push s)" by (rule push_ok_frame [OF p order_refl]) simp
    ultimately show ?thesis
      using hist by (auto intro!: sring_invI [where ch = ch and ct = ?t and c = c] simp: history_ok_def)
  next
    case (DRead w)
    then show ?thesis
      using at p d hist slot_ix_of_nat [OF b(6), of ?h]
      by (auto intro!: sring_invI [where ch = ch and ct = ct and c = c] simp: history_ok_def)
  next
    case (DRelease w x)
    let ?r1 = "?r\<lparr>sr_head := of_nat (Suc ?h)\<rparr>"
    have w: "w = of_nat ?h" and lt: "?h < ct" and x: "x = sr_slots ?r ! (?h mod sr_cap ?r)"
      using d DRelease by simp_all
    have st: "sring_step SPop s = s\<lparr>sy_ring := ?r1, sy_pop := DStart, taken := taken s @ [x]\<rparr>"
      using DRelease w by (simp add: add.commute)
    have "sring_at ?r1 ch (Suc ?h) ct ?t c" using at lt by (simp add: sring_at_def)
    moreover have "push_ok ?r1 ch ?t (sy_push s)" by (rule push_ok_frame [OF p order_refl]) simp
    moreover have "seg (sr_slots ?r) ?h ?t = x # seg (sr_slots ?r) (Suc ?h) ?t"
      using x lt b by (simp add: seg_Cons sr_cap_def)
    ultimately show ?thesis unfolding st
      using hist by (intro sring_invI [where ch = ch and ct = ct and c = c]) (simp_all add: history_ok_def)
  qed
qed

lemma close_step_inv:
  assumes "sring_inv s"
  shows "sring_inv (sring_step SClose s)"
  using assms
proof (rule sring_invE)
  let ?r = "sy_ring s" and ?h = "length (taken s)" and ?t = "length (published s)"
  fix ch ct c
  assume at: "sring_at ?r ch ?h ct ?t c" and d: "pop_ok ?r ?h ct (sy_pop s)"
    and hist: "history_ok s c" and p: "push_ok ?r ch ?t (sy_push s)"
    and tl: "sr_tail ?r = tail_word ?t c"
  have r: "close_ring ?r = ?r\<lparr>sr_tail := tail_word ?t True\<rparr>"
    by (simp add: close_ring_def tl close_tail_word)
  have "sring_at (close_ring ?r) ch ?h ct ?t True" using at by (simp add: r sring_at_def)
  moreover have "push_ok (close_ring ?r) ch ?t (sy_push s)"
    by (rule push_ok_frame [OF p order_refl]) (simp add: r)
  moreover have "pop_ok (close_ring ?r) ?h ct (sy_pop s)"
    by (rule pop_ok_frame [OF d order_refl]) (simp add: r)
  ultimately show ?thesis
    using hist
    by (intro sring_invI [where ch = ch and ct = ct and c = True])
      (auto simp: history_ok_def r)
qed

lemma push_step_inv:
  assumes "sring_inv s" "length (published (sring_step (SPush v) s)) < 2 ^ 63"
  shows "sring_inv (sring_step (SPush v) s)"
proof (cases "sy_push s")
  case PStart show ?thesis by (rule push_start_inv [OF assms(1) PStart])
next
  case (PRefresh x w) show ?thesis by (rule push_refresh_inv [OF assms(1) PRefresh])
next
  case (PWrite x w) show ?thesis by (rule push_write_inv [OF assms(1) PWrite])
next
  case (PCommit x w) show ?thesis by (rule push_commit_inv [OF assms(1) PCommit assms(2)])
qed

lemma sring_step_inv:
  assumes "sring_inv s" "length (published (sring_step a s)) < 2 ^ 63"
  shows "sring_inv (sring_step a s)"
  using assms push_step_inv pop_step_inv close_step_inv by (cases a) (simp_all only:)

lemma published_mono: "length (published s) \<le> length (published (sring_step a s))"
  by (cases a) (simp_all split: prod.splits)

lemma sring_reach_inv:
  assumes "ring_cap n"
  shows "sring_reach n x s \<Longrightarrow> length (published s) < 2 ^ 63 \<Longrightarrow> sring_inv s"
proof (induction rule: sring_reach.induct)
  case sring_start
  show ?case using assms by (rule sring_inv_init)
next
  case (sring_next s a)
  then show ?case using published_mono [of s a] by (auto intro!: sring_step_inv)
qed

section \<open>What it delivers\<close>

text \<open>One event through the ring of two, a push that the close overtakes, and the drain.\<close>

definition sring_trace :: "nat sring_act list" where
  "sring_trace =
     [SPush 7, SPush 7, SPush 7, SPop, SPop, SPush 8, SPush 8, SClose, SPush 8, SPop, SPop]"

lemma sring_trace_end:
  "published (fold sring_step sring_trace (new_sring_sys 2 0)) = [7]"
  "taken (fold sring_step sring_trace (new_sring_sys 2 0)) = [7]"
  "at_close (fold sring_step sring_trace (new_sring_sys 2 0)) = Some [7]"
  "sr_tail (sy_ring (fold sring_step sring_trace (new_sring_sys 2 0))) = 3"
  "sr_head (sy_ring (fold sring_step sring_trace (new_sring_sys 2 0))) = 1"
  by (simp_all add: sring_trace_def new_sring_sys_def new_sring_def sr_closed_def sr_closed_bit_def
      sr_cap_def tail_pos_def slot_ix_def close_ring_def Let_def)

lemma sring_trace_reach: "sring_reach 2 0 (fold sring_step sring_trace (new_sring_sys 2 0))"
  by (rule sring_run [OF sring_start])

lemma ring_cap_2: "ring_cap 2"
  by (simp add: ring_cap_def has_single_bit_def)

text \<open>
  A ring of the sharded queue is a bounded FIFO in every interleaving of its producer, its
  consumer and a close: what was taken is a prefix of what was published, and what lies between
  fits the ring.
\<close>

theorem sharded_ring_fifo:
  assumes "sring_reach n x s" "ring_cap n" "length (published s) < 2 ^ 63"
  shows "\<exists>rest. published s = taken s @ rest \<and> length rest \<le> sr_cap (sy_ring s)"
  using sring_reach_inv [OF assms(2,1,3)]
  by (rule sring_invE) (auto simp: history_ok_def)

lemma sharded_ring_fifo_witness:
  "\<exists>rest. published (fold sring_step sring_trace (new_sring_sys 2 0)) =
       taken (fold sring_step sring_trace (new_sring_sys 2 0)) @ rest \<and>
     length rest \<le> sr_cap (sy_ring (fold sring_step sring_trace (new_sring_sys 2 0)))"
  by (rule sharded_ring_fifo [OF sring_trace_reach ring_cap_2]) (simp add: sring_trace_end)

text \<open>
  C17: A publication and a close are one decision. Once a ring is closed nothing more is published
  on it, also not by a push that was under way; so a consumer that finds its head at the closed
  tail has taken everything that was ever published.
\<close>

theorem close_is_final:
  assumes "sring_reach n x s" "ring_cap n" "length (published s) < 2 ^ 63" "at_close s = Some xs"
  shows "published s = xs \<and>
    (sr_head (sy_ring s) = tail_pos (sr_tail (sy_ring s)) \<longrightarrow> taken s = xs)"
  using sring_reach_inv [OF assms(2,1,3)]
proof (rule sring_invE)
  let ?r = "sy_ring s" and ?h = "length (taken s)" and ?t = "length (published s)"
  fix ch ct c
  assume at: "sring_at ?r ch ?h ct ?t c" and hist: "history_ok s c"
    and b: "ch \<le> ?h" "?h \<le> ct" "ct \<le> ?t" "?t \<le> ch + sr_cap ?r" "?t < 2 ^ 63" "ring_cap (sr_cap ?r)"
    and tl: "sr_tail ?r = tail_word ?t c"
  have "?h = ?t" if "sr_head ?r = tail_pos (sr_tail ?r)"
  proof -
    have "(of_nat ?h :: u64) = of_nat ?t"
      using that at tail_pos_word [OF b(5), of c] tl by (simp add: sring_at_def)
    then show ?thesis using pos_eq_iff [of ?h ?t] b ring_capD(2) [OF b(6)] by simp
  qed
  then show ?thesis using hist assms(4) by (auto simp: history_ok_def split: if_splits)
qed

lemma close_is_final_witness:
  "published (fold sring_step sring_trace (new_sring_sys 2 0)) = [7] \<and>
   taken (fold sring_step sring_trace (new_sring_sys 2 0)) = [7]"
  using close_is_final [OF sring_trace_reach ring_cap_2 _ sring_trace_end(3)] sring_trace_end(1,4,5)
  by (simp add: tail_pos_def)

text \<open>The two sides never meet on a slot.\<close>

lemma sring_no_data_race:
  assumes "sring_reach n x s" "ring_cap n" "length (published s) < 2 ^ 63"
    and "sy_push s = PWrite v w" "sy_pop s = DRead h"
  shows "slot_ix (sr_cap (sy_ring s)) (tail_pos w) \<noteq> slot_ix (sr_cap (sy_ring s)) h"
  using sring_reach_inv [OF assms(2,1,3)]
proof (rule sring_invE)
  let ?r = "sy_ring s" and ?h = "length (taken s)" and ?t = "length (published s)"
  fix ch ct c
  assume "push_ok ?r ch ?t (sy_push s)" "pop_ok ?r ?h ct (sy_pop s)"
    and b: "ch \<le> ?h" "ct \<le> ?t" "?t < 2 ^ 63" "ring_cap (sr_cap ?r)"
  then have w: "w = tail_word ?t False" "h = of_nat ?h" "?h < ct" "?t < ch + sr_cap ?r"
    using assms(4,5) by simp_all
  then have "?h mod sr_cap ?r \<noteq> ?t mod sr_cap ?r" by (intro mod_neq_within) (use b in simp_all)
  then show ?thesis
    unfolding w(1,2) tail_pos_word [OF b(3)] slot_ix_of_nat [OF b(4)] by (rule not_sym)
qed

end
