(* ===== verification/Sharded_Queue.thy ===== *)
theory Sharded_Queue
  imports Sharded_Ring
begin

text \<open>
  The sharded queue as a whole: \<open>P\<close> rings, of which consumer \<open>c\<close> of \<open>C\<close> owns \<open>c, c + C, c + 2C, \<dots>\<close>
  and serves them round-robin. An operation is one step here; \<open>Sharded_Ring\<close> has the interleaved
  accesses, and \<open>push_alone\<close> and \<open>pop_alone\<close> below say that a ring's operation is its accesses run
  without interruption.
\<close>

section \<open>One ring\<close>

definition ring_push :: "'a \<Rightarrow> 'a sring \<Rightarrow> push_res \<times> 'a sring" where
  "ring_push v r =
     (let word = sr_tail r; pos = tail_pos word in
      if sr_closed word then (PushClosed, r)
      else
        let r1 = (if pos - sr_cached_head r = of_nat (sr_cap r)
                  then r\<lparr>sr_cached_head := sr_head r\<rparr> else r)
        in if pos - sr_cached_head r1 = of_nat (sr_cap r1) then (PushFull, r1)
           else (PushOk, r1\<lparr>sr_slots := (sr_slots r1)[slot_ix (sr_cap r1) pos := v],
                            sr_tail := word + 2\<rparr>))"

definition pop_ring :: "'a sring \<Rightarrow> 'a option \<times> 'a sring" where
  "pop_ring r =
     (let h = sr_head r;
          r1 = (if h = sr_cached_tail r then r\<lparr>sr_cached_tail := tail_pos (sr_tail r)\<rparr> else r)
      in if h = sr_cached_tail r1 then (None, r1)
         else (Some (sr_slots r1 ! slot_ix (sr_cap r1) h), r1\<lparr>sr_head := h + 1\<rparr>))"

text \<open>A call run to its end on its own.\<close>

fun push_calls :: "nat \<Rightarrow> 'a \<Rightarrow> 'a push_pc \<Rightarrow> 'a sring \<Rightarrow> (push_res \<times> 'a sring) option" where
  "push_calls 0 v pc r = None"
| "push_calls (Suc n) v pc r =
     (case push_access v pc r of (r1, pc1, None) \<Rightarrow> push_calls n v pc1 r1
      | (r1, _, Some res) \<Rightarrow> Some (res, r1))"

fun pop_calls :: "nat \<Rightarrow> 'a pop_pc \<Rightarrow> 'a sring \<Rightarrow> ('a option \<times> 'a sring) option" where
  "pop_calls 0 pc r = None"
| "pop_calls (Suc n) pc r =
     (case pop_access pc r of (r1, pc1, None) \<Rightarrow> pop_calls n pc1 r1
      | (r1, _, Some res) \<Rightarrow> Some (res, r1))"

lemma push_alone: "push_calls 4 v PStart r = Some (ring_push v r)"
  by (simp add: ring_push_def numeral_eq_Suc Let_def)

lemma pop_alone: "pop_calls 4 DStart r = Some (pop_ring r)"
  by (simp add: pop_ring_def numeral_eq_Suc Let_def)

section \<open>The queue\<close>

record 'a sharded =
  sh_rings :: "'a sring list"
  sh_next :: "nat list"      \<comment> \<open>for each consumer, the ring to try first\<close>

definition sh_P :: "'a sharded \<Rightarrow> nat" where "sh_P q = length (sh_rings q)"
definition sh_C :: "'a sharded \<Rightarrow> nat" where "sh_C q = length (sh_next q)"
definition kOwned :: "'a sharded \<Rightarrow> nat" where "kOwned q = sh_P q div sh_C q"

definition new_sharded :: "nat \<Rightarrow> nat \<Rightarrow> nat \<Rightarrow> 'a \<Rightarrow> 'a sharded" where
  "new_sharded n p c x =
     \<lparr>sh_rings = replicate p (new_sring (n div p) x), sh_next = replicate c 0\<rparr>"

definition ring_of :: "'a sharded \<Rightarrow> nat \<Rightarrow> nat \<Rightarrow> nat" where
  "ring_of q consumer k = consumer + sh_C q * k"

definition sh_try_push :: "'a \<Rightarrow> nat \<Rightarrow> 'a sharded \<Rightarrow> push_res \<times> 'a sharded" where
  "sh_try_push v p q =
     (let (res, r) = ring_push v (sh_rings q ! p) in (res, q\<lparr>sh_rings := (sh_rings q)[p := r]\<rparr>))"

text \<open>The loop of \<open>try_pop\<close> over \<open>k\<close>; it returns the owned ring it took from, and the event.\<close>

fun pop_scan :: "nat list \<Rightarrow> nat \<Rightarrow> 'a sharded \<Rightarrow> (nat \<times> 'a) option \<times> 'a sharded" where
  "pop_scan [] c q = (None, q)"
| "pop_scan (k # ks) c q =
     (let i = (sh_next q ! c + k) mod kOwned q;
          p = ring_of q c i;
          (x, r) = pop_ring (sh_rings q ! p);
          q1 = q\<lparr>sh_rings := (sh_rings q)[p := r]\<rparr>
      in case x of
           Some v \<Rightarrow> (Some (i, v), q1\<lparr>sh_next := (sh_next q1)[c := (i + 1) mod kOwned q]\<rparr>)
         | None \<Rightarrow> pop_scan ks c q1)"

definition sh_take :: "nat \<Rightarrow> 'a sharded \<Rightarrow> (nat \<times> 'a) option \<times> 'a sharded" where
  "sh_take c q = pop_scan [0..<kOwned q] c q"

definition sh_try_pop :: "nat \<Rightarrow> 'a sharded \<Rightarrow> (pop_res \<times> 'a option) \<times> 'a sharded" where
  "sh_try_pop c q =
     (case sh_take c q of (Some (i, v), q1) \<Rightarrow> ((PopOk, Some v), q1)
      | (None, q1) \<Rightarrow> ((PopEmpty, None), q1))"

definition any_published :: "nat \<Rightarrow> 'a sharded \<Rightarrow> bool" where
  "any_published c q \<longleftrightarrow>
     list_ex (\<lambda>k. let r = sh_rings q ! ring_of q c k in tail_pos (sr_tail r) \<noteq> sr_head r)
       [0..<kOwned q]"

definition any_closed :: "nat \<Rightarrow> 'a sharded \<Rightarrow> bool" where
  "any_closed c q \<longleftrightarrow>
     list_ex (\<lambda>k. sr_closed (sr_tail (sh_rings q ! ring_of q c k))) [0..<kOwned q]"

definition sh_drained :: "nat \<Rightarrow> 'a sharded \<Rightarrow> bool" where
  "sh_drained c q \<longleftrightarrow>
     list_all (\<lambda>k. let r = sh_rings q ! ring_of q c k; w = sr_tail r in
       sr_closed w \<and> sr_head r = tail_pos w) [0..<kOwned q]"

text \<open>\<open>close\<close> sets the bits one ring at a time; \<open>sh_close_upto\<close> is where it has got to.\<close>

definition sh_close_upto :: "nat \<Rightarrow> 'a sharded \<Rightarrow> 'a sharded" where
  "sh_close_upto m q =
     q\<lparr>sh_rings := map close_ring (take m (sh_rings q)) @ drop m (sh_rings q)\<rparr>"

definition sh_close :: "'a sharded \<Rightarrow> 'a sharded" where
  "sh_close q = sh_close_upto (sh_P q) q"

definition sh_is_closed :: "'a sharded \<Rightarrow> bool" where
  "sh_is_closed q \<longleftrightarrow> sr_closed (sr_tail (sh_rings q ! (sh_P q - 1)))"

definition sh_reserved :: "'a sharded \<Rightarrow> u64" where
  "sh_reserved q = foldl (\<lambda>n r. n + tail_pos (sr_tail r)) 0 (sh_rings q)"

definition sh_claimed :: "'a sharded \<Rightarrow> u64" where
  "sh_claimed q = foldl (\<lambda>n r. n + sr_head r) 0 (sh_rings q)"

section \<open>Well-formed rings\<close>

definition ring_ok :: "nat \<Rightarrow> 'a sring \<Rightarrow> bool" where
  "ring_ok m r \<longleftrightarrow> (\<exists>ch h ct t c. sring_at r ch h ct t c \<and> t + m < 2 ^ 63)"

definition ring_items :: "'a sring \<Rightarrow> 'a list" where
  "ring_items r =
     map (\<lambda>i. sr_slots r ! slot_ix (sr_cap r) (sr_head r + of_nat i))
       [0..<unat (tail_pos (sr_tail r) - sr_head r)]"

lemma ring_items_at:
  assumes "sring_at r ch h ct t c"
  shows "ring_items r = seg (sr_slots r) h t"
proof -
  have lt: "h \<le> t" "t - h < 2 ^ 64" and cap: "ring_cap (sr_cap r)"
    using assms ring_capD(2) [of "sr_cap r"] by (auto simp: sring_at_def)
  have tl: "tail_pos (sr_tail r) = of_nat t" "sr_head r = of_nat h"
    using assms tail_pos_word [of t c] by (auto simp: sring_at_def)
  have "slot_ix (sr_cap r) (of_nat h + of_nat i) = (h + i) mod length (sr_slots r)" for i
    using slot_ix_of_nat [OF cap, of "h + i"] by (simp add: sr_cap_def)
  then show ?thesis
    unfolding ring_items_def seg_eq_map_offset tl unat_pos_diff [OF lt] by simp
qed

lemma ring_push_at:
  assumes at: "sring_at r ch h ct t c" and b: "t + 1 < 2 ^ 63"
  shows "c \<Longrightarrow> ring_push v r = (PushClosed, r)"
    and "\<not> c \<Longrightarrow> t < h + sr_cap r \<Longrightarrow> fst (ring_push v r) = PushOk \<and>
      (\<exists>ch'. sring_at (snd (ring_push v r)) ch' h ct (Suc t) False) \<and>
      sr_slots (snd (ring_push v r)) = (sr_slots r)[t mod sr_cap r := v]"
    and "\<not> c \<Longrightarrow> \<not> t < h + sr_cap r \<Longrightarrow> fst (ring_push v r) = PushFull \<and>
      sring_at (snd (ring_push v r)) h h ct t False \<and> sr_slots (snd (ring_push v r)) = sr_slots r"
proof -
  have p: "tail_pos (tail_word t c) = of_nat t" using at by (intro tail_pos_word) (simp add: sring_at_def)
  have tl: "sr_tail r = tail_word t c" and cap: "ring_cap (sr_cap r)" and bnd: "ch \<le> h" "t \<le> ch + sr_cap r"
    using at by (simp_all add: sring_at_def)
  show "ring_push v r = (PushClosed, r)" if c
    using that tl by (simp add: ring_push_def)
  have f1: "of_nat t - sr_cached_head r = of_nat (sr_cap r) \<longleftrightarrow> t = ch + sr_cap r"
    using full_at [OF at, of ch] at by (simp add: sring_at_def)
  have f2: "of_nat t - sr_head r = of_nat (sr_cap r) \<longleftrightarrow> t = h + sr_cap r"
    using full_at [OF at, of h] at by (simp add: sring_at_def)
  show "fst (ring_push v r) = PushOk \<and>
      (\<exists>ch'. sring_at (snd (ring_push v r)) ch' h ct (Suc t) False) \<and>
      sr_slots (snd (ring_push v r)) = (sr_slots r)[t mod sr_cap r := v]"
    if c: "\<not> c" and room: "t < h + sr_cap r"
  proof (cases "t = ch + sr_cap r")
    case True
    then show ?thesis
      using c room p tl f1 f2 at b slot_ix_of_nat [OF cap, of t]
      by (auto simp: ring_push_def Let_def sring_at_def tail_word_next sr_cap_def intro!: exI [of _ h])
  next
    case False
    then show ?thesis
      using c room p tl f1 f2 at b slot_ix_of_nat [OF cap, of t]
      by (auto simp: ring_push_def Let_def sring_at_def tail_word_next sr_cap_def intro!: exI [of _ ch])
  qed
  show "fst (ring_push v r) = PushFull \<and>
      sring_at (snd (ring_push v r)) h h ct t False \<and> sr_slots (snd (ring_push v r)) = sr_slots r"
    if c: "\<not> c" and full: "\<not> t < h + sr_cap r"
  proof -
    have "t = ch + sr_cap r" "t = h + sr_cap r" using full bnd by simp_all
    then show ?thesis
      using c p tl f1 f2 at by (auto simp: ring_push_def Let_def sring_at_def)
  qed
qed

lemma pop_ring_at:
  assumes at: "sring_at r ch h ct t c"
  shows "h = t \<Longrightarrow> fst (pop_ring r) = None \<and> sring_at (snd (pop_ring r)) ch h t t c \<and>
      sr_slots (snd (pop_ring r)) = sr_slots r"
    and "h < t \<Longrightarrow> fst (pop_ring r) = Some (sr_slots r ! (h mod sr_cap r)) \<and>
      (\<exists>ct'. sring_at (snd (pop_ring r)) ch (Suc h) ct' t c) \<and>
      sr_slots (snd (pop_ring r)) = sr_slots r"
proof -
  have p: "tail_pos (sr_tail r) = of_nat t" using at tail_pos_word [of t c] by (auto simp: sring_at_def)
  have cap: "ring_cap (sr_cap r)" and b: "ch \<le> h" "h \<le> ct" "ct \<le> t" "t \<le> ch + sr_cap r"
    and w: "sr_head r = of_nat h" "sr_cached_tail r = of_nat ct"
    using at by (simp_all add: sring_at_def)
  have eq: "(of_nat h :: u64) = of_nat q \<longleftrightarrow> h = q" if "h \<le> q" "q \<le> t" for q
    using pos_eq_iff [of h q] that b ring_capD(2) [OF cap] by simp
  show "fst (pop_ring r) = None \<and> sring_at (snd (pop_ring r)) ch h t t c \<and>
      sr_slots (snd (pop_ring r)) = sr_slots r" if "h = t"
    using that b w p at eq [of ct] by (simp add: pop_ring_def Let_def sring_at_def)
  show "fst (pop_ring r) = Some (sr_slots r ! (h mod sr_cap r)) \<and>
      (\<exists>ct'. sring_at (snd (pop_ring r)) ch (Suc h) ct' t c) \<and>
      sr_slots (snd (pop_ring r)) = sr_slots r" if "h < t"
  proof (cases "h = ct")
    case True
    have "sring_at (snd (pop_ring r)) ch (Suc h) t t c"
      using that True b w p at eq [of ct] eq [of t]
      by (simp add: pop_ring_def Let_def sring_at_def add.commute)
    then show ?thesis
      using that True b w p eq [of ct] eq [of t] slot_ix_of_nat [OF cap, of h]
      by (auto simp: pop_ring_def Let_def)
  next
    case False
    have "sring_at (snd (pop_ring r)) ch (Suc h) ct t c"
      using that False b w p at eq [of ct]
      by (simp add: pop_ring_def Let_def sring_at_def add.commute)
    then show ?thesis
      using that False b w p eq [of ct] slot_ix_of_nat [OF cap, of h]
      by (auto simp: pop_ring_def Let_def)
  qed
qed

text \<open>A ring's operations by what it holds.\<close>

lemma sring_at_ok: "sring_at r ch h ct t c \<Longrightarrow> t + m < 2 ^ 63 \<Longrightarrow> ring_ok m r"
  unfolding ring_ok_def by blast

lemma ring_push_items:
  assumes "ring_ok (Suc m) r"
  shows "ring_ok m (snd (ring_push v r))"
    and "sr_cap (snd (ring_push v r)) = sr_cap r"
    and "sr_closed (sr_tail (snd (ring_push v r))) = sr_closed (sr_tail r)"
    and "fst (ring_push v r) =
      (if sr_closed (sr_tail r) then PushClosed
       else if length (ring_items r) < sr_cap r then PushOk else PushFull)"
    and "ring_items (snd (ring_push v r)) =
      (if fst (ring_push v r) = PushOk then ring_items r @ [v] else ring_items r)"
proof -
  obtain ch h ct t c where at: "sring_at r ch h ct t c" and b: "t + Suc m < 2 ^ 63"
    using assms by (auto simp: ring_ok_def)
  have t: "t + 1 < 2 ^ 63" using b by simp
  have c: "sr_closed (sr_tail r) = c" and le: "h \<le> t" using at by (auto simp: sring_at_def)
  have len: "length (ring_items r) = t - h" using ring_items_at [OF at] by simp
  note p = ring_push_at [OF at t, of v]
  have cap: "sr_cap (snd (ring_push v r)) = sr_cap r"
    using p by (cases c; cases "t < h + sr_cap r") (auto simp: sr_cap_def)
  consider (closed) c | (room) "\<not> c" "t < h + sr_cap r" | (full) "\<not> c" "\<not> t < h + sr_cap r" by blast
  then have "ring_ok m (snd (ring_push v r)) \<and>
    sr_closed (sr_tail (snd (ring_push v r))) = sr_closed (sr_tail r) \<and>
    fst (ring_push v r) = (if sr_closed (sr_tail r) then PushClosed
       else if length (ring_items r) < sr_cap r then PushOk else PushFull) \<and>
    ring_items (snd (ring_push v r)) =
      (if fst (ring_push v r) = PushOk then ring_items r @ [v] else ring_items r)"
  proof cases
    case closed
    then show ?thesis using p(1) c sring_at_ok [OF at, of m] b by simp
  next
    case room
    obtain ch' where at': "sring_at (snd (ring_push v r)) ch' h ct (Suc t) False"
      and res: "fst (ring_push v r) = PushOk"
      and sl: "sr_slots (snd (ring_push v r)) = (sr_slots r)[t mod sr_cap r := v]"
      using p(2) room by blast
    have "ring_items (snd (ring_push v r)) = ring_items r @ [v]"
      using ring_items_at [OF at'] ring_items_at [OF at] sl le room seg_push [of h t "sr_slots r" v]
      by (simp add: sr_cap_def)
    moreover have "sr_closed (sr_tail (snd (ring_push v r))) = False" using at' by (simp add: sring_at_def)
    moreover have "t - h < sr_cap r" using room le by simp
    ultimately show ?thesis using room c res len sring_at_ok [OF at', of m] b by simp
  next
    case full
    then have at': "sring_at (snd (ring_push v r)) h h ct t False"
      and res: "fst (ring_push v r) = PushFull" and sl: "sr_slots (snd (ring_push v r)) = sr_slots r"
      using p(3) by simp_all
    have "ring_items (snd (ring_push v r)) = ring_items r"
      using ring_items_at [OF at'] ring_items_at [OF at] sl by simp
    moreover have "sr_closed (sr_tail (snd (ring_push v r))) = False" using at' by (simp add: sring_at_def)
    ultimately show ?thesis using full c res len sring_at_ok [OF at', of m] b le by simp
  qed
  with cap show "ring_ok m (snd (ring_push v r))"
    and "sr_cap (snd (ring_push v r)) = sr_cap r"
    and "sr_closed (sr_tail (snd (ring_push v r))) = sr_closed (sr_tail r)"
    and "fst (ring_push v r) =
      (if sr_closed (sr_tail r) then PushClosed
       else if length (ring_items r) < sr_cap r then PushOk else PushFull)"
    and "ring_items (snd (ring_push v r)) =
      (if fst (ring_push v r) = PushOk then ring_items r @ [v] else ring_items r)"
    by blast+
qed

lemma pop_ring_items:
  assumes "ring_ok m r"
  shows "ring_ok m (snd (pop_ring r))"
    and "sr_cap (snd (pop_ring r)) = sr_cap r"
    and "sr_tail (snd (pop_ring r)) = sr_tail r"
    and "fst (pop_ring r) = (case ring_items r of [] \<Rightarrow> None | x # _ \<Rightarrow> Some x)"
    and "ring_items (snd (pop_ring r)) = tl (ring_items r)"
proof -
  obtain ch h ct t c where at: "sring_at r ch h ct t c" and b: "t + m < 2 ^ 63"
    using assms by (auto simp: ring_ok_def)
  have le: "h \<le> t" using at by (simp add: sring_at_def)
  note p = pop_ring_at [OF at]
  show "sr_cap (snd (pop_ring r)) = sr_cap r" "sr_tail (snd (pop_ring r)) = sr_tail r"
    by (simp_all add: pop_ring_def Let_def)
  have "ring_ok m (snd (pop_ring r)) \<and>
    fst (pop_ring r) = (case ring_items r of [] \<Rightarrow> None | x # _ \<Rightarrow> Some x) \<and>
    ring_items (snd (pop_ring r)) = tl (ring_items r)"
  proof (cases "h = t")
    case True
    then have at': "sring_at (snd (pop_ring r)) ch h t t c" and sl: "sr_slots (snd (pop_ring r)) = sr_slots r"
      using p(1) by simp_all
    show ?thesis
      using p(1) True ring_items_at [OF at'] ring_items_at [OF at] sl sring_at_ok [OF at' b] by simp
  next
    case False
    then have lt: "h < t" using le by simp
    then obtain ct' where at': "sring_at (snd (pop_ring r)) ch (Suc h) ct' t c"
      and res: "fst (pop_ring r) = Some (sr_slots r ! (h mod sr_cap r))"
      and sl: "sr_slots (snd (pop_ring r)) = sr_slots r"
      using p(2) by blast
    show ?thesis
      using res ring_items_at [OF at'] ring_items_at [OF at] sl sring_at_ok [OF at' b]
        seg_Cons [OF lt, of "sr_slots r"] by (simp add: sr_cap_def)
  qed
  then show "ring_ok m (snd (pop_ring r))"
    and "fst (pop_ring r) = (case ring_items r of [] \<Rightarrow> None | x # _ \<Rightarrow> Some x)"
    and "ring_items (snd (pop_ring r)) = tl (ring_items r)" by simp_all
qed

section \<open>Round robin\<close>

definition items :: "'a sharded \<Rightarrow> nat \<Rightarrow> 'a list" where
  "items q p = ring_items (sh_rings q ! p)"

definition sharded_ok :: "nat \<Rightarrow> 'a sharded \<Rightarrow> bool" where
  "sharded_ok m q \<longleftrightarrow> 0 < sh_C q \<and> sh_C q dvd sh_P q \<and> 0 < sh_P q \<and>
     list_all (ring_ok m) (sh_rings q) \<and> list_all (\<lambda>n. n < kOwned q) (sh_next q)"

lemma ring_of_less: "\<lbrakk>sharded_ok m q; c < sh_C q; i < kOwned q\<rbrakk> \<Longrightarrow> ring_of q c i < sh_P q"
proof -
  assume "sharded_ok m q" "c < sh_C q" "i < kOwned q"
  then have "sh_P q = sh_C q * kOwned q" by (auto simp: sharded_ok_def kOwned_def)
  moreover have "c + sh_C q * i < sh_C q * Suc i" using \<open>c < sh_C q\<close> by simp
  moreover have "sh_C q * Suc i \<le> sh_C q * kOwned q"
    using \<open>i < kOwned q\<close> by (intro mult_le_mono2) simp
  ultimately show ?thesis by (simp add: ring_of_def)
qed

lemma ring_of_inj: "\<lbrakk>c < sh_C q; ring_of q c i = ring_of q c j\<rbrakk> \<Longrightarrow> i = j"
  by (simp add: ring_of_def)

lemma kOwned_pos: "sharded_ok m q \<Longrightarrow> 0 < kOwned q"
  by (auto simp: sharded_ok_def kOwned_def div_greater_zero_iff dvd_imp_le)

lemma set_ring_simps [simp]:
  "sh_P (q\<lparr>sh_rings := (sh_rings q)[p := r]\<rparr>) = sh_P q" "sh_C (q\<lparr>sh_rings := rs\<rparr>) = sh_C q"
  "kOwned (q\<lparr>sh_rings := (sh_rings q)[p := r]\<rparr>) = kOwned q"
  "sh_C (q\<lparr>sh_next := (sh_next q)[c := n]\<rparr>) = sh_C q" "sh_P (q\<lparr>sh_next := ns\<rparr>) = sh_P q"
  "kOwned (q\<lparr>sh_next := (sh_next q)[c := n]\<rparr>) = kOwned q"
  "ring_of (q\<lparr>sh_rings := rs\<rparr>) = ring_of q"
  "ring_of (q\<lparr>sh_next := (sh_next q)[c := n]\<rparr>) = ring_of q"
  by (simp_all add: sh_P_def sh_C_def kOwned_def ring_of_def fun_eq_iff)

lemma list_all_update: "\<lbrakk>list_all P xs; P y\<rbrakk> \<Longrightarrow> list_all P (xs[i := y])"
  by (auto simp: list_all_iff dest: set_update_subset_insert [THEN subsetD])

lemma sharded_ok_ring:
  "\<lbrakk>sharded_ok m q; p < sh_P q; ring_ok m r\<rbrakk> \<Longrightarrow> sharded_ok m (q\<lparr>sh_rings := (sh_rings q)[p := r]\<rparr>)"
  by (simp add: sharded_ok_def list_all_update)

lemma items_ring:
  "p < sh_P q \<Longrightarrow> items (q\<lparr>sh_rings := (sh_rings q)[p := r]\<rparr>) p' =
     (if p' = p then ring_items r else items q p')"
  by (simp add: items_def sh_P_def)

text \<open>
  What a scan of a consumer's rings does: it stops at the first that has an event, takes its
  oldest, and moves the consumer's starting point behind it.
\<close>

definition turn :: "'a sharded \<Rightarrow> nat \<Rightarrow> nat \<Rightarrow> nat" where
  "turn q c k = (sh_next q ! c + k) mod kOwned q"

definition filled :: "'a sharded \<Rightarrow> nat \<Rightarrow> nat \<Rightarrow> bool" where
  "filled q c i \<longleftrightarrow> items q (ring_of q c i) \<noteq> []"

definition scan_result :: "nat option \<Rightarrow> nat \<Rightarrow> 'a sharded \<Rightarrow> (nat \<times> 'a) option \<Rightarrow> 'a sharded \<Rightarrow> bool" where
  "scan_result found c q res q' \<longleftrightarrow>
     (case found of
        None \<Rightarrow> res = None \<and> items q' = items q \<and> sh_next q' = sh_next q
      | Some i \<Rightarrow> res = Some (i, hd (items q (ring_of q c i))) \<and>
          items q' = (items q)(ring_of q c i := tl (items q (ring_of q c i))) \<and>
          sh_next q' = (sh_next q)[c := (i + 1) mod kOwned q])"

lemma sharded_ok_next:
  "\<lbrakk>sharded_ok m q; i < kOwned q\<rbrakk> \<Longrightarrow> sharded_ok m (q\<lparr>sh_next := (sh_next q)[c := i]\<rparr>)"
  by (simp add: sharded_ok_def list_all_update)

lemma items_next [simp]: "items (q\<lparr>sh_next := ns\<rparr>) = items q"
  by (simp add: items_def fun_eq_iff)

lemma pop_scan_spec:
  assumes "sharded_ok m q" "c < sh_C q"
  shows "sharded_ok m (snd (pop_scan ks c q)) \<and>
    sh_P (snd (pop_scan ks c q)) = sh_P q \<and> sh_C (snd (pop_scan ks c q)) = sh_C q \<and>
    map sr_tail (sh_rings (snd (pop_scan ks c q))) = map sr_tail (sh_rings q) \<and>
    scan_result (find (filled q c) (map (turn q c) ks)) c q
      (fst (pop_scan ks c q)) (snd (pop_scan ks c q))"
  using assms
proof (induction ks arbitrary: q)
  case Nil
  then show ?case by (simp add: scan_result_def)
next
  case (Cons k ks)
  let ?i = "turn q c k" let ?p = "ring_of q c ?i" let ?r = "sh_rings q ! ?p"
  let ?q1 = "q\<lparr>sh_rings := (sh_rings q)[?p := snd (pop_ring ?r)]\<rparr>"
  have i: "?i < kOwned q" using kOwned_pos [OF Cons.prems(1)] by (simp add: turn_def)
  have p: "?p < sh_P q" by (rule ring_of_less [OF Cons.prems i])
  have r: "ring_ok m ?r" using Cons.prems(1) p by (simp add: sharded_ok_def sh_P_def list_all_length)
  note pr = pop_ring_items [OF r]
  have ok1: "sharded_ok m ?q1" by (rule sharded_ok_ring [OF Cons.prems(1) p pr(1)])
  have it1: "items ?q1 = (items q)(?p := tl (items q ?p))"
    using items_ring [OF p] pr(5) by (auto simp: fun_eq_iff) (simp add: items_def)
  have tails: "map sr_tail (sh_rings ?q1) = map sr_tail (sh_rings q)"
    using pr(3) p by (simp add: map_update sh_P_def) (metis length_map list_update_id nth_map)
  have head: "fst (pop_ring ?r) = (case items q ?p of [] \<Rightarrow> None | x # _ \<Rightarrow> Some x)"
    using pr(4) by (simp add: items_def)
  show ?case
  proof (cases "items q ?p")
    case (Cons v vs)
    have eq: "pop_scan (k # ks) c q =
        (Some (?i, v), ?q1\<lparr>sh_next := (sh_next q)[c := (?i + 1) mod kOwned q]\<rparr>)"
      using head Cons by (simp add: turn_def Let_def case_prod_unfold)
    moreover have "sharded_ok m (?q1\<lparr>sh_next := (sh_next ?q1)[c := (?i + 1) mod kOwned q]\<rparr>)"
      by (rule sharded_ok_next [OF ok1]) (use kOwned_pos [OF Cons.prems(1)] in simp)
    ultimately show ?thesis
      unfolding eq using Cons it1 tails by (simp add: scan_result_def filled_def sh_C_def sh_P_def)
  next
    case Nil
    have eq: "pop_scan (k # ks) c q = pop_scan ks c ?q1"
      using head Nil by (simp add: turn_def Let_def case_prod_unfold)
    moreover have "items ?q1 = items q" using it1 Nil by (simp add: fun_upd_idem)
    moreover have "filled ?q1 c = filled q c" "turn ?q1 c = turn q c"
      using it1 Nil by (simp_all add: filled_def turn_def fun_eq_iff)
    moreover have "scan_result f c ?q1 = scan_result f c q" for f
      using \<open>items ?q1 = items q\<close> by (simp add: scan_result_def fun_eq_iff split: option.split)
    moreover have "find (filled q c) (map (turn q c) (k # ks)) = find (filled q c) (map (turn q c) ks)"
      using Nil by (simp add: filled_def)
    ultimately show ?thesis
      unfolding eq using Cons.IH [OF ok1] Cons.prems(2) tails by simp
  qed
qed

lemma sh_take_spec:
  assumes "sharded_ok m q" "c < sh_C q"
  shows "sharded_ok m (snd (sh_take c q))"
    and "sh_P (snd (sh_take c q)) = sh_P q" "sh_C (snd (sh_take c q)) = sh_C q"
    and "map sr_tail (sh_rings (snd (sh_take c q))) = map sr_tail (sh_rings q)"
    and "scan_result (find (filled q c) (map (turn q c) [0..<kOwned q])) c q
      (fst (sh_take c q)) (snd (sh_take c q))"
  using pop_scan_spec [OF assms] unfolding sh_take_def by blast+

text \<open>How many turns away the \<open>i\<close>-th ring of consumer \<open>c\<close> is.\<close>

definition turns_to :: "'a sharded \<Rightarrow> nat \<Rightarrow> nat \<Rightarrow> nat" where
  "turns_to q c i = (i + kOwned q - sh_next q ! c) mod kOwned q"

lemma next_less: "\<lbrakk>sharded_ok m q; c < sh_C q\<rbrakk> \<Longrightarrow> sh_next q ! c < kOwned q"
  by (simp add: sharded_ok_def sh_C_def list_all_length)

lemma turn_turns_to: "\<lbrakk>sharded_ok m q; c < sh_C q; i < kOwned q\<rbrakk> \<Longrightarrow> turn q c (turns_to q c i) = i"
proof -
  assume a: "sharded_ok m q" "c < sh_C q" "i < kOwned q"
  then have n: "sh_next q ! c < kOwned q" by (intro next_less)
  have "turn q c (turns_to q c i) = (sh_next q ! c + (i + kOwned q - sh_next q ! c)) mod kOwned q"
    by (simp add: turn_def turns_to_def mod_add_right_eq)
  also have "\<dots> = (i + kOwned q) mod kOwned q" using n by simp
  finally show ?thesis using a(3) by simp
qed

lemma find_map_upt:
  assumes "P (f d)" "d < n"
  shows "\<exists>k \<le> d. find P (map f [0..<n]) = Some (f k) \<and> P (f k)"
proof -
  define k where "k = (LEAST k. P (f k))"
  have le: "k \<le> d" unfolding k_def using assms(1) by (rule Least_le)
  have hit: "P (f k)" unfolding k_def using assms(1) by (rule LeastI)
  have miss: "\<not> P (f j)" if "j < k" for j using that unfolding k_def by (rule not_less_Least)
  have "k < n" using le assms(2) by (rule le_less_trans)
  then have "find P (map f [0..<n]) = Some (f k)"
    unfolding find_Some_iff using hit miss by (intro exI [of _ k]) simp
  then show ?thesis using le hit by blast
qed

lemma turns_to_unique:
  assumes "sharded_ok m q" "c < sh_C q" "d < kOwned q" "turn q c d = i"
  shows "turns_to q c i = d"
proof -
  have N: "0 < kOwned q" by (rule kOwned_pos [OF assms(1)])
  then have lt: "turns_to q c i < kOwned q" by (simp add: turns_to_def)
  have "i < kOwned q" using assms(4) N by (auto simp: turn_def)
  then have "turn q c (turns_to q c i) = turn q c d"
    using turn_turns_to [OF assms(1,2)] assms(4) by simp
  then show ?thesis
    using lt assms(3) mod_eq_within [of "sh_next q ! c + turns_to q c i" "kOwned q" "sh_next q ! c + d"]
    by (simp add: turn_def)
qed

text \<open>
  One take: if ring \<open>i\<close> has an event, the take comes from it or brings its turn nearer.
\<close>

lemma take_progress:
  assumes ok: "sharded_ok m q" and c: "c < sh_C q" and i: "i < kOwned q" and f: "filled q c i"
  obtains j v where "fst (sh_take c q) = Some (j, v)" "j < kOwned q"
    "j \<noteq> i \<Longrightarrow> filled (snd (sh_take c q)) c i \<and> turns_to (snd (sh_take c q)) c i < turns_to q c i"
proof -
  have "filled q c (turn q c (turns_to q c i))" using f turn_turns_to [OF ok c i] by simp
  moreover have "turns_to q c i < kOwned q" using kOwned_pos [OF ok] by (simp add: turns_to_def)
  ultimately obtain k where k: "k \<le> turns_to q c i"
    "find (filled q c) (map (turn q c) [0..<kOwned q]) = Some (turn q c k)" "filled q c (turn q c k)"
    using find_map_upt [of "filled q c" "turn q c"] by metis
  let ?j = "turn q c k" let ?q = "snd (sh_take c q)"
  have res: "fst (sh_take c q) = Some (?j, hd (items q (ring_of q c ?j)))"
    and it: "items ?q = (items q)(ring_of q c ?j := tl (items q (ring_of q c ?j)))"
    and nx: "sh_next ?q = (sh_next q)[c := (?j + 1) mod kOwned q]"
    using sh_take_spec(5) [OF ok c] k(2) by (simp_all add: scan_result_def)
  have own: "kOwned ?q = kOwned q" "ring_of ?q = ring_of q"
    using sh_take_spec(2,3) [OF ok c] by (simp_all add: kOwned_def ring_of_def fun_eq_iff)
  have "filled ?q c i \<and> turns_to ?q c i < turns_to q c i" if "?j \<noteq> i"
  proof
    show "filled ?q c i" using f that ring_of_inj [OF c] by (auto simp: filled_def own it)
    have "k \<noteq> turns_to q c i" using that turn_turns_to [OF ok c i] by auto
    then have lt: "k < turns_to q c i" using k(1) by simp
    have n: "sh_next q ! c < kOwned q" by (rule next_less [OF ok c])
    have "turn ?q c (turns_to q c i - k - 1) = (sh_next q ! c + k + 1 + (turns_to q c i - k - 1)) mod kOwned q"
      using c by (simp add: turn_def own nx sh_C_def mod_simps)
    also have "\<dots> = turn q c (turns_to q c i)" using lt by (simp add: turn_def)
    also have "\<dots> = i" by (rule turn_turns_to [OF ok c i])
    finally have "turns_to ?q c i = turns_to q c i - k - 1"
      using turns_to_unique [OF sh_take_spec(1) [OF ok c]] sh_take_spec(3) [OF ok c] c own lt
        kOwned_pos [OF ok] by (simp add: turns_to_def less_imp_diff_less)
    then show "turns_to ?q c i < turns_to q c i" using lt by simp
  qed
  then show thesis using that [OF res] kOwned_pos [OF ok] by (simp add: turn_def)
qed

definition pushes :: "('a \<times> nat) list \<Rightarrow> 'a sharded \<Rightarrow> 'a sharded" where
  "pushes ps q = fold (\<lambda>(v, p) q. snd (sh_try_push v p q)) ps q"

lemma sh_try_push_spec:
  assumes "sharded_ok (Suc m) q" "p < sh_P q"
  shows "sharded_ok m (snd (sh_try_push v p q))"
    and "sh_P (snd (sh_try_push v p q)) = sh_P q" "sh_C (snd (sh_try_push v p q)) = sh_C q"
    and "sh_next (snd (sh_try_push v p q)) = sh_next q"
    and "fst (sh_try_push v p q) =
      (if sr_closed (sr_tail (sh_rings q ! p)) then PushClosed
       else if length (items q p) < sr_cap (sh_rings q ! p) then PushOk else PushFull)"
    and "items (snd (sh_try_push v p q)) p' =
      (if p' = p \<and> fst (sh_try_push v p q) = PushOk then items q p @ [v] else items q p')"
proof -
  let ?r = "sh_rings q ! p"
  have r: "ring_ok (Suc m) ?r" using assms by (simp add: sharded_ok_def sh_P_def list_all_length)
  have weak: "sharded_ok m q" using assms(1) by (auto simp: sharded_ok_def ring_ok_def list_all_iff) fastforce
  have q': "snd (sh_try_push v p q) = q\<lparr>sh_rings := (sh_rings q)[p := snd (ring_push v ?r)]\<rparr>"
    and res: "fst (sh_try_push v p q) = fst (ring_push v ?r)"
    by (simp_all add: sh_try_push_def case_prod_unfold Let_def)
  note rp = ring_push_items [OF r, of v]
  show "sharded_ok m (snd (sh_try_push v p q))"
    unfolding q' by (rule sharded_ok_ring [OF weak assms(2) rp(1)])
  show "sh_P (snd (sh_try_push v p q)) = sh_P q" "sh_C (snd (sh_try_push v p q)) = sh_C q"
    "sh_next (snd (sh_try_push v p q)) = sh_next q"
    unfolding q' by simp_all
  show "fst (sh_try_push v p q) =
      (if sr_closed (sr_tail (sh_rings q ! p)) then PushClosed
       else if length (items q p) < sr_cap (sh_rings q ! p) then PushOk else PushFull)"
    unfolding res items_def by (rule rp(4))
  show "items (snd (sh_try_push v p q)) p' =
      (if p' = p \<and> fst (sh_try_push v p q) = PushOk then items q p @ [v] else items q p')"
    unfolding q' res items_ring [OF assms(2)] rp(5) by (simp add: items_def)
qed

lemma pushes_spec:
  "\<lbrakk>sharded_ok (length ps + m) q; \<forall>(v, p) \<in> set ps. p < sh_P q\<rbrakk> \<Longrightarrow>
   sharded_ok m (pushes ps q) \<and> sh_P (pushes ps q) = sh_P q \<and> sh_C (pushes ps q) = sh_C q \<and>
   sh_next (pushes ps q) = sh_next q \<and> (\<forall>p. items q p \<noteq> [] \<longrightarrow> items (pushes ps q) p \<noteq> [])"
proof (induction ps arbitrary: q)
  case (Cons x ps)
  obtain v p where x: "x = (v, p)" by (cases x)
  have ok: "sharded_ok (Suc (length ps + m)) q" and p: "p < sh_P q" using Cons.prems x by auto
  note sp = sh_try_push_spec [OF ok p, of v]
  have "pushes (x # ps) q = pushes ps (snd (sh_try_push v p q))" by (simp add: pushes_def x)
  then show ?case using Cons.IH [OF sp(1)] Cons.prems(2) sp(2,3,4,6) by auto
qed (simp add: pushes_def)

text \<open>
  The rings that consumer \<open>c\<close> is served from, one take after each batch of pushes.
\<close>

fun serve :: "nat \<Rightarrow> ('a \<times> nat) list list \<Rightarrow> 'a sharded \<Rightarrow> nat list" where
  "serve c [] q = []"
| "serve c (ps # pss) q =
     (case sh_take c (pushes ps q) of
        (Some (j, v), q1) \<Rightarrow> j # serve c pss q1
      | (None, q1) \<Rightarrow> serve c pss q1)"

lemma serve_hits:
  "\<lbrakk>sharded_ok m q; c < sh_C q; i < kOwned q; filled q c i; turns_to q c i < length pss;
    sum_list (map length pss) \<le> m; \<forall>ps \<in> set pss. \<forall>(v, p) \<in> set ps. p < sh_P q\<rbrakk> \<Longrightarrow>
   i \<in> set (serve c pss q)"
proof (induction pss arbitrary: q m)
  case (Cons ps pss)
  let ?q1 = "pushes ps q" and ?m = "m - length ps"
  have ok: "sharded_ok (length ps + ?m) q" using Cons.prems(1,6) by simp
  have "\<forall>(v, p) \<in> set ps. p < sh_P q" using Cons.prems(7) by simp
  note ps = pushes_spec [OF ok this]
  have own: "kOwned ?q1 = kOwned q" "ring_of ?q1 = ring_of q" "turns_to ?q1 = turns_to q"
    using ps by (simp_all add: kOwned_def ring_of_def turns_to_def fun_eq_iff)
  have c: "c < sh_C ?q1" and i: "i < kOwned ?q1" using ps own Cons.prems by simp_all
  have f: "filled ?q1 c i" using ps Cons.prems(4) by (simp add: filled_def own)
  have ok1: "sharded_ok ?m ?q1" using ps by blast
  obtain j v where res: "fst (sh_take c ?q1) = Some (j, v)"
    and nearer: "j \<noteq> i \<Longrightarrow> filled (snd (sh_take c ?q1)) c i \<and>
      turns_to (snd (sh_take c ?q1)) c i < turns_to ?q1 c i"
    using take_progress [OF ok1 c i f] by blast
  have step: "serve c (ps # pss) q = j # serve c pss (snd (sh_take c ?q1))"
    using res by (cases "sh_take c ?q1") simp
  show ?case
  proof (cases "j = i")
    case False
    have same: "sh_P (snd (sh_take c ?q1)) = sh_P q" "sh_C (snd (sh_take c ?q1)) = sh_C q"
      using sh_take_spec(2,3) [OF ok1 c] ps by simp_all
    have "i \<in> set (serve c pss (snd (sh_take c ?q1)))"
      by (rule Cons.IH [OF sh_take_spec(1) [OF ok1 c]])
        (use nearer [OF False] same own Cons.prems in \<open>auto simp: kOwned_def\<close>)
    then show ?thesis unfolding step by simp
  qed (unfold step, simp)
qed simp

text \<open>
  C31: A busy ring cannot starve the rest. If a ring of consumer \<open>c\<close> has an event, then among the
  next \<open>kOwned\<close> takes of \<open>c\<close>, with any pushes to any rings between them, one is from that ring.
\<close>

theorem no_ring_starves:
  assumes "sharded_ok m q" "c < sh_C q" "i < kOwned q" "items q (ring_of q c i) \<noteq> []"
    and "length pss = kOwned q" "sum_list (map length pss) \<le> m"
    and "\<forall>ps \<in> set pss. \<forall>(v, p) \<in> set ps. p < sh_P q"
  shows "i \<in> set (serve c pss q)"
proof -
  have "turns_to q c i < length pss" using assms(5) kOwned_pos [OF assms(1)] by (simp add: turns_to_def)
  moreover have "filled q c i" using assms(4) by (simp add: filled_def)
  ultimately show ?thesis using assms(6,7) by (intro serve_hits [OF assms(1-3)])
qed

lemma new_sharded_ok:
  assumes "0 < c" "c dvd p" "0 < p" "ring_cap (n div p)" "m < 2 ^ 63"
  shows "sharded_ok m (new_sharded n p c x)"
proof -
  have "sring_at (new_sring (n div p) x) 0 0 0 0 False"
    using assms(4) by (simp add: sring_at_def new_sring_def sr_cap_def tail_word_def)
  then have "ring_ok m (new_sring (n div p) x)" by (rule sring_at_ok) (use assms(5) in simp)
  then show ?thesis
    using assms(1,2,3) by (auto simp: sharded_ok_def new_sharded_def sh_P_def sh_C_def kOwned_def
        list_all_iff div_greater_zero_iff dvd_imp_le)
qed

text \<open>Four rings of four, two consumers: ring 2 has an event, and ring 0 is kept busy.\<close>

definition busy_rings :: "nat sharded" where
  "busy_rings = pushes [(20, 2)] (new_sharded 16 4 2 0)"

lemma busy_rings_ok:
  "sharded_ok 2 busy_rings" "sh_C busy_rings = 2" "sh_P busy_rings = 4" "items busy_rings 2 = [20]"
proof -
  let ?new = "new_sharded 16 4 2 (0 :: nat)"
  have new: "sharded_ok (Suc 2) ?new"
    by (rule new_sharded_ok) (simp_all add: ring_cap_def has_single_bit_def)
  have p: "2 < sh_P ?new" "sh_C ?new = 2" "sh_P ?new = 4"
    by (simp_all add: new_sharded_def sh_P_def sh_C_def)
  have "items ?new 2 = []" "\<not> sr_closed (sr_tail (sh_rings ?new ! 2))" "sr_cap (sh_rings ?new ! 2) = 4"
    by (simp_all add: new_sharded_def items_def ring_items_def new_sring_def tail_pos_def sr_closed_def
        sr_cap_def)
  then show "sharded_ok 2 busy_rings" "sh_C busy_rings = 2" "sh_P busy_rings = 4" "items busy_rings 2 = [20]"
    using sh_try_push_spec [OF new p(1), of 20] p by (simp_all add: busy_rings_def pushes_def)
qed

lemma no_ring_starves_witness: "1 \<in> set (serve 0 [[(12, 0)], [(13, 0)]] busy_rings)"
proof (rule no_ring_starves [OF busy_rings_ok(1)])
  have "ring_of busy_rings 0 1 = 2" using busy_rings_ok(2) by (simp add: ring_of_def)
  then show "items busy_rings (ring_of busy_rings 0 1) \<noteq> []" using busy_rings_ok(4) by simp
qed (simp_all add: busy_rings_ok(2,3) kOwned_def)

text \<open>
  The drained test is exact: it holds just when every ring of the consumer is empty and every
  push to one of them is refused as closed.
\<close>

theorem drained_is_exact:
  assumes "sharded_ok (Suc m) q" "c < sh_C q"
  shows "sh_drained c q = (\<forall>k < kOwned q. items q (ring_of q c k) = [] \<and>
    (\<forall>v. fst (sh_try_push v (ring_of q c k) q) = PushClosed))"
proof -
  have "(sr_head (sh_rings q ! p) = tail_pos (sr_tail (sh_rings q ! p))) = (items q p = [])" if "p < sh_P q" for p
  proof -
    have "ring_ok (Suc m) (sh_rings q ! p)" using assms(1) that by (simp add: sharded_ok_def sh_P_def list_all_length)
    then show ?thesis by (auto simp: items_def ring_items_def unat_eq_zero)
  qed
  moreover have "(fst (sh_try_push v p q) = PushClosed) = sr_closed (sr_tail (sh_rings q ! p))"
    if "p < sh_P q" for v p
    using sh_try_push_spec(5) [OF assms(1) that] by simp
  ultimately show ?thesis
    using ring_of_less [OF assms] by (auto simp: sh_drained_def list_all_iff Let_def)
qed

text \<open>Closing sets every ring's bit and changes no events.\<close>

lemma close_ring_keeps:
  assumes "ring_ok m r"
  shows "ring_ok m (close_ring r)" "ring_items (close_ring r) = ring_items r"
    "sr_closed (sr_tail (close_ring r))" "sr_cap (close_ring r) = sr_cap r"
proof -
  obtain ch h ct t c where at: "sring_at r ch h ct t c" and b: "t + m < 2 ^ 63"
    using assms by (auto simp: ring_ok_def)
  have r: "close_ring r = r\<lparr>sr_tail := tail_word t True\<rparr>"
    using at by (simp add: close_ring_def sring_at_def close_tail_word)
  have at': "sring_at (close_ring r) ch h ct t True" using at unfolding r by (simp add: sring_at_def)
  show "ring_ok m (close_ring r)" by (rule sring_at_ok [OF at' b])
  show "ring_items (close_ring r) = ring_items r"
    unfolding ring_items_at [OF at'] ring_items_at [OF at] by (simp add: r)
  show "sr_closed (sr_tail (close_ring r))" "sr_cap (close_ring r) = sr_cap r" by (simp_all add: r)
qed

lemma sh_close_spec:
  assumes "sharded_ok m q"
  shows "sharded_ok m (sh_close q)"
    and "list_all (\<lambda>r. sr_closed (sr_tail r)) (sh_rings (sh_close q))"
    and "p < sh_P q \<Longrightarrow> items (sh_close q) p = items q p"
    and "sh_is_closed (sh_close q)"
proof -
  have q': "sh_close q = q\<lparr>sh_rings := map close_ring (sh_rings q)\<rparr>"
    by (simp add: sh_close_def sh_close_upto_def sh_P_def)
  have r: "ring_ok m r" if "r \<in> set (sh_rings q)" for r
    using assms that by (simp add: sharded_ok_def list_all_iff)
  show ok: "sharded_ok m (sh_close q)"
    using assms close_ring_keeps(1) [OF r]
    by (auto simp: q' sharded_ok_def sh_P_def sh_C_def kOwned_def list_all_iff)
  show all: "list_all (\<lambda>r. sr_closed (sr_tail r)) (sh_rings (sh_close q))"
    using close_ring_keeps(3) [OF r] by (auto simp: q' list_all_iff)
  show "items (sh_close q) p = items q p" if "p < sh_P q"
    using that close_ring_keeps(2) [OF r] by (simp add: q' items_def sh_P_def)
  show "sh_is_closed (sh_close q)"
    using all ok by (simp add: sh_is_closed_def sharded_ok_def list_all_length sh_P_def)
qed

definition closed_rings :: "nat sharded" where
  "closed_rings = sh_close (new_sharded 16 4 2 0)"

lemma drained_is_exact_witness:
  "sh_drained 1 closed_rings = (\<forall>k < kOwned closed_rings. items closed_rings (ring_of closed_rings 1 k) = [] \<and>
     (\<forall>v. fst (sh_try_push v (ring_of closed_rings 1 k) closed_rings) = PushClosed)) \<and>
   sh_drained 1 closed_rings"
proof
  have "sharded_ok (Suc 0) (new_sharded 16 4 2 (0 :: nat))"
    by (rule new_sharded_ok) (simp_all add: ring_cap_def has_single_bit_def)
  then have ok: "sharded_ok (Suc 0) closed_rings" unfolding closed_rings_def by (rule sh_close_spec)
  show "sh_drained 1 closed_rings = (\<forall>k < kOwned closed_rings. items closed_rings (ring_of closed_rings 1 k) = [] \<and>
     (\<forall>v. fst (sh_try_push v (ring_of closed_rings 1 k) closed_rings) = PushClosed))"
    by (rule drained_is_exact [OF ok])
      (simp add: closed_rings_def sh_close_def sh_close_upto_def new_sharded_def sh_C_def)
  show "sh_drained 1 closed_rings"
    by (simp add: closed_rings_def sh_close_def sh_close_upto_def new_sharded_def sh_C_def sh_P_def
        sh_drained_def kOwned_def ring_of_def new_sring_def close_ring_def sr_closed_def
        sr_closed_bit_def tail_pos_def Let_def upt_rec)
qed

end
