(* ===== verification/Tq_Wakes.thy ===== *)
theory Tq_Wakes
  imports Tq_Blocking Tq_EventCount
begin

text \<open>
  The notifications that the operations of mpmc_queue.hpp issue, the words a close writes and the
  diagnostics read, and the push of sharded_queue.hpp that blocks.
\<close>

section \<open>Notifications of the shared queue\<close>

definition kFenced :: "options \<Rightarrow> bool" where
  "kFenced opts \<longleftrightarrow> o_bug opts \<noteq> NoFence"

text \<open>\<open>release\<close> after its store: the wake for blocked producers, once per batch.\<close>

definition release_calls :: "options \<Rightarrow> nat \<Rightarrow> u64 \<Rightarrow> notify list" where
  "release_calls opts n pos =
     (if \<not> release_wakes opts n pos then []
      else [if o_reserve opts = Ticket then NotifyAllIfWaiting else NotifyOne])"

text \<open>\<open>close\<close>: its word and what it sends to \<open>not_empty_\<close> and to \<open>not_full_\<close>.\<close>

definition close_queue :: "'a mpmc \<Rightarrow> 'a mpmc \<times> notify list \<times> notify list" where
  "close_queue q = (q\<lparr>tail_w := tail_w q OR kClosed\<rparr>, [NotifyAll], [NotifyAll])"

definition closed_now :: "'a mpmc \<Rightarrow> bool" where
  "closed_now q \<longleftrightarrow> is_closed (tail_w q)"

definition reserved_now :: "'a mpmc \<Rightarrow> u64" where
  "reserved_now q = drop_bit 1 (tail_w q)"

definition claimed_now :: "'a mpmc \<Rightarrow> u64" where
  "claimed_now q = head_w q"

lemma drop_closed [simp]: "drop_bit (Suc 0) kClosed = 0"
  by (simp add: kClosed_def)

lemma is_closed_or: "is_closed (w OR kClosed)"
  by (simp add: is_closed_def kClosed_def and_one_eq even_or_iff mod_2_eq_odd)

text \<open>
  A close is the model's step, it shows as closed at once and it moves no position: what was
  reserved stays owed. A second close changes nothing.
\<close>

theorem close_keeps_debts:
  "start_op t Close q = (fst (close_queue q), Idle, [EvClose t]) \<and>
   closed_now (fst (close_queue q)) \<and>
   reserved_now (fst (close_queue q)) = reserved_now q \<and>
   claimed_now (fst (close_queue q)) = claimed_now q \<and>
   close_queue (fst (close_queue q)) = close_queue q"
  by (simp add: start_op_def close_queue_def closed_now_def reserved_now_def claimed_now_def
      is_closed_or or.assoc)

text \<open>
  A batch of releases with ticket reservations sends one wake, and sends it to every waiting
  holder; with compare-and-swap reservations it sends one, to one.
\<close>

lemma release_calls_kinds:
  "release_calls opts n pos \<noteq> [] \<longleftrightarrow> release_wakes opts n pos"
  "c \<in> set (release_calls opts n pos) \<Longrightarrow> o_reserve opts = Ticket \<Longrightarrow> c = NotifyAllIfWaiting"
  "c \<in> set (release_calls opts n pos) \<Longrightarrow> o_reserve opts = Cas \<Longrightarrow> c = NotifyOne"
  by (auto simp: release_calls_def split: if_splits)

section \<open>A blocking push on a ring\<close>

definition sh_blocking_push ::
  "push_turn list \<Rightarrow> op_stats \<Rightarrow> (push_res \<times> op_stats \<times> call list) option" where
  "sh_blocking_push = blocking_push False False"

lemma push_turn_passes_nothing: "PassOn \<notin> set (snd (push_turn False parked t))"
  by (simp add: push_turn_def Let_def)

lemma sh_passes_nothing:
  "blocking_push False parked ts st = Some (r, st', cs) \<Longrightarrow> PassOn \<notin> set cs"
proof (induction ts arbitrary: parked st cs)
  case (Cons t ts)
  obtain res cs1 where t: "push_turn False parked t = (res, cs1)" by fastforce
  have "PassOn \<notin> set cs1" using push_turn_passes_nothing [of parked t] t by simp
  then show ?case using Cons t by (cases res) auto
qed simp

text \<open>A ring's only producer has nobody to pass a wake on to, and nothing else differs.\<close>

theorem sh_push_is_one_attempt:
  assumes "sh_blocking_push ts st = Some (r, st', cs)"
    and "\<forall>t \<in> set ts. p_first t \<noteq> PushTimeout \<and> p_second t \<noteq> PushTimeout"
  shows "(\<exists>k. push_tries cs = replicate k PushFull @ (if r = PushTimeout then [] else [r])) \<and>
    r \<noteq> PushFull \<and> registrations False cs = Some False \<and> PassOn \<notin> set cs \<and>
    parks st' = parks st + of_nat (parks_in cs)"
  using blocking_push_is_one_attempt [OF assms [unfolded sh_blocking_push_def]]
    sh_passes_nothing [OF assms(1) [unfolded sh_blocking_push_def]] by blast

lemma sh_push_is_one_attempt_witness:
  "sh_blocking_push late_push no_stats =
     Some (PushOk, no_stats\<lparr>parks := 1\<rparr>,
       [TryPush PushFull, Prepare, TryPush PushFull, Park, TryPush PushFull, Prepare, TryPush PushOk, Cancel]) \<and>
   registrations False
     [TryPush PushFull, Prepare, TryPush PushFull, Park, TryPush PushFull, Prepare, TryPush PushOk, Cancel] = Some False"
proof
  show run: "sh_blocking_push late_push no_stats =
     Some (PushOk, no_stats\<lparr>parks := 1\<rparr>,
       [TryPush PushFull, Prepare, TryPush PushFull, Park, TryPush PushFull, Prepare, TryPush PushOk, Cancel])"
    by (simp add: sh_blocking_push_def late_push_def push_turn_def no_stats_def)
  show "registrations False
     [TryPush PushFull, Prepare, TryPush PushFull, Park, TryPush PushFull, Prepare, TryPush PushOk, Cancel] = Some False"
    using sh_push_is_one_attempt [OF run] by (simp add: late_push_def)
qed

end
