(* ===== verification/Tq_Harness.thy ===== *)
theory Tq_Harness
  imports Tq_Main
begin

text \<open>
  mpmc-work-queue-kata/cpp/bench/harness.cpp: how a figure is printed, and the watchdog that ends
  a run that hangs. A double is a rational number and its quotient by a unit is exact; \<open>%.kf\<close>
  rounds to the nearest decimal and halves to even, as the IEEE conversions of the C library do.
\<close>

section \<open>Printing a figure\<close>

definition half_even :: "rat \<Rightarrow> int" where
  "half_even x =
     (let f = \<lfloor>x\<rfloor>; d = x - of_int f
      in if d < 1 / 2 \<or> d = 1 / 2 \<and> even f then f else f + 1)"

text \<open>\<open>%.kf\<close>\<close>

definition fixed :: "nat \<Rightarrow> rat \<Rightarrow> string" where
  "fixed k x =
     (let m = nat (half_even (\<bar>x\<bar> * 10 ^ k)); frac = decimal (m mod 10 ^ k)
      in (if x < 0 then ''-'' else '''') @ decimal (m div 10 ^ k) @
         (if k = 0 then '''' else ''.'' @ replicate (k - length frac) (CHR ''0'') @ frac))"

text \<open>A buffer of 32 bytes, the last of them the end of the string.\<close>

definition snprintf32 :: "string \<Rightarrow> string" where
  "snprintf32 s = take 31 s"

definition fmt_ns :: "rat \<Rightarrow> string" where
  "fmt_ns t = snprintf32
     (if t < 10 ^ 3 then fixed 0 t @ '' ns''
      else if t < 10 ^ 6
      then fixed (if t < 10 ^ 4 then 2 else if t < 10 ^ 5 then 1 else 0) (t / 10 ^ 3) @ '' us''
      else if t < 10 ^ 9
      then fixed (if t < 10 ^ 7 then 2 else if t < 10 ^ 8 then 1 else 0) (t / 10 ^ 6) @ '' ms''
      else fixed 2 (t / 10 ^ 9) @ '' s'')"

definition fmt_rate :: "rat \<Rightarrow> string" where
  "fmt_rate per_sec = snprintf32 (fixed 2 (per_sec / 10 ^ 6) @ '' M/s'')"

subsection \<open>Reading it back\<close>

definition digits :: "string \<Rightarrow> nat" where
  "digits ds = foldl (\<lambda>n c. 10 * n + (of_char c - 48)) 0 ds"

definition read_number :: "string \<Rightarrow> rat" where
  "read_number s =
     (let whole = takeWhile (\<lambda>c. c \<noteq> CHR ''.'') s; frac = drop (length whole + 1) s
      in of_nat (digits (whole @ frac)) / 10 ^ length frac)"

definition read_figure :: "string \<Rightarrow> rat option" where
  "read_figure s =
     (let num = takeWhile (\<lambda>c. c \<noteq> CHR '' '') s
      in map_option (\<lambda>unit. read_number num * unit)
           (map_of [('' ns'', 1), ('' us'', 10 ^ 3), ('' ms'', 10 ^ 6), ('' s'', 10 ^ 9), ('' M/s'', 10 ^ 6)]
              (drop (length num) s)))"

lemma foldl_places:
  "foldl (\<lambda>n c. 10 * n + f c) a ys = a * 10 ^ length ys + foldl (\<lambda>n c. 10 * n + f c) 0 ys" for a :: nat
  by (induction ys rule: rev_induct) (simp_all add: algebra_simps)

lemma digits_append: "digits (xs @ ys) = digits xs * 10 ^ length ys + digits ys"
  unfolding digits_def foldl_append by (rule foldl_places)

lemma digits_Nil [simp]: "digits [] = 0"
  by (simp add: digits_def)

lemma digits_zeros: "digits (replicate n (CHR ''0'')) = 0"
  by (induction n) (simp_all add: digits_def)

lemma digit_char: "k < 10 \<Longrightarrow> of_char (char_of (48 + k) :: char) = 48 + k" for k :: nat
  by (simp only: of_char_of) simp

lemma digits_decimal: "digits (decimal n) = n"
proof (induction n rule: decimal.induct)
  case (1 n)
  have one: "digits [char_of (48 + k)] = k" if "k < 10" for k
    using digit_char [OF that] by (simp add: digits_def)
  show ?case
  proof (cases "n < 10")
    case True
    then show ?thesis using one by (simp add: decimal.simps [of n])
  next
    case False
    then show ?thesis using 1 [OF False] one [of "n mod 10"]
      by (simp add: decimal.simps [of n] digits_append)
  qed
qed

lemma decimal_length: "n < 10 ^ k \<Longrightarrow> 0 < k \<Longrightarrow> length (decimal n) \<le> k"
proof (induction n arbitrary: k rule: decimal.induct)
  case (1 n)
  show ?case
  proof (cases "n < 10")
    case True
    then show ?thesis using 1(3) by (simp add: decimal.simps [of n])
  next
    case False
    then obtain j where j: "k = Suc j" "0 < j"
      using 1(2,3) by (cases k; cases "k - 1") auto
    then have "n div 10 < 10 ^ j" using 1(2) by (simp add: less_mult_imp_div_less)
    then show ?thesis using 1(1) [OF False _ j(2)] False j by (simp add: decimal.simps [of n])
  qed
qed

lemma decimal_chars: "c \<in> set (decimal n) \<Longrightarrow> \<exists>k < 10. c = char_of (48 + k :: nat)"
proof (induction n rule: decimal.induct)
  case (1 n)
  then show ?case
    by (cases "n < 10") (auto simp: decimal.simps [of n] intro: exI [of _ "n mod 10"])
qed

lemma digit_not_punct:
  assumes "k < 10"
  shows "char_of (48 + k :: nat) \<noteq> CHR ''.''" "char_of (48 + k) \<noteq> CHR '' ''"
proof -
  have "of_char (CHR ''.'') = (46 :: nat)" "of_char (CHR '' '') = (32 :: nat)" by simp_all
  then show "char_of (48 + k :: nat) \<noteq> CHR ''.''" "char_of (48 + k) \<noteq> CHR '' ''"
    using digit_char [OF assms] by force+
qed

lemma decimal_no_punct: "CHR ''.'' \<notin> set (decimal n)" "CHR '' '' \<notin> set (decimal n)"
  using decimal_chars [of _ n] digit_not_punct by metis+

lemma half_even_close: "\<bar>of_int (half_even x) - x\<bar> \<le> 1 / 2"
proof -
  have "of_int \<lfloor>x\<rfloor> \<le> x" "x < of_int \<lfloor>x\<rfloor> + 1" by linarith+
  then show ?thesis by (auto simp: half_even_def Let_def)
qed

lemma half_even_nonneg: "0 \<le> x \<Longrightarrow> 0 \<le> half_even x"
  by (auto simp: half_even_def Let_def)

lemma half_even_less: "x < of_int n \<Longrightarrow> half_even x \<le> n"
  by (auto simp: half_even_def Let_def floor_less_iff intro: less_imp_le)

text \<open>The characters of a figure and the number they stand for.\<close>

lemma fixed_chars:
  assumes "0 \<le> x"
  shows "CHR '' '' \<notin> set (fixed k x)"
  using assms decimal_no_punct by (simp add: fixed_def Let_def)

lemma read_fixed:
  assumes "0 \<le> x"
  shows "read_number (fixed k x) = of_int (half_even (x * 10 ^ k)) / 10 ^ k"
proof -
  define m where "m = nat (half_even (x * 10 ^ k))"
  define frac where "frac = (if k = 0 then '''' else
    replicate (k - length (decimal (m mod 10 ^ k))) (CHR ''0'') @ decimal (m mod 10 ^ k))"
  have m: "of_nat m = (of_int (half_even (x * 10 ^ k)) :: rat)"
    using half_even_nonneg [of "x * 10 ^ k"] assms by (simp add: m_def)
  have str: "fixed k x = decimal (m div 10 ^ k) @ (if k = 0 then '''' else ''.'' @ frac)"
    using assms by (simp add: fixed_def m_def frac_def Let_def)
  have frac: "length frac = k" "digits frac = m mod 10 ^ k"
    using decimal_length [of "m mod 10 ^ k" k]
    by (auto simp: frac_def digits_append digits_zeros digits_decimal)
  have whole: "takeWhile (\<lambda>c. c \<noteq> CHR ''.'') (fixed k x) = decimal (m div 10 ^ k)"
    unfolding str using decimal_no_punct(1) [of "m div 10 ^ k"]
    by (auto simp: takeWhile_append takeWhile_eq_all_conv)
  then have tail: "drop (length (decimal (m div 10 ^ k)) + 1) (fixed k x) = frac"
    using frac(1) by (auto simp: str)
  have "read_number (fixed k x) = of_nat (digits (decimal (m div 10 ^ k) @ frac)) / 10 ^ k"
    by (simp only: read_number_def whole Let_def tail frac(1))
  also have "digits (decimal (m div 10 ^ k) @ frac) = m"
    by (simp only: digits_append digits_decimal frac div_mult_mod_eq)
  finally show ?thesis by (simp add: m)
qed

lemma fixed_length:
  assumes "0 \<le> x" "x < 10 ^ 21" "k \<le> 2"
  shows "length (fixed k x) \<le> 25"
proof -
  define m where "m = nat (half_even (x * 10 ^ k))"
  have "x * 10 ^ k < of_int (10 ^ 21 * 10 ^ k)" using assms(2) by simp
  from half_even_less [OF this] have "m \<le> 10 ^ 21 * 10 ^ k" by (simp add: m_def nat_le_iff)
  then have "m div 10 ^ k \<le> 10 ^ 21 * 10 ^ k div 10 ^ k" by (rule div_le_mono)
  then have "m div 10 ^ k < 10 ^ 22" by simp
  then have whole: "length (decimal (m div 10 ^ k)) \<le> 22" by (rule decimal_length) simp
  have "length (decimal (m mod 10 ^ k)) \<le> k" if "0 < k"
    using decimal_length [of "m mod 10 ^ k" k] that by simp
  then show ?thesis
    using whole assms(1,3) by (cases "k = 0") (auto simp: fixed_def m_def Let_def)
qed

lemma figure_close:
  assumes x: "0 \<le> x" "x < 10 ^ 21" "k \<le> 2"
    and u: "(u, unit) \<in> set [('' ns'', 1), ('' us'', 10 ^ 3), ('' ms'', 10 ^ 6), ('' s'', 10 ^ 9), ('' M/s'', 10 ^ 6)]"
  shows "\<exists>v. read_figure (snprintf32 (fixed k x @ u)) = Some v \<and> \<bar>v - x * unit\<bar> \<le> unit / (2 * 10 ^ k)"
proof -
  have len: "length u \<le> 4" and sp: "u = CHR '' '' # List.tl u" and pos: "0 < unit" using u by auto
  have buf: "snprintf32 (fixed k x @ u) = fixed k x @ u"
    using fixed_length [OF x] len by (simp add: snprintf32_def)
  have num: "takeWhile (\<lambda>c. c \<noteq> CHR '' '') (fixed k x @ u) = fixed k x"
    by (subst sp) (use fixed_chars [OF x(1)] in \<open>auto simp: takeWhile_append takeWhile_eq_all_conv\<close>)
  have "read_figure (snprintf32 (fixed k x @ u)) = Some (read_number (fixed k x) * unit)"
    using u by (auto simp: buf read_figure_def num Let_def)
  moreover have "\<bar>read_number (fixed k x) * unit - x * unit\<bar> \<le> unit / (2 * 10 ^ k)"
  proof -
    have "\<bar>of_int (half_even (x * 10 ^ k)) - x * 10 ^ k\<bar> / 10 ^ k \<le> (1 / 2) / 10 ^ k"
      by (intro divide_right_mono half_even_close) simp
    also have "\<bar>of_int (half_even (x * 10 ^ k)) - x * 10 ^ k\<bar> / 10 ^ k = \<bar>read_number (fixed k x) - x\<bar>"
    proof -
      have "\<bar>of_int (half_even (x * 10 ^ k)) - x * 10 ^ k\<bar> / 10 ^ k =
          \<bar>(of_int (half_even (x * 10 ^ k)) - x * 10 ^ k) / 10 ^ k\<bar>" by simp
      also have "\<dots> = \<bar>read_number (fixed k x) - x\<bar>" by (simp only: read_fixed [OF x(1)] diff_divide_distrib) simp
      finally show ?thesis .
    qed
    finally have "\<bar>read_number (fixed k x) - x\<bar> * unit \<le> (1 / 2) / 10 ^ k * unit"
      using pos by (intro mult_right_mono) simp_all
    then show ?thesis using pos by (simp add: abs_mult left_diff_distrib [symmetric] del: left_diff_distrib)
  qed
  ultimately show ?thesis by blast
qed

text \<open>
  The printed duration is the measured one to within half a per cent, whatever its size, and the
  figure names the unit it is in; below a microsecond it is right to the half nanosecond.
\<close>

theorem fmt_ns_close:
  assumes "0 \<le> t" "t < 10 ^ 30"
  shows "\<exists>v. read_figure (fmt_ns t) = Some v \<and> \<bar>v - t\<bar> \<le> max (1 / 2) (t / 200)"
proof -
  have fig: "\<exists>v. read_figure (fmt_ns t) = Some v \<and> \<bar>v - t\<bar> \<le> max (1 / 2) (t / 200)"
    if "fmt_ns t = snprintf32 (fixed k (t / unit) @ u)" "t / unit < 10 ^ 21" "k \<le> 2"
      "(u, unit) \<in> set [('' ns'', 1), ('' us'', 10 ^ 3), ('' ms'', 10 ^ 6), ('' s'', 10 ^ 9), ('' M/s'', 10 ^ 6)]"
      "unit / (2 * 10 ^ k) \<le> max (1 / 2) (t / 200)"
    for u unit k
  proof -
    have "0 < unit" using that(4) by auto
    then show ?thesis
      using figure_close [of "t / unit" k u unit] that assms(1) by fastforce
  qed
  consider "t < 10 ^ 3" | "10 ^ 3 \<le> t" "t < 10 ^ 4" | "10 ^ 4 \<le> t" "t < 10 ^ 5" | "10 ^ 5 \<le> t" "t < 10 ^ 6"
    | "10 ^ 6 \<le> t" "t < 10 ^ 7" | "10 ^ 7 \<le> t" "t < 10 ^ 8" | "10 ^ 8 \<le> t" "t < 10 ^ 9" | "10 ^ 9 \<le> t"
    by linarith
  then show ?thesis
  proof cases
    case 1
    then show ?thesis by (intro fig [of 0 1 "'' ns''"]) (simp_all add: fmt_ns_def)
  next
    case 2
    then show ?thesis by (intro fig [of 2 "10 ^ 3" "'' us''"]) (simp_all add: fmt_ns_def)
  next
    case 3
    then show ?thesis by (intro fig [of 1 "10 ^ 3" "'' us''"]) (simp_all add: fmt_ns_def)
  next
    case 4
    then show ?thesis by (intro fig [of 0 "10 ^ 3" "'' us''"]) (simp_all add: fmt_ns_def)
  next
    case 5
    then show ?thesis by (intro fig [of 2 "10 ^ 6" "'' ms''"]) (simp_all add: fmt_ns_def)
  next
    case 6
    then show ?thesis by (intro fig [of 1 "10 ^ 6" "'' ms''"]) (simp_all add: fmt_ns_def)
  next
    case 7
    then show ?thesis by (intro fig [of 0 "10 ^ 6" "'' ms''"]) (simp_all add: fmt_ns_def)
  next
    case 8
    then show ?thesis using assms(2) by (intro fig [of 2 "10 ^ 9" "'' s''"]) (simp_all add: fmt_ns_def)
  qed
qed

lemma fmt_ns_figures:
  "fmt_ns 812 = ''812 ns''" "fmt_ns 1940 = ''1.94 us''" "fmt_ns 13100000 = ''13.1 ms''"
  by code_simp+

theorem fmt_ns_close_witness:
  "\<bar>the (read_figure ''1.94 us'') - 1936\<bar> \<le> 1936 / 200"
proof -
  have "fmt_ns 1936 = ''1.94 us''" by code_simp
  then show ?thesis using fmt_ns_close [of 1936] by auto
qed

text \<open>Not always three significant figures, nor the largest unit that fits the rounded figure.\<close>

theorem fmt_ns_not_three_figures:
  "fmt_ns 9996 = ''10.00 us'' \<and> fmt_ns (9996 / 10) = ''1000 ns'' \<and> fmt_ns 12345678901 = ''12.35 s'' \<and>
   fmt_ns 42 = ''42 ns''"
  by code_simp

lemma fmt_rate_close:
  assumes "0 \<le> r" "r < 10 ^ 27"
  shows "\<exists>v. read_figure (fmt_rate r) = Some v \<and> \<bar>v - r\<bar> \<le> 5000"
  using figure_close [of "r / 10 ^ 6" 2 "'' M/s''" "10 ^ 6"] assms by (simp add: fmt_rate_def)

section \<open>The watchdog\<close>

text \<open>
  The thread waits for \<open>done_\<close> with a deadline; the destructor sets it, notifies and joins. What is
  done under \<open>mu_\<close> is one step: a look at \<open>done_\<close> together with what follows from it, and the
  store of the destructor. A wait that is left (notified, on time, or for no reason) still has
  to take the lock for its next look. Once the process has ended nothing happens.
\<close>

datatype watch_pc =
    Starting
  | Sleeping rat         \<comment> \<open>the deadline\<close>
  | Roused rat bool      \<comment> \<open>out of the wait; whether it timed out\<close>
  | Hung                 \<comment> \<open>\<open>std::_Exit\<close>\<close>
  | Left

datatype owner_pc = Guarding | DoneSet | Joining | Joined

record watchdog =
  wd_done :: bool
  wd_pc :: watch_pc
  ow_pc :: owner_pc

definition new_watchdog :: watchdog where
  "new_watchdog = \<lparr>wd_done = False, wd_pc = Starting, ow_pc = Guarding\<rparr>"

text \<open>\<open>Rouse late\<close>: a wait ends without a notification, by time if it is \<open>late\<close>.\<close>

datatype watch_act = Look | Rouse bool | Destroy

definition watch_look :: "rat \<Rightarrow> rat \<Rightarrow> watchdog \<Rightarrow> watchdog" where
  "watch_look limit now s =
     (case wd_pc s of
        Starting \<Rightarrow> s\<lparr>wd_pc := (if wd_done s then Left else Sleeping (now + limit))\<rparr>
      | Roused d late \<Rightarrow> s\<lparr>wd_pc := (if wd_done s then Left else if late then Hung else Sleeping d)\<rparr>
      | _ \<Rightarrow> s)"

definition watch_destroy :: "watchdog \<Rightarrow> watchdog" where
  "watch_destroy s =
     (case ow_pc s of
        Guarding \<Rightarrow> s\<lparr>wd_done := True, ow_pc := DoneSet\<rparr>
      | DoneSet \<Rightarrow> s\<lparr>wd_pc := (case wd_pc s of Sleeping d \<Rightarrow> Roused d False | pc \<Rightarrow> pc), ow_pc := Joining\<rparr>
      | Joining \<Rightarrow> if wd_pc s = Left then s\<lparr>ow_pc := Joined\<rparr> else s
      | Joined \<Rightarrow> s)"

definition watch_step :: "rat \<Rightarrow> rat \<Rightarrow> watch_act \<Rightarrow> watchdog \<Rightarrow> watchdog" where
  "watch_step limit now a s =
     (if wd_pc s = Hung then s
      else case a of
        Look \<Rightarrow> watch_look limit now s
      | Rouse late \<Rightarrow>
          (case wd_pc s of
             Sleeping d \<Rightarrow> if late \<longrightarrow> d \<le> now then s\<lparr>wd_pc := Roused d late\<rparr> else s
           | _ \<Rightarrow> s)
      | Destroy \<Rightarrow> watch_destroy s)"

fun watch_run :: "rat \<Rightarrow> (watch_act \<times> rat) list \<Rightarrow> watchdog \<Rightarrow> watchdog" where
  "watch_run limit [] s = s"
| "watch_run limit ((a, t) # as) s = watch_run limit as (watch_step limit t a s)"

lemma watch_run_append: "watch_run limit (as @ bs) s = watch_run limit bs (watch_run limit as s)"
  by (induction limit as s rule: watch_run.induct) simp_all

text \<open>Where the thread may be at a time, its first look not having been before \<open>t0\<close>.\<close>

fun guard_ok :: "rat \<Rightarrow> rat \<Rightarrow> rat \<Rightarrow> bool \<Rightarrow> owner_pc \<Rightarrow> watch_pc \<Rightarrow> bool" where
  "guard_ok t0 limit now don ow Starting \<longleftrightarrow> don = (ow \<noteq> Guarding) \<and> ow \<noteq> Joined"
| "guard_ok t0 limit now don ow (Sleeping d) \<longleftrightarrow>
     don = (ow \<noteq> Guarding) \<and> ow \<in> {Guarding, DoneSet} \<and> t0 + limit \<le> d \<and> d \<le> now + limit"
| "guard_ok t0 limit now don ow (Roused d late) \<longleftrightarrow>
     don = (ow \<noteq> Guarding) \<and> ow \<noteq> Joined \<and> t0 + limit \<le> d \<and> d \<le> now + limit \<and> (late \<longrightarrow> d \<le> now)"
| "guard_ok t0 limit now don ow Hung \<longleftrightarrow> \<not> don \<and> ow = Guarding \<and> t0 + limit \<le> now"
| "guard_ok t0 limit now don ow Left \<longleftrightarrow> don \<and> ow \<noteq> Guarding"

definition watch_ok :: "rat \<Rightarrow> rat \<Rightarrow> rat \<Rightarrow> watchdog \<Rightarrow> bool" where
  "watch_ok t0 limit now s \<longleftrightarrow> guard_ok t0 limit now (wd_done s) (ow_pc s) (wd_pc s)"

lemma watch_step_ok:
  "watch_ok t0 limit now s \<Longrightarrow> t0 \<le> now \<Longrightarrow> watch_ok t0 limit now (watch_step limit now a s)"
  unfolding watch_ok_def watch_step_def watch_look_def watch_destroy_def
  by (cases "wd_pc s"; cases a; cases "ow_pc s") auto

lemma watch_ok_later: "watch_ok t0 limit now s \<Longrightarrow> now \<le> u \<Longrightarrow> watch_ok t0 limit u s"
  unfolding watch_ok_def by (cases "wd_pc s") auto

lemma watch_run_ok:
  "watch_ok t0 limit now s \<Longrightarrow> t0 \<le> now \<Longrightarrow> sorted (now # map snd as) \<Longrightarrow>
   watch_ok t0 limit (last (now # map snd as)) (watch_run limit as s)"
proof (induction as arbitrary: now s)
  case (Cons a as)
  obtain x u where a: "a = (x, u)" by fastforce
  have u: "now \<le> u" "sorted (u # map snd as)" using Cons.prems(3) by (simp_all add: a)
  have "watch_ok t0 limit u (watch_step limit u x s)"
    using watch_step_ok watch_ok_later [OF Cons.prems(1) u(1)] Cons.prems(2) u(1) by simp
  from Cons.IH [OF this _ u(2)] Cons.prems(2) u(1) show ?case by (simp add: a)
qed simp

lemma watched:
  assumes "sorted (t0 # map snd as)"
  shows "watch_ok t0 limit (last (t0 # map snd as)) (watch_run limit as new_watchdog)"
  using assms by (intro watch_run_ok) (simp_all add: watch_ok_def new_watchdog_def)

text \<open>The process is ended only after the whole limit, and only while the run is still going on.\<close>

theorem watchdog_fires_late:
  assumes "sorted (t0 # map snd as)" "wd_pc (watch_run limit as new_watchdog) = Hung"
  shows "t0 + limit \<le> last (t0 # map snd as) \<and> ow_pc (watch_run limit as new_watchdog) = Guarding"
  using watched [OF assms(1), of limit] assms(2) by (simp add: watch_ok_def)

text \<open>A run that goes on past the limit is ended at the thread's first look after it.\<close>

theorem watchdog_fires:
  assumes "sorted (t0 # map snd as)" "ow_pc (watch_run limit as new_watchdog) = Guarding"
    and "last (t0 # map snd as) \<le> now" "now + limit \<le> u"
  shows "wd_pc (watch_run limit (as @ [(Look, now), (Rouse True, u), (Look, u)]) new_watchdog) = Hung"
proof -
  let ?s = "watch_run limit as new_watchdog"
  have "watch_ok t0 limit now ?s" using watched [OF assms(1)] assms(3) by (rule watch_ok_later)
  then have "watch_ok t0 limit now ?s" "\<not> wd_done ?s" using assms(2)
    unfolding watch_ok_def by (cases "wd_pc ?s"; simp)+
  then show ?thesis
    using assms(2,4) unfolding watch_ok_def watch_run_append
    by (cases "wd_pc ?s") (auto simp: watch_step_def watch_look_def)
qed

text \<open>
  The destructor never waits for the deadline: from the moment it joins, the thread is out of its
  wait, or not yet in it, and its next look is its last. No notification is lost, although
  \<open>done_\<close> may be set before the thread looks the first time, while it sleeps, or between the end
  of a wait and the look that follows it.
\<close>

theorem watchdog_joins:
  assumes "sorted (map snd as)" "ow_pc (watch_run limit as new_watchdog) = Joining"
  shows "ow_pc (watch_run limit (as @ [(Look, t), (Destroy, u)]) new_watchdog) = Joined"
proof -
  let ?s = "watch_run limit as new_watchdog"
  obtain t0 where "sorted (t0 # map snd as)"
    using assms(1) by (cases as) (auto intro: that [of "snd (hd as)"])
  from watched [OF this, of limit] assms(2) show ?thesis
    unfolding watch_ok_def watch_run_append
    by (cases "wd_pc ?s") (auto simp: watch_step_def watch_look_def watch_destroy_def)
qed

definition guarded_run :: "(watch_act \<times> rat) list" where
  "guarded_run = [(Look, 0), (Rouse False, 1), (Destroy, 2), (Look, 2), (Destroy, 3)]"

theorem watchdog_joins_witness:
  "ow_pc (watch_run 60 (guarded_run @ [(Look, 3), (Destroy, 3)]) new_watchdog) = Joined"
  by (rule watchdog_joins)
    (simp_all add: guarded_run_def new_watchdog_def watch_step_def watch_look_def watch_destroy_def)

end
