(* ===== verification/Tq_Compare.thy ===== *)
theory Tq_Compare
  imports Tq_Phases Tq_Harness Tq_Wakes
begin

text \<open>
  The phases of the turnstile bench that compare designs (bench/throughput.cpp, contention.cpp and
  outline.cpp): the arms, the runs each experiment makes of them and in which order, the figures
  computed from the results, and the verdict against the brief. What a run returns is an argument,
  as it depends on the machine; the failures of its checks are counted. A table is the list
  of its rows of figures. \<open>rank\<close> stands for the floating-point rank of a quantile (histogram.hpp).
\<close>

section \<open>Arms\<close>

text \<open>The queues of bench/arms.hpp.\<close>

datatype arm_queue = Shared options | Locked | Rings

definition Turnstile :: arm_queue where "Turnstile = Shared default_options"
definition TicketQ :: arm_queue where "TicketQ = Shared (default_options\<lparr>o_reserve := Ticket\<rparr>)"
definition Packed :: arm_queue where "Packed = Shared (default_options\<lparr>o_padded := False\<rparr>)"
definition Backoff :: arm_queue where "Backoff = Shared (default_options\<lparr>o_backoff := True\<rparr>)"
definition Outline :: arm_queue where "Outline = Shared (default_options\<lparr>o_wake := Epoch\<rparr>)"
definition Spinning :: arm_queue where "Spinning = Shared (default_options\<lparr>o_park := False\<rparr>)"
definition PerProducer :: arm_queue where "PerProducer = Rings"

fun kind_of :: "arm_queue \<Rightarrow> queue_kind" where
  "kind_of (Shared opts) = shared_queue"
| "kind_of Locked = locked_queue"
| "kind_of Rings = sharded_queue kProducers kConsumers"

record arm =
  ar_name :: string
  ar_batch :: nat
  ar_queue :: arm_queue

definition arm_of :: "string \<Rightarrow> arm_queue \<Rightarrow> arm" where
  "arm_of nm q = \<lparr>ar_name = nm, ar_batch = 1, ar_queue = q\<rparr>"

section \<open>Experiments\<close>

text \<open>
  An experiment is some arms and the run it makes of each; a repetition of every arm comes before
  the next repetition of any. Experiments follow each other in the same process.
\<close>

type_synonym trial = "arm list \<times> (arm \<Rightarrow> run_spec)"

definition run_trial ::
  "(arm \<Rightarrow> run_spec \<Rightarrow> 'w \<Rightarrow> run_result \<times> 'w) \<Rightarrow> trial \<Rightarrow> 'w \<times> nat \<Rightarrow> run_result list list \<times> 'w \<times> nat" where
  "run_trial runs e s = interleaved (once (\<lambda>a. runs a (snd e a))) (fst e) s"

fun run_trials ::
  "(arm \<Rightarrow> run_spec \<Rightarrow> 'w \<Rightarrow> run_result \<times> 'w) \<Rightarrow> trial list \<Rightarrow> 'w \<times> nat
     \<Rightarrow> run_result list list list \<times> 'w \<times> nat" where
  "run_trials runs [] s = ([], s)"
| "run_trials runs (e # es) s =
     (let (v, s1) = run_trial runs e s; (vs, s2) = run_trials runs es s1 in (v # vs, s2))"

definition shaped :: "trial list \<Rightarrow> run_result list list list \<Rightarrow> bool" where
  "shaped es vs \<longleftrightarrow> list_all2 (\<lambda>e v. length v = length (fst e) \<and> (\<forall>rs \<in> set v. length rs = 3)) es vs"

lemma trial_counts:
  assumes "run_trial runs e (w, f) = (v, w', f')"
  shows "f' = f + all_failing v \<and> length v = length (fst e) \<and> (\<forall>rs \<in> set v. length rs = 3)"
  using interleaved_counts_failures [of "\<lambda>a. runs a (snd e a)" "fst e" w f] assms
  by (simp add: run_trial_def list_all_iff)

lemma trials_count:
  "run_trials runs es (w, f) = (vs, w', f') \<Longrightarrow>
   f' = f + sum_list (map all_failing vs) \<and> shaped es vs"
proof (induction es arbitrary: w f vs w' f')
  case Nil
  then show ?case by (simp add: shaped_def)
next
  case (Cons e es)
  obtain v w1 f1 where e: "run_trial runs e (w, f) = (v, w1, f1)" by (metis prod_cases3)
  obtain us w2 f2 where r: "run_trials runs es (w1, f1) = (us, w2, f2)" by (metis prod_cases3)
  have "vs = v # us" "w' = w2" "f' = f2" using Cons.prems e r by auto
  then show ?case
    using Cons.IH [OF r] trial_counts [OF e] by (simp add: shaped_def)
qed

section \<open>Figures\<close>

definition ratio :: "u64 \<Rightarrow> u64 \<Rightarrow> rat" where
  "ratio a b = of_nat (unat a) / of_nat (unat b)"

text \<open>A quantile of one histogram of a run, in nanoseconds, and its median over the repetitions.\<close>

definition quantile_ns ::
  "rat \<Rightarrow> (rat \<Rightarrow> u64 \<Rightarrow> u64) \<Rightarrow> (run_result \<Rightarrow> histogram) \<Rightarrow> rat \<Rightarrow> run_result \<Rightarrow> rat" where
  "quantile_ns per_tick rank h quant r = to_ns per_tick (quantile (rank quant) (h r))"

definition retries_per_push :: "run_result list \<Rightarrow> rat" where
  "retries_per_push rs = median_of (\<lambda>r. ratio (retries (rr_producer_ops r)) (rr_accepted r)) rs"

definition retries_per_pop :: "run_result list \<Rightarrow> rat" where
  "retries_per_pop rs = median_of (\<lambda>r. ratio (retries (rr_consumer_ops r)) (rr_consumed r)) rs"

definition wakes_per_push :: "run_result list \<Rightarrow> rat" where
  "wakes_per_push rs = median_of (\<lambda>r. ratio (wakes (rr_producer_ops r)) (rr_accepted r)) rs"

text \<open>Two of three repetitions decide a median of three.\<close>

lemma median_of_three:
  assumes "length rs = 3"
  shows "t \<le> median_of g rs \<longleftrightarrow> 2 \<le> length (filter (\<lambda>r. t \<le> g r) rs)"
    and "median_of g rs < t \<longleftrightarrow> 2 \<le> length (filter (\<lambda>r. g r < t) rs)"
proof -
  obtain a b c where "rs = [a, b, c]"
    using assms by (auto simp: numeral_3_eq_3 length_Suc_conv)
  then show "t \<le> median_of g rs \<longleftrightarrow> 2 \<le> length (filter (\<lambda>r. t \<le> g r) rs)"
    "median_of g rs < t \<longleftrightarrow> 2 \<le> length (filter (\<lambda>r. g r < t) rs)"
    by (auto simp: median_of_def)
qed

section \<open>Does it meet the brief?\<close>

definition saturated :: "arm list" where
  "saturated =
     [arm_of ''turnstile (CAS)'' Turnstile, arm_of ''ticket (fetch_add)'' TicketQ,
      arm_of ''mutex + 2 condvars'' Locked, (arm_of ''mutex, batches of 64'' Locked)\<lparr>ar_batch := 64\<rparr>]"

definition saturated_spec :: "arm \<Rightarrow> run_spec" where
  "saturated_spec a = default_spec\<lparr>rs_events := 250000, rs_batch := ar_batch a\<rparr>"

text \<open>Rate and retries of an arm at saturation.\<close>

definition saturated_row :: "run_result list \<Rightarrow> rat list" where
  "saturated_row rs = [median_of rr_rate rs, retries_per_push rs, retries_per_pop rs]"

record config =
  cf_producers :: nat
  cf_consumers :: nat
  cf_rate :: rat

definition configs :: "config list" where
  "configs =
     [\<lparr>cf_producers = kProducers, cf_consumers = kConsumers, cf_rate = kTargetEventsPerSec\<rparr>,
      \<lparr>cf_producers = kProducers, cf_consumers = kConsumers, cf_rate = 10 ^ 6\<rparr>,
      \<lparr>cf_producers = 16, cf_consumers = 8, cf_rate = kTargetEventsPerSec\<rparr>]"

definition paced :: "arm list" where
  "paced =
     [arm_of ''turnstile (CAS)'' Turnstile, arm_of ''ticket (fetch_add)'' TicketQ,
      arm_of ''mutex + 2 condvars'' Locked]"

definition paced_spec :: "config \<Rightarrow> run_spec" where
  "paced_spec cfg = default_spec\<lparr>rs_producers := cf_producers cfg, rs_consumers := cf_consumers cfg,
     rs_rate := cf_rate cfg, rs_seconds := 1, rs_consumer_work_ns := kConsumerWorkNs, rs_latency := True\<rparr>"

definition push_p99 :: "rat \<Rightarrow> (rat \<Rightarrow> u64 \<Rightarrow> u64) \<Rightarrow> run_result list \<Rightarrow> rat" where
  "push_p99 per_tick rank rs = median_of (quantile_ns per_tick rank rr_push (99 / 100)) rs"

text \<open>Push p50, p99, p99.9, p99.99 and maximum, the p99 of the two longer latencies, and wakes per event.\<close>

definition paced_row :: "rat \<Rightarrow> (rat \<Rightarrow> u64 \<Rightarrow> u64) \<Rightarrow> run_result list \<Rightarrow> rat list" where
  "paced_row per_tick rank rs =
     (let q = (\<lambda>h quant. median_of (quantile_ns per_tick rank h quant) rs)
      in map (q rr_push) [1 / 2, 99 / 100, 999 / 1000, 9999 / 10000] @
         [median_of (\<lambda>r. to_ns per_tick (h_max (rr_push r))) rs, q rr_ready (99 / 100), q rr_e2e (99 / 100),
          median_of (\<lambda>r. ratio (wakes (rr_producer_ops r) + wakes (rr_consumer_ops r)) (rr_accepted r)) rs])"

text \<open>What was offered, how often a producer woke and how many events it then pushed back to back.\<close>

definition burst_figures :: "config \<Rightarrow> run_result list \<Rightarrow> rat list" where
  "burst_figures cfg rs =
     (let bursts = median_of (\<lambda>r. of_nat (unat (rr_bursts r))) rs;
          offered = median_of (\<lambda>r. of_nat (unat (rr_offered r))) rs
      in [offered, 10 ^ 9 * of_nat (cf_producers cfg) / bursts, offered / bursts])"

text \<open>\<open>turnstile_p99_brief\<close> after one configuration.\<close>

definition brief_p99 :: "rat \<Rightarrow> (rat \<Rightarrow> u64 \<Rightarrow> u64) \<Rightarrow> config \<times> run_result list list \<Rightarrow> rat \<Rightarrow> rat" where
  "brief_p99 per_tick rank cv p =
     (if cf_producers (fst cv) = kProducers \<and> cf_rate (fst cv) = kTargetEventsPerSec
      then push_p99 per_tick rank (hd (snd cv)) else p)"

text \<open>Whether the two lines of the verdict say \<open>met\<close>.\<close>

definition verdict :: "rat \<Rightarrow> rat \<Rightarrow> bool \<times> bool" where
  "verdict rate p99 = (kTargetEventsPerSec \<le> rate, p99 < kP99BudgetNs)"

definition throughput_trials :: "trial list" where
  "throughput_trials = (saturated, saturated_spec) # map (\<lambda>cfg. (paced, \<lambda>_. paced_spec cfg)) configs"

record throughput_report =
  th_ceiling :: "rat list list"
  th_paced :: "(rat list list \<times> rat list) list"
  th_verdict :: "bool \<times> bool"

definition report_of :: "rat \<Rightarrow> (rat \<Rightarrow> u64 \<Rightarrow> u64) \<Rightarrow> run_result list list list \<Rightarrow> throughput_report" where
  "report_of per_tick rank vs =
     (let tables = zip configs (tl vs)
      in \<lparr>th_ceiling = map saturated_row (hd vs),
          th_paced = map (\<lambda>(cfg, v). (map (paced_row per_tick rank) v, burst_figures cfg (hd v))) tables,
          th_verdict = verdict (median_of rr_rate (hd (hd vs))) (fold (brief_p99 per_tick rank) tables 0)\<rparr>)"

definition phase_throughput ::
  "rat \<Rightarrow> (rat \<Rightarrow> u64 \<Rightarrow> u64) \<Rightarrow> (arm \<Rightarrow> run_spec \<Rightarrow> 'w \<Rightarrow> run_result \<times> 'w) \<Rightarrow> 'w \<times> nat
     \<Rightarrow> throughput_report \<times> 'w \<times> nat" where
  "phase_throughput per_tick rank runs s =
     (let (vs, s') = run_trials runs throughput_trials s in (report_of per_tick rank vs, s'))"

text \<open>The results of the turnstile that the verdict is about.\<close>

lemma throughput_shape:
  assumes "shaped throughput_trials vs"
  obtains s1 s2 s3 s4 b1 b2 b3 u w where "vs = [[s1, s2, s3, s4], [b1, b2, b3], u, w]"
    "length s1 = 3" "length b1 = 3"
proof -
  from assms obtain v1 v2 v3 v4 where vs: "vs = [v1, v2, v3, v4]" and
    v1: "length v1 = 4" "\<forall>rs \<in> set v1. length rs = 3" and v2: "length v2 = 3" "\<forall>rs \<in> set v2. length rs = 3"
    by (auto simp: shaped_def throughput_trials_def configs_def list_all2_Cons1 saturated_def paced_def)
  obtain s1 s2 s3 s4 where "v1 = [s1, s2, s3, s4]"
    using v1(1) by (auto simp: numeral_eq_Suc length_Suc_conv)
  moreover obtain b1 b2 b3 where "v2 = [b1, b2, b3]"
    using v2(1) by (auto simp: numeral_eq_Suc length_Suc_conv)
  ultimately show thesis using that [of s1 s2 s3 s4 b1 b2 b3 v3 v4] vs v1(2) v2(2) by simp
qed

lemma throughput_verdict_of:
  assumes "shaped throughput_trials vs"
  shows "th_verdict (report_of per_tick rank vs) =
    verdict (median_of rr_rate (vs ! 0 ! 0)) (push_p99 per_tick rank (vs ! 1 ! 0))"
  using assms
  by (rule throughput_shape)
    (simp add: report_of_def configs_def brief_p99_def kTargetEventsPerSec_def kProducers_def)

text \<open>
  The verdict against the brief is about the runs it names: it says that the rate was met exactly
  if two of the three saturated runs of the turnstile reached it, and that the latency was met
  exactly if two of its three runs at the brief's rate and thread counts had a 99th percentile
  below the budget; nothing measured for another arm or configuration counts.
\<close>

theorem throughput_verdict:
  assumes "run_trials runs throughput_trials (w, f) = (vs, w', f')"
  shows "th_verdict (fst (phase_throughput per_tick rank runs (w, f))) =
    (2 \<le> length (filter (\<lambda>r. kTargetEventsPerSec \<le> rr_rate r) (vs ! 0 ! 0)),
     2 \<le> length (filter (\<lambda>r. quantile_ns per_tick rank rr_push (99 / 100) r < kP99BudgetNs) (vs ! 1 ! 0)))"
proof -
  have sh: "shaped throughput_trials vs" using trials_count [OF assms] by blast
  then have "length (vs ! 0 ! 0) = 3" "length (vs ! 1 ! 0) = 3"
    by (auto elim: throughput_shape)
  then show ?thesis
    using throughput_verdict_of [OF sh]
    by (simp add: phase_throughput_def assms verdict_def median_of_three push_p99_def)
qed

text \<open>The double arithmetic of a rank, where it is exact.\<close>

definition exact_rank :: "rat \<Rightarrow> u64 \<Rightarrow> u64" where
  "exact_rank quant m = of_nat (nat \<lfloor>quant * of_nat (unat m)\<rfloor>)"

lemma exact_rank_nat: "0 \<le> quant \<Longrightarrow> quant \<le> 1 \<Longrightarrow> unat (exact_rank quant m) = nat \<lfloor>quant * of_nat (unat m)\<rfloor>"
proof -
  assume q: "0 \<le> quant" "quant \<le> 1"
  have "quant * of_nat (unat m) \<le> of_nat (unat m)"
    using mult_right_mono [OF q(2) of_nat_0_le_iff, of "unat m"] by (simp only: mult_1_left)
  then have "\<lfloor>quant * of_nat (unat m)\<rfloor> \<le> int (unat m)" by linarith
  moreover have "unat m < 2 ^ 64" by (rule unat_less64)
  ultimately have "nat \<lfloor>quant * of_nat (unat m)\<rfloor> < 2 ^ 64" by linarith
  then show ?thesis by (simp add: exact_rank_def unat_of_nat del: of_nat_unat)
qed

lemma quantile_under:
  assumes "xs \<noteq> []" "length xs < 2 ^ 64" "0 \<le> quant" "quant \<le> 1" "0 \<le> per_tick"
    and "to_ns per_tick (quantile (exact_rank quant) (hist_of xs)) < budget"
  shows "quant * of_nat (length xs - 1) < of_nat (length (filter (\<lambda>v. to_ns per_tick v < budget) xs))"
proof -
  have m: "unat (h_n (hist_of xs) - 1) = length xs - 1"
    using assms(1,2) by (cases xs) (simp_all add: hist_of_eq unat_of_nat)
  have rank: "unat (exact_rank quant (h_n (hist_of xs) - 1)) = nat \<lfloor>quant * of_nat (length xs - 1)\<rfloor>"
    using exact_rank_nat [OF assms(3,4), of "h_n (hist_of xs) - 1"] by (simp only: m)
  have "quant * of_nat (length xs - 1) \<le> of_nat (length xs - 1)"
    using mult_right_mono [OF assms(4) of_nat_0_le_iff, of "length xs - 1"] by (simp only: mult_1_left)
  then have "\<lfloor>quant * of_nat (length xs - 1)\<rfloor> \<le> int (length xs - 1)" by linarith
  moreover have "length xs - 1 < length xs" using assms(1) by (cases xs) simp_all
  ultimately have "nat \<lfloor>quant * of_nat (length xs - 1)\<rfloor> < length xs" by linarith
  then have "nat \<lfloor>quant * of_nat (length xs - 1)\<rfloor> <
      length (filter (\<lambda>v. v \<le> quantile (exact_rank quant) (hist_of xs)) xs)"
    using quantile_covers [OF assms(2), of "exact_rank quant"] unfolding rank by blast
  also have "\<dots> \<le> length (filter (\<lambda>v. to_ns per_tick v < budget) xs)"
  proof -
    have "to_ns per_tick v < budget" if "v \<le> quantile (exact_rank quant) (hist_of xs)" for v
    proof -
      have "to_ns per_tick v \<le> to_ns per_tick (quantile (exact_rank quant) (hist_of xs))"
        unfolding to_ns_def using that assms(5)
        by (intro mult_right_mono) (simp_all only: of_nat_le_iff word_le_nat_alt)
      with assms(6) show ?thesis by simp
    qed
    then have "length (filter (\<lambda>v. v \<le> quantile (exact_rank quant) (hist_of xs)) ys) \<le>
        length (filter (\<lambda>v. to_ns per_tick v < budget) ys)" for ys
      by (induction ys) auto
    then show ?thesis .
  qed
  finally have "nat \<lfloor>quant * of_nat (length xs - 1)\<rfloor> < length (filter (\<lambda>v. to_ns per_tick v < budget) xs)" .
  moreover have "0 \<le> \<lfloor>quant * of_nat (length xs - 1)\<rfloor>" using assms(3) by simp
  ultimately have "\<lfloor>quant * of_nat (length xs - 1)\<rfloor> + 1 \<le> int (length (filter (\<lambda>v. to_ns per_tick v < budget) xs))"
    by linarith
  then have "of_int (\<lfloor>quant * of_nat (length xs - 1)\<rfloor> + 1) \<le>
      (of_int (int (length (filter (\<lambda>v. to_ns per_tick v < budget) xs))) :: rat)"
    by (simp only: of_int_le_iff)
  then show ?thesis by (simp add: floor_less_iff) linarith
qed

text \<open>
  C39: What a verdict of \<open>met\<close> promises: in at least two of the three runs of the turnstile at the
  brief's rate with \<open>n\<close> timed pushes, more than \<open>0.99 * (n - 1)\<close> of them took less than two
  microseconds, although the samples were only counted in buckets. That is a little less than 99
  per cent when \<open>n\<close> is small: 148 of 150 pushes are enough.
\<close>

theorem met_budget_is_met:
  assumes "run_trials runs throughput_trials (w, f) = (vs, w', f')"
    and "snd (th_verdict (fst (phase_throughput per_tick exact_rank runs (w, f))))"
    and "\<forall>r \<in> set (vs ! 1 ! 0). rr_push r = hist_of (samples r) \<and> samples r \<noteq> [] \<and> length (samples r) < 2 ^ 64"
    and "0 \<le> per_tick"
  shows "2 \<le> length (filter (\<lambda>r. 99 / 100 * of_nat (length (samples r) - 1) <
      (of_nat (length (filter (\<lambda>v. to_ns per_tick v < kP99BudgetNs) (samples r))) :: rat)) (vs ! 1 ! 0))"
proof -
  have sh: "shaped throughput_trials vs" using trials_count [OF assms(1)] by blast
  then have "length (vs ! 1 ! 0) = 3" by (auto elim: throughput_shape)
  moreover have "push_p99 per_tick exact_rank (vs ! 1 ! 0) < kP99BudgetNs"
    using assms(2) throughput_verdict_of [OF sh] by (simp add: phase_throughput_def assms(1) verdict_def)
  ultimately have two: "2 \<le> length (filter (\<lambda>r. quantile_ns per_tick exact_rank rr_push (99 / 100) r < kP99BudgetNs) (vs ! 1 ! 0))"
    by (simp add: push_p99_def median_of_three)
  have less: "length (filter P rs) \<le> length (filter Q rs)" if "\<And>r. r \<in> set rs \<Longrightarrow> P r \<Longrightarrow> Q r"
    for P Q and rs :: "run_result list"
    using that by (induction rs) auto
  have "99 / 100 * of_nat (length (samples r) - 1) <
      (of_nat (length (filter (\<lambda>v. to_ns per_tick v < kP99BudgetNs) (samples r))) :: rat)"
    if "r \<in> set (vs ! 1 ! 0)" "quantile_ns per_tick exact_rank rr_push (99 / 100) r < kP99BudgetNs" for r
    using assms(3,4) that by (intro quantile_under) (auto simp: quantile_ns_def)
  from order_trans [OF two less [OF this]] show ?thesis .
qed

definition steady_result :: run_result where
  "steady_result = empty_result\<lparr>rr_rate := 6 * 10 ^ 6, rr_push := hist_of [900]\<rparr>"

definition steady_runs :: "arm \<Rightarrow> run_spec \<Rightarrow> unit \<Rightarrow> run_result \<times> unit" where
  "steady_runs a spec w = (steady_result, w)"

lemma steady_turnstile:
  "fst (run_trials steady_runs throughput_trials ((), 0)) ! 0 ! 0 = [steady_result, steady_result, steady_result]"
  "fst (run_trials steady_runs throughput_trials ((), 0)) ! 1 ! 0 = [steady_result, steady_result, steady_result]"
  by (simp_all add: throughput_trials_def configs_def saturated_def paced_def run_trial_def interleaved_def
      once_def steady_runs_def numeral_eq_Suc Let_def)

theorem met_budget_is_met_witness:
  "2 \<le> length (filter (\<lambda>r. 99 / 100 * of_nat (length [900 :: u64] - 1) <
      (of_nat (length (filter (\<lambda>v. to_ns 1 v < kP99BudgetNs) [900])) :: rat))
    (fst (run_trials steady_runs throughput_trials ((), 0)) ! 1 ! 0))"
proof -
  obtain vs w' f' where r: "run_trials steady_runs throughput_trials ((), 0) = (vs, w', f')" by (metis prod_cases3)
  have push: "rr_push steady_result = hist_of [900]" by (simp add: steady_result_def)
  have "exact_rank (99 / 100) (h_n (hist_of [900]) - 1) = 0" by (simp add: exact_rank_def hist_of_eq)
  then have "quantile (exact_rank (99 / 100)) (hist_of [900]) \<le> 900"
    using quantile_result(1) [of "[900]" "exact_rank (99 / 100)"] by (simp add: hist_of_eq min_le_iff_disj)
  then have "unat (quantile (exact_rank (99 / 100)) (hist_of [900])) \<le> 900" by (simp add: word_le_nat_alt)
  then have "of_nat (unat (quantile (exact_rank (99 / 100)) (hist_of [900]))) \<le> (of_nat 900 :: rat)"
    by (simp only: of_nat_le_iff)
  then have "quantile_ns 1 exact_rank rr_push (99 / 100) steady_result < kP99BudgetNs"
    by (simp add: quantile_ns_def push to_ns_def kP99BudgetNs_def)
  then have "snd (th_verdict (fst (phase_throughput 1 exact_rank steady_runs ((), 0))))"
    using throughput_verdict_of [of vs 1 exact_rank] trials_count [OF r] steady_turnstile
    by (simp add: phase_throughput_def r verdict_def push_p99_def median_of_def)
  from met_budget_is_met [OF r this, of "\<lambda>_. [900]"] show ?thesis
    using steady_turnstile push by (simp add: r)
qed

end
