(* ===== verification/Tq_Designs.thy ===== *)
theory Tq_Designs
  imports Tq_Compare
begin

text \<open>
  The rest of the turnstile bench's comparisons: contention and fairness (bench/contention.cpp), the
  designs of the reference outline (outline.cpp) and the window between a reservation and its
  publication (preemption.cpp). As in the theory of the brief's phase, what a run returns is an
  argument, and so are the readings of an idle second and of the occupancy monitor.
\<close>

section \<open>Contention\<close>

definition kReps :: nat where "kReps = 5"

definition contenders :: "arm list" where
  "contenders = [arm_of ''CAS'' Turnstile, arm_of ''CAS + backoff'' Backoff, arm_of ''ticket'' TicketQ]"

definition producer_counts :: "nat list" where "producer_counts = [1, 2, 4, 8, 16, 32]"

definition scaling_row :: "run_result list \<Rightarrow> rat list" where
  "scaling_row rs = [median_of rr_rate rs, retries_per_push rs]"

definition fairness_spec :: run_spec where
  "fairness_spec = default_spec\<lparr>rs_events := 250000, rs_latency := True\<rparr>"

text \<open>The slowest and the fastest producer, their spread, and the tail of a push.\<close>

definition fairness_row :: "rat \<Rightarrow> (rat \<Rightarrow> u64 \<Rightarrow> u64) \<Rightarrow> run_result list \<Rightarrow> rat list" where
  "fairness_row per_tick rank rs =
     (let lo = median_of rr_min_rate rs; hi = median_of rr_max_rate rs;
          q = (\<lambda>quant. median_of (quantile_ns per_tick rank rr_push quant) rs)
      in [lo, hi, hi / lo, q (1 / 2), q (99 / 100), q (9999 / 10000),
          median_of (\<lambda>r. to_ns per_tick (h_max (rr_push r))) rs])"

definition layout_spec :: run_spec where
  "layout_spec = default_spec\<lparr>rs_events := 250000\<rparr>"

definition layouts :: "arm list" where
  "layouts = [arm_of ''layout padded'' Turnstile, arm_of ''layout packed'' Packed]"

definition layout_runs ::
  "(arm \<Rightarrow> run_spec \<Rightarrow> 'w \<Rightarrow> run_result \<times> 'w) \<Rightarrow> 'w \<times> nat \<Rightarrow> run_result list list \<times> 'w \<times> nat" where
  "layout_runs runs s = repetitions kReps (once (\<lambda>a. runs a layout_spec)) layouts ([[], []], s)"

definition contention_trials :: "trial list" where
  "contention_trials =
     map (\<lambda>k. (contenders, \<lambda>_. scaling_spec k)) producer_counts @ [(contenders, \<lambda>_. fairness_spec)]"

record contention_report =
  ct_scaling :: "rat list list list"
  ct_fairness :: "rat list list"
  ct_layout :: "rat list"

definition phase_contention ::
  "rat \<Rightarrow> (rat \<Rightarrow> u64 \<Rightarrow> u64) \<Rightarrow> (arm \<Rightarrow> run_spec \<Rightarrow> 'w \<Rightarrow> run_result \<times> 'w) \<Rightarrow> 'w \<times> nat
     \<Rightarrow> contention_report \<times> 'w \<times> nat" where
  "phase_contention per_tick rank runs s =
     (let (vs, s1) = run_trials runs contention_trials s; (pp, s2) = layout_runs runs s1
      in (\<lparr>ct_scaling = map (map scaling_row) (butlast vs),
           ct_fairness = map (fairness_row per_tick rank) (last vs),
           ct_layout = map (median_of rr_rate) pp\<rparr>, s2))"

text \<open>
  However many producers share it, the work of a scaling run is the same two million events, and
  somebody consumes them; every experiment of the phase keeps its three repetitions of three arms and
  the layout its five of two, and each failing check of any of these runs is counted.
\<close>

theorem contention_same_work:
  "list_all (\<lambda>k. of_nat k * rs_events (scaling_spec k) = 2000000 \<and> rs_producers (scaling_spec k) = k \<and>
     0 < rs_consumers (scaling_spec k)) producer_counts"
  by (simp add: producer_counts_def scaling_spec_def)

theorem contention_counts_failures:
  assumes "run_trials runs contention_trials (w, f) = (vs, w1, f1)"
    and "layout_runs runs (w1, f1) = (pp, w2, f2)"
  shows "snd (snd (phase_contention per_tick rank runs (w, f))) =
      f + sum_list (map all_failing vs) + all_failing pp \<and>
    map (map length) vs = replicate 7 [3, 3, 3] \<and> map length pp = [5, 5]"
proof -
  have t: "f1 = f + sum_list (map all_failing vs)" "shaped contention_trials vs"
    using trials_count [OF assms(1)] by simp_all
  have "f2 + all_failing [[], []] = f1 + all_failing pp \<and> length pp = length layouts \<and>
      (\<forall>x \<in> set pp. length x = 0 + kReps)"
    by (rule repetitions_failures [of _ _ _ _ "\<lambda>a. runs a layout_spec"])
      (use assms(2) in \<open>simp_all add: layout_runs_def layouts_def\<close>)
  then have l: "f2 = f1 + all_failing pp" "length pp = 2" "\<forall>x \<in> set pp. length x = 5"
    by (simp_all add: all_failing_def layouts_def kReps_def)
  have three: "map length v = [3, 3, 3]" if "length v = length contenders" "\<forall>rs \<in> set v. length rs = 3" for v :: "run_result list list"
    using that by (auto simp: contenders_def numeral_3_eq_3 length_Suc_conv)
  have "map (map length) vs = replicate 7 [3, 3, 3]"
    using t(2) three by (auto simp: shaped_def contention_trials_def producer_counts_def list_all2_Cons1 numeral_eq_Suc)
  moreover have "snd (snd (phase_contention per_tick rank runs (w, f))) = f2"
    by (simp add: phase_contention_def assms)
  moreover have "map length pp = [5, 5]" using l(2,3) by (auto simp: numeral_2_eq_2 length_Suc_conv)
  ultimately show ?thesis using t(1) l(1) by simp
qed

definition failing_runs :: "arm \<Rightarrow> run_spec \<Rightarrow> unit \<Rightarrow> run_result \<times> unit" where
  "failing_runs a spec w = (empty_result, w)"

theorem contention_counts_failures_witness:
  "map (map length) (fst (run_trials failing_runs contention_trials ((), 0))) = replicate 7 [3, 3, 3]"
proof -
  obtain vs w1 f1 where r: "run_trials failing_runs contention_trials ((), 0) = (vs, w1, f1)" by (metis prod_cases3)
  obtain pp w2 f2 where l: "layout_runs failing_runs (w1, f1) = (pp, w2, f2)" by (metis prod_cases3)
  show ?thesis using contention_counts_failures [OF r l] by (simp add: r)
qed

section \<open>The alternatives of the reference outline\<close>

definition four :: "arm list" where
  "four = [arm_of ''outline (CAS + epoch)'' Outline, arm_of ''turnstile (CAS)'' Turnstile,
     arm_of ''ticket (fetch_add)'' TicketQ, arm_of ''per-producer SPSC'' PerProducer]"

definition sleepers :: "arm list" where
  "sleepers = [arm_of ''event count'' Turnstile, arm_of ''epoch, every push'' Outline,
     arm_of ''spin, never sleep'' Spinning, arm_of ''per-producer SPSC'' PerProducer]"

definition two :: "arm list" where
  "two = [arm_of ''turnstile (CAS)'' Turnstile, arm_of ''per-producer SPSC'' PerProducer]"

definition at_rate_spec :: run_spec where
  "at_rate_spec = default_spec\<lparr>rs_rate := kTargetEventsPerSec, rs_seconds := 1,
     rs_consumer_work_ns := kConsumerWorkNs, rs_latency := True, rs_pop_latency := True\<rparr>"

text \<open>Push p50, p99 and p99.9, pop p50 and p99, ready and end-to-end p99, wakes per push.\<close>

definition at_rate_row :: "rat \<Rightarrow> (rat \<Rightarrow> u64 \<Rightarrow> u64) \<Rightarrow> run_result list \<Rightarrow> rat list" where
  "at_rate_row per_tick rank rs =
     (let q = (\<lambda>quant h. median_of (quantile_ns per_tick rank h quant) rs)
      in [q (1 / 2) rr_push, q (99 / 100) rr_push, q (999 / 1000) rr_push, q (1 / 2) rr_pop, q (99 / 100) rr_pop,
          q (99 / 100) rr_ready, q (99 / 100) rr_e2e, wakes_per_push rs])"

definition outline_saturated_spec :: run_spec where
  "outline_saturated_spec = default_spec\<lparr>rs_events := 250000\<rparr>"

definition sleepers_spec :: "rat \<Rightarrow> run_spec" where
  "sleepers_spec rate = default_spec\<lparr>rs_rate := rate, rs_seconds := 1,
     rs_consumer_work_ns := kConsumerWorkNs, rs_latency := True\<rparr>"

definition sleepers_row :: "rat \<Rightarrow> (rat \<Rightarrow> u64 \<Rightarrow> u64) \<Rightarrow> run_result list \<Rightarrow> rat list" where
  "sleepers_row per_tick rank rs =
     (let q = (\<lambda>quant h. median_of (quantile_ns per_tick rank h quant) rs)
      in [wakes_per_push rs, median_of (\<lambda>r. ratio (parks (rr_consumer_ops r)) (rr_consumed r)) rs,
          q (1 / 2) rr_push, q (99 / 100) rr_push, q (1 / 2) rr_e2e, q (99 / 100) rr_e2e])"

text \<open>Refusals of source 0 and of the others, in per cent, and who bears them.\<close>

definition skewed_row :: "rat \<Rightarrow> (rat \<Rightarrow> u64 \<Rightarrow> u64) \<Rightarrow> run_result list \<Rightarrow> rat list" where
  "skewed_row per_tick rank rs =
     [median_of (\<lambda>x. 100 * ratio (rr_hot_rejected x) (rr_hot_offered x)) rs,
      median_of (\<lambda>x. 100 * ratio (rr_rejected x - rr_hot_rejected x) (rr_offered x - rr_hot_offered x)) rs,
      median_of (\<lambda>x. of_nat (rr_refused_producers x)) rs, median_of rr_rate rs, median_of rr_max_consumer_rate rs,
      median_of (quantile_ns per_tick rank rr_e2e (99 / 100)) rs,
      median_of (quantile_ns per_tick rank rr_ready (99 / 100)) rs]"

text \<open>
  One stall: what it leaves is the run's result, when the stall began, and the monitor's samples. The
  row is the first refusal and the occupancy then, how many producers were refused, the share and the
  hot share of refused events, and the tail.
\<close>

record stall_outcome =
  so_run :: run_result
  so_began :: u64
  so_samples :: "sample list"

record stall_row =
  sr_first :: "(rat \<times> u64) option"
  sr_producers :: nat
  sr_refused :: rat
  sr_hot :: u64
  sr_e2e_p99 :: rat

definition stall_row_of :: "rat \<Rightarrow> (rat \<Rightarrow> u64 \<Rightarrow> u64) \<Rightarrow> stall_outcome \<Rightarrow> stall_row" where
  "stall_row_of per_tick rank x =
     \<lparr>sr_first = first_refusal (to_ns per_tick) (so_began x) (so_run x) (so_samples x),
      sr_producers = rr_refused_producers (so_run x),
      sr_refused = 100 * ratio (rr_rejected (so_run x)) (rr_offered (so_run x)),
      sr_hot = rr_hot_rejected (so_run x), sr_e2e_p99 = quantile_ns per_tick rank rr_e2e (99 / 100) (so_run x)\<rparr>"

definition stalled_one ::
  "(arm_queue \<Rightarrow> stall_control \<Rightarrow> run_spec \<Rightarrow> 'w \<Rightarrow> stall_outcome \<times> 'w)
     \<Rightarrow> arm_queue \<times> bool \<Rightarrow> 'w \<times> nat \<Rightarrow> stall_outcome \<times> 'w \<times> nat" where
  "stalled_one stall_run qs s =
     (let (w, failures) = s; (x, w') = stall_run (fst qs) (stalled_at (snd qs)) stalled_spec w
      in (x, w', failures + length (filter Not (stalled_checks (so_began x) (so_run x)))))"

fun stalls ::
  "(arm_queue \<Rightarrow> stall_control \<Rightarrow> run_spec \<Rightarrow> 'w \<Rightarrow> stall_outcome \<times> 'w)
     \<Rightarrow> (arm_queue \<times> bool) list \<Rightarrow> 'w \<times> nat \<Rightarrow> stall_outcome list \<times> 'w \<times> nat" where
  "stalls stall_run [] s = ([], s)"
| "stalls stall_run (q # qs) s =
     (let (x, s1) = stalled_one stall_run q s; (xs, s2) = stalls stall_run qs s1 in (x # xs, s2))"

definition stall_arms :: "(arm_queue \<times> bool) list" where
  "stall_arms = [(Turnstile, True), (PerProducer, True), (Turnstile, False), (PerProducer, False)]"

text \<open>The readings of an idle second: CPU time before and after, wall time, lifetime, the consumers' statistics.\<close>

type_synonym idle_readings = "rat \<times> rat \<times> rat \<times> rat \<times> op_stats list"

fun idles ::
  "(arm_queue \<Rightarrow> 'w \<Rightarrow> idle_readings \<times> 'w) \<Rightarrow> arm list \<Rightarrow> 'w \<Rightarrow> (rat \<times> rat) list \<times> 'w" where
  "idles idle [] w = ([], w)"
| "idles idle (a # as) w =
     (let ((c0, c1, wall, lifetime, stats), w1) = idle (ar_queue a) w; (rest, w2) = idles idle as w1
      in (idle_figures c0 c1 wall lifetime stats # rest, w2))"

definition outline_first :: "trial list" where
  "outline_first =
     [(four, \<lambda>_. at_rate_spec), (four, \<lambda>_. outline_saturated_spec),
      (sleepers, \<lambda>_. sleepers_spec 20000), (sleepers, \<lambda>_. sleepers_spec 200000)]"

definition outline_skewed :: "trial list" where
  "outline_skewed =
     [(two, \<lambda>_. skewed_spec kStudyRate (1 / 2) 4000), (two, \<lambda>_. skewed_spec (8 * 10 ^ 6) (15 / 16) 4000)]"

record outline_report =
  ol_at_rate :: "rat list list"
  ol_saturated :: "rat list list"
  ol_asleep :: "rat list list list"
  ol_idle :: "(rat \<times> rat) list"
  ol_stalls :: "stall_row list"
  ol_skewed :: "rat list list list"

definition phase_outline ::
  "rat \<Rightarrow> (rat \<Rightarrow> u64 \<Rightarrow> u64) \<Rightarrow> (arm \<Rightarrow> run_spec \<Rightarrow> 'w \<Rightarrow> run_result \<times> 'w)
     \<Rightarrow> (arm_queue \<Rightarrow> 'w \<Rightarrow> idle_readings \<times> 'w)
     \<Rightarrow> (arm_queue \<Rightarrow> stall_control \<Rightarrow> run_spec \<Rightarrow> 'w \<Rightarrow> stall_outcome \<times> 'w)
     \<Rightarrow> 'w \<times> nat \<Rightarrow> outline_report \<times> 'w \<times> nat" where
  "phase_outline per_tick rank runs idle stall_run s =
     (let (vs, w1, f1) = run_trials runs outline_first s;
          (is, w2) = idles idle sleepers w1;
          (xs, s3) = stalls stall_run stall_arms (w2, f1);
          (us, s4) = run_trials runs outline_skewed s3
      in (\<lparr>ol_at_rate = map (at_rate_row per_tick rank) (vs ! 0), ol_saturated = map saturated_row (vs ! 1),
           ol_asleep = map (map (sleepers_row per_tick rank)) [vs ! 2, vs ! 3], ol_idle = is,
           ol_stalls = map (stall_row_of per_tick rank) xs,
           ol_skewed = map (map (skewed_row per_tick rank)) us\<rparr>, s4))"

lemma stalls_count:
  "stalls stall_run qs (w, f) = (xs, w', f') \<Longrightarrow>
   f' = f + sum_list (map (\<lambda>x. length (filter Not (stalled_checks (so_began x) (so_run x)))) xs) \<and>
   length xs = length qs"
proof (induction qs arbitrary: w f xs)
  case (Cons q qs)
  obtain x w1 where x: "stall_run (fst q) (stalled_at (snd q)) stalled_spec w = (x, w1)" by fastforce
  let ?f1 = "f + length (filter Not (stalled_checks (so_began x) (so_run x)))"
  obtain ys w2 f2 where r: "stalls stall_run qs (w1, ?f1) = (ys, w2, f2)" by (metis prod_cases3)
  have "xs = x # ys" "w' = w2" "f' = f2" using Cons.prems r by (auto simp: stalled_one_def x)
  then show ?case using Cons.IH [of w1 ?f1 ys] r by simp
qed simp

text \<open>
  The phase ends with exactly the failures of the runs it made: those of its comparisons and those of
  its four stalls, a stall that never began being one of them.
\<close>

theorem outline_counts_failures:
  assumes "run_trials runs outline_first (w, f) = (vs, w1, f1)" "idles idle sleepers w1 = (rows, w2)"
    and "stalls stall_run stall_arms (w2, f1) = (xs, w3, f3)"
    and "run_trials runs outline_skewed (w3, f3) = (us, w4, f4)"
  shows "snd (snd (phase_outline per_tick rank runs idle stall_run (w, f))) =
    f + sum_list (map all_failing vs) + sum_list (map all_failing us) +
    sum_list (map (\<lambda>x. length (filter Not (check_run (so_run x))) + (if so_began x = 0 then 1 else 0)) xs)"
proof -
  have "snd (snd (phase_outline per_tick rank runs idle stall_run (w, f))) = f4"
    by (simp add: phase_outline_def assms)
  moreover have "sum_list (map (\<lambda>x. length (filter Not (stalled_checks (so_began x) (so_run x)))) xs) =
      sum_list (map (\<lambda>x. length (filter Not (check_run (so_run x))) + (if so_began x = 0 then 1 else 0)) xs)"
    by (rule arg_cong [of _ _ sum_list], rule map_cong) (simp_all add: stalled_checks_def)
  ultimately show ?thesis
    using trials_count [OF assms(1)] stalls_count [OF assms(3)] trials_count [OF assms(4)] by simp
qed

text \<open>
  No run of these phases is refused because its thread counts are not those its rings were built for.
\<close>

lemma kinds_fit [simp]:
  "counts_fit shared_queue spec" "counts_fit locked_queue spec"
  "counts_fit (sharded_queue kProducers kConsumers) spec \<longleftrightarrow> rs_producers spec = kProducers \<and> rs_consumers spec = kConsumers"
  by (simp_all add: counts_fit_def shared_queue_def locked_queue_def sharded_queue_def)

definition trial_fits :: "trial \<Rightarrow> bool" where
  "trial_fits e \<longleftrightarrow> list_all (\<lambda>a. counts_fit (kind_of (ar_queue a)) (snd e a)) (fst e)"

lemmas arm_defs = arm_of_def Turnstile_def TicketQ_def Packed_def Backoff_def Outline_def Spinning_def PerProducer_def

lemma shared_trials_fit:
  "trial_fits (saturated, spec)" "trial_fits (paced, spec)" "trial_fits (contenders, spec)" "trial_fits (layouts, spec)"
  by (simp_all add: trial_fits_def saturated_def paced_def contenders_def layouts_def arm_defs)

lemma ring_trials_fit:
  assumes "rs_producers spec = kProducers" "rs_consumers spec = kConsumers"
  shows "trial_fits (four, \<lambda>_. spec)" "trial_fits (sleepers, \<lambda>_. spec)" "trial_fits (two, \<lambda>_. spec)"
  using assms by (simp_all add: trial_fits_def four_def sleepers_def two_def arm_defs)

theorem compared_runs_fit:
  "list_all trial_fits (throughput_trials @ contention_trials @ outline_first @ outline_skewed) \<and>
   trial_fits (layouts, \<lambda>_. layout_spec) \<and>
   list_all (\<lambda>x. counts_fit (kind_of (fst x)) stalled_spec) stall_arms"
proof -
  have "list_all trial_fits throughput_trials"
    by (simp add: throughput_trials_def list_all_iff shared_trials_fit)
  moreover have "list_all trial_fits contention_trials"
    by (simp add: contention_trials_def list_all_iff shared_trials_fit)
  moreover have "list_all trial_fits outline_first"
    by (simp add: outline_first_def ring_trials_fit at_rate_spec_def outline_saturated_spec_def
        sleepers_spec_def default_spec_def)
  moreover have "list_all trial_fits outline_skewed"
    by (simp add: outline_skewed_def ring_trials_fit skewed_spec_def default_spec_def)
  moreover have "list_all (\<lambda>x. counts_fit (kind_of (fst x)) stalled_spec) stall_arms"
    by (simp add: stall_arms_def arm_defs stalled_spec_def default_spec_def)
  ultimately show ?thesis using shared_trials_fit(4) by simp
qed

section \<open>The window between reservation and publication\<close>

definition window_spec :: "bool \<Rightarrow> run_spec" where
  "window_spec full_speed =
     (if full_speed then default_spec\<lparr>rs_events := 250000\<rparr>
      else default_spec\<lparr>rs_rate := kStudyRate, rs_seconds := 1, rs_consumer_work_ns := kConsumerWorkNs\<rparr>)"

text \<open>p50, p99, p99.99, maximum; the pushes, and those longer than 100 us and 1 ms.\<close>

definition window_row :: "rat \<Rightarrow> (rat \<Rightarrow> u64 \<Rightarrow> u64) \<Rightarrow> run_result \<Rightarrow> rat list \<times> u64 list" where
  "window_row per_tick rank r =
     (map (\<lambda>q. quantile_ns per_tick rank rr_window q r) [1 / 2, 99 / 100, 9999 / 10000] @
        [to_ns per_tick (h_max (rr_window r))],
      [h_n (rr_window r), count_above (ticks per_tick (10 ^ 5)) (rr_window r),
       count_above (ticks per_tick (10 ^ 6)) (rr_window r)])"

definition ms_between :: "rat \<Rightarrow> u64 \<Rightarrow> u64 \<Rightarrow> rat" where
  "ms_between per_tick a b = to_ns per_tick (b - a) / 10 ^ 6"

text \<open>
  What is printed of a stall: nothing if it did not begin, otherwise when it began, how long it
  lasted, and the first refusal after it with the occupancy then.
\<close>

definition stall_lines ::
  "rat \<Rightarrow> u64 \<Rightarrow> u64 \<Rightarrow> run_result \<Rightarrow> sample list \<Rightarrow> (rat \<times> rat \<times> (rat \<times> u64) option) option" where
  "stall_lines per_tick t0 t1 r mon =
     (if t0 = 0 then None
      else Some (ms_between per_tick (rr_t_go r) t0, ms_between per_tick t0 t1,
        if t0 < rr_first_full r
        then Some (ms_between per_tick t0 (rr_first_full r), at_time mon (rr_first_full r)) else None))"

text \<open>
  The counts of long windows bound the truth from below and lose at most a bucket: no window of at
  most 100 us is counted, and every window more than a sixteenth longer is.
\<close>

theorem long_windows_counted:
  assumes "rr_window r = hist_of vs"
  shows "hd (List.tl (snd (window_row per_tick rank r))) =
      of_nat (length (filter (\<lambda>x. upper (index (ticks per_tick (10 ^ 5))) < x) vs)) \<and>
    (x \<le> ticks per_tick (10 ^ 5) \<longrightarrow> \<not> upper (index (ticks per_tick (10 ^ 5))) < x) \<and>
    (unat (ticks per_tick (10 ^ 5)) + unat (ticks per_tick (10 ^ 5)) div 16 < unat x \<longrightarrow>
       upper (index (ticks per_tick (10 ^ 5))) < x)"
  using count_above_exact [of "ticks per_tick (10 ^ 5)" vs x] by (simp add: window_row_def assms)

end
