(* ===== verification/Tq_Handshake.thy ===== *)
theory Tq_Handshake
  imports Tq_Platform
begin

text \<open>
  The two-threaded measurements of mpmc-work-queue-kata/cpp/bench/instrument.cpp, access by access: two
  threads that pass a turn back and forth, stamping their clocks (\<open>ping_pong\<close>), and a thread that
  sleeps on an address until another wakes it (\<open>wake_a_sleeper\<close>). Every step of a thread is one access to shared
  memory or one call of the operating system, with the reading of the clock that precedes or
  follows it. Turns and rounds count far below the width of their words and are natural numbers.
\<close>

section \<open>Passing a turn\<close>

datatype bounce_pc = Stamping | Passing | Awaiting | Sampling | Finished

record bounce =
  b_turn :: nat
  b_stamp :: int
  a_pc :: bounce_pc
  a_round :: nat
  ba :: "(int \<times> int) list"   \<comment> \<open>A's readings and the stamps they are compared with\<close>
  b_pc :: bounce_pc
  b_round :: nat
  ab :: "(int \<times> int) list"

definition bounce_begin :: "nat \<Rightarrow> bounce" where
  "bounce_begin rounds =
     \<lparr>b_turn = 0, b_stamp = 0, a_pc = (if 0 < rounds then Stamping else Finished), a_round = 0, ba = [],
      b_pc = (if 0 < rounds then Awaiting else Finished), b_round = 0, ab = []\<rparr>"

definition a_access :: "nat \<Rightarrow> int \<Rightarrow> bounce \<Rightarrow> bounce" where
  "a_access rounds now s =
     (case a_pc s of
        Stamping \<Rightarrow> s\<lparr>b_stamp := now, a_pc := Passing\<rparr>
      | Passing \<Rightarrow> s\<lparr>b_turn := 2 * a_round s + 1, a_pc := Awaiting\<rparr>
      | Awaiting \<Rightarrow> if b_turn s = 2 * a_round s + 2 then s\<lparr>a_pc := Sampling\<rparr> else s
      | Sampling \<Rightarrow> s\<lparr>ba := ba s @ [(now, b_stamp s)], a_round := a_round s + 1,
          a_pc := (if a_round s + 1 < rounds then Stamping else Finished)\<rparr>
      | Finished \<Rightarrow> s)"

definition b_access :: "nat \<Rightarrow> int \<Rightarrow> bounce \<Rightarrow> bounce" where
  "b_access rounds now s =
     (case b_pc s of
        Awaiting \<Rightarrow> if b_turn s = 2 * b_round s + 1 then s\<lparr>b_pc := Sampling\<rparr> else s
      | Sampling \<Rightarrow> s\<lparr>ab := ab s @ [(now, b_stamp s)], b_pc := Stamping\<rparr>
      | Stamping \<Rightarrow> s\<lparr>b_stamp := now, b_pc := Passing\<rparr>
      | Passing \<Rightarrow> s\<lparr>b_turn := 2 * b_round s + 2, b_round := b_round s + 1,
          b_pc := (if b_round s + 1 < rounds then Awaiting else Finished)\<rparr>
      | Finished \<Rightarrow> s)"

text \<open>
  A schedule says whose access comes next, and when. A's clock reads the time, B's is \<open>skew\<close> ahead.
\<close>

fun bounce_run :: "nat \<Rightarrow> int \<Rightarrow> (bool \<times> int) list \<Rightarrow> bounce \<Rightarrow> bounce" where
  "bounce_run rounds skew [] s = s"
| "bounce_run rounds skew ((who, t) # xs) s =
     bounce_run rounds skew xs (if who then a_access rounds t s else b_access rounds (t + skew) s)"

text \<open>
  The stations of round \<open>r\<close> of A: what the turn and B's round are, and who may have stamped last,
  which \<open>mine\<close> says of A and \<open>yours\<close> of B.
\<close>

fun station :: "nat \<Rightarrow> bool \<Rightarrow> bool \<Rightarrow> nat \<Rightarrow> nat \<Rightarrow> nat \<Rightarrow> bounce_pc \<Rightarrow> bounce_pc \<Rightarrow> bool" where
  "station rounds mine yours turn r k Stamping Awaiting \<longleftrightarrow> r < rounds \<and> k = r \<and> turn = 2 * r"
| "station rounds mine yours turn r k Passing Awaiting \<longleftrightarrow> r < rounds \<and> k = r \<and> turn = 2 * r \<and> mine"
| "station rounds mine yours turn r k Awaiting Sampling \<longleftrightarrow> r < rounds \<and> k = r \<and> turn = 2 * r + 1 \<and> mine"
| "station rounds mine yours turn r k Awaiting Stamping \<longleftrightarrow> r < rounds \<and> k = r \<and> turn = 2 * r + 1"
| "station rounds mine yours turn r k Awaiting Passing \<longleftrightarrow> r < rounds \<and> k = r \<and> turn = 2 * r + 1 \<and> yours"
| "station rounds mine yours turn r k Awaiting Awaiting \<longleftrightarrow>
     r < rounds \<and> k = r \<and> turn = 2 * r + 1 \<and> mine \<or>
     r + 1 < rounds \<and> k = r + 1 \<and> turn = 2 * r + 2 \<and> yours"
| "station rounds mine yours turn r k Sampling Awaiting \<longleftrightarrow>
     r + 1 < rounds \<and> k = r + 1 \<and> turn = 2 * r + 2 \<and> yours"
| "station rounds mine yours turn r k Awaiting Finished \<longleftrightarrow>
     r + 1 = rounds \<and> k = r + 1 \<and> turn = 2 * r + 2 \<and> yours"
| "station rounds mine yours turn r k Sampling Finished \<longleftrightarrow>
     r + 1 = rounds \<and> k = r + 1 \<and> turn = 2 * r + 2 \<and> yours"
| "station rounds mine yours turn r k Finished Finished \<longleftrightarrow> r = rounds \<and> k = rounds"
| "station rounds mine yours turn r k pa pb \<longleftrightarrow> False"

definition bounce_ok :: "nat \<Rightarrow> int \<Rightarrow> int \<Rightarrow> bounce \<Rightarrow> bool" where
  "bounce_ok rounds skew t s \<longleftrightarrow>
     station rounds (b_stamp s \<le> t) (b_stamp s \<le> t + skew) (b_turn s) (a_round s) (b_round s) (a_pc s) (b_pc s) \<and>
     length (ba s) = a_round s \<and>
     length (ab s) = (if b_pc s \<in> {Stamping, Passing} then b_round s + 1 else b_round s) \<and>
     (\<forall>(x, y) \<in> set (ab s). skew \<le> x - y) \<and> (\<forall>(x, y) \<in> set (ba s). - skew \<le> x - y)"

lemma bounce_begin_ok: "bounce_ok rounds skew t (bounce_begin rounds)"
  by (simp add: bounce_ok_def bounce_begin_def)

lemma bounce_ok_later: "bounce_ok rounds skew t s \<Longrightarrow> t \<le> u \<Longrightarrow> bounce_ok rounds skew u s"
  unfolding bounce_ok_def by (cases "a_pc s"; cases "b_pc s") auto

lemma a_access_ok:
  "bounce_ok rounds skew t s \<Longrightarrow> bounce_ok rounds skew t (a_access rounds t s)"
  unfolding bounce_ok_def a_access_def by (cases "a_pc s"; cases "b_pc s") auto

lemma b_access_ok:
  "bounce_ok rounds skew t s \<Longrightarrow> bounce_ok rounds skew t (b_access rounds (t + skew) s)"
  unfolding bounce_ok_def b_access_def by (cases "a_pc s"; cases "b_pc s") auto

lemma bounce_run_ok:
  "bounce_ok rounds skew t s \<Longrightarrow> sorted (t # map snd xs) \<Longrightarrow>
   bounce_ok rounds skew (last (t # map snd xs)) (bounce_run rounds skew xs s)"
proof (induction xs arbitrary: t s)
  case (Cons x xs)
  obtain who u where x: "x = (who, u)" by fastforce
  have "bounce_ok rounds skew u s"
    using bounce_ok_later [OF Cons.prems(1)] Cons.prems(2) by (simp add: x)
  then have "bounce_ok rounds skew u (if who then a_access rounds u s else b_access rounds (u + skew) s)"
    using a_access_ok b_access_ok by simp
  from Cons.IH [OF this] Cons.prems(2) show ?case by (simp add: x)
qed simp

lemma skew_bounded:
  assumes "sorted (map snd xs)" "0 \<le> per_tick" "\<bar>skew\<bar> \<le> int64_max"
    and s: "s = bounce_run rounds skew xs (bounce_begin rounds)"
  shows "\<bar>fst (ping_pong per_tick (ab s) (ba s)) - of_int skew * per_tick\<bar> \<le>
    snd (ping_pong per_tick (ab s) (ba s))"
proof -
  have "\<exists>t. sorted (t # map snd xs)" using assms(1) by (cases xs) auto
  then obtain t where "sorted (t # map snd xs)" by blast
  from bounce_run_ok [OF bounce_begin_ok this] have "bounce_ok rounds skew (last (t # map snd xs)) s"
    by (simp add: s)
  then have ab: "\<forall>(x, y) \<in> set (ab s). skew \<le> x - y" and ba: "\<forall>(x, y) \<in> set (ba s). - skew \<le> x - y"
    by (simp_all add: bounce_ok_def)
  have le: "v \<le> min_delay xs" if "\<forall>(x, y) \<in> set xs. v \<le> x - y" "v \<le> int64_max" for v xs
    using fold_min_le(3) [of "\<lambda>(t, s). t - s" xs int64_max] that
    by (auto simp: min_delay_def case_prod_unfold)
  have x: "skew \<le> min_delay (ab s)" and y: "- skew \<le> min_delay (ba s)"
    using le [OF ab] le [OF ba] assms(3) by linarith+
  show ?thesis by (rule ping_pong_bound [OF assms(2) x y])
qed

text \<open>
  The skew reported is off by at most the transfer reported, whatever the two threads and the
  scheduler do: for every interleaving of their accesses, at any times that do not run backwards,
  with B's clock any amount ahead, the figures computed from the samples so far are right.
\<close>

theorem skew_measured:
  assumes "sorted (map snd xs)" "0 \<le> per_tick" "\<bar>skew\<bar> \<le> int64_max"
    and s: "s = bounce_run rounds skew xs (bounce_begin rounds)"
  shows "\<bar>fst (ping_pong per_tick (ab s) (ba s)) - of_int skew * per_tick\<bar> \<le>
    snd (ping_pong per_tick (ab s) (ba s))"
  using assms by (rule skew_bounded)

theorem skew_measured_witness:
  "\<bar>fst (ping_pong (2 / 5) [(1130, 1000)] [(1300, 1240)]) - 30 * (2 / 5)\<bar> \<le>
     snd (ping_pong (2 / 5) [(1130, 1000)] [(1300, 1240)])"
proof -
  let ?xs = "[(True, 1000), (True, 1000), (False, 1090), (False, 1100), (False, 1210), (False, 1210),
      (True, 1290), (True, 1300)]"
  show ?thesis
    using skew_measured [of ?xs "2 / 5" 30 "bounce_run 1 30 ?xs (bounce_begin 1)" 1]
    by (simp add: int64_max_def bounce_begin_def a_access_def b_access_def)
qed

lemma a_moves:
  assumes "a_pc s \<in> {Stamping, Passing, Sampling} \<or> a_pc s = Awaiting \<and> b_turn s = 2 * a_round s + 2"
  shows "a_access rounds now s \<noteq> s"
proof -
  have "a_pc (a_access rounds now s) \<noteq> a_pc s" using assms by (auto simp: a_access_def)
  then show ?thesis by auto
qed

lemma b_moves:
  assumes "b_pc s \<in> {Stamping, Passing, Sampling} \<or> b_pc s = Awaiting \<and> b_turn s = 2 * b_round s + 1"
  shows "b_access rounds now s \<noteq> s"
proof -
  have "b_pc (b_access rounds now s) \<noteq> b_pc s" using assms by (auto simp: b_access_def)
  then show ?thesis by auto
qed

text \<open>
  Until both threads are done, one of them has an access to make that gets it further, at whatever
  time it makes it; and when they are done each has taken one sample in every round.
\<close>

theorem bounce_goes_on:
  assumes "sorted (map snd xs)" and s: "s = bounce_run rounds skew xs (bounce_begin rounds)"
  shows "(\<forall>now. a_access rounds now s \<noteq> s) \<or> (\<forall>now. b_access rounds now s \<noteq> s) \<or>
    a_pc s = Finished \<and> b_pc s = Finished \<and> length (ab s) = rounds \<and> length (ba s) = rounds"
proof -
  have "\<exists>t. sorted (t # map snd xs)" using assms(1) by (cases xs) auto
  then obtain t where "sorted (t # map snd xs)" by blast
  from bounce_run_ok [OF bounce_begin_ok this] have "bounce_ok rounds skew (last (t # map snd xs)) s"
    by (simp add: s)
  note ok = this
  consider "a_pc s \<in> {Stamping, Passing, Sampling} \<or> a_pc s = Awaiting \<and> b_turn s = 2 * a_round s + 2"
    | "b_pc s \<in> {Stamping, Passing, Sampling} \<or> b_pc s = Awaiting \<and> b_turn s = 2 * b_round s + 1"
    | "a_round s = rounds" "b_round s = rounds" "a_pc s = Finished" "b_pc s = Finished"
    using ok unfolding bounce_ok_def by (cases "a_pc s"; cases "b_pc s") auto
  then show ?thesis
  proof cases
    case 1
    then show ?thesis using a_moves [OF 1] by blast
  next
    case 2
    then show ?thesis using b_moves [OF 2] by blast
  next
    case 3
    then show ?thesis using ok by (simp add: bounce_ok_def)
  qed
qed

section \<open>Waking a sleeper\<close>

text \<open>
  The sleeper: about to load its key, to announce the round, to compare the word, to call
  \<open>wait_on\<close>; asleep in the call; about to store when it woke. The waker: waiting for the
  announcement, about to clear the time, to advance the word, to wake, polling for the time.
\<close>

datatype sleeper_pc =
    LoadKey | Announce u32 | Compare u32 | EnterWait u32 | Asleep u32 | StoreTime | SleeperDone

datatype waker_pc = AwaitSleeper | ClearTime | Advance | WakeOne | Poll | WakerDone

text \<open>
  \<open>n_by\<close>, the round in which \<open>woke_at\<close> was last stored by the sleeper, is there for the theorems only,
  and so are the rounds in the samples. \<open>record(w - t0)\<close> is the sample \<open>(n_by, t0, w)\<close>.
\<close>

record nap =
  n_word :: u32
  n_woke_at :: u64
  n_by :: nat
  n_asleep :: int
  sl_pc :: sleeper_pc
  sl_round :: nat
  wk_pc :: waker_pc
  wk_round :: nat
  wk_t0 :: u64
  waker_samples :: "u64 list"
  sleeper_samples :: "(nat \<times> u64 \<times> u64) list"

definition nap_begin :: "nat \<Rightarrow> nap" where
  "nap_begin rounds =
     \<lparr>n_word = 0, n_woke_at = 0, n_by = 0, n_asleep = -1,
      sl_pc = (if 0 < rounds then LoadKey else SleeperDone), sl_round = 0,
      wk_pc = (if 0 < rounds then AwaitSleeper else WakerDone), wk_round = 0, wk_t0 = 0,
      waker_samples = [], sleeper_samples = []\<rparr>"

text \<open>A wait that ends by itself, on time or spuriously, is the access of a thread asleep.\<close>

definition sleeper_access :: "nat \<Rightarrow> u64 \<Rightarrow> nap \<Rightarrow> nap" where
  "sleeper_access rounds now s =
     (case sl_pc s of
        LoadKey \<Rightarrow> s\<lparr>sl_pc := Announce (n_word s)\<rparr>
      | Announce k \<Rightarrow> s\<lparr>n_asleep := int (sl_round s), sl_pc := Compare k\<rparr>
      | Compare k \<Rightarrow> s\<lparr>sl_pc := (if n_word s = k then EnterWait k else StoreTime)\<rparr>
      | EnterWait k \<Rightarrow> s\<lparr>sl_pc := (if n_word s = k then Asleep k else Compare k)\<rparr>
      | Asleep k \<Rightarrow> s\<lparr>sl_pc := Compare k\<rparr>
      | StoreTime \<Rightarrow> s\<lparr>n_woke_at := now, n_by := sl_round s, sl_round := sl_round s + 1,
          sl_pc := (if sl_round s + 1 < rounds then LoadKey else SleeperDone)\<rparr>
      | SleeperDone \<Rightarrow> s)"

definition waker_access :: "nat \<Rightarrow> u64 \<Rightarrow> nap \<Rightarrow> nap" where
  "waker_access rounds now s =
     (case wk_pc s of
        AwaitSleeper \<Rightarrow> if n_asleep s = int (wk_round s) then s\<lparr>wk_pc := ClearTime\<rparr> else s
      | ClearTime \<Rightarrow> s\<lparr>n_woke_at := 0, wk_pc := Advance\<rparr>
      | Advance \<Rightarrow> s\<lparr>wk_t0 := now, n_word := n_word s + 1, wk_pc := WakeOne\<rparr>
      | WakeOne \<Rightarrow> s\<lparr>sl_pc := (case sl_pc s of Asleep k \<Rightarrow> Compare k | pc \<Rightarrow> pc),
          waker_samples := waker_samples s @ [now - wk_t0 s], wk_pc := Poll\<rparr>
      | Poll \<Rightarrow>
          if n_woke_at s = 0 then s
          else s\<lparr>sleeper_samples := sleeper_samples s @ [(n_by s, wk_t0 s, n_woke_at s)],
            wk_round := wk_round s + 1,
            wk_pc := (if wk_round s + 1 < rounds then AwaitSleeper else WakerDone)\<rparr>
      | WakerDone \<Rightarrow> s)"

fun nap_run :: "nat \<Rightarrow> (bool \<times> u64) list \<Rightarrow> nap \<Rightarrow> nap" where
  "nap_run rounds [] s = s"
| "nap_run rounds ((who, t) # xs) s =
     nap_run rounds xs (if who then waker_access rounds t s else sleeper_access rounds t s)"

text \<open>The sleeper in a round nobody has called it in yet, and in one it has been called in.\<close>

fun settling :: "nat \<Rightarrow> u32 \<Rightarrow> nat \<Rightarrow> int \<Rightarrow> sleeper_pc \<Rightarrow> bool" where
  "settling rounds wd q asl LoadKey \<longleftrightarrow> q < rounds \<and> asl < int q"
| "settling rounds wd q asl (Announce k) \<longleftrightarrow> q < rounds \<and> asl < int q \<and> k = wd"
| "settling rounds wd q asl (Compare k) \<longleftrightarrow> q < rounds \<and> asl = int q \<and> k = wd"
| "settling rounds wd q asl (EnterWait k) \<longleftrightarrow> q < rounds \<and> asl = int q \<and> k = wd"
| "settling rounds wd q asl (Asleep k) \<longleftrightarrow> q < rounds \<and> asl = int q \<and> k = wd"
| "settling rounds wd q asl SleeperDone \<longleftrightarrow> q = rounds"
| "settling rounds wd q asl StoreTime \<longleftrightarrow> False"

fun called :: "bool \<Rightarrow> u32 \<Rightarrow> sleeper_pc \<Rightarrow> bool" where
  "called woken wd (Compare k) \<longleftrightarrow> k \<noteq> wd"
| "called woken wd (EnterWait k) \<longleftrightarrow> k \<noteq> wd"
| "called woken wd (Asleep k) \<longleftrightarrow> k \<noteq> wd \<and> \<not> woken"
| "called woken wd StoreTime \<longleftrightarrow> True"
| "called woken wd pc \<longleftrightarrow> False"

definition answered :: "nat \<Rightarrow> u64 \<Rightarrow> bool \<Rightarrow> nap \<Rightarrow> bool" where
  "answered rounds t woken s \<longleftrightarrow> wk_round s < rounds \<and> wk_t0 s \<le> t \<and>
     (sl_round s = wk_round s \<and> n_asleep s = int (wk_round s) \<and> n_woke_at s = 0 \<and>
        called woken (n_word s) (sl_pc s) \<or>
      sl_round s = wk_round s + 1 \<and> n_woke_at s \<noteq> 0 \<and> n_by s = wk_round s \<and> wk_t0 s \<le> n_woke_at s \<and>
        settling rounds (n_word s) (sl_round s) (n_asleep s) (sl_pc s))"

definition waker_ok :: "nat \<Rightarrow> u64 \<Rightarrow> nap \<Rightarrow> bool" where
  "waker_ok rounds t s \<longleftrightarrow>
     (case wk_pc s of
        AwaitSleeper \<Rightarrow> wk_round s < rounds \<and> sl_round s = wk_round s \<and>
          settling rounds (n_word s) (sl_round s) (n_asleep s) (sl_pc s)
      | ClearTime \<Rightarrow> wk_round s < rounds \<and> sl_round s = wk_round s \<and> n_asleep s = int (wk_round s) \<and>
          settling rounds (n_word s) (sl_round s) (n_asleep s) (sl_pc s)
      | Advance \<Rightarrow> wk_round s < rounds \<and> sl_round s = wk_round s \<and> n_asleep s = int (wk_round s) \<and>
          settling rounds (n_word s) (sl_round s) (n_asleep s) (sl_pc s) \<and> n_woke_at s = 0
      | WakeOne \<Rightarrow> answered rounds t False s
      | Poll \<Rightarrow> answered rounds t True s
      | WakerDone \<Rightarrow> wk_round s = rounds \<and> sl_round s = rounds \<and> sl_pc s = SleeperDone)"

definition nap_ok :: "nat \<Rightarrow> u64 \<Rightarrow> nap \<Rightarrow> bool" where
  "nap_ok rounds t s \<longleftrightarrow> waker_ok rounds t s \<and> length (sleeper_samples s) = wk_round s \<and>
     (\<forall>i < wk_round s. fst (sleeper_samples s ! i) = i \<and>
        fst (snd (sleeper_samples s ! i)) \<le> snd (snd (sleeper_samples s ! i)))"

lemma nap_begin_ok: "nap_ok rounds t (nap_begin rounds)"
  by (simp add: nap_ok_def waker_ok_def nap_begin_def)

lemma waker_ok_later: "waker_ok rounds t s \<Longrightarrow> t \<le> u \<Longrightarrow> waker_ok rounds u s"
  by (auto simp: waker_ok_def answered_def split: waker_pc.splits)

lemma sleeper_access_ok:
  "waker_ok rounds t s \<Longrightarrow> t \<noteq> 0 \<Longrightarrow> waker_ok rounds t (sleeper_access rounds t s)"
  unfolding waker_ok_def sleeper_access_def answered_def
  by (cases "wk_pc s"; cases "sl_pc s") auto

lemma waker_access_ok:
  "waker_ok rounds t s \<Longrightarrow> waker_ok rounds t (waker_access rounds t s)"
  unfolding waker_ok_def waker_access_def answered_def
  by (cases "wk_pc s"; cases "sl_pc s") auto

lemma sleeper_access_keeps:
  "sleeper_samples (sleeper_access rounds t s) = sleeper_samples s"
  "wk_round (sleeper_access rounds t s) = wk_round s"
  by (simp_all add: sleeper_access_def split: sleeper_pc.split)

lemma waker_access_keeps:
  "wk_pc s = Poll \<and> n_woke_at s \<noteq> 0 \<or>
   sleeper_samples (waker_access rounds t s) = sleeper_samples s \<and> wk_round (waker_access rounds t s) = wk_round s"
  by (auto simp: waker_access_def split: waker_pc.split)

lemma nap_waker_ok:
  assumes "nap_ok rounds t s"
  shows "nap_ok rounds t (waker_access rounds t s)"
proof (cases "wk_pc s = Poll \<and> n_woke_at s \<noteq> 0")
  case True
  then have a: "n_by s = wk_round s" "wk_t0 s \<le> n_woke_at s"
    using assms by (auto simp: nap_ok_def waker_ok_def answered_def)
  have samples: "sleeper_samples (waker_access rounds t s) =
      sleeper_samples s @ [(wk_round s, wk_t0 s, n_woke_at s)]"
    "wk_round (waker_access rounds t s) = wk_round s + 1"
    using True a by (simp_all add: waker_access_def)
  have "waker_ok rounds t (waker_access rounds t s)"
    using waker_access_ok assms by (simp add: nap_ok_def)
  then show ?thesis
    using assms a samples by (auto simp: nap_ok_def nth_append less_Suc_eq)
next
  case False
  then have "sleeper_samples (waker_access rounds t s) = sleeper_samples s"
    "wk_round (waker_access rounds t s) = wk_round s"
    using waker_access_keeps [of s rounds t] by blast+
  then show ?thesis
    using waker_access_ok [of rounds t s] assms by (simp add: nap_ok_def)
qed

lemma nap_run_ok:
  "nap_ok rounds t s \<Longrightarrow> sorted (t # map snd xs) \<Longrightarrow> 0 < t \<Longrightarrow>
   nap_ok rounds (last (t # map snd xs)) (nap_run rounds xs s)"
proof (induction xs arbitrary: t s)
  case (Cons x xs)
  obtain who u where x: "x = (who, u)" by fastforce
  have u: "t \<le> u" "0 < u" using Cons.prems(2,3) by (auto simp: x)
  have ok: "nap_ok rounds u s" using Cons.prems(1) waker_ok_later u(1) by (auto simp: nap_ok_def)
  have "nap_ok rounds u (if who then waker_access rounds u s else sleeper_access rounds u s)"
    using nap_waker_ok [OF ok] sleeper_access_ok [of rounds u s] ok u(2)
    by (auto simp: nap_ok_def sleeper_access_keeps)
  from Cons.IH [OF this] Cons.prems(2) u(2) show ?case by (simp add: x)
qed simp

text \<open>
  Every wake that is timed is the one it is taken for: whatever the interleaving and however
  waits end, the sample of round \<open>i\<close> pairs the waker's reading in round \<open>i\<close> with the reading the
  sleeper stored in round \<open>i\<close>, and the sleeper's is not the earlier one, so that their difference
  does not wrap.
\<close>

theorem wakes_paired:
  assumes "sorted (map snd xs)" "\<forall>x \<in> set xs. 0 < snd x"
    and "i < length (sleeper_samples (nap_run rounds xs (nap_begin rounds)))"
  shows "\<exists>t0 w. sleeper_samples (nap_run rounds xs (nap_begin rounds)) ! i = (i, t0, w) \<and>
    t0 \<le> w \<and> unat (w - t0) = unat w - unat t0"
proof -
  obtain t where t: "sorted (t # map snd xs)" "0 < t"
  proof (cases xs)
    case Nil
    then show ?thesis using that [of 1] by simp
  next
    case (Cons x ys)
    then show ?thesis using that [of "snd x"] assms(1,2) by simp
  qed
  have ok: "nap_ok rounds (last (t # map snd xs)) (nap_run rounds xs (nap_begin rounds))"
    by (rule nap_run_ok [OF nap_begin_ok t])
  obtain j t0 w where e: "sleeper_samples (nap_run rounds xs (nap_begin rounds)) ! i = (j, t0, w)"
    by (metis prod_cases3)
  with ok assms(3) have "j = i" "t0 \<le> w" by (auto simp: nap_ok_def)
  with e show ?thesis by (simp add: unat_sub)
qed

text \<open>A round in which the sleeper is asleep when it is called.\<close>

definition nap_trace :: "(bool \<times> u64) list" where
  "nap_trace = map (Pair False) [1, 1, 1, 1] @ map (Pair True) [2, 2, 5, 6] @ map (Pair False) [7, 9] @ [(True, 11)]"

theorem wakes_paired_witness:
  "\<exists>t0 w. sleeper_samples (nap_run 1 nap_trace (nap_begin 1)) ! 0 = (0, t0, w) \<and> t0 \<le> w"
  using wakes_paired [of nap_trace 0 1]
  by (simp add: nap_trace_def nap_begin_def sleeper_access_def waker_access_def)

text \<open>
  Nobody is left behind: until both are done, the waker has an access that gets it further, or the
  sleeper has one other than a wait that ends by itself. In particular a sleeper whose word was
  advanced does not need its wait to time out.
\<close>

theorem sleeper_never_stranded:
  assumes "sorted (map snd xs)" "\<forall>x \<in> set xs. 0 < snd x"
    and s: "s = nap_run rounds xs (nap_begin rounds)"
  shows "(\<forall>now. waker_access rounds now s \<noteq> s) \<or>
    (\<forall>k. sl_pc s \<noteq> Asleep k) \<and> (\<forall>now. sleeper_access rounds now s \<noteq> s) \<or>
    sl_pc s = SleeperDone \<and> wk_pc s = WakerDone"
proof -
  obtain t where t: "sorted (t # map snd xs)" "0 < t"
  proof (cases xs)
    case Nil
    then show ?thesis using that [of 1] by simp
  next
    case (Cons x ys)
    then show ?thesis using that [of "snd x"] assms(1,2) by simp
  qed
  have ok: "waker_ok rounds (last (t # map snd xs)) s"
    using nap_run_ok [OF nap_begin_ok t] by (simp add: nap_ok_def s)
  have wk: "waker_access rounds now s \<noteq> s" if "wk_pc (waker_access rounds now s) \<noteq> wk_pc s" for now
    using that by auto
  have sl: "sleeper_access rounds now s \<noteq> s" if "sl_pc (sleeper_access rounds now s) \<noteq> sl_pc s" for now
    using that by auto
  consider "\<forall>now. wk_pc (waker_access rounds now s) \<noteq> wk_pc s"
    | "\<forall>k. sl_pc s \<noteq> Asleep k" "\<forall>now. sl_pc (sleeper_access rounds now s) \<noteq> sl_pc s"
    | "sl_pc s = SleeperDone" "wk_pc s = WakerDone"
    using ok unfolding waker_ok_def waker_access_def sleeper_access_def answered_def
    by (cases "wk_pc s"; cases "sl_pc s") auto
  then show ?thesis using wk sl by cases blast+
qed

theorem sleeper_never_stranded_witness:
  "\<forall>now. waker_access 1 now (nap_run 1 (take 4 nap_trace) (nap_begin 1)) \<noteq>
     nap_run 1 (take 4 nap_trace) (nap_begin 1)"
  using sleeper_never_stranded [of "take 4 nap_trace" "nap_run 1 (take 4 nap_trace) (nap_begin 1)" 1]
  by (simp add: nap_trace_def nap_begin_def sleeper_access_def)

end
