(* ===== verification/Tq_Lockstep.thy ===== *)
theory Tq_Lockstep
  imports Tq_Platform
begin

text \<open>
  How the threads of the turnstile bench are kept in step: the start barrier of a run
  (bench/driver.hpp, and with it the one of \<open>contended_fetch_add\<close> in instrument.cpp), and the
  announcements and acknowledgements of the engineered race (wakeup.cpp). Every step of a thread is
  one access to shared memory; the time of a step is the reading of the clock that goes with it.
\<close>

section \<open>The start barrier\<close>

datatype worker_pc = Arriving | Held | Released | Working u64
datatype master_pc = Gathering | StoreStart | OpenGate | Opened

record barrier =
  br_ready :: nat
  br_go :: bool
  br_t_go :: u64
  br_shared :: u64
  br_master :: master_pc
  br_workers :: "worker_pc list"

definition new_barrier :: "nat \<Rightarrow> barrier" where
  "new_barrier n = \<lparr>br_ready = 0, br_go = False, br_t_go = 0, br_shared = 0, br_master = Gathering,
     br_workers = replicate n Arriving\<rparr>"

text \<open>\<open>wait_go\<close>, and the load of the start time after it.\<close>

definition worker_step :: "nat \<Rightarrow> barrier \<Rightarrow> barrier" where
  "worker_step i s =
     (if i \<ge> length (br_workers s) then s
      else case br_workers s ! i of
        Arriving \<Rightarrow> s\<lparr>br_ready := br_ready s + 1, br_workers := (br_workers s)[i := Held]\<rparr>
      | Held \<Rightarrow> if br_go s then s\<lparr>br_workers := (br_workers s)[i := Released]\<rparr> else s
      | Released \<Rightarrow> s\<lparr>br_workers := (br_workers s)[i := Working (br_shared s)]\<rparr>
      | Working t \<Rightarrow> s)"

definition master_step :: "u64 \<Rightarrow> barrier \<Rightarrow> barrier" where
  "master_step now s =
     (case br_master s of
        Gathering \<Rightarrow>
          if br_ready s < length (br_workers s) then s else s\<lparr>br_t_go := now, br_master := StoreStart\<rparr>
      | StoreStart \<Rightarrow> s\<lparr>br_shared := br_t_go s, br_master := OpenGate\<rparr>
      | OpenGate \<Rightarrow> s\<lparr>br_go := True, br_master := Opened\<rparr>
      | Opened \<Rightarrow> s)"

text \<open>A step of a worker, or of the thread that runs them.\<close>

fun barrier_run :: "(nat option \<times> u64) list \<Rightarrow> barrier \<Rightarrow> barrier" where
  "barrier_run [] s = s"
| "barrier_run ((who, t) # xs) s =
     barrier_run xs (case who of None \<Rightarrow> master_step t s | Some i \<Rightarrow> worker_step i s)"

definition arrived :: "worker_pc list \<Rightarrow> nat" where
  "arrived ws = length (filter (\<lambda>w. w \<noteq> Arriving) ws)"

lemma arrived_all: "arrived ws = length ws \<longleftrightarrow> Arriving \<notin> set ws"
proof (induction ws)
  case (Cons w ws)
  have "length (filter (\<lambda>w. w \<noteq> Arriving) ws) \<le> length ws" by simp
  then show ?case using Cons by (auto simp: arrived_def simp del: length_filter_le)
qed (simp add: arrived_def)

lemma arrived_update:
  "i < length ws \<Longrightarrow> w \<noteq> Arriving \<Longrightarrow>
   arrived (ws[i := w]) = (if ws ! i = Arriving then arrived ws + 1 else arrived ws)"
proof (induction ws arbitrary: i)
  case (Cons x ws)
  then show ?case by (cases i) (auto simp: arrived_def)
qed simp

text \<open>What a worker may be doing, given whether the gate is open and the start time.\<close>

fun worker_ok :: "bool \<Rightarrow> u64 \<Rightarrow> worker_pc \<Rightarrow> bool" where
  "worker_ok go t Arriving \<longleftrightarrow> True"
| "worker_ok go t Held \<longleftrightarrow> True"
| "worker_ok go t Released \<longleftrightarrow> go"
| "worker_ok go t (Working u) \<longleftrightarrow> go \<and> u = t"

definition barrier_ok :: "nat \<Rightarrow> u64 \<Rightarrow> barrier \<Rightarrow> bool" where
  "barrier_ok n now s \<longleftrightarrow> length (br_workers s) = n \<and> br_ready s = arrived (br_workers s) \<and>
     (br_master s \<noteq> Gathering \<longrightarrow> Arriving \<notin> set (br_workers s) \<and> br_t_go s \<le> now) \<and>
     (br_go s \<longleftrightarrow> br_master s = Opened) \<and>
     (br_master s \<in> {OpenGate, Opened} \<longrightarrow> br_shared s = br_t_go s) \<and>
     list_all (worker_ok (br_go s) (br_shared s)) (br_workers s)"

lemma worker_ok_open: "worker_ok False t w \<Longrightarrow> worker_ok b u w"
  by (cases w) auto

lemma list_all_set: "list_all P xs \<Longrightarrow> P x \<Longrightarrow> list_all P (xs[i := x])"
  by (auto simp: list_all_iff dest!: set_update_subset_insert [THEN subsetD])

lemma set_update_not: "x \<notin> set xs \<Longrightarrow> y \<noteq> x \<Longrightarrow> x \<notin> set (xs[i := y])"
  by (auto dest!: set_update_subset_insert [THEN subsetD])

lemma worker_step_ok:
  assumes "barrier_ok n now s"
  shows "barrier_ok n now (worker_step i s)"
proof (cases "i < length (br_workers s)")
  case True
  have w: "worker_ok (br_go s) (br_shared s) (br_workers s ! i)"
    using assms True by (auto simp: barrier_ok_def list_all_length)
  then show ?thesis
    using assms True
    by (cases "br_workers s ! i")
      (auto simp: worker_step_def barrier_ok_def arrived_update list_all_set set_update_not)
next
  case False
  then show ?thesis using assms by (simp add: worker_step_def)
qed

lemma master_step_ok:
  assumes "barrier_ok n now s"
  shows "barrier_ok n now (master_step now s)"
proof -
  have "arrived (br_workers s) \<le> length (br_workers s)" by (simp add: arrived_def)
  then show ?thesis
    using assms worker_ok_open
    by (cases "br_master s")
      (auto simp: master_step_def barrier_ok_def list_all_iff arrived_all [symmetric])
qed

lemma barrier_run_ok:
  "barrier_ok n now s \<Longrightarrow> sorted (now # map snd xs) \<Longrightarrow>
   barrier_ok n (last (now # map snd xs)) (barrier_run xs s)"
proof (induction xs arbitrary: now s)
  case (Cons x xs)
  obtain who t where x: "x = (who, t)" by fastforce
  have "now \<le> t" using Cons.prems(2) by (simp add: x)
  then have "barrier_ok n t s" using Cons.prems(1) by (auto simp: barrier_ok_def)
  then have "barrier_ok n t (case who of None \<Rightarrow> master_step t s | Some i \<Rightarrow> worker_step i s)"
    using master_step_ok worker_step_ok by (simp split: option.split)
  from Cons.IH [OF this] Cons.prems(2) show ?case by (simp add: x)
qed simp

text \<open>
  Nobody starts early and everybody starts from the same time: when a worker is at its work, every
  worker has arrived, its start time is the one the run is measured from, and that time has passed.
\<close>

theorem nobody_starts_early:
  assumes "sorted (map snd xs)" "s = barrier_run xs (new_barrier n)"
    and "i < n" "br_workers s ! i = Working t"
  shows "Arriving \<notin> set (br_workers s) \<and> t = br_t_go s \<and> xs \<noteq> [] \<and> t \<le> snd (last xs)"
proof -
  obtain t0 where t0: "sorted (t0 # map snd xs)" using assms(1) by (cases xs) (auto intro: that [of "snd (hd xs)"])
  have "barrier_ok n t0 (new_barrier n)"
    by (simp add: barrier_ok_def new_barrier_def arrived_def list_all_iff)
  from barrier_run_ok [OF this t0] have ok: "barrier_ok n (last (t0 # map snd xs)) s" by (simp add: assms(2))
  have "worker_ok (br_go s) (br_shared s) (Working t)"
    using ok assms(3,4) by (metis barrier_ok_def list_all_length)
  moreover have "xs \<noteq> []" using assms(2,3,4) by (auto simp: new_barrier_def)
  ultimately show ?thesis using ok by (auto simp: barrier_ok_def last_map)
qed

definition barrier_trace :: "(nat option \<times> u64) list" where
  "barrier_trace = [(Some 0, 1), (None, 2), (Some 1, 3), (None, 4), (None, 5), (Some 1, 6), (None, 7),
     (Some 1, 8), (Some 1, 9)]"

theorem nobody_starts_early_witness:
  "Arriving \<notin> set (br_workers (barrier_run barrier_trace (new_barrier 2)))"
  using nobody_starts_early [of barrier_trace "barrier_run barrier_trace (new_barrier 2)" 2 1 4]
  by (simp add: barrier_trace_def new_barrier_def worker_step_def master_step_def numeral_2_eq_2)

section \<open>The engineered race\<close>

text \<open>
  The producer of an iteration waits for an announcement of the consumer newer than those it was told
  of with the last acknowledgement, pushes one event, and waits for its acknowledgement. The consumer
  announces itself, as often as it is about to sleep, and takes the event. Its deadline of an hour
  is not reached. The log holds the iteration in which each event was taken and the number of
  announcements made in that pop; it is there for the theorems.
\<close>

datatype racer_pc = Popping nat | CountAck | Acking | ConsumerDone
datatype pusher_pc = Watching | Pushing | Stamping_push | AwaitAck | Noting | ProducerDone

record lockstep =
  lk_parking :: nat
  lk_acked :: int
  lk_at_ack :: nat
  lk_queue :: nat
  lk_racer :: racer_pc
  lk_consumed :: nat
  lk_pusher :: pusher_pc
  lk_pushed :: nat
  lk_seen :: nat
  lk_log :: "(nat \<times> nat) list"

definition new_lockstep :: "nat \<Rightarrow> lockstep" where
  "new_lockstep iters =
     \<lparr>lk_parking = 0, lk_acked = -1, lk_at_ack = 0, lk_queue = 0,
      lk_racer = (if 0 < iters then Popping 0 else ConsumerDone), lk_consumed = 0,
      lk_pusher = (if 0 < iters then Watching else ProducerDone), lk_pushed = 0, lk_seen = 0, lk_log = []\<rparr>"

text \<open>\<open>take_it\<close>: the pop takes an event if there is one; otherwise it announces that it will sleep.\<close>

definition racer_step :: "nat \<Rightarrow> bool \<Rightarrow> lockstep \<Rightarrow> lockstep" where
  "racer_step iters take_it s =
     (case lk_racer s of
        Popping a \<Rightarrow>
          if \<not> take_it then s\<lparr>lk_parking := lk_parking s + 1, lk_racer := Popping (a + 1)\<rparr>
          else if lk_queue s = 0 then s
          else s\<lparr>lk_queue := lk_queue s - 1, lk_log := lk_log s @ [(lk_consumed s, a)], lk_racer := CountAck\<rparr>
      | CountAck \<Rightarrow> s\<lparr>lk_at_ack := lk_parking s, lk_racer := Acking\<rparr>
      | Acking \<Rightarrow> s\<lparr>lk_acked := int (lk_consumed s), lk_consumed := lk_consumed s + 1,
          lk_racer := (if lk_consumed s + 1 < iters then Popping 0 else ConsumerDone)\<rparr>
      | ConsumerDone \<Rightarrow> s)"

definition pusher_step :: "nat \<Rightarrow> lockstep \<Rightarrow> lockstep" where
  "pusher_step iters s =
     (case lk_pusher s of
        Watching \<Rightarrow> if lk_parking s = lk_seen s then s else s\<lparr>lk_pusher := Pushing\<rparr>
      | Pushing \<Rightarrow> s\<lparr>lk_queue := lk_queue s + 1, lk_pusher := Stamping_push\<rparr>
      | Stamping_push \<Rightarrow> s\<lparr>lk_pusher := AwaitAck\<rparr>
      | AwaitAck \<Rightarrow> if lk_acked s < int (lk_pushed s) then s else s\<lparr>lk_pusher := Noting\<rparr>
      | Noting \<Rightarrow> s\<lparr>lk_seen := lk_at_ack s, lk_pushed := lk_pushed s + 1,
          lk_pusher := (if lk_pushed s + 1 < iters then Watching else ProducerDone)\<rparr>
      | ProducerDone \<Rightarrow> s)"

datatype lock_act = Racer bool | Pusher

fun lock_run :: "nat \<Rightarrow> lock_act list \<Rightarrow> lockstep \<Rightarrow> lockstep" where
  "lock_run iters [] s = s"
| "lock_run iters (Racer b # as) s = lock_run iters as (racer_step iters b s)"
| "lock_run iters (Pusher # as) s = lock_run iters as (pusher_step iters s)"

text \<open>The consumer in an iteration the producer has pushed for, and in one it has not.\<close>

fun taking :: "lockstep \<Rightarrow> racer_pc \<Rightarrow> bool" where
  "taking s (Popping a) \<longleftrightarrow> lk_queue s = 1 \<and> 0 < a"
| "taking s CountAck \<longleftrightarrow> lk_queue s = 0"
| "taking s Acking \<longleftrightarrow> lk_queue s = 0 \<and> lk_at_ack s = lk_parking s"
| "taking s ConsumerDone \<longleftrightarrow> False"

fun ahead :: "nat \<Rightarrow> lockstep \<Rightarrow> racer_pc \<Rightarrow> bool" where
  "ahead iters s (Popping a) \<longleftrightarrow> lk_consumed s < iters \<and> lk_queue s = 0 \<and> lk_parking s = lk_at_ack s + a"
| "ahead iters s ConsumerDone \<longleftrightarrow> lk_consumed s = iters \<and> lk_queue s = 0"
| "ahead iters s pc \<longleftrightarrow> False"

definition between_acks :: "nat \<Rightarrow> lockstep \<Rightarrow> bool" where
  "between_acks iters s \<longleftrightarrow>
     lk_pushed s < iters \<and>
     (lk_consumed s = lk_pushed s \<and> lk_acked s = int (lk_pushed s) - 1 \<and> taking s (lk_racer s) \<or>
      lk_consumed s = lk_pushed s + 1 \<and> lk_acked s = int (lk_pushed s) \<and> ahead iters s (lk_racer s))"

definition pusher_ok :: "nat \<Rightarrow> lockstep \<Rightarrow> bool" where
  "pusher_ok iters s \<longleftrightarrow>
     (case lk_pusher s of
        Watching \<Rightarrow> lk_pushed s < iters \<and> lk_consumed s = lk_pushed s \<and> lk_acked s = int (lk_pushed s) - 1 \<and>
          lk_seen s = lk_at_ack s \<and> ahead iters s (lk_racer s)
      | Pushing \<Rightarrow> lk_pushed s < iters \<and> lk_consumed s = lk_pushed s \<and> lk_acked s = int (lk_pushed s) - 1 \<and>
          lk_at_ack s < lk_parking s \<and> ahead iters s (lk_racer s)
      | Stamping_push \<Rightarrow> between_acks iters s
      | AwaitAck \<Rightarrow> between_acks iters s
      | Noting \<Rightarrow> lk_pushed s < iters \<and> lk_consumed s = lk_pushed s + 1 \<and> lk_acked s = int (lk_pushed s) \<and>
          ahead iters s (lk_racer s)
      | ProducerDone \<Rightarrow> lk_pushed s = iters \<and> lk_consumed s = iters \<and> lk_racer s = ConsumerDone)"

definition lock_ok :: "nat \<Rightarrow> lockstep \<Rightarrow> bool" where
  "lock_ok iters s \<longleftrightarrow> pusher_ok iters s \<and>
     length (lk_log s) = lk_consumed s + (if lk_racer s \<in> {CountAck, Acking} then 1 else 0) \<and>
     map fst (lk_log s) = [0..<length (lk_log s)] \<and> list_all (\<lambda>x. 0 < snd x) (lk_log s)"

lemma new_lockstep_ok: "lock_ok iters (new_lockstep iters)"
  by (simp add: lock_ok_def pusher_ok_def new_lockstep_def)

lemma pusher_step_ok: "lock_ok iters s \<Longrightarrow> lock_ok iters (pusher_step iters s)"
  unfolding lock_ok_def pusher_ok_def pusher_step_def between_acks_def
  by (cases "lk_pusher s"; cases "lk_racer s") auto

lemma racer_step_ok: "lock_ok iters s \<Longrightarrow> lock_ok iters (racer_step iters b s)"
  unfolding lock_ok_def pusher_ok_def racer_step_def between_acks_def
  by (cases "lk_pusher s"; cases "lk_racer s") auto

lemma lock_run_ok: "lock_ok iters s \<Longrightarrow> lock_ok iters (lock_run iters as s)"
  by (induction iters as s rule: lock_run.induct) (simp_all add: racer_step_ok pusher_step_ok)

text \<open>
  C38: Every iteration is a race: in whatever order the threads run, the events are taken one per
  iteration, in order, and none is taken by a pop that had not announced itself in that very
  iteration; an announcement left over from the last one is never mistaken for it.
\<close>

theorem every_pop_announced:
  "map fst (lk_log (lock_run iters as (new_lockstep iters))) =
     [0..<length (lk_log (lock_run iters as (new_lockstep iters)))] \<and>
   list_all (\<lambda>x. 0 < snd x) (lk_log (lock_run iters as (new_lockstep iters)))"
  using lock_run_ok [OF new_lockstep_ok, of iters as] by (simp add: lock_ok_def)

text \<open>
  And it does not stall: at any time the producer can go on, or the consumer has an event to take,
  an acknowledgement to give or its first announcement still to make, or both are done.
\<close>

theorem race_never_stalls:
  assumes "s = lock_run iters as (new_lockstep iters)"
  shows "pusher_step iters s \<noteq> s \<or> lk_racer s \<in> {CountAck, Acking, Popping 0} \<or>
    0 < lk_queue s \<and> racer_step iters True s \<noteq> s \<or> lk_pusher s = ProducerDone \<and> lk_racer s = ConsumerDone"
proof -
  have ok: "pusher_ok iters s" using lock_run_ok [OF new_lockstep_ok] by (simp add: assms lock_ok_def)
  have "lk_pusher (pusher_step iters s) \<noteq> lk_pusher s \<or> lk_racer s \<in> {CountAck, Acking, Popping 0} \<or>
    0 < lk_queue s \<and> lk_racer (racer_step iters True s) \<noteq> lk_racer s \<or>
    lk_pusher s = ProducerDone \<and> lk_racer s = ConsumerDone"
    using ok unfolding pusher_ok_def pusher_step_def racer_step_def between_acks_def
    by (cases "lk_pusher s"; cases "lk_racer s") auto
  then show ?thesis by metis
qed

theorem race_never_stalls_witness:
  "pusher_step 2 (lock_run 2 [Racer False] (new_lockstep 2)) \<noteq> lock_run 2 [Racer False] (new_lockstep 2)"
  using race_never_stalls [OF refl, of 2 "[Racer False]"]
  by (simp add: new_lockstep_def racer_step_def)

end
