(* ===== verification/Tq_Instrument.thy ===== *)
theory Tq_Instrument
  imports Tq_Handshake Tq_Lockstep Tq_Designs
begin

text \<open>
  Phase 0 of the turnstile bench (bench/instrument.cpp): what it computes and checks from its
  measurements, which the theories of the handshakes and of the platform model. Which processors
  there are, whether a run is throttled and what the clock reads are arguments.
\<close>

section \<open>Throttled and not\<close>

definition throttle_spec :: run_spec where
  "throttle_spec = default_spec\<lparr>rs_producers := 8, rs_consumers := 4, rs_events := 250000\<rparr>"

text \<open>Three repetitions, throttled and not in turn: the median rates and the failures.\<close>

definition ecoqos :: "(bool \<Rightarrow> run_spec \<Rightarrow> 'w \<Rightarrow> run_result \<times> 'w) \<Rightarrow> 'w \<times> nat \<Rightarrow> (rat \<times> rat) \<times> 'w \<times> nat" where
  "ecoqos runs s =
     (let (v, s') = interleaved (once (\<lambda>throttled. runs throttled throttle_spec)) [True, False] s
      in ((median_of rr_rate (v ! 0), median_of rr_rate (v ! 1)), s'))"

section \<open>Processors\<close>

definition other_cpu :: "int \<Rightarrow> int" where "other_cpu cpus = min 2 (cpus - 1)"

definition fast_count :: "int list \<Rightarrow> bench_context \<Rightarrow> nat" where
  "fast_count eff ctx = length (filter (\<lambda>c. c = eff ! nat (fast_cpu ctx)) eff)"

definition oversubscribed :: "int \<Rightarrow> bool" where
  "oversubscribed cpus \<longleftrightarrow> int (kProducers + kConsumers) > cpus"

text \<open>The first line about the processors counts the fastest class and the rest.\<close>

theorem fast_count_of_context:
  assumes "eff \<noteq> []"
  shows "fast_count eff (make_context cpus eff) = count_list eff (Max (set eff)) \<and>
    0 < fast_count eff (make_context cpus eff) \<and> fast_count eff (make_context cpus eff) \<le> length eff"
proof -
  obtain hi where hi: "fast_cpu (make_context cpus eff) = int hi" "hi < length eff" "eff ! hi = Max (set eff)"
    using context_extremes [OF assms, of cpus] by blast
  have "length (filter (\<lambda>c. c = m) xs) = count_list xs m" for m :: int and xs
    by (induction xs) auto
  then have "fast_count eff (make_context cpus eff) = count_list eff (Max (set eff))"
    using hi by (simp add: fast_count_def)
  moreover have "Max (set eff) \<in> set eff" using hi(2,3) nth_mem by metis
  then have "count_list eff (Max (set eff)) \<noteq> 0" by (simp add: count_list_0_iff)
  ultimately show ?thesis by (simp add: count_le_length)
qed

section \<open>The skew checks\<close>

definition skew_check :: "rat \<Rightarrow> bool" where
  "skew_check skew_ns \<longleftrightarrow> -100 < skew_ns \<and> skew_ns < 100"

definition skew_checks :: "int \<Rightarrow> rat \<times> rat \<Rightarrow> rat \<times> rat \<Rightarrow> bool list" where
  "skew_checks slow pp pe = skew_check (fst pp) # (if slow \<noteq> 0 then [skew_check (fst pe)] else [])"

text \<open>
  What the check of the clocks establishes. Whatever the scheduler did to the two threads while they
  measured, if it passes then one clock is ahead of the other by less than 100 ns and the reported
  transfer; and it never fails for clocks that differ by less than 100 ns less that transfer.
\<close>

theorem skew_check_means:
  assumes "sorted (map snd xs)" "0 \<le> per_tick" "\<bar>skew\<bar> \<le> int64_max"
    and "s = bounce_run rounds skew xs (bounce_begin rounds)"
    and "pp = ping_pong per_tick (ab s) (ba s)"
  shows "(hd (skew_checks slow pp pe) \<longrightarrow> \<bar>of_int skew * per_tick\<bar> < 100 + snd pp) \<and>
    (\<bar>of_int skew * per_tick\<bar> + snd pp < 100 \<longrightarrow> hd (skew_checks slow pp pe))"
proof -
  have "\<bar>fst pp - of_int skew * per_tick\<bar> \<le> snd pp"
    using skew_bounded [OF assms(1-4)] by (simp add: assms(5))
  then show ?thesis by (auto simp: skew_checks_def skew_check_def abs_le_iff abs_less_iff)
qed

theorem skew_check_means_witness:
  "\<bar>30 * (2 / 5)\<bar> < 100 + snd (ping_pong (2 / 5) [(1130, 1000)] [(1300, 1240)])"
proof -
  let ?xs = "[(True, 1000), (True, 1000), (False, 1090), (False, 1100), (False, 1210), (False, 1210),
      (True, 1290), (True, 1300)]"
  have "skew_check (fst (ping_pong (2 / 5) [(1130, 1000)] [(1300, 1240)]))"
    by (simp add: skew_check_def ping_pong_def min_delay_def int64_max_def)
  then show ?thesis
    using skew_check_means [of ?xs "2 / 5" 30 "bounce_run 1 30 ?xs (bounce_begin 1)" 1, OF _ _ _ refl refl, of 0 undefined]
    by (simp add: int64_max_def bounce_begin_def a_access_def b_access_def skew_checks_def)
qed

section \<open>Prices\<close>

text \<open>\<open>pause_ns\<close> and \<open>ns_per_call\<close>: the time of a loop, per turn.\<close>

definition per_call :: "rat \<Rightarrow> u64 \<Rightarrow> u64 \<Rightarrow> nat \<Rightarrow> rat" where
  "per_call per_tick t0 t1 n = to_ns per_tick (t1 - t0) / of_nat n"

text \<open>The two histograms of \<open>wake_a_sleeper\<close> and the figures printed of them.\<close>

definition wake_cost :: "nap \<Rightarrow> histogram \<times> histogram" where
  "wake_cost s = (hist_of (waker_samples s), hist_of (map (\<lambda>(i, t0, w). w - t0) (sleeper_samples s)))"

definition wake_figures :: "rat \<Rightarrow> (rat \<Rightarrow> u64 \<Rightarrow> u64) \<Rightarrow> nap \<Rightarrow> rat list" where
  "wake_figures per_tick rank s =
     (let q = (\<lambda>h quant. to_ns per_tick (quantile (rank quant) h)); (waker, sleeper) = wake_cost s
      in [q waker (1 / 2), q waker (99 / 100), q sleeper (1 / 2), q sleeper (99 / 100)])"

end
