(* ===== verification/Tq_Suites.thy ===== *)
theory Tq_Suites
  imports Tq_Designs
begin

text \<open>
  The phases of the turnstile bench that check the queues as they run them: every design under load
  (bench/invariants.cpp), full queues (backpressure.cpp), closes (shutdown.cpp), and wake-ups
  (wakeup.cpp). Each is the sequence of its runs, in order, with all their checks; what a run, a
  stalled run or a race returns is an argument, and so is the world they change. The state of a phase is
  that world and the count of failed checks.
\<close>

section \<open>Runs one after the other\<close>

text \<open>A queue of a given size: shared, with its slots; behind a lock; or rings, with their counts.\<close>

datatype sized =
    SharedOf nat options
  | LockedOf nat
  | RingsOf nat nat nat

fun sized_kind :: "sized \<Rightarrow> queue_kind" where
  "sized_kind (SharedOf n opts) = shared_queue"
| "sized_kind (LockedOf n) = locked_queue"
| "sized_kind (RingsOf n p c) = sharded_queue p c"

fun sized_of :: "arm_queue \<Rightarrow> sized" where
  "sized_of (Shared opts) = SharedOf kCapacity opts"
| "sized_of Locked = LockedOf kCapacity"
| "sized_of Rings = RingsOf kCapacity kProducers kConsumers"

text \<open>\<open>checks\<close>: what is checked of the result of each run, beside or instead of \<open>check_run\<close>.\<close>

fun checked_runs ::
  "(sized \<Rightarrow> run_spec \<Rightarrow> 'w \<Rightarrow> run_result \<times> 'w) \<Rightarrow> (run_result \<Rightarrow> bool list)
     \<Rightarrow> (sized \<times> run_spec) list \<Rightarrow> 'w \<times> nat \<Rightarrow> run_result list \<times> 'w \<times> nat" where
  "checked_runs runs checks [] s = ([], s)"
| "checked_runs runs checks ((q, spec) # qs) (w, f) =
     (let (r, w1) = runs q spec w;
          (rs, s2) = checked_runs runs checks qs (w1, f + length (filter Not (checks r)))
      in (r # rs, s2))"

definition failing_of :: "('r \<Rightarrow> bool list) \<Rightarrow> 'r list \<Rightarrow> nat" where
  "failing_of checks rs = sum_list (map (\<lambda>r. length (filter Not (checks r))) rs)"

lemma checked_runs_count:
  "checked_runs runs checks qs (w, f) = (rs, w', f') \<Longrightarrow> f' = f + failing_of checks rs \<and> length rs = length qs"
proof (induction runs checks qs "(w, f)" arbitrary: w f rs rule: checked_runs.induct)
  case (1 runs checks w f)
  then show ?case by (simp add: failing_of_def)
next
  case (2 runs checks q spec qs w f)
  obtain r w1 where r: "runs q spec w = (r, w1)" by fastforce
  let ?f1 = "f + length (filter Not (checks r))"
  obtain us w2 f2 where u: "checked_runs runs checks qs (w1, ?f1) = (us, w2, f2)" by (metis prod_cases3)
  have "rs = r # us" "f' = f2" "w' = w2" using 2(2) r u by auto
  then show ?case using 2(1) [OF r [symmetric] refl] u by (simp add: failing_of_def)
qed

section \<open>Every design under load\<close>

definition invariant_queues :: "sized list" where
  "invariant_queues =
     map sized_of [Turnstile, Packed, TicketQ, Locked, Outline, Spinning, PerProducer, Turnstile, PerProducer, TicketQ] @
     [SharedOf 4 default_options, SharedOf 4 default_options, SharedOf 4 (default_options\<lparr>o_reserve := Ticket\<rparr>),
      SharedOf 4 (default_options\<lparr>o_reserve := Ticket\<rparr>), SharedOf 4 (default_options\<lparr>o_padded := False\<rparr>),
      SharedOf 4 (default_options\<lparr>o_wake := Epoch\<rparr>)] @
     replicate 3 (RingsOf 16 8 8)"

definition phase_invariants ::
  "u64 \<Rightarrow> (sized \<Rightarrow> run_spec \<Rightarrow> 'w \<Rightarrow> run_result \<times> 'w) \<Rightarrow> 'w \<times> nat \<Rightarrow> run_result list \<times> 'w \<times> nat" where
  "phase_invariants kScale runs s =
     checked_runs runs check_run (zip invariant_queues (map snd (invariant_runs kScale))) s"

text \<open>
  The queues are of the kinds the runs were found to fit, one for each run.
\<close>

theorem invariant_queues_fit:
  "map sized_kind invariant_queues = map fst (invariant_runs kScale) \<and>
   list_all (\<lambda>(q, spec). counts_fit (sized_kind q) spec) (zip invariant_queues (map snd (invariant_runs kScale)))"
proof -
  have kinds: "map sized_kind invariant_queues = map fst (invariant_runs kScale)"
    by (simp add: invariant_queues_def invariant_runs_def Let_def arm_defs numeral_3_eq_3)
  have fit: "list_all (\<lambda>(k, spec). counts_fit k spec) (invariant_runs kScale)" using ring_runs_fit by blast
  have len: "length invariant_queues = length (invariant_runs kScale)"
    using arg_cong [OF kinds, of length] by simp
  have "counts_fit (sized_kind (invariant_queues ! i)) (snd (invariant_runs kScale ! i))"
    if "i < length (invariant_runs kScale)" for i
  proof -
    have "sized_kind (invariant_queues ! i) = fst (invariant_runs kScale ! i)"
      using arg_cong [OF kinds, of "\<lambda>l. l ! i"] that len by simp
    then show ?thesis using fit that by (simp add: list_all_length case_prod_unfold)
  qed
  then show ?thesis using kinds len by (simp add: list_all_length)
qed

section \<open>Full queues\<close>

definition full_wakers :: "arm list" where
  "full_wakers =
     [arm_of ''block, wake every release'' (Shared (default_options\<lparr>o_batch_full_wakes := False\<rparr>)),
      arm_of ''block, wake every 64 releases'' Turnstile]"

definition full_row :: "rat \<Rightarrow> (rat \<Rightarrow> u64 \<Rightarrow> u64) \<Rightarrow> run_result list \<Rightarrow> rat list" where
  "full_row per_tick rank rs =
     [median_of rr_rate rs, median_of (\<lambda>r. of_nat (unat (wakes (rr_consumer_ops r)))) rs,
      median_of (\<lambda>r. of_nat (unat (parks (rr_producer_ops r)))) rs, push_p99 per_tick rank rs]"

record full_report =
  fl_none :: run_result
  fl_deficits :: "run_result list"
  fl_rows :: "rat list list"

definition phase_backpressure ::
  "rat \<Rightarrow> (rat \<Rightarrow> u64 \<Rightarrow> u64) \<Rightarrow> (sized \<Rightarrow> run_spec \<Rightarrow> 'w \<Rightarrow> run_result \<times> 'w) \<Rightarrow> 'w \<times> nat
     \<Rightarrow> full_report \<times> 'w \<times> nat" where
  "phase_backpressure per_tick rank runs s =
     (let (r0, s1) = checked_runs runs no_consumers_checks [(sized_of Turnstile, no_consumers)] s;
          (rs, s2) = checked_runs runs check_run
            [(sized_of Turnstile, deficit Reject), (sized_of Turnstile, deficit Block)] s1;
          (v, s3) = run_trial (\<lambda>a. runs (sized_of (ar_queue a))) (full_wakers, \<lambda>_. deficit Block) s2
      in (\<lparr>fl_none = hd r0, fl_deficits = rs, fl_rows = map (full_row per_tick rank) v\<rparr>, s3))"

section \<open>Closes\<close>

definition close_queues :: "sized list" where
  "close_queues = map sized_of [Turnstile, TicketQ, Locked, Outline, PerProducer]"

definition close_rounds :: "(sized \<times> push_mode) list" where
  "close_rounds =
     [(SharedOf 64 default_options, Reject), (SharedOf 64 (default_options\<lparr>o_reserve := Ticket\<rparr>), Mixed),
      (RingsOf 64 8 8, Reject), (RingsOf 64 8 8, Block)]"

text \<open>Twenty rounds on one queue, and the check of their number that were clean.\<close>

definition close_round_set ::
  "(sized \<Rightarrow> run_spec \<Rightarrow> 'w \<Rightarrow> run_result \<times> 'w) \<Rightarrow> sized \<times> push_mode \<Rightarrow> 'w \<times> nat \<Rightarrow> run_result list \<times> 'w \<times> nat" where
  "close_round_set runs qm s =
     (let (rs, w, f) = checked_runs runs check_run (map (\<lambda>n. (fst qm, round_spec (snd qm) n)) [0..<20]) s
      in (rs, w, f + (if snd (close_versus_reserve rs) then 0 else 1)))"

fun close_round_sets ::
  "(sized \<Rightarrow> run_spec \<Rightarrow> 'w \<Rightarrow> run_result \<times> 'w) \<Rightarrow> (sized \<times> push_mode) list \<Rightarrow> 'w \<times> nat
     \<Rightarrow> run_result list list \<times> 'w \<times> nat" where
  "close_round_sets runs [] s = ([], s)"
| "close_round_sets runs (q # qs) s =
     (let (rs, s1) = close_round_set runs q s; (rss, s2) = close_round_sets runs qs s1 in (rs # rss, s2))"

text \<open>The stall of the second part, and what it leaves: its run and when the stall was over.\<close>

definition close_stall :: stall_control where "close_stall = new_stall\<lparr>producer_at := 100000\<rparr>"

definition phase_shutdown ::
  "(sized \<Rightarrow> run_spec \<Rightarrow> 'w \<Rightarrow> run_result \<times> 'w)
     \<Rightarrow> (stall_control \<Rightarrow> run_spec \<Rightarrow> 'w \<Rightarrow> (run_result \<times> u64) \<times> 'w)
     \<Rightarrow> 'w \<times> nat \<Rightarrow> (run_result list \<times> (run_result \<times> u64) \<times> run_result list list) \<times> 'w \<times> nat" where
  "phase_shutdown runs stall_run s =
     (let (rs, w1, f1) = checked_runs runs close_under_load (map (\<lambda>q. (q, load_spec)) close_queues) s;
          ((r, over), w2) = stall_run close_stall stall_spec w1;
          f2 = f1 + length (filter Not (close_during_stall over r));
          (rss, s3) = close_round_sets runs close_rounds (w2, f2)
      in ((rs, (r, over), rss), s3))"

lemma clean_rounds:
  "fold (\<lambda>r (checks, clean, accepted).
       (checks @ check_run r, clean + (if rr_exactly_once r \<and> rr_refused r = 8 then 1 else 0),
        accepted + rr_accepted r)) rs (cs, n, a) =
   (cs @ concat (map check_run rs), n + length (filter (\<lambda>r. rr_exactly_once r \<and> rr_refused r = 8) rs),
    a + sum_list (map rr_accepted rs))"
  by (induction rs arbitrary: cs n a) (simp_all add: add.assoc)

lemma all_pass: "length (filter Not cs) = 0 \<longleftrightarrow> list_all id cs"
  by (induction cs) auto

lemma failing_of_none: "failing_of checks rs = 0 \<longleftrightarrow> (\<forall>r \<in> set rs. list_all id (checks r))"
  by (auto simp: failing_of_def all_pass [symmetric])

lemma all_counted: "length (filter p xs) = length xs \<longleftrightarrow> (\<forall>x \<in> set xs. p x)"
proof (induction xs)
  case (Cons x xs)
  have "length (filter p xs) \<le> length xs" by (rule length_filter_le)
  then show ?case using Cons by (auto simp del: length_filter_le)
qed simp

definition clean_round :: "run_result \<Rightarrow> bool" where
  "clean_round r \<longleftrightarrow> rr_exactly_once r \<and> rr_refused r = 8 \<and> list_all id (check_run r)"

lemma close_round_set_count:
  assumes "close_round_set runs qm (w, f) = (rs, w', f')"
  shows "length rs = 20 \<and> f \<le> f' \<and> (f' = f \<longleftrightarrow> (\<forall>r \<in> set rs. clean_round r))"
proof -
  obtain us w1 f1 where u: "checked_runs runs check_run (map (\<lambda>n. (fst qm, round_spec (snd qm) n)) [0..<20]) (w, f) =
      (us, w1, f1)" by (metis prod_cases3)
  have rs: "rs = us" "f' = f1 + (if snd (close_versus_reserve us) then 0 else 1)"
    using assms u by (auto simp: close_round_set_def)
  have len: "length us = 20" and f1: "f1 = f + failing_of check_run us" using checked_runs_count [OF u] by simp_all
  have "snd (close_versus_reserve us) \<longleftrightarrow> (\<forall>r \<in> set us. rr_exactly_once r \<and> rr_refused r = 8)"
    using all_counted [of "\<lambda>r. rr_exactly_once r \<and> rr_refused r = 8" us]
    by (simp add: close_versus_reserve_def clean_rounds len)
  then show ?thesis using rs f1 len failing_of_none [of check_run us] by (auto simp: clean_round_def)
qed

lemma close_round_sets_count:
  "close_round_sets runs qs (w, f) = (rss, w', f') \<Longrightarrow>
   map length rss = replicate (length qs) 20 \<and> f \<le> f' \<and> (f' = f \<longleftrightarrow> (\<forall>rs \<in> set rss. \<forall>r \<in> set rs. clean_round r))"
proof (induction qs arbitrary: w f rss)
  case (Cons q qs)
  obtain rs w1 f1 where r: "close_round_set runs q (w, f) = (rs, w1, f1)" by (metis prod_cases3)
  obtain us w2 f2 where u: "close_round_sets runs qs (w1, f1) = (us, w2, f2)" by (metis prod_cases3)
  have e: "rss = rs # us" "w' = w2" "f' = f2" using Cons.prems r u by auto
  then have "map length us = replicate (length qs) 20 \<and> f1 \<le> f2 \<and>
      (f2 = f1 \<longleftrightarrow> (\<forall>rs \<in> set us. \<forall>r \<in> set rs. clean_round r))" using Cons.IH u by blast
  then show ?case using close_round_set_count [OF r] e by auto
qed simp

text \<open>
  The phase passes exactly when each of its 86 runs did: every check of the five closes under load,
  of the close during a stall and of the eighty rounds, in each of which everything accepted was
  delivered and all eight producers were refused. No failure of one run is made good by another.
\<close>

theorem shutdown_passes_iff:
  assumes "phase_shutdown runs stall_run (w, f) = ((rs, (r, over), rss), w', f')"
  shows "length rs = 5 \<and> map length rss = [20, 20, 20, 20] \<and>
    (f' = f \<longleftrightarrow> list_all (\<lambda>r. list_all id (close_under_load r)) rs \<and> list_all id (close_during_stall over r) \<and>
      list_all (list_all clean_round) rss)"
proof -
  obtain us w1 f1 where u: "checked_runs runs close_under_load (map (\<lambda>q. (q, load_spec)) close_queues) (w, f) = (us, w1, f1)"
    by (metis prod_cases3)
  obtain x e w2 where x: "stall_run close_stall stall_spec w1 = ((x, e), w2)" by (metis surj_pair)
  let ?f2 = "f1 + length (filter Not (close_during_stall e x))"
  obtain vs w3 f3 where v: "close_round_sets runs close_rounds (w2, ?f2) = (vs, w3, f3)" by (metis prod_cases3)
  have eq: "rs = us" "r = x" "over = e" "rss = vs" "f' = f3" using assms u x v by (auto simp: phase_shutdown_def)
  have us: "f1 = f + failing_of close_under_load us" "length us = 5"
    using checked_runs_count [OF u] by (simp_all add: close_queues_def)
  have vs: "map length vs = replicate (length close_rounds) 20" "?f2 \<le> f3"
    "f3 = ?f2 \<longleftrightarrow> (\<forall>rs \<in> set vs. \<forall>r \<in> set rs. clean_round r)"
    using close_round_sets_count [OF v] by blast+
  have "f3 = f \<longleftrightarrow> failing_of close_under_load us = 0 \<and> length (filter Not (close_during_stall e x)) = 0 \<and> f3 = ?f2"
    using us(1) vs(2) by linarith
  moreover have "replicate (length close_rounds) (20 :: nat) = [20, 20, 20, 20]" by (simp add: close_rounds_def)
  ultimately show ?thesis
    using us(2) vs(1,3) unfolding eq all_pass failing_of_none by (simp add: list_all_iff)
qed

section \<open>Wake-ups\<close>

definition push_wakers :: "arm list" where
  "push_wakers =
     [arm_of ''sleeping consumers, a wake per push'' (Shared (default_options\<lparr>o_coalesce_wakes := False\<rparr>)),
      arm_of ''sleeping consumers, one wake in flight'' Turnstile]"

definition wakeup_row :: "rat \<Rightarrow> (rat \<Rightarrow> u64 \<Rightarrow> u64) \<Rightarrow> run_result list \<Rightarrow> rat list" where
  "wakeup_row per_tick rank rs =
     [wakes_per_push rs, median_of (\<lambda>r. ratio (parks (rr_consumer_ops r)) (rr_consumed r)) rs] @
     map (\<lambda>q. median_of (quantile_ns per_tick rank rr_push q) rs) [1 / 2, 99 / 100, 999 / 1000] @
     [median_of (quantile_ns per_tick rank rr_e2e (99 / 100)) rs]"

definition wakeup_trials :: "trial list" where
  "wakeup_trials = map (\<lambda>rate. (push_wakers, \<lambda>_. sleepers_spec rate)) [20000, 200000, 10 ^ 6]"

text \<open>The races of one pause: with both fences, without the producer's, and with the epoch.\<close>

fun race_rows :: "(options \<Rightarrow> u64 \<Rightarrow> 'w \<Rightarrow> race \<times> 'w) \<Rightarrow> u64 list \<Rightarrow> 'w \<Rightarrow> (race \<times> race \<times> race) list \<times> 'w" where
  "race_rows races [] w = ([], w)"
| "race_rows races (sp # sps) w =
     (let (fenced, w1) = races default_options sp w;
          (unfenced, w2) = races (default_options\<lparr>o_bug := NoFence\<rparr>) sp w1;
          (epoch, w3) = races (default_options\<lparr>o_wake := Epoch\<rparr>) sp w2;
          (rest, w4) = race_rows races sps w3
      in ((fenced, unfenced, epoch) # rest, w4))"

definition spreads :: "u64 list" where "spreads = [64, 256, 1024, 4096]"

definition phase_wakeup ::
  "rat \<Rightarrow> (rat \<Rightarrow> u64 \<Rightarrow> u64) \<Rightarrow> (arm \<Rightarrow> run_spec \<Rightarrow> 'w \<Rightarrow> run_result \<times> 'w)
     \<Rightarrow> (options \<Rightarrow> u64 \<Rightarrow> 'w \<Rightarrow> race \<times> 'w) \<Rightarrow> 'w \<times> nat
     \<Rightarrow> (rat list list list \<times> (race \<times> race \<times> race) list) \<times> 'w \<times> nat" where
  "phase_wakeup per_tick rank runs races s =
     (let (vs, w1, f1) = run_trials runs wakeup_trials s;
          (rows, w2) = race_rows races spreads w1;
          cs = wakeup_checks (map fst rows) (map (\<lambda>x. snd (snd x)) rows)
      in ((map (map (wakeup_row per_tick rank)) vs, rows), w2, f1 + length (filter Not cs)))"

text \<open>
  The phase passes exactly when the runs did and no race lost a wake-up, with the fences or with the
  epoch; what the race without the fence lost is printed and held against nobody.
\<close>

theorem wakeup_passes_iff:
  assumes "run_trials runs wakeup_trials (w, f) = (vs, w1, f1)" "race_rows races spreads w1 = (rows, w2)"
  shows "snd (snd (phase_wakeup per_tick rank runs races (w, f))) = f \<longleftrightarrow>
    list_all (\<lambda>v. all_failing v = 0) vs \<and> list_all (\<lambda>(x, _, e). ra_lost x = 0 \<and> ra_lost e = 0) rows"
proof -
  have f1: "f1 = f + sum_list (map all_failing vs)" using trials_count [OF assms(1)] by blast
  have cs: "length (filter Not (wakeup_checks (map fst rows) (map (\<lambda>x. snd (snd x)) rows))) = 0 \<longleftrightarrow>
      list_all (\<lambda>(x, _, e). ra_lost x = 0 \<and> ra_lost e = 0) rows"
    unfolding all_pass by (auto simp: wakeup_checks_def list_all_iff)
  have "snd (snd (phase_wakeup per_tick rank runs races (w, f))) =
      f1 + length (filter Not (wakeup_checks (map fst rows) (map (\<lambda>x. snd (snd x)) rows)))"
    by (simp add: phase_wakeup_def assms Let_def)
  then have "snd (snd (phase_wakeup per_tick rank runs races (w, f))) = f \<longleftrightarrow> sum_list (map all_failing vs) = 0 \<and>
      length (filter Not (wakeup_checks (map fst rows) (map (\<lambda>x. snd (snd x)) rows))) = 0"
    using f1 by linarith
  then show ?thesis unfolding cs by (simp add: list_all_iff)
qed

end
