(* ===== verification/Sw_Packet.thy ===== *)
theory Sw_Packet
  imports Prelude
begin

text \<open>
  plugin-dispatch-kata: the packet, the result and the checksum over a stream of results
  (cpp/src/packet.hpp), the handler interface (cpp/src/handler.hpp) and the contract every
  dispatch arm is held to: on every packet it answers what the brief's loop answers, the first
  handler in registration order whose predicate accepts the packet. The checksum comparison of
  the benchmark (cpp/bench/invariants.cpp and harness.hpp) is the client of that contract.

  A handler is an object with virtual methods; \<open>process\<close> may change state outside the dispatch
  arm (a plugin counts its calls), so it takes and returns a world of type \<open>'w\<close>. \<open>matches\<close> and
  \<open>declare\<close> are const methods.
\<close>

section \<open>Packets and results\<close>

record packet =
  protocol :: u16
  pkt_length :: u16
  flags :: u32
  payload :: "u8 list"

definition packet_ok :: "packet \<Rightarrow> bool" where
  "packet_ok p \<longleftrightarrow> length (payload p) = 24"

record result =
  res_value :: u64
  res_handler :: u16

definition kNone :: u16 where "kNone = 0xFFFF"

definition unsupported :: result where
  "unsupported = \<lparr>res_value = 0, res_handler = kNone\<rparr>"

definition fnv_prime :: u64 where "fnv_prime = 0x100000001b3"
definition fnv_basis :: u64 where "fnv_basis = 0xcbf29ce484222325"

text \<open>\<open>Checksum::feed\<close>; a fresh \<open>Checksum\<close> holds the basis.\<close>

definition feed :: "result \<Rightarrow> u64 \<Rightarrow> u64" where
  "feed r h =
     (let h1 = (h XOR res_value r) * fnv_prime
      in (h1 XOR ucast (res_handler r)) * fnv_prime)"

section \<open>Handlers\<close>

record registration =
  reg_key :: u16
  residual :: bool

record 'w handler =
  matches :: "packet \<Rightarrow> bool"
  process :: "packet \<Rightarrow> 'w \<Rightarrow> result \<times> 'w"
  declares :: registration

text \<open>
  What a declaration promises about the predicate (the comment on \<open>Registration\<close>): a handler
  accepts only its own key, and unless it is residual it accepts all of its key.
\<close>

definition honest :: "'w handler \<Rightarrow> bool" where
  "honest h \<longleftrightarrow> (\<forall>p. (matches h p \<longrightarrow> protocol p = reg_key (declares h)) \<and>
     (\<not> residual (declares h) \<longrightarrow> protocol p = reg_key (declares h) \<longrightarrow> matches h p))"

lemma honestD:
  "honest h \<Longrightarrow> matches h p \<Longrightarrow> protocol p = reg_key (declares h)"
  "honest h \<Longrightarrow> \<not> residual (declares h) \<Longrightarrow> protocol p = reg_key (declares h) \<Longrightarrow> matches h p"
  unfolding honest_def by blast+

text \<open>No two handlers of a list answer the same packet differently.\<close>

definition exclusive :: "'w handler list \<Rightarrow> bool" where
  "exclusive hs \<longleftrightarrow> (\<forall>h \<in> set hs. \<forall>h' \<in> set hs. \<forall>p.
     matches h p \<longrightarrow> matches h' p \<longrightarrow> process h p = process h' p)"

section \<open>The contract of a dispatch arm\<close>

definition first_match :: "'w handler list \<Rightarrow> packet \<Rightarrow> 'w \<Rightarrow> result \<times> 'w" where
  "first_match hs p w =
     (case find (\<lambda>h. matches h p) hs of None \<Rightarrow> (unsupported, w) | Some h \<Rightarrow> process h p w)"

lemma first_match_Nil [simp]: "first_match [] p w = (unsupported, w)"
  by (simp add: first_match_def)

lemma first_match_Cons [simp]:
  "first_match (h # hs) p w = (if matches h p then process h p w else first_match hs p w)"
  by (simp add: first_match_def)

lemma first_match_none: "\<forall>h \<in> set hs. \<not> matches h p \<Longrightarrow> first_match hs p w = (unsupported, w)"
  by (induction hs) auto

lemma first_match_filter: "first_match (filter (\<lambda>h. Q h) hs) p w = first_match hs p w"
  if "\<forall>h \<in> set hs. matches h p \<longrightarrow> Q h"
  using that by (induction hs) auto

text \<open>With exclusive handlers only which handlers are there matters, not their order.\<close>

lemma exclusiveD:
  "exclusive hs \<Longrightarrow> h \<in> set hs \<Longrightarrow> h' \<in> set hs \<Longrightarrow> matches h p \<Longrightarrow> matches h' p \<Longrightarrow>
   process h p = process h' p"
  unfolding exclusive_def by blast

lemma first_match_exclusive:
  assumes "exclusive hs" "h \<in> set hs" "matches h p"
  shows "set gs \<subseteq> set hs \<Longrightarrow> h \<in> set gs \<Longrightarrow> first_match gs p w = process h p w"
proof (induction gs)
  case (Cons g gs)
  show ?case
  proof (cases "matches g p")
    case True
    then have "process g p = process h p"
      using Cons.prems by (intro exclusiveD [OF assms(1) _ assms(2) _ assms(3)]) auto
    then show ?thesis using True by simp
  next
    case False
    then have "h \<in> set gs" using Cons.prems assms(3) by auto
    then show ?thesis using False Cons by simp
  qed
qed simp

lemma first_match_set_eq:
  assumes "exclusive hs" "set gs = set hs"
  shows "first_match gs p w = first_match hs p w"
proof (cases "\<exists>h \<in> set hs. matches h p")
  case True
  then obtain h where h: "h \<in> set hs" "matches h p" by blast
  have "first_match gs p w = process h p w" "first_match hs p w = process h p w"
    by (rule first_match_exclusive [OF assms(1) h]; simp add: assms h)+
  then show ?thesis by simp
next
  case False
  then show ?thesis using assms(2) by (simp add: first_match_none)
qed

text \<open>
  The benchmark's loop over a stream: \<open>dispatch\<close> each packet, feed the result. An arm is a
  state \<open>'a\<close> (a list that reorders itself, a table, a probe counter).
\<close>

fun checksum_loop :: "(packet \<Rightarrow> 'a \<Rightarrow> 'w \<Rightarrow> result \<times> 'a \<times> 'w) \<Rightarrow> packet list
    \<Rightarrow> u64 \<Rightarrow> 'a \<Rightarrow> 'w \<Rightarrow> u64 \<times> 'a \<times> 'w" where
  "checksum_loop dispatch [] h a w = (h, a, w)"
| "checksum_loop dispatch (p # ps) h a w =
     (let (r, a1, w1) = dispatch p a w in checksum_loop dispatch ps (feed r h) a1 w1)"

definition checksum_of :: "(packet \<Rightarrow> 'a \<Rightarrow> 'w \<Rightarrow> result \<times> 'a \<times> 'w) \<Rightarrow> 'a
    \<Rightarrow> packet list \<Rightarrow> 'w \<Rightarrow> u64" where
  "checksum_of dispatch a ps w = fst (checksum_loop dispatch ps fnv_basis a w)"

text \<open>\<open>run_arm\<close> replays the pool until \<open>kDispatchesPerRun\<close> dispatches have happened.\<close>

definition kDispatchesPerRun :: nat where "kDispatchesPerRun = 2 ^ 18"

definition passes :: "nat \<Rightarrow> nat" where
  "passes n = (kDispatchesPerRun + n - 1) div n"

fun pass_loop :: "(packet \<Rightarrow> 'a \<Rightarrow> 'w \<Rightarrow> result \<times> 'a \<times> 'w) \<Rightarrow> packet list
    \<Rightarrow> nat \<Rightarrow> u64 \<Rightarrow> 'a \<Rightarrow> 'w \<Rightarrow> u64 \<times> 'a \<times> 'w" where
  "pass_loop dispatch ps 0 h a w = (h, a, w)"
| "pass_loop dispatch ps (Suc k) h a w =
     (let (h1, a1, w1) = checksum_loop dispatch ps h a w in pass_loop dispatch ps k h1 a1 w1)"

definition run_arm :: "(packet \<Rightarrow> 'a \<Rightarrow> 'w \<Rightarrow> result \<times> 'a \<times> 'w) \<Rightarrow> 'a
    \<Rightarrow> packet list \<Rightarrow> 'w \<Rightarrow> u64" where
  "run_arm dispatch a ps w = fst (pass_loop dispatch ps (passes (length ps)) fnv_basis a w)"

text \<open>
  The whole answer of an arm to a stream: every result, and the world the handlers leave. The
  checksum is a function of the results.
\<close>

fun results_loop :: "(packet \<Rightarrow> 'a \<Rightarrow> 'w \<Rightarrow> result \<times> 'a \<times> 'w) \<Rightarrow> packet list
    \<Rightarrow> 'a \<Rightarrow> 'w \<Rightarrow> result list \<times> 'w" where
  "results_loop dispatch [] a w = ([], w)"
| "results_loop dispatch (p # ps) a w =
     (let (r, a1, w1) = dispatch p a w; (rs, w2) = results_loop dispatch ps a1 w1
      in (r # rs, w2))"

lemma checksum_loop_results:
  "fst (checksum_loop dispatch ps h a w) = foldl (\<lambda>h r. feed r h) h (fst (results_loop dispatch ps a w))"
  by (induction ps arbitrary: h a w) (simp_all split: prod.split)

text \<open>The reference arm has no state of its own.\<close>

definition ref_dispatch :: "'w handler list \<Rightarrow> packet \<Rightarrow> unit \<Rightarrow> 'w \<Rightarrow> result \<times> unit \<times> 'w" where
  "ref_dispatch hs p u w = (let (r, w1) = first_match hs p w in (r, (), w1))"

text \<open>
  \<open>represents hs a\<close>: the arm was built for the handlers \<open>hs\<close>, registered in this order, and has
  dispatched any number of packets since.
\<close>

locale dispatch_arm =
  fixes represents :: "'w handler list \<Rightarrow> 'a \<Rightarrow> bool"
    and dispatch :: "packet \<Rightarrow> 'a \<Rightarrow> 'w \<Rightarrow> result \<times> 'a \<times> 'w"
  assumes dispatch_keeps: "represents hs a \<Longrightarrow> represents hs (fst (snd (dispatch p a w)))"
    and dispatch_result: "represents hs a \<Longrightarrow>
      (fst (dispatch p a w), snd (snd (dispatch p a w))) = first_match hs p w"
begin

lemma dispatch_eq:
  assumes "represents hs a"
  obtains r a' w' where "dispatch p a w = (r, a', w')" "represents hs a'"
    "first_match hs p w = (r, w')"
  using dispatch_keeps [OF assms, of p w] dispatch_result [OF assms, of p w]
  by (cases "dispatch p a w") auto

lemma checksum_loop_agrees:
  "represents hs a \<Longrightarrow>
   \<exists>a'. checksum_loop dispatch ps h a w =
      (fst (checksum_loop (ref_dispatch hs) ps h () w), a',
       snd (snd (checksum_loop (ref_dispatch hs) ps h () w))) \<and> represents hs a'"
proof (induction ps arbitrary: h a w)
  case (Cons p ps)
  obtain r a1 w1 where d: "dispatch p a w = (r, a1, w1)" "represents hs a1"
    "first_match hs p w = (r, w1)"
    using dispatch_eq [OF Cons.prems] by blast
  then show ?case using Cons.IH [OF d(2), of "feed r h" w1] by (simp add: ref_dispatch_def)
qed simp

lemma checksum_agrees:
  "represents hs a \<Longrightarrow> checksum_of dispatch a ps w = checksum_of (ref_dispatch hs) () ps w"
  using checksum_loop_agrees [of hs a ps fnv_basis w] by (auto simp: checksum_of_def)

lemma results_agree:
  "represents hs a \<Longrightarrow> results_loop dispatch ps a w = results_loop (ref_dispatch hs) ps () w"
proof (induction ps arbitrary: a w)
  case (Cons p ps)
  obtain r a1 w1 where d: "dispatch p a w = (r, a1, w1)" "represents hs a1"
    "first_match hs p w = (r, w1)"
    using dispatch_eq [OF Cons.prems] by blast
  then show ?case using Cons.IH [OF d(2), of w1] by (simp add: ref_dispatch_def)
qed simp

lemma pass_loop_agrees:
  "represents hs a \<Longrightarrow>
   fst (pass_loop dispatch ps k h a w) = fst (pass_loop (ref_dispatch hs) ps k h () w)"
proof (induction k arbitrary: h a w)
  case (Suc k)
  obtain h1 w1 where ref: "checksum_loop (ref_dispatch hs) ps h () w = (h1, (), w1)"
    by (cases "checksum_loop (ref_dispatch hs) ps h () w") auto
  then obtain a' where "checksum_loop dispatch ps h a w = (h1, a', w1)" "represents hs a'"
    using checksum_loop_agrees [OF Suc.prems, of ps h w] by auto
  then show ?case using ref Suc.IH by simp
qed simp

lemma run_arm_agrees:
  "represents hs a \<Longrightarrow> run_arm dispatch a ps w = run_arm (ref_dispatch hs) () ps w"
  by (simp add: run_arm_def pass_loop_agrees)

end

end
