(* ===== verification/Sw_Scan.thy ===== *)
theory Sw_Scan
  imports Sw_Packet
begin

text \<open>
  The scan arms of plugin-dispatch-kata/cpp/src/strategy.hpp: the brief's loop, the same loop
  over a list sorted by traffic frequency, and the loop that promotes a handler one place each
  time it is hit.
\<close>

record 'w scan =
  handlers :: "'w handler list"
  probes :: u64

definition scan_unordered :: "'w handler list \<Rightarrow> 'w scan" where
  "scan_unordered hs = \<lparr>handlers = hs, probes = 0\<rparr>"

definition reset_probes :: "'w scan \<Rightarrow> 'w scan" where
  "reset_probes a = a\<lparr>probes := 0\<rparr>"

section \<open>ScanUnordered\<close>

text \<open>\<open>run<Count>\<close>: the range-for over the handlers, counting probes if asked to.\<close>

fun scan_loop :: "bool \<Rightarrow> packet \<Rightarrow> 'w handler list \<Rightarrow> u64 \<Rightarrow> 'w \<Rightarrow> result \<times> u64 \<times> 'w" where
  "scan_loop counted p [] n w = (unsupported, n, w)"
| "scan_loop counted p (h # hs) n w =
     (let n1 = (if counted then n + 1 else n) in
      if matches h p then (let (r, w1) = process h p w in (r, n1, w1))
      else scan_loop counted p hs n1 w)"

definition scan_run :: "bool \<Rightarrow> packet \<Rightarrow> 'w scan \<Rightarrow> 'w \<Rightarrow> result \<times> 'w scan \<times> 'w" where
  "scan_run counted p a w =
     (let (r, n, w1) = scan_loop counted p (handlers a) (probes a) w in (r, a\<lparr>probes := n\<rparr>, w1))"

lemma scan_loop_result:
  "(fst (scan_loop c p hs n w), snd (snd (scan_loop c p hs n w))) = first_match hs p w"
  by (induction hs arbitrary: n) (simp_all add: Let_def split: prod.split)

lemma scan_run_handlers [simp]: "handlers (fst (snd (scan_run c p a w))) = handlers a"
  by (simp add: scan_run_def split: prod.split)

lemma scan_run_result:
  "(fst (scan_run c p a w), snd (snd (scan_run c p a w))) = first_match (handlers a) p w"
  using scan_loop_result [of c p "handlers a" "probes a" w]
  by (cases "scan_loop c p (handlers a) (probes a) w") (simp add: scan_run_def)

text \<open>Probes: one per handler looked at.\<close>

fun scan_depth :: "packet \<Rightarrow> 'w handler list \<Rightarrow> nat" where
  "scan_depth p [] = 0"
| "scan_depth p (h # hs) = (if matches h p then 1 else Suc (scan_depth p hs))"

lemma scan_depth_le: "scan_depth p hs \<le> length hs"
  by (induction hs) auto

lemma scan_loop_probes:
  "fst (snd (scan_loop c p hs n w)) = (if c then n + of_nat (scan_depth p hs) else n)"
  by (induction hs arbitrary: n) (auto simp: Let_def split: prod.split)

section \<open>ScanOrdered\<close>

text \<open>
  The constructor: \<open>std::stable_sort\<close> of the indices by decreasing frequency. \<open>sort_key\<close> is the
  stable sort of the library, and a decreasing key the comparison \<open>freq[a] > freq[b]\<close>.
\<close>

definition scan_ordered :: "'w handler list \<Rightarrow> u64 list \<Rightarrow> 'w scan" where
  "scan_ordered hs freq =
     (let idx = sort_key (\<lambda>i. - int (unat (freq ! i))) [0..<length hs]
      in \<lparr>handlers = map (\<lambda>i. hs ! i) idx, probes = 0\<rparr>)"

lemma scan_ordered_mset: "mset (handlers (scan_ordered hs freq)) = mset hs"
proof -
  have "mset (map (\<lambda>i. hs ! i) (sort_key k [0..<length hs])) = mset (map ((!) hs) [0..<length hs])"
    for k :: "nat \<Rightarrow> int" by (simp add: mset_map)
  then show ?thesis by (simp add: scan_ordered_def map_nth)
qed

section \<open>ScanMoveToFront\<close>

definition swap_at :: "nat \<Rightarrow> nat \<Rightarrow> 'b list \<Rightarrow> 'b list" where
  "swap_at i j xs = xs[i := xs ! j, j := xs ! i]"

lemma mset_swap_at: "i < length xs \<Longrightarrow> j < length xs \<Longrightarrow> mset (swap_at i j xs) = mset xs"
  by (simp add: swap_at_def mset_swap)

function mtf_loop :: "bool \<Rightarrow> packet \<Rightarrow> nat \<Rightarrow> 'w scan \<Rightarrow> 'w \<Rightarrow> result \<times> 'w scan \<times> 'w" where
  "mtf_loop counted p i a w =
     (if i < length (handlers a) then
        let a1 = (if counted then a\<lparr>probes := probes a + 1\<rparr> else a);
            h = handlers a1 ! i in
        if matches h p then
          let (r, w1) = process h p w;
              a2 = (if i > 0 then a1\<lparr>handlers := swap_at i (i - 1) (handlers a1)\<rparr> else a1)
          in (r, a2, w1)
        else mtf_loop counted p (Suc i) a1 w
      else (unsupported, a, w))"
  by pat_completeness auto
termination
  by (relation "measure (\<lambda>(counted, p, i, a, w). length (handlers a) - i)") auto

declare mtf_loop.simps [simp del]

definition mtf_run :: "bool \<Rightarrow> packet \<Rightarrow> 'w scan \<Rightarrow> 'w \<Rightarrow> result \<times> 'w scan \<times> 'w" where
  "mtf_run counted p a w = mtf_loop counted p 0 a w"

lemma mtf_loop_result:
  "(fst (mtf_loop c p i a w), snd (snd (mtf_loop c p i a w))) =
   first_match (drop i (handlers a)) p w"
proof (induction c p i a w rule: mtf_loop.induct)
  case (1 c p i a w)
  show ?case
  proof (cases "i < length (handlers a)")
    case True
    then have "drop i (handlers a) = handlers a ! i # drop (Suc i) (handlers a)"
      by (rule Cons_nth_drop_Suc [symmetric])
    then show ?thesis
      using True 1 [OF True refl refl]
      by (auto simp: mtf_loop.simps [of c p i a w] Let_def split: prod.splits if_splits)
  next
    case False
    then show ?thesis by (simp add: mtf_loop.simps [of c p i a w])
  qed
qed

lemma mtf_loop_mset: "mset (handlers (fst (snd (mtf_loop c p i a w)))) = mset (handlers a)"
proof (induction c p i a w rule: mtf_loop.induct)
  case (1 c p i a w)
  show ?case
  proof (cases "i < length (handlers a)")
    case True
    then show ?thesis
      using 1 [OF True refl refl]
      by (auto simp: mtf_loop.simps [of c p i a w] Let_def mset_swap_at split: prod.splits if_splits)
  next
    case False
    then show ?thesis by (simp add: mtf_loop.simps [of c p i a w])
  qed
qed

section \<open>The scan arms keep the contract\<close>

interpretation scan: dispatch_arm "\<lambda>hs a. handlers a = hs" "scan_run c" for c
  by unfold_locales (simp_all add: scan_run_result)

text \<open>
  The two reordering arms stand for a list up to its order, so they keep the contract exactly
  where the order carries no meaning.
\<close>

interpretation ordered: dispatch_arm
  "\<lambda>hs a. exclusive hs \<and> mset (handlers a) = mset hs" "scan_run c" for c
  by unfold_locales
    (auto simp: scan_run_result intro!: first_match_set_eq dest: mset_eq_setD)

interpretation mtf: dispatch_arm
  "\<lambda>hs a. exclusive hs \<and> mset (handlers a) = mset hs" "mtf_run c" for c
  by unfold_locales
    (auto simp: mtf_run_def mtf_loop_mset mtf_loop_result intro!: first_match_set_eq
      dest: mset_eq_setD)

end
