(* ===== verification/Sw_Table.thy ===== *)
theory Sw_Table
  imports Sw_Scan
begin

text \<open>
  The table arms of plugin-dispatch-kata/cpp/src/strategy.hpp: the directly indexed table over
  the 16-bit protocol field and the compact table over its low ten bits. Both are built from
  what the handlers declare; a key with a single pure handler calls it without a test, any other
  key keeps its candidates in registration order in one shared vector.

  An array indexed by a 16-bit word is a total function from it: no index is out of range.
\<close>

section \<open>Slots and the builder\<close>

record 'w slot =
  only :: "'w handler option"
  slot_begin :: u32
  slot_count :: u16

definition empty_slot :: "'w slot" where
  "empty_slot = \<lparr>only = None, slot_begin = 0, slot_count = 0\<rparr>"

record 'w entry =
  e_key :: u16
  e_residual :: bool
  e_handler :: "'w handler"

definition entries :: "'w handler list \<Rightarrow> 'w entry list" where
  "entries hs = map (\<lambda>h. \<lparr>e_key = reg_key (declares h), e_residual = residual (declares h),
     e_handler = h\<rparr>) hs"

fun add_keys :: "u16 list \<Rightarrow> 'w entry list \<Rightarrow> u16 list" where
  "add_keys ks [] = ks"
| "add_keys ks (e # es) =
     add_keys (if e_key e \<notin> set ks then ks @ [e_key e] else ks) es"

definition distinct_keys :: "'w entry list \<Rightarrow> u16 list" where
  "distinct_keys es = add_keys [] es"

lemma add_keys_distinct: "distinct ks \<Longrightarrow> distinct (add_keys ks es)"
  by (induction es arbitrary: ks) auto

lemma add_keys_set: "set (add_keys ks es) = set ks \<union> e_key ` set es"
  by (induction es arbitrary: ks) auto

lemma distinct_keys_distinct: "distinct (distinct_keys es)"
  and distinct_keys_set: "set (distinct_keys es) = e_key ` set es"
  by (simp_all add: distinct_keys_def add_keys_distinct add_keys_set)

text \<open>
  One key of the construction loop, common to both tables: gather its candidates, then either
  remember the only pure one or append them to the shared vector.
\<close>

definition with_key :: "u16 \<Rightarrow> 'w entry list \<Rightarrow> 'w entry list" where
  "with_key k es = filter (\<lambda>e. e_key e = k) es"

definition fill_slot :: "'w entry list \<Rightarrow> u16 \<Rightarrow> 'w slot \<Rightarrow> 'w handler list
    \<Rightarrow> 'w slot \<times> 'w handler list" where
  "fill_slot es k s cand =
     (let cands = map e_handler (with_key k es);
          all_pure = list_all (\<lambda>e. \<not> e_residual e) (with_key k es)
      in if length cands = 1 \<and> all_pure then (s\<lparr>only := Some (cands ! 0)\<rparr>, cand)
         else (s\<lparr>slot_begin := of_nat (length cand), slot_count := of_nat (length cands)\<rparr>,
               cand @ cands))"

text \<open>The candidates of a key, as the handlers were registered.\<close>

definition cands_of :: "'w handler list \<Rightarrow> u16 \<Rightarrow> 'w handler list" where
  "cands_of hs k = filter (\<lambda>h. reg_key (declares h) = k) hs"

lemma with_key_entries: "map e_handler (with_key k (entries hs)) = cands_of hs k"
  by (induction hs) (auto simp: with_key_def entries_def cands_of_def)

lemma all_pure_entries:
  "list_all (\<lambda>e. \<not> e_residual e) (with_key k (entries hs)) \<longleftrightarrow>
   (\<forall>h \<in> set (cands_of hs k). \<not> residual (declares h))"
  by (auto simp: list_all_iff with_key_def entries_def cands_of_def)

lemma entries_keys: "e_key ` set (entries hs) = (\<lambda>h. reg_key (declares h)) ` set hs"
  by (force simp: entries_def)

lemma first_match_cands:
  "\<forall>h \<in> set hs. honest h \<Longrightarrow> first_match (cands_of hs (protocol p)) p w = first_match hs p w"
  unfolding cands_of_def by (rule first_match_filter) (auto simp: honest_def)

section \<open>What a filled slot answers\<close>

text \<open>
  \<open>slot_for hs cand k s\<close>: the slot holds the candidates of \<open>k\<close>, directly or as a range of the
  shared vector.
\<close>

definition slot_for :: "'w handler list \<Rightarrow> 'w handler list \<Rightarrow> u16 \<Rightarrow> 'w slot \<Rightarrow> bool" where
  "slot_for hs cand k s \<longleftrightarrow>
     (case only s of
        Some h \<Rightarrow> cands_of hs k = [h] \<and> \<not> residual (declares h)
      | None \<Rightarrow> unat (slot_begin s) + unat (slot_count s) \<le> length cand \<and>
          cands_of hs k = take (unat (slot_count s)) (drop (unat (slot_begin s)) cand))"

lemma slot_for_append: "slot_for hs cand k s \<Longrightarrow> slot_for hs (cand @ xs) k s"
  by (auto simp: slot_for_def split: option.splits)

lemma slot_for_empty: "cands_of hs k = [] \<Longrightarrow> slot_for hs cand k empty_slot"
  by (simp add: slot_for_def empty_slot_def)

lemma fill_slot_for:
  assumes "fill_slot (entries hs) k s cand = (s', cand')" "only s = None"
    and "length cand < 2 ^ 32" "length hs < 2 ^ 16"
  shows "slot_for hs cand' k s'" and "\<exists>xs. cand' = cand @ xs \<and> length xs \<le> length (cands_of hs k)"
proof -
  let ?c = "cands_of hs k"
  have len: "length ?c < 2 ^ 16"
    using assms(4) length_filter_le [of _ hs] unfolding cands_of_def by (rule le_less_trans [rotated])
  have "slot_for hs cand' k s' \<and> (\<exists>xs. cand' = cand @ xs \<and> length xs \<le> length ?c)"
  proof (cases "length ?c = 1 \<and> (\<forall>h \<in> set ?c. \<not> residual (declares h))")
    case True
    then obtain h where "?c = [h]" by (auto simp: length_Suc_conv)
    then show ?thesis using True assms(1)
      by (auto simp: fill_slot_def with_key_entries all_pure_entries slot_for_def)
  next
    case False
    then have "s' = s\<lparr>slot_begin := of_nat (length cand), slot_count := of_nat (length ?c)\<rparr>"
      "cand' = cand @ ?c"
      using assms(1)
      unfolding fill_slot_def Let_def with_key_entries all_pure_entries if_not_P [OF False]
      by simp_all
    moreover have "unat (of_nat (length cand) :: u32) = length cand"
      "unat (of_nat (length ?c) :: u16) = length ?c"
      using assms(3) len by (simp_all add: unat_of_nat)
    ultimately show ?thesis using assms(2) by (simp add: slot_for_def)
  qed
  then show "slot_for hs cand' k s'" "\<exists>xs. cand' = cand @ xs \<and> length xs \<le> length ?c" by blast+
qed

text \<open>The candidate loop of \<open>run<Count>\<close>, over the indices \<open>0 .. count - 1\<close>.\<close>

fun cand_loop :: "bool \<Rightarrow> packet \<Rightarrow> 'w handler list \<Rightarrow> u32 \<Rightarrow> nat list \<Rightarrow> u64 \<Rightarrow> 'w
    \<Rightarrow> result \<times> u64 \<times> 'w" where
  "cand_loop counted p cand b [] n w = (unsupported, n, w)"
| "cand_loop counted p cand b (i # is) n w =
     (let n1 = (if counted then n + 1 else n); h = cand ! unat (b + of_nat i) in
      if matches h p then (let (r, w1) = process h p w in (r, n1, w1))
      else cand_loop counted p cand b is n1 w)"

definition slot_run :: "bool \<Rightarrow> packet \<Rightarrow> 'w handler list \<Rightarrow> 'w slot \<Rightarrow> u64 \<Rightarrow> 'w
    \<Rightarrow> result \<times> u64 \<times> 'w" where
  "slot_run counted p cand s n w =
     (case only s of
        Some h \<Rightarrow> (let (r, w1) = process h p w in (r, n, w1))
      | None \<Rightarrow> cand_loop counted p cand (slot_begin s) [0..<unat (slot_count s)] n w)"

lemma cand_loop_scan:
  "cand_loop c p cand b is n w = scan_loop c p (map (\<lambda>i. cand ! unat (b + of_nat i)) is) n w"
  by (induction "is" arbitrary: n) (simp_all add: Let_def)

lemma cand_range:
  assumes "unat b + m \<le> length cand" "length cand < 2 ^ 32"
  shows "map (\<lambda>i. cand ! unat (b + of_nat i :: u32)) [0..<m] = take m (drop (unat b) cand)"
proof (rule nth_equalityI)
  fix i assume "i < length (map (\<lambda>i. cand ! unat (b + of_nat i)) [0..<m])"
  then have i: "i < m" by simp
  have lt: "unat b + i < 2 ^ 32" using i assms by linarith
  then have "unat (of_nat i :: u32) = i" by (simp add: unat_of_nat)
  then have "unat (b + of_nat i) = unat b + i" using lt unat_add_lem [of b "of_nat i"] by simp
  then show "map (\<lambda>i. cand ! unat (b + of_nat i)) [0..<m] ! i = take m (drop (unat b) cand) ! i"
    using i assms by simp
qed (use assms in simp)

text \<open>A slot answers for its key what the scan of all handlers would.\<close>

lemma slot_run_result:
  assumes "slot_for hs cand (protocol p) s" "\<forall>h \<in> set hs. honest h" "length cand < 2 ^ 32"
  shows "(fst (slot_run c p cand s n w), snd (snd (slot_run c p cand s n w))) = first_match hs p w"
proof (cases "only s")
  case None
  then have "map (\<lambda>i. cand ! unat (slot_begin s + of_nat i)) [0..<unat (slot_count s)] =
      cands_of hs (protocol p)"
    using assms(1,3) by (simp add: slot_for_def cand_range)
  then show ?thesis
    using None by (simp add: slot_run_def cand_loop_scan scan_loop_result first_match_cands assms(2))
next
  case (Some h)
  then have c: "cands_of hs (protocol p) = [h]" "\<not> residual (declares h)"
    using assms(1) by (simp_all add: slot_for_def)
  then have "h \<in> set hs" "reg_key (declares h) = protocol p"
    by (auto simp: cands_of_def filter_eq_Cons_iff)
  then have "matches h p" using c(2) assms(2) by (intro honestD(2)) auto
  then have "first_match hs p w = process h p w"
    using first_match_cands [OF assms(2), of p w] c by simp
  then show ?thesis using Some by (simp add: slot_run_def split: prod.split)
qed

section \<open>TableDirect16\<close>

record 'w direct16 =
  d_tbl :: "u16 \<Rightarrow> 'w slot"
  d_cand :: "'w handler list"
  d_probes :: u64

fun direct16_fill :: "'w entry list \<Rightarrow> u16 list \<Rightarrow> (u16 \<Rightarrow> 'w slot) \<times> 'w handler list
    \<Rightarrow> (u16 \<Rightarrow> 'w slot) \<times> 'w handler list" where
  "direct16_fill es [] tc = tc"
| "direct16_fill es (k # ks) (tbl, cand) =
     (let (s, cand1) = fill_slot es k (tbl k) cand in direct16_fill es ks (tbl(k := s), cand1))"

definition table_direct16 :: "'w handler list \<Rightarrow> 'w direct16" where
  "table_direct16 hs =
     (let es = entries hs;
          (tbl, cand) = direct16_fill es (distinct_keys es) (\<lambda>_. empty_slot, [])
      in \<lparr>d_tbl = tbl, d_cand = cand, d_probes = 0\<rparr>)"

definition direct16_run :: "bool \<Rightarrow> packet \<Rightarrow> 'w direct16 \<Rightarrow> 'w \<Rightarrow> result \<times> 'w direct16 \<times> 'w" where
  "direct16_run counted p a w =
     (let n1 = (if counted then d_probes a + 1 else d_probes a);
          (r, n, w1) = slot_run counted p (d_cand a) (d_tbl a (protocol p)) n1 w
      in (r, a\<lparr>d_probes := n\<rparr>, w1))"

text \<open>
  The loop invariant of the construction: the keys \<open>todo\<close> are still to do and their slots
  untouched, every other key's slot is filled, and the shared vector is no longer than the
  candidates of the keys done.
\<close>

definition fill_inv :: "'w handler list \<Rightarrow> u16 list \<Rightarrow> (u16 \<Rightarrow> 'w slot) \<Rightarrow> 'w handler list \<Rightarrow> bool" where
  "fill_inv hs todo tbl cand \<longleftrightarrow>
     (\<forall>k \<in> set todo. tbl k = empty_slot) \<and> (\<forall>k. k \<notin> set todo \<longrightarrow> slot_for hs cand k (tbl k)) \<and>
     length cand + (\<Sum>k\<leftarrow>todo. length (cands_of hs k)) \<le> length hs"

lemma cands_sum:
  "distinct ks \<Longrightarrow> (\<Sum>k\<leftarrow>ks. length (cands_of hs k)) \<le> length hs"
proof -
  assume d: "distinct ks"
  have "(\<Sum>k\<leftarrow>ks. length (cands_of hs k)) = length (filter (\<lambda>h. reg_key (declares h) \<in> set ks) hs)"
    using d
  proof (induction ks)
    case (Cons k ks)
    have "length (filter (\<lambda>h. reg_key (declares h) \<in> set (k # ks)) hs) =
        length (cands_of hs k) + length (filter (\<lambda>h. reg_key (declares h) \<in> set ks) hs)"
      using Cons.prems unfolding cands_of_def by (induction hs) auto
    then show ?case using Cons by simp
  qed simp
  then show ?thesis by simp
qed

lemma fill_inv_init:
  "fill_inv hs (distinct_keys (entries hs)) (\<lambda>_. empty_slot) []"
  using cands_sum [OF distinct_keys_distinct, of hs]
  by (auto simp: fill_inv_def distinct_keys_set entries_keys cands_of_def filter_empty_conv
      intro!: slot_for_empty)

lemma fill_inv_step:
  assumes inv: "fill_inv hs (k # ks) tbl cand" and d: "distinct (k # ks)" and n: "length hs < 2 ^ 16"
    and f: "fill_slot (entries hs) k (tbl k) cand = (s, cand1)"
  shows "fill_inv hs ks (tbl(k := s)) cand1"
proof -
  have "only (tbl k) = None" "length cand < 2 ^ 32"
    using inv n by (auto simp: fill_inv_def empty_slot_def)
  note fs = fill_slot_for [OF f this n]
  obtain xs where xs: "cand1 = cand @ xs" "length xs \<le> length (cands_of hs k)" using fs(2) by blast
  show ?thesis using inv d fs(1) xs unfolding fill_inv_def
    by (auto simp: slot_for_append)
qed

lemma direct16_fill_inv:
  "fill_inv hs ks tbl cand \<Longrightarrow> distinct ks \<Longrightarrow> length hs < 2 ^ 16 \<Longrightarrow>
   direct16_fill (entries hs) ks (tbl, cand) = (tbl', cand') \<Longrightarrow> fill_inv hs [] tbl' cand'"
proof (induction ks arbitrary: tbl cand)
  case (Cons k ks)
  obtain s cand1 where f: "fill_slot (entries hs) k (tbl k) cand = (s, cand1)"
    by (cases "fill_slot (entries hs) k (tbl k) cand")
  have "fill_inv hs ks (tbl(k := s)) cand1" using fill_inv_step [OF Cons.prems(1-3) f] .
  then show ?case using Cons f by simp
qed simp

definition direct16_for :: "'w handler list \<Rightarrow> 'w direct16 \<Rightarrow> bool" where
  "direct16_for hs a \<longleftrightarrow> (\<forall>h \<in> set hs. honest h) \<and> length hs < 2 ^ 16 \<and>
     fill_inv hs [] (d_tbl a) (d_cand a)"

lemma table_direct16_for:
  assumes "\<forall>h \<in> set hs. honest h" "length hs < 2 ^ 16"
  shows "direct16_for hs (table_direct16 hs)"
proof -
  obtain tbl cand where b: "direct16_fill (entries hs) (distinct_keys (entries hs))
      (\<lambda>_. empty_slot, []) = (tbl, cand)" by fastforce
  then have "fill_inv hs [] tbl cand"
    by (rule direct16_fill_inv [OF fill_inv_init distinct_keys_distinct assms(2)])
  then show ?thesis using assms b by (simp add: direct16_for_def table_direct16_def)
qed

lemma direct16_run_result:
  assumes "direct16_for hs a"
  shows "(fst (direct16_run c p a w), snd (snd (direct16_run c p a w))) = first_match hs p w"
    and "direct16_for hs (fst (snd (direct16_run c p a w)))"
proof -
  have "slot_for hs (d_cand a) (protocol p) (d_tbl a (protocol p))" "length (d_cand a) < 2 ^ 32"
    "\<forall>h \<in> set hs. honest h"
    using assms by (auto simp: direct16_for_def fill_inv_def)
  note r = slot_run_result [OF this(1,3,2), of c "if c then d_probes a + 1 else d_probes a" w]
  then show "(fst (direct16_run c p a w), snd (snd (direct16_run c p a w))) = first_match hs p w"
    by (simp add: direct16_run_def Let_def split_beta)
  show "direct16_for hs (fst (snd (direct16_run c p a w)))"
    using assms by (simp add: direct16_run_def direct16_for_def Let_def split_beta)
qed

interpretation direct16: dispatch_arm direct16_for "direct16_run c" for c
  by unfold_locales (simp_all add: direct16_run_result)

end
