(* ===== verification/Sw_Compact.thy ===== *)
theory Sw_Compact
  imports Sw_Table
begin

text \<open>
  \<^verbatim>\<open>TableCompact\<close> of plugin-dispatch-kata/cpp/src/strategy.hpp: the table over the low ten
  bits of the key. Each slot remembers which key owns it, with 0xFFFF standing for nobody, and
  the construction reports whether two registered keys met in a slot. The array has 1024
  elements and is indexed by masked words only, so it is again a total function of the index.
\<close>

definition kMask :: u16 where "kMask = 0x3FF"
definition kEmpty :: u16 where "kEmpty = 0xFFFF"

record 'w cslot = "'w slot" + c_key :: u16

definition empty_cslot :: "'w cslot" where
  "empty_cslot = slot.extend empty_slot \<lparr>c_key = kEmpty\<rparr>"

record 'w compact =
  c_tbl :: "u16 \<Rightarrow> 'w cslot"
  c_cand :: "'w handler list"
  injective :: bool
  c_probes :: u64

text \<open>
  One key of the constructor: refuse a slot that another key owns, else take it and fill it.
\<close>

definition fill_cslot :: "'w entry list \<Rightarrow> u16 \<Rightarrow> 'w cslot \<Rightarrow> 'w handler list
    \<Rightarrow> 'w cslot \<times> 'w handler list" where
  "fill_cslot es k s cand =
     (let cands = map e_handler (with_key k es);
          all_pure = list_all (\<lambda>e. \<not> e_residual e) (with_key k es);
          s1 = s\<lparr>c_key := k\<rparr>
      in if length cands = 1 \<and> all_pure then (s1\<lparr>only := Some (cands ! 0)\<rparr>, cand)
         else (s1\<lparr>slot_begin := of_nat (length cand), slot_count := of_nat (length cands)\<rparr>,
               cand @ cands))"

fun compact_fill :: "'w entry list \<Rightarrow> u16 list \<Rightarrow> 'w compact \<Rightarrow> 'w compact" where
  "compact_fill es [] a = a"
| "compact_fill es (k # ks) a =
     (let s = c_tbl a (k AND kMask) in
      if c_key s \<noteq> kEmpty \<and> c_key s \<noteq> k then compact_fill es ks (a\<lparr>injective := False\<rparr>)
      else let (s1, cand1) = fill_cslot es k s (c_cand a)
           in compact_fill es ks (a\<lparr>c_tbl := (c_tbl a)(k AND kMask := s1), c_cand := cand1\<rparr>))"

definition table_compact :: "'w handler list \<Rightarrow> 'w compact" where
  "table_compact hs =
     (let es = entries hs in
      compact_fill es (distinct_keys es)
        \<lparr>c_tbl = (\<lambda>_. empty_cslot), c_cand = [], injective = True, c_probes = 0\<rparr>)"

definition compact_run :: "bool \<Rightarrow> packet \<Rightarrow> 'w compact \<Rightarrow> 'w \<Rightarrow> result \<times> 'w compact \<times> 'w" where
  "compact_run counted p a w =
     (let s = c_tbl a (protocol p AND kMask);
          n1 = (if counted then c_probes a + 1 else c_probes a)
      in if c_key s \<noteq> protocol p then (unsupported, a\<lparr>c_probes := n1\<rparr>, w)
         else let (r, n, w1) = slot_run counted p (c_cand a) (slot.truncate s) n1 w
              in (r, a\<lparr>c_probes := n\<rparr>, w1))"

section \<open>Construction\<close>

text \<open>The slot proper is filled as in the direct table.\<close>

lemma fill_cslot_truncate:
  "fill_cslot es k s cand = (s1, cand1) \<Longrightarrow>
   fill_slot es k (slot.truncate s) cand = (slot.truncate s1, cand1) \<and> c_key s1 = k"
  by (auto simp: fill_cslot_def fill_slot_def Let_def slot.defs split: if_splits)

lemma truncate_empty [simp]:
  "slot.truncate empty_cslot = empty_slot" "c_key empty_cslot = kEmpty"
  by (simp_all add: empty_cslot_def empty_slot_def slot.defs)

text \<open>
  Loop invariant: while no two registered keys have met, every key done owns its slot, which
  is filled for it; every slot nobody owns is untouched.
\<close>

definition compact_inv :: "'w handler list \<Rightarrow> u16 list \<Rightarrow> u16 list \<Rightarrow> 'w compact \<Rightarrow> bool" where
  "compact_inv hs done todo a \<longleftrightarrow>
     (\<forall>i. c_key (c_tbl a i) = kEmpty \<longrightarrow> slot.truncate (c_tbl a i) = empty_slot) \<and>
     (\<forall>i. c_key (c_tbl a i) \<noteq> kEmpty \<longrightarrow>
        c_key (c_tbl a i) \<in> set done \<and> c_key (c_tbl a i) AND kMask = i \<and>
        slot_for hs (c_cand a) (c_key (c_tbl a i)) (slot.truncate (c_tbl a i))) \<and>
     (injective a \<longleftrightarrow> inj_on (\<lambda>k. k AND kMask) (set done)) \<and>
     (\<forall>k \<in> set done. c_key (c_tbl a (k AND kMask)) \<noteq> kEmpty) \<and>
     length (c_cand a) + (\<Sum>k\<leftarrow>todo. length (cands_of hs k)) \<le> length hs"

lemma compact_inv_init:
  "compact_inv hs [] (distinct_keys (entries hs))
     \<lparr>c_tbl = (\<lambda>_. empty_cslot), c_cand = [], injective = True, c_probes = 0\<rparr>"
  using cands_sum [OF distinct_keys_distinct, of hs] by (simp add: compact_inv_def)

lemma compact_inv_clash:
  assumes inv: "compact_inv hs done (k # ks) a" and k: "k \<notin> set done"
    and clash: "c_key (c_tbl a (k AND kMask)) \<noteq> kEmpty"
  shows "compact_inv hs (done @ [k]) ks (a\<lparr>injective := False\<rparr>)"
proof -
  let ?o = "c_key (c_tbl a (k AND kMask))"
  have "?o \<in> set done" "?o AND kMask = k AND kMask" using inv clash by (auto simp: compact_inv_def)
  then have "\<not> inj_on (\<lambda>k. k AND kMask) (set (done @ [k]))"
    using k by (auto simp: inj_on_def)
  then show ?thesis using inv clash unfolding compact_inv_def by auto
qed

lemma compact_inv_take:
  assumes inv: "compact_inv hs done (k # ks) a" and k: "k \<notin> set done" "k \<noteq> kEmpty"
    and n: "length hs < 2 ^ 16"
    and free: "c_key (c_tbl a (k AND kMask)) = kEmpty"
    and f: "fill_cslot (entries hs) k (c_tbl a (k AND kMask)) (c_cand a) = (s1, cand1)"
  shows "compact_inv hs (done @ [k]) ks
    (a\<lparr>c_tbl := (c_tbl a)(k AND kMask := s1), c_cand := cand1\<rparr>)"
proof -
  let ?s = "c_tbl a (k AND kMask)"
  have e: "slot.truncate ?s = empty_slot" and l: "length (c_cand a) < 2 ^ 32"
    using inv free n by (auto simp: compact_inv_def)
  have fs: "fill_slot (entries hs) k (slot.truncate ?s) (c_cand a) = (slot.truncate s1, cand1)"
    and key: "c_key s1 = k" using fill_cslot_truncate [OF f] by auto
  have "only (slot.truncate ?s) = None" by (simp add: e empty_slot_def)
  note fill = fill_slot_for [OF fs this l n]
  obtain xs where xs: "cand1 = c_cand a @ xs" "length xs \<le> length (cands_of hs k)"
    using fill(2) by blast
  have new: "k AND kMask \<noteq> q AND kMask" if "q \<in> set done" for q
    using that inv free by (metis compact_inv_def)
  then have inj: "inj_on (\<lambda>k. k AND kMask) (set (done @ [k])) \<longleftrightarrow> inj_on (\<lambda>k. k AND kMask) (set done)"
    using k(1) by (auto simp: inj_on_insert)
  show ?thesis
    unfolding compact_inv_def using inv fill(1) xs key k inj
    by (auto simp: compact_inv_def slot_for_append)
qed

lemma compact_fill_inv:
  "compact_inv hs done ks a \<Longrightarrow> distinct (done @ ks) \<Longrightarrow> kEmpty \<notin> set ks \<Longrightarrow>
   length hs < 2 ^ 16 \<Longrightarrow> compact_inv hs (done @ ks) [] (compact_fill (entries hs) ks a)"
proof (induction ks arbitrary: "done" a)
  case (Cons k ks)
  have k: "k \<notin> set done" "k \<noteq> kEmpty" and d: "distinct ((done @ [k]) @ ks)"
    using Cons.prems(2,3) by auto
  show ?case
  proof (cases "c_key (c_tbl a (k AND kMask)) = kEmpty")
    case True
    obtain s1 cand1 where f: "fill_cslot (entries hs) k (c_tbl a (k AND kMask)) (c_cand a) = (s1, cand1)"
      by (cases "fill_cslot (entries hs) k (c_tbl a (k AND kMask)) (c_cand a)")
    show ?thesis
      using Cons.IH [OF compact_inv_take [OF Cons.prems(1) k Cons.prems(4) True f] d] Cons.prems(3,4)
        True f by simp
  next
    case False
    then have "c_key (c_tbl a (k AND kMask)) \<noteq> k"
      using Cons.prems(1) k by (auto simp: compact_inv_def)
    then show ?thesis
      using Cons.IH [OF compact_inv_clash [OF Cons.prems(1) k(1) False] d] Cons.prems(3,4) False
      by simp
  qed
qed simp

section \<open>Dispatch\<close>

text \<open>
  The compact arm stands for \<open>hs\<close> when it reports itself injective and no handler has the key
  that marks a slot as empty.
\<close>

definition compact_for :: "'w handler list \<Rightarrow> 'w compact \<Rightarrow> bool" where
  "compact_for hs a \<longleftrightarrow> (\<forall>h \<in> set hs. honest h) \<and> length hs < 2 ^ 16 \<and> injective a \<and>
     kEmpty \<notin> (\<lambda>h. reg_key (declares h)) ` set hs \<and>
     compact_inv hs (distinct_keys (entries hs)) [] a"

lemma table_compact_inv:
  assumes "kEmpty \<notin> (\<lambda>h. reg_key (declares h)) ` set hs" "length hs < 2 ^ 16"
  shows "compact_inv hs (distinct_keys (entries hs)) [] (table_compact hs)"
  using compact_fill_inv [OF compact_inv_init, of hs] assms
    distinct_keys_distinct [of "entries hs"]
  by (simp add: table_compact_def Let_def distinct_keys_set entries_keys)

lemma table_compact_injective:
  assumes "kEmpty \<notin> (\<lambda>h. reg_key (declares h)) ` set hs" "length hs < 2 ^ 16"
  shows "injective (table_compact hs) \<longleftrightarrow>
    inj_on (\<lambda>k. k AND kMask) ((\<lambda>h. reg_key (declares h)) ` set hs)"
  using table_compact_inv [OF assms] by (simp add: compact_inv_def distinct_keys_set entries_keys)

lemma table_compact_for:
  assumes "\<forall>h \<in> set hs. honest h" "length hs < 2 ^ 16"
    "kEmpty \<notin> (\<lambda>h. reg_key (declares h)) ` set hs" "injective (table_compact hs)"
  shows "compact_for hs (table_compact hs)"
  using assms table_compact_inv by (simp add: compact_for_def)

text \<open>A slot owned by another key, or by nobody, has no handler for the packet.\<close>

lemma compact_miss:
  assumes "compact_for hs a" "c_key (c_tbl a (protocol p AND kMask)) \<noteq> protocol p \<or>
    c_key (c_tbl a (protocol p AND kMask)) = kEmpty"
  shows "first_match hs p w = (unsupported, w)"
proof (rule first_match_none, rule ballI, rule notI)
  fix h assume h: "h \<in> set hs" "matches h p"
  then have k: "reg_key (declares h) = protocol p"
    using assms(1) by (metis compact_for_def honestD(1))
  let ?D = "distinct_keys (entries hs)" and ?s = "c_tbl a (protocol p AND kMask)"
  have inv: "compact_inv hs ?D [] a" and inj: "inj_on (\<lambda>k. k AND kMask) (set ?D)"
    using assms(1) by (auto simp: compact_for_def compact_inv_def)
  have d: "protocol p \<in> set ?D"
    unfolding distinct_keys_set entries_keys using h(1) k by (metis image_eqI)
  then have "c_key ?s \<noteq> kEmpty" using inv by (simp add: compact_inv_def)
  moreover from this have "c_key ?s \<in> set ?D" "c_key ?s AND kMask = protocol p AND kMask"
    using inv by (auto simp: compact_inv_def)
  ultimately show False using inj_onD [OF inj] d assms(2) by blast
qed

lemma empty_slot_run: "slot_run c p cand empty_slot n w = (unsupported, n, w)"
  by (simp add: slot_run_def empty_slot_def)

lemma compact_run_result:
  assumes "compact_for hs a"
  shows "(fst (compact_run c p a w), snd (snd (compact_run c p a w))) = first_match hs p w"
    and "compact_for hs (fst (snd (compact_run c p a w)))"
proof -
  let ?s = "c_tbl a (protocol p AND kMask)" and ?n = "if c then c_probes a + 1 else c_probes a"
  have inv: "compact_inv hs (distinct_keys (entries hs)) [] a" "length (c_cand a) < 2 ^ 32"
    "\<forall>h \<in> set hs. honest h"
    using assms by (auto simp: compact_for_def compact_inv_def)
  consider (miss) "c_key ?s \<noteq> protocol p" | (empty) "c_key ?s = protocol p" "c_key ?s = kEmpty"
    | (hit) "c_key ?s = protocol p" "c_key ?s \<noteq> kEmpty" by blast
  then show "(fst (compact_run c p a w), snd (snd (compact_run c p a w))) = first_match hs p w"
  proof cases
    case miss
    then show ?thesis using compact_miss [OF assms] by (simp add: compact_run_def Let_def)
  next
    case empty
    then have "slot.truncate ?s = empty_slot" using inv by (simp add: compact_inv_def)
    then show ?thesis using empty compact_miss [OF assms, of p w]
      by (simp add: compact_run_def Let_def empty_slot_run)
  next
    case hit
    then have "slot_for hs (c_cand a) (protocol p) (slot.truncate ?s)"
      using inv(1) by (metis compact_inv_def)
    from slot_run_result [OF this inv(3,2), of c ?n w] hit(1) show ?thesis
      by (simp add: compact_run_def Let_def split_beta)
  qed
  show "compact_for hs (fst (snd (compact_run c p a w)))"
    using assms by (auto simp: compact_run_def compact_for_def compact_inv_def Let_def split_beta)
qed

interpretation compact: dispatch_arm compact_for "compact_run c" for c
  by unfold_locales (simp_all add: compact_run_result)

end
