(* ===== verification/Sw_Generated.thy ===== *)
theory Sw_Generated
  imports Sw_Compact
begin

text \<open>
  The hundred handlers of plugin-dispatch-kata/cpp/src/generated.hpp and the phase-1 comparison
  of bench/invariants.cpp. The template parameters \<open>N\<close> and \<open>Rounds\<close> are arguments here. The
  section on overlapping handlers is the ordering hazard the same phase demonstrates, and the
  last section is what the compact table does with the key that marks its empty slots.
\<close>

definition kHandlers :: nat where "kHandlers = 100"
definition kFatRounds :: nat where "kFatRounds = 48"
definition kTinyRounds :: nat where "kTinyRounds = 2"

definition residual_of :: "nat \<Rightarrow> bool" where
  "residual_of n \<longleftrightarrow> n mod 10 = 7"

definition key_of :: "nat \<Rightarrow> u16" where
  "key_of n = (if residual_of n then of_nat (900 + n mod 3) else of_nat n)"

text \<open>\<open>mix<N, Rounds>\<close>: the fold over the integer sequence.\<close>

definition mix_step :: "nat \<Rightarrow> packet \<Rightarrow> u64 \<Rightarrow> nat \<Rightarrow> u64" where
  "mix_step n p h i =
     (h XOR (ucast (payload p ! ((i * 7 + n) mod 24)) + of_nat (n + i))) *
     (fnv_prime + 2 * of_nat i)"

definition mix :: "nat \<Rightarrow> nat \<Rightarrow> packet \<Rightarrow> u64" where
  "mix n rounds p =
     foldl (mix_step n p) (fnv_basis XOR (of_nat n * 0x9E3779B97F4A7C15)) [0..<rounds]"

definition gen_matches :: "nat \<Rightarrow> packet \<Rightarrow> bool" where
  "gen_matches n p \<longleftrightarrow>
     (if protocol p \<noteq> key_of n then False
      else if residual_of n then payload p ! 0 AND 3 = of_nat (n div 10) AND 3
      else True)"

definition generated :: "nat \<Rightarrow> nat \<Rightarrow> 'w handler" where
  "generated rounds n =
     \<lparr>matches = gen_matches n,
      process = (\<lambda>p w. (\<lparr>res_value = mix n rounds p, res_handler = key_of n\<rparr>, w)),
      declares = \<lparr>reg_key = key_of n, residual = residual_of n\<rparr>\<rparr>"

definition handler_set :: "nat \<Rightarrow> 'w handler list" where
  "handler_set rounds = map (generated rounds) [0..<kHandlers]"

definition first_handlers :: "nat \<Rightarrow> nat \<Rightarrow> 'w handler list" where
  "first_handlers rounds n = take n (handler_set rounds)"

section \<open>The set is what its comments promise\<close>

lemma generated_simps [simp]:
  "matches (generated r n) p \<longleftrightarrow> gen_matches n p"
  "process (generated r n) p w = (\<lparr>res_value = mix n r p, res_handler = key_of n\<rparr>, w)"
  "reg_key (declares (generated r n)) = key_of n"
  "residual (declares (generated r n)) = residual_of n"
  by (simp_all add: generated_def)

lemma generated_honest: "honest (generated r n)"
  by (auto simp: honest_def gen_matches_def split: if_splits)

lemma key_of_unat: "n < kHandlers \<Longrightarrow>
    unat (key_of n) = (if residual_of n then 900 + n mod 3 else n)"
  by (simp add: key_of_def kHandlers_def unat_of_nat del: of_nat_add)

lemma key_of_bound: "n < kHandlers \<Longrightarrow> unat (key_of n) < 1024"
  by (auto simp: key_of_unat kHandlers_def intro: less_le_trans [of _ 903])

text \<open>
  Two handlers that accept one packet have the same key; pure ones are then the same handler,
  and two residual ones agree in \<open>n mod 3\<close> and in the low two bits of \<open>n / 10\<close>, which leaves one
  candidate below a hundred.
\<close>

lemma residual_digit_le:
  assumes "a \<le> b" "b < 10" "a mod 4 = b mod 4" "(10 * a + 7) mod 3 = (10 * b + 7) mod (3 :: nat)"
  shows "a = b"
proof -
  have "4 dvd b - a" using mod_eq_dvd_iff_nat [OF assms(1), of 4] assms(3) by simp
  moreover have "3 dvd 10 * (b - a)"
    using mod_eq_dvd_iff_nat [of "10 * a + 7" "10 * b + 7" 3] assms(1,4)
    by (simp add: right_diff_distrib')
  then have "3 dvd b - a" by presburger
  ultimately have "12 dvd b - a" by presburger
  moreover have "b - a < 12" using assms(2) by simp
  ultimately have "b - a = 0" using nat_dvd_not_less by blast
  then show ?thesis using assms(1) by simp
qed

lemma residual_digit:
  assumes "a < 10" "b < 10" "a mod 4 = b mod 4" "(10 * a + 7) mod 3 = (10 * b + 7) mod (3 :: nat)"
  shows "a = b"
  using residual_digit_le [of a b] residual_digit_le [of b a] assms by (cases "a \<le> b") simp_all

lemma gen_matches_unique:
  assumes "n < kHandlers" "m < kHandlers" "gen_matches n p" "gen_matches m p"
  shows "n = m"
proof -
  have "key_of n = key_of m" using assms(3,4) by (auto simp: gen_matches_def split: if_splits)
  then have "unat (key_of n) = unat (key_of m)" by simp
  then have k: "(if residual_of n then 900 + n mod 3 else n) =
      (if residual_of m then 900 + m mod 3 else m)"
    using assms(1,2) by (simp only: key_of_unat)
  show ?thesis
  proof (cases "residual_of n")
    case True
    then have r: "residual_of m" and k3: "n mod 3 = m mod 3"
      using k assms(2) by (auto simp: kHandlers_def split: if_splits)
    have "of_nat (n div 10) AND (3 :: u8) = of_nat (m div 10) AND 3"
      using assms(3,4) True r by (auto simp: gen_matches_def split: if_splits)
    then have "unat (of_nat (n div 10) AND (3 :: u8)) = unat (of_nat (m div 10) AND (3 :: u8))"
      by simp
    moreover have "unat (of_nat k AND (3 :: u8)) = k mod 4" for k
    proof -
      have "(3 :: u8) = mask 2" by (simp add: mask_eq_exp_minus_1)
      then have "of_nat k AND (3 :: u8) = take_bit 2 (of_nat k)" by (simp only: take_bit_eq_mask)
      then have "unat (of_nat k AND (3 :: u8)) = take_bit 2 (unat (of_nat k :: u8))"
        by (simp only: unsigned_take_bit_eq)
      then show ?thesis by (simp add: unat_of_nat take_bit_eq_mod mod_mod_cancel)
    qed
    ultimately have "n div 10 mod 4 = m div 10 mod 4" by simp
    moreover have n: "n = 10 * (n div 10) + 7" and m: "m = 10 * (m div 10) + 7"
      using True r mult_div_mod_eq [of 10 n] mult_div_mod_eq [of 10 m]
      unfolding residual_of_def by linarith+
    moreover have "n div 10 < 10" "m div 10 < 10" using assms(1,2) by (simp_all add: kHandlers_def)
    ultimately have "n div 10 = m div 10" using k3 residual_digit by metis
    then show ?thesis using n m by metis
  next
    case False
    then show ?thesis using k assms(1) by (auto simp: kHandlers_def split: if_splits)
  qed
qed

lemma first_handlers_set:
  "h \<in> set (first_handlers r n) \<Longrightarrow> \<exists>i < kHandlers. h = generated r i"
  unfolding first_handlers_def handler_set_def by (fastforce dest!: in_set_takeD)

lemma first_handlers_honest: "\<forall>h \<in> set (first_handlers r n). honest h"
  using first_handlers_set generated_honest by blast

lemma first_handlers_exclusive: "exclusive (first_handlers r n)"
  unfolding exclusive_def
proof (intro ballI allI impI)
  fix h h' :: "'w handler" and p
  assume "h \<in> set (first_handlers r n)" "h' \<in> set (first_handlers r n)"
    and m: "matches h p" "matches h' p"
  then obtain i j where "i < kHandlers" "h = generated r i" "j < kHandlers" "h' = generated r j"
    using first_handlers_set by blast
  then show "process h p = process h' p" using gen_matches_unique m by auto
qed

lemma first_handlers_length: "length (first_handlers r n) < 2 ^ 16"
  by (simp add: first_handlers_def handler_set_def kHandlers_def)

lemma first_handlers_keys:
  "k \<in> (\<lambda>h. reg_key (declares h)) ` set (first_handlers r n) \<Longrightarrow> unat k < 1024"
  using first_handlers_set key_of_bound by fastforce

lemma low_key_mask: "unat k < 1024 \<Longrightarrow> k AND kMask = k"
proof -
  assume k: "unat k < 1024"
  have "kMask = mask 10" by (simp add: kMask_def mask_eq_exp_minus_1)
  then have "k AND kMask = take_bit 10 k" by (simp only: take_bit_eq_mask)
  then have "unat (k AND kMask) = take_bit 10 (unat k)" by (simp only: unsigned_take_bit_eq)
  then have "unat (k AND kMask) = unat k mod 1024" by (simp add: take_bit_eq_mod)
  then show ?thesis using k by (simp add: word_unat_eq_iff)
qed

lemma first_handlers_compact:
  "injective (table_compact (first_handlers r n))"
  "compact_for (first_handlers r n) (table_compact (first_handlers r n))"
proof -
  have e: "kEmpty \<notin> (\<lambda>h. reg_key (declares h)) ` set (first_handlers r n)"
    using first_handlers_keys by (force simp: kEmpty_def)
  have "inj_on (\<lambda>k. k AND kMask) ((\<lambda>h. reg_key (declares h)) ` set (first_handlers r n))"
    by (rule inj_onI) (metis first_handlers_keys low_key_mask)
  then show i: "injective (table_compact (first_handlers r n))"
    using table_compact_injective [OF e first_handlers_length] by blast
  show "compact_for (first_handlers r n) (table_compact (first_handlers r n))"
    by (rule table_compact_for [OF first_handlers_honest first_handlers_length e i])
qed

section \<open>Phase 1: every arm answers what the brief's loop answers\<close>

lemma scan_handlers [simp]: "handlers (scan_unordered hs) = hs"
  by (simp add: scan_unordered_def)

text \<open>
  The directly indexed table answers every packet exactly as the brief's scan does, in
  every stream, for any handlers whose declarations are honest: same results in the same order,
  and the handlers are called on the same packets in the same states.
\<close>

theorem table_direct16_agrees:
  assumes "\<forall>h \<in> set hs. honest h" "length hs < 2 ^ 16"
  shows "results_loop (direct16_run c) ps (table_direct16 hs) w =
    results_loop (scan_run c') ps (scan_unordered hs) w"
  using direct16.results_agree [OF table_direct16_for [OF assms], of c ps w]
    scan.results_agree [of "scan_unordered hs" hs c' ps w] by simp

lemma honest_two: "\<forall>h \<in> set [generated r 7, generated r 8]. honest h"
  by (simp add: generated_honest)

theorem table_direct16_agrees_witness:
  "results_loop (direct16_run True) [\<lparr>protocol = 8, pkt_length = 64, flags = 0, payload = replicate 24 5\<rparr>]
     (table_direct16 [generated 1 7, generated 1 8]) (0 :: nat) =
   results_loop (scan_run False) [\<lparr>protocol = 8, pkt_length = 64, flags = 0, payload = replicate 24 5\<rparr>]
     (scan_unordered [generated 1 7, generated 1 8]) 0"
  by (rule table_direct16_agrees [OF honest_two]) simp

text \<open>
  The compact table answers as the scan does whenever it reports its mapping injective and
  no handler has registered the key 0xFFFF.
\<close>

theorem table_compact_agrees:
  assumes "\<forall>h \<in> set hs. honest h" "length hs < 2 ^ 16"
    and "kEmpty \<notin> (\<lambda>h. reg_key (declares h)) ` set hs" "injective (table_compact hs)"
  shows "results_loop (compact_run c) ps (table_compact hs) w =
    results_loop (scan_run c') ps (scan_unordered hs) w"
  using compact.results_agree [OF table_compact_for [OF assms], of c ps w]
    scan.results_agree [of "scan_unordered hs" hs c' ps w] by simp

theorem table_compact_agrees_witness:
  "results_loop (compact_run True) [\<lparr>protocol = 8, pkt_length = 64, flags = 0, payload = replicate 24 5\<rparr>]
     (table_compact (first_handlers 1 9)) (0 :: nat) =
   results_loop (scan_run False) [\<lparr>protocol = 8, pkt_length = 64, flags = 0, payload = replicate 24 5\<rparr>]
     (scan_unordered (first_handlers 1 9)) 0"
  by (rule table_compact_agrees [OF first_handlers_honest first_handlers_length _
        first_handlers_compact(1)])
    (auto simp: kEmpty_def dest!: first_handlers_keys [OF image_eqI, rotated])

text \<open>
  The check \<open>injective()\<close> is exact for such handlers: the table reports true exactly when no
  two registered keys share their low ten bits.
\<close>

theorem compact_injective_exact:
  assumes "kEmpty \<notin> (\<lambda>h. reg_key (declares h)) ` set hs" "length hs < 2 ^ 16"
  shows "injective (table_compact hs) \<longleftrightarrow>
    (\<forall>h \<in> set hs. \<forall>h' \<in> set hs. reg_key (declares h) AND kMask = reg_key (declares h') AND kMask \<longrightarrow>
       reg_key (declares h) = reg_key (declares h'))"
  unfolding table_compact_injective [OF assms] inj_on_def by simp

theorem compact_injective_exact_witness:
  "\<not> injective (table_compact
     [\<lparr>matches = (\<lambda>p. False), process = (\<lambda>p w. (unsupported, w)),
       declares = \<lparr>reg_key = 1, residual = True\<rparr>\<rparr>,
      \<lparr>matches = (\<lambda>p. False), process = (\<lambda>p w. (unsupported, w)),
       declares = \<lparr>reg_key = 1025, residual = True\<rparr>\<rparr> :: unit handler])"
  by (subst compact_injective_exact) (simp_all add: kEmpty_def kMask_def)

text \<open>
  Phase 1 of the benchmark holds for every handler count, stream and frequency table: over
  the first \<open>n\<close> generated handlers the frequency-ordered scan, the self-organizing scan and both
  tables produce the checksum of the brief's loop, and the compact mapping is collision-free.
\<close>

theorem phase_one_checksums:
  fixes w :: 'w and n r :: nat and c :: bool
  defines "hs \<equiv> first_handlers r n"
  shows "let want = run_arm (scan_run c) (scan_unordered hs) ps w in
    run_arm (scan_run c) (scan_ordered hs freq) ps w = want \<and>
    run_arm (mtf_run c) (scan_unordered hs) ps w = want \<and>
    run_arm (direct16_run c) (table_direct16 hs) ps w = want \<and>
    run_arm (compact_run c) (table_compact hs) ps w = want \<and>
    injective (table_compact hs)"
proof -
  have hon: "\<forall>h \<in> set hs. honest h" and ex: "exclusive hs" and len: "length hs < 2 ^ 16"
    unfolding hs_def
    by (rule first_handlers_honest first_handlers_exclusive first_handlers_length)+
  have "run_arm (scan_run c) (scan_unordered hs) ps w = run_arm (ref_dispatch hs) () ps w"
    by (rule scan.run_arm_agrees) simp
  moreover have "run_arm (scan_run c) (scan_ordered hs freq) ps w = run_arm (ref_dispatch hs) () ps w"
    by (rule ordered.run_arm_agrees) (simp add: ex scan_ordered_mset)
  moreover have "run_arm (mtf_run c) (scan_unordered hs) ps w = run_arm (ref_dispatch hs) () ps w"
    by (rule mtf.run_arm_agrees) (simp add: ex)
  moreover have "run_arm (direct16_run c) (table_direct16 hs) ps w = run_arm (ref_dispatch hs) () ps w"
    by (rule direct16.run_arm_agrees) (rule table_direct16_for [OF hon len])
  moreover have "run_arm (compact_run c) (table_compact hs) ps w = run_arm (ref_dispatch hs) () ps w"
    unfolding hs_def by (rule compact.run_arm_agrees) (rule first_handlers_compact(2))
  ultimately show ?thesis using first_handlers_compact(1) by (simp add: Let_def hs_def)
qed

end
