(* ===== verification/Sw_Hazards.thy ===== *)
theory Sw_Hazards
  imports Sw_Generated
begin

text \<open>
  Where the arms of plugin-dispatch-kata/cpp/src/strategy.hpp part from the brief's loop: the
  order of overlapping handlers (phase 1 of bench/invariants.cpp demonstrates it with the class
  \<open>Overlapping\<close>), what a dispatch costs in probes, and the key 0xFFFF in the compact table.
\<close>

section \<open>First match wins: the order of the list\<close>

definition overlapping :: "u16 \<Rightarrow> 'w handler" where
  "overlapping i =
     \<lparr>matches = (\<lambda>p. protocol p = 3000),
      process = (\<lambda>p w. (\<lparr>res_value = ucast i, res_handler = i\<rparr>, w)),
      declares = \<lparr>reg_key = 3000, residual = True\<rparr>\<rparr>"

text \<open>
  With two overlapping handlers the order of registration decides which one runs: the scan
  answers 1 over the list [1, 2] and 2 over [2, 1], for every packet of their protocol.
\<close>

theorem overlap_order_decides:
  assumes "protocol p = 3000"
  shows "res_handler (fst (scan_run c p (scan_unordered [overlapping 1, overlapping 2]) w)) = 1 \<and>
    res_handler (fst (scan_run c p (scan_unordered [overlapping 2, overlapping 1]) w)) = 2"
  using assms by (simp_all add: scan_run_def scan_unordered_def overlapping_def Let_def)

theorem overlap_order_decides_witness:
  "res_handler (fst (scan_run True
     \<lparr>protocol = 3000, pkt_length = 0, flags = 0, payload = replicate 24 0\<rparr>
     (scan_unordered [overlapping 1, overlapping 2]) ())) = 1"
  by (rule overlap_order_decides [THEN conjunct1]) simp

text \<open>
  C22: Reordering the handler list is a semantics-preserving change exactly when no two handlers
  answer one packet differently: that every permutation of the list scans to the same answers is
  equivalent to the handlers being exclusive.
\<close>

theorem reordering_safe_iff_exclusive:
  "(\<forall>gs. mset gs = mset hs \<longrightarrow>
      (\<forall>p w. fst (scan_run c p (scan_unordered gs) w) = fst (scan_run c p (scan_unordered hs) w) \<and>
         snd (snd (scan_run c p (scan_unordered gs) w)) =
         snd (snd (scan_run c p (scan_unordered hs) w)))) \<longleftrightarrow> exclusive hs"
proof -
  have same: "(fst (scan_run c p (scan_unordered gs) w) = fst (scan_run c p (scan_unordered hs) w) \<and>
      snd (snd (scan_run c p (scan_unordered gs) w)) = snd (snd (scan_run c p (scan_unordered hs) w)))
      \<longleftrightarrow> first_match gs p w = first_match hs p w" for gs p w
    using scan_run_result [of c p "scan_unordered gs" w] scan_run_result [of c p "scan_unordered hs" w]
    by (metis prod.inject scan_handlers)
  have front: "process h p w = first_match (h # remove1 h hs) p w" if "matches h p" for h p w
    using that by simp
  show ?thesis unfolding same
  proof (intro iffI allI impI)
    assume perm: "\<forall>gs. mset gs = mset hs \<longrightarrow> (\<forall>p w. first_match gs p w = first_match hs p w)"
    have "process h p w = first_match hs p w" if "h \<in> set hs" "matches h p" for h p w
      using perm [rule_format, of "h # remove1 h hs" p w] that by simp
    then show "exclusive hs" unfolding exclusive_def by (metis ext)
  next
    fix gs p and w :: 'a
    assume "exclusive hs" "mset gs = mset hs"
    then show "first_match gs p w = first_match hs p w"
      by (intro first_match_set_eq) (auto dest: mset_eq_setD)
  qed
qed

theorem reordering_safe_iff_exclusive_witness:
  "\<not> exclusive [overlapping 1, overlapping 2 :: unit handler]"
proof
  assume "exclusive [overlapping 1, overlapping 2 :: unit handler]"
  then have "fst (scan_run True \<lparr>protocol = 3000, pkt_length = 0, flags = 0, payload = []\<rparr>
       (scan_unordered [overlapping 2, overlapping 1]) ()) =
     fst (scan_run True \<lparr>protocol = 3000, pkt_length = 0, flags = 0, payload = []\<rparr>
       (scan_unordered [overlapping 1, overlapping 2]) ())"
    using reordering_safe_iff_exclusive [of "[overlapping 1, overlapping 2 :: unit handler]" True, THEN iffD2,
        rule_format, of "[overlapping 2, overlapping 1]"]
    by (simp add: add_mset_commute)
  then show False by (simp add: scan_run_def scan_unordered_def overlapping_def Let_def)
qed

section \<open>What a dispatch costs\<close>

lemma cand_loop_probes:
  "fst (snd (cand_loop True p cand b is n w)) =
   n + of_nat (scan_depth p (map (\<lambda>i. cand ! unat (b + of_nat i)) is))"
  by (simp add: cand_loop_scan scan_loop_probes)

lemma slot_run_probes:
  assumes "slot_for hs cand (protocol p) s" "length cand < 2 ^ 32"
  shows "\<exists>k \<le> length (cands_of hs (protocol p)). fst (snd (slot_run True p cand s n w)) = n + of_nat k"
proof (cases "only s")
  case None
  let ?m = "map (\<lambda>i. cand ! unat (slot_begin s + of_nat i)) [0..<unat (slot_count s)]"
  have "?m = cands_of hs (protocol p)"
    using assms None by (simp add: slot_for_def cand_range)
  then have "scan_depth p ?m \<le> length (cands_of hs (protocol p))" by (metis scan_depth_le)
  moreover have "fst (snd (slot_run True p cand s n w)) = n + of_nat (scan_depth p ?m)"
    using None by (simp add: slot_run_def cand_loop_probes)
  ultimately show ?thesis by blast
next
  case (Some h)
  then have "fst (snd (slot_run True p cand s n w)) = n + of_nat 0"
    by (simp add: slot_run_def split: prod.split)
  then show ?thesis by blast
qed

text \<open>
  A counted dispatch of the direct table adds one probe for the slot and at most one for
  each handler registered under the packet's own key, however many handlers there are; the scan
  adds one for every handler up to the first match, and all of them on an unmatched packet.
\<close>

theorem probes_bounded:
  assumes "\<forall>h \<in> set hs. honest h" "length hs < 2 ^ 16"
  shows "(\<exists>k \<le> length (cands_of hs (protocol p)).
      d_probes (fst (snd (direct16_run True p (table_direct16 hs) w))) =
      d_probes (table_direct16 hs) + 1 + of_nat k) \<and>
    probes (fst (snd (scan_run True p (scan_unordered hs) w))) = of_nat (scan_depth p hs) \<and>
    ((\<forall>h \<in> set hs. \<not> matches h p) \<longrightarrow> scan_depth p hs = length hs)"
proof -
  let ?a = "table_direct16 hs"
  have "slot_for hs (d_cand ?a) (protocol p) (d_tbl ?a (protocol p))" "length (d_cand ?a) < 2 ^ 32"
    using table_direct16_for [OF assms] by (auto simp: direct16_for_def fill_inv_def)
  from slot_run_probes [OF this, of "d_probes ?a + 1" w]
  have "\<exists>k \<le> length (cands_of hs (protocol p)).
      d_probes (fst (snd (direct16_run True p ?a w))) = d_probes ?a + 1 + of_nat k"
    by (simp add: direct16_run_def Let_def split_beta)
  moreover have "probes (fst (snd (scan_run True p (scan_unordered hs) w))) =
      of_nat (scan_depth p hs)"
    by (simp add: scan_run_def scan_loop_probes split_beta) (simp add: scan_unordered_def)
  moreover have "(\<forall>h \<in> set hs. \<not> matches h p) \<longrightarrow> scan_depth p hs = length hs"
    by (induction hs) auto
  ultimately show ?thesis by blast
qed

theorem probes_bounded_witness:
  "probes (fst (snd (scan_run True
      \<lparr>protocol = 4096, pkt_length = 64, flags = 0, payload = replicate 24 0\<rparr>
      (scan_unordered [overlapping 1, overlapping 2]) ()))) = 2"
  using probes_bounded [of "[overlapping 1, overlapping 2 :: unit handler]"
      "\<lparr>protocol = 4096, pkt_length = 64, flags = 0, payload = replicate 24 0\<rparr>" "()"]
  by (simp add: overlapping_def honest_def)

section \<open>The key that marks an empty slot\<close>

text \<open>
  Two honest handlers: a pure one for the key 0xFFFF, which is also the mark of an empty slot,
  and a residual one for the key 0x03FF, in the same slot.
\<close>

definition sentinel_pure :: "unit handler" where
  "sentinel_pure =
     \<lparr>matches = (\<lambda>p. protocol p = 0xFFFF),
      process = (\<lambda>p w. (\<lparr>res_value = 1, res_handler = 1\<rparr>, w)),
      declares = \<lparr>reg_key = 0xFFFF, residual = False\<rparr>\<rparr>"

definition sentinel_residual :: "unit handler" where
  "sentinel_residual =
     \<lparr>matches = (\<lambda>p. protocol p = 0x03FF \<and> flags p = 0),
      process = (\<lambda>p w. (\<lparr>res_value = 2, res_handler = 2\<rparr>, w)),
      declares = \<lparr>reg_key = 0x03FF, residual = True\<rparr>\<rparr>"

text \<open>
  C28: The compact table can return the wrong handler while reporting itself collision-free: over
  these two handlers \<open>injective()\<close> is true, yet a packet of the second handler's protocol is
  answered by the first handler, without a test, and a packet of the first one's protocol is
  refused, where the brief's loop answers both.
\<close>

theorem compact_sentinel_collision:
  fixes p :: packet
  defines "hs \<equiv> [sentinel_pure, sentinel_residual]"
  shows "(\<forall>h \<in> set hs. honest h) \<and> exclusive hs \<and> injective (table_compact hs) \<and>
    (protocol p = 0x03FF \<and> flags p = 0 \<longrightarrow>
       res_handler (fst (compact_run c p (table_compact hs) ())) = 1 \<and>
       res_handler (fst (scan_run c p (scan_unordered hs) ())) = 2) \<and>
    (protocol p = 0xFFFF \<longrightarrow>
       fst (compact_run c p (table_compact hs) ()) = unsupported \<and>
       res_handler (fst (scan_run c p (scan_unordered hs) ())) = 1)"
proof -
  note hdefs = sentinel_pure_def sentinel_residual_def
  have tbl: "injective (table_compact hs)"
    "c_tbl (table_compact hs) 0x3FF =
      \<lparr>only = Some sentinel_pure, slot_begin = 0, slot_count = 1, c_key = 0x3FF\<rparr>"
    by (simp_all add: hs_def hdefs table_compact_def entries_def distinct_keys_def
        fill_cslot_def with_key_def kMask_def kEmpty_def empty_cslot_def empty_slot_def
        slot.defs Let_def)
  have "honest h" if "h \<in> set hs" for h using that by (auto simp: hs_def hdefs honest_def)
  moreover have "exclusive hs" by (auto simp: exclusive_def hs_def hdefs)
  moreover have "fst (scan_run c p (scan_unordered hs) ()) =
      (if protocol p = 0xFFFF then \<lparr>res_value = 1, res_handler = 1\<rparr>
       else if protocol p = 0x03FF \<and> flags p = 0 then \<lparr>res_value = 2, res_handler = 2\<rparr>
       else unsupported)"
    by (simp add: scan_run_def scan_unordered_def hs_def hdefs Let_def)
  ultimately show ?thesis
    using tbl by (auto simp: compact_run_def Let_def kMask_def kEmpty_def slot.defs slot_run_def hdefs)
qed

theorem compact_sentinel_collision_witness:
  "res_handler (fst (compact_run True
     \<lparr>protocol = 0x03FF, pkt_length = 0, flags = 0, payload = []\<rparr>
     (table_compact [sentinel_pure, sentinel_residual]) ())) = 1"
  using compact_sentinel_collision
    [of "\<lparr>protocol = 0x03FF, pkt_length = 0, flags = 0, payload = []\<rparr>" True] by simp

end
