(* ===== verification/Sw_Stream.thy ===== *)
theory Sw_Stream
  imports Complex_Main Sw_Hazards
begin

text \<open>
  The packet stream of plugin-dispatch-kata/cpp/src/packet.hpp, class \<open>PacketStream\<close>. What the
  random generator and \<open>std::shuffle\<close> deliver, and the values of \<open>std::pow\<close>, are arguments; weights
  and draws are rational numbers, so the rounding of doubles is not modelled.

  The lemmas say that a draw picks each handler with exactly its weight, that the frequencies
  count the draws, and what they do not count: which handler accepts the packet.
\<close>

section \<open>Weights\<close>

datatype distribution = Uniform | Zipf | Hot95 | Worst

definition kPacketPool :: nat where "kPacketPool = 2 ^ 15"
definition kUnmatchedKeyBase :: u16 where "kUnmatchedKeyBase = 4096"
definition kUnmatchedFraction :: rat where "kUnmatchedFraction = 2 / 100"

fun weight :: "(nat \<Rightarrow> rat) \<Rightarrow> distribution \<Rightarrow> nat \<Rightarrow> nat \<Rightarrow> rat" where
  "weight pw Uniform n i = 1"
| "weight pw Zipf n i = 1 / pw (i + 1)"
| "weight pw Hot95 n i = (if i < 2 then 475 / 1000 else (5 / 100) / of_nat (n - 2))"
| "weight pw Worst n i = (if i = n - 1 then 1 else 0)"

fun cdf_loop :: "rat \<Rightarrow> rat \<Rightarrow> rat list \<Rightarrow> rat list" where
  "cdf_loop s acc [] = []"
| "cdf_loop s acc (x # xs) = (let acc' = acc + x / s in acc' # cdf_loop s acc' xs)"

record chooser =
  cdf :: "rat list"
  perm :: "nat list"

definition build_cdf :: "(nat \<Rightarrow> rat) \<Rightarrow> (nat list \<Rightarrow> nat list) \<Rightarrow> distribution \<Rightarrow> nat \<Rightarrow> chooser" where
  "build_cdf pw shuffle d n =
     (let w = map (weight pw d n) [0..<n]
      in \<lparr>cdf = cdf_loop (foldl (+) 0 w) 0 w,
          perm = if d \<noteq> Worst then shuffle [0..<n] else [0..<n]\<rparr>)"

fun pick_loop :: "rat \<Rightarrow> rat list \<Rightarrow> nat list \<Rightarrow> nat \<Rightarrow> nat" where
  "pick_loop u [] pm i = last pm"
| "pick_loop u (c # cs) pm i = (if u \<le> c then pm ! i else pick_loop u cs pm (i + 1))"

definition pick :: "chooser \<Rightarrow> rat \<Rightarrow> nat" where
  "pick ch u = pick_loop u (cdf ch) (perm ch) 0"

section \<open>Generation\<close>

text \<open>What the generator delivers for one packet, in the order it is asked.\<close>

record draw =
  dw_unit :: rat
  dw_key :: u64
  dw_pick :: rat
  dw_flags :: u64
  dw_bytes :: "nat \<Rightarrow> u64"

definition unmatched :: "draw \<Rightarrow> bool" where
  "unmatched x \<longleftrightarrow> dw_unit x < kUnmatchedFraction"

definition fill_packet :: "chooser \<Rightarrow> u16 list \<Rightarrow> draw \<Rightarrow> u64 list \<Rightarrow> packet \<times> u64 list" where
  "fill_packet ch keys x freq =
     (let (key, freq') =
        (if unmatched x then (ucast (ucast kUnmatchedKeyBase + dw_key x mod 256), freq)
         else let h = pick ch (dw_pick x) in (keys ! h, freq[h := freq ! h + 1]))
      in (\<lparr>protocol = key, pkt_length = 64, flags = ucast (dw_flags x),
           payload = map (\<lambda>b. ucast (dw_bytes x b)) [0..<24]\<rparr>, freq'))"

fun fill_loop :: "chooser \<Rightarrow> u16 list \<Rightarrow> draw list \<Rightarrow> u64 list \<Rightarrow> packet list \<times> u64 list" where
  "fill_loop ch keys [] freq = ([], freq)"
| "fill_loop ch keys (x # xs) freq =
     (let (p, freq1) = fill_packet ch keys x freq; (ps, freq2) = fill_loop ch keys xs freq1
      in (p # ps, freq2))"

definition packet_stream ::
    "(nat \<Rightarrow> rat) \<Rightarrow> (nat list \<Rightarrow> nat list) \<Rightarrow> distribution \<Rightarrow> u16 list \<Rightarrow> (nat \<Rightarrow> draw) \<Rightarrow>
     packet list \<times> u64 list" where
  "packet_stream pw shuffle d keys draws =
     fill_loop (build_cdf pw shuffle d (length keys)) keys (map draws [0..<kPacketPool])
       (replicate (length keys) 0)"

section \<open>Each handler gets its weight\<close>

lemma cdf_loop_length [simp]: "length (cdf_loop s acc ws) = length ws"
  by (induction ws arbitrary: acc) (simp_all add: Let_def)

lemma cdf_loop_nth:
  "i < length ws \<Longrightarrow> cdf_loop s acc ws ! i = acc + sum_list (take (Suc i) ws) / s"
proof (induction ws arbitrary: acc i)
  case (Cons x ws)
  then show ?case by (cases i) (simp_all add: Let_def add_divide_distrib)
qed simp

lemma pick_loop_at:
  "k < length cs \<Longrightarrow> u \<le> cs ! k \<Longrightarrow> \<forall>j < k. cs ! j < u \<Longrightarrow> pick_loop u cs pm i = pm ! (i + k)"
proof (induction cs arbitrary: i k)
  case (Cons c cs)
  show ?case
  proof (cases k)
    case 0
    then show ?thesis using Cons.prems(2) by simp
  next
    case (Suc k')
    then have "c < u" using Cons.prems(3) by force
    moreover have "\<forall>j < k'. cs ! j < u" using Cons.prems(3) Suc by force
    ultimately show ?thesis using Cons.IH [of k' "i + 1"] Cons.prems Suc by simp
  qed
qed simp

lemma foldl_plus: "foldl (+) a ws = a + sum_list ws" for a :: rat
  by (induction ws arbitrary: a) (simp_all add: add.assoc)

text \<open>The share of the first \<open>i\<close> ranks.\<close>

definition share_below :: "(nat \<Rightarrow> rat) \<Rightarrow> distribution \<Rightarrow> nat \<Rightarrow> nat \<Rightarrow> rat" where
  "share_below pw d n i =
     (\<Sum>j < i. weight pw d n j) / (\<Sum>j < n. weight pw d n j)"

lemma sum_list_upt: "sum_list (map f [0..<n]) = (\<Sum>j < n. f j)" for f :: "nat \<Rightarrow> rat"
  by (simp add: interv_sum_list_conv_sum_set_nat atLeast0LessThan)

lemma cdf_share:
  assumes "i < n"
  shows "cdf (build_cdf pw shuffle d n) ! i = share_below pw d n (Suc i)"
proof -
  have "take (Suc i) [0..<n] = [0..<Suc i]" using assms by simp
  then show ?thesis
    using assms unfolding build_cdf_def Let_def share_below_def
    by (simp only: chooser.simps cdf_loop_nth length_map length_upt take_map foldl_plus sum_list_upt
        diff_zero add_0)
qed

text \<open>
  A draw in the unit interval picks the handler at rank \<open>i\<close> of the shuffled order exactly when it
  falls between the cumulated weights of the ranks below \<open>i\<close> and of those up to \<open>i\<close>: each rank has
  exactly its normalised weight, whatever the shuffle did.
\<close>

theorem pick_has_weight:
  assumes "\<forall>j < n. 0 \<le> weight pw d n j" "0 < (\<Sum>j < n. weight pw d n j)"
    and "i < n" "share_below pw d n i < u" "u \<le> share_below pw d n (Suc i)"
  shows "pick (build_cdf pw shuffle d n) u = perm (build_cdf pw shuffle d n) ! i \<and>
    share_below pw d n (Suc i) - share_below pw d n i =
      weight pw d n i / (\<Sum>j < n. weight pw d n j)"
proof
  let ?ch = "build_cdf pw shuffle d n"
  have len: "length (cdf ?ch) = n" by (simp add: build_cdf_def Let_def)
  have mono: "share_below pw d n j \<le> share_below pw d n i" if "j \<le> i" for j
  proof -
    have "(\<Sum>k < j. weight pw d n k) \<le> (\<Sum>k < i. weight pw d n k)"
      by (rule sum_mono2) (use that assms(1, 3) in auto)
    then show ?thesis using assms(2) by (simp add: share_below_def divide_right_mono)
  qed
  have "\<forall>j < i. cdf ?ch ! j < u"
  proof (intro allI impI)
    fix j assume "j < i"
    then have "cdf ?ch ! j \<le> share_below pw d n i"
      using cdf_share [of j n pw shuffle d] mono [of "Suc j"] assms(3) by simp
    then show "cdf ?ch ! j < u" using assms(4) by simp
  qed
  then show "pick ?ch u = perm ?ch ! i"
    using pick_loop_at [of i "cdf ?ch" u "perm ?ch" 0] cdf_share [of i n pw shuffle d] len assms
    by (simp add: pick_def)
  show "share_below pw d n (Suc i) - share_below pw d n i =
      weight pw d n i / (\<Sum>j < n. weight pw d n j)"
    by (simp add: share_below_def diff_divide_distrib [symmetric])
qed

theorem pick_has_weight_witness: "pick (build_cdf (\<lambda>_. 1) rev Uniform 4) (3 / 8) = 2"
proof -
  have "{..<4} = {0, 1, 2, 3 :: nat}" "{..<Suc 1} = {0, 1 :: nat}" "{..<1} = {0 :: nat}" by auto
  then show ?thesis
    using pick_has_weight [of 4 "\<lambda>_. 1" Uniform 1 "3 / 8" rev]
    by (simp add: share_below_def build_cdf_def Let_def upt_rec)
qed

text \<open>
  The distribution named worst does not always pick the last handler: a draw of exactly zero
  picks the first, whose weight is zero.
\<close>

theorem worst_can_pick_first:
  assumes "2 \<le> n"
  shows "pick (build_cdf pw shuffle Worst n) 0 = 0 \<and>
    (0 < u \<and> u \<le> 1 \<longrightarrow> pick (build_cdf pw shuffle Worst n) u = n - 1)"
proof -
  let ?ch = "build_cdf pw shuffle Worst n"
  have sum: "(\<Sum>j < i. weight pw Worst n j) = (if n \<le> i then 1 else 0)" if "i \<le> n" for i
    using that assms by (induction i) auto
  have share: "share_below pw Worst n i = (if n \<le> i then 1 else 0)" if "i \<le> n" for i
    using sum [OF that] sum [of n] by (simp add: share_below_def)
  have len: "length (cdf ?ch) = n" and pm: "perm ?ch = [0..<n]" by (simp_all add: build_cdf_def Let_def)
  have "pick ?ch 0 = perm ?ch ! 0"
    using pick_loop_at [of 0 "cdf ?ch" 0 "perm ?ch" 0] cdf_share [of 0 n pw shuffle Worst]
      share [of 1] len assms by (simp add: pick_def)
  moreover have "pick ?ch u = n - 1" if "0 < u" "u \<le> 1"
  proof -
    have "pick ?ch u = perm ?ch ! (n - 1)"
      by (rule conjunct1 [OF pick_has_weight])
        (use assms that sum [of n] share [of n] share [of "n - 1"] in auto)
    then show ?thesis using assms pm by simp
  qed
  ultimately show ?thesis using assms pm by simp
qed

theorem worst_can_pick_first_witness: "pick (build_cdf (\<lambda>_. 1) rev Worst 100) 0 = 0"
  using worst_can_pick_first [of 100] by simp

section \<open>What the frequencies count\<close>

definition chosen :: "chooser \<Rightarrow> draw list \<Rightarrow> nat list" where
  "chosen ch xs = map (\<lambda>x. pick ch (dw_pick x)) (filter (\<lambda>x. \<not> unmatched x) xs)"

definition drawn_key :: "chooser \<Rightarrow> u16 list \<Rightarrow> draw \<Rightarrow> u16" where
  "drawn_key ch keys x =
     (if unmatched x then ucast (ucast kUnmatchedKeyBase + dw_key x mod 256)
      else keys ! pick ch (dw_pick x))"

lemma unmatched_key:
  "unat (ucast (ucast kUnmatchedKeyBase + x mod 256 :: u64) :: u16) = 4096 + unat x mod 256"
proof -
  have m: "unat (x mod 256) < 256" by (simp add: unat_mod)
  have "unat (ucast kUnmatchedKeyBase + x mod 256 :: u64) = 4096 + unat (x mod 256)"
    using m by (simp add: kUnmatchedKeyBase_def unat_word_ariths)
  then show ?thesis
    using m by (simp add: unsigned_ucast_eq unsigned_take_bit_eq take_bit_eq_mod unat_mod)
qed

lemma pick_loop_mem:
  "length cs \<le> length pm - i \<Longrightarrow> pm \<noteq> [] \<Longrightarrow> pick_loop u cs pm i \<in> set pm"
  by (induction cs arbitrary: i) auto

lemma pick_bound:
  assumes "mset (shuffle [0..<n]) = mset [0..<n]" "0 < n"
  shows "pick (build_cdf pw shuffle d n) u < n"
proof -
  let ?ch = "build_cdf pw shuffle d n"
  have m: "mset (perm ?ch) = mset [0..<n]"
    using assms(1) by (simp add: build_cdf_def Let_def)
  have pm: "set (perm ?ch) = {0..<n}" using mset_eq_setD [OF m] by simp
  have len: "length (perm ?ch) = n" using mset_eq_length [OF m] by simp
  have "length (cdf ?ch) = n" by (simp add: build_cdf_def Let_def)
  then have "pick ?ch u \<in> set (perm ?ch)"
    unfolding pick_def using assms(2) len by (intro pick_loop_mem) auto
  then show ?thesis unfolding pm by simp
qed

lemma fill_packet_eq:
  "fill_packet ch keys x freq =
     (\<lparr>protocol = drawn_key ch keys x, pkt_length = 64, flags = ucast (dw_flags x),
       payload = map (\<lambda>b. ucast (dw_bytes x b)) [0..<24]\<rparr>,
      if unmatched x then freq else freq[pick ch (dw_pick x) := freq ! pick ch (dw_pick x) + 1])"
  by (simp add: fill_packet_def drawn_key_def Let_def)

lemma fill_loop_packets:
  "fst (fill_loop ch keys xs freq) = map (\<lambda>x. fst (fill_packet ch keys x [])) xs"
  by (induction xs arbitrary: freq) (simp_all add: Let_def split_beta fill_packet_eq)

lemma fill_loop_freq:
  "h < length freq \<Longrightarrow>
   length (snd (fill_loop ch keys xs freq)) = length freq \<and>
   snd (fill_loop ch keys xs freq) ! h = freq ! h + of_nat (count_list (chosen ch xs) h)"
  by (induction xs arbitrary: freq)
    (simp_all add: Let_def split_beta fill_packet_eq chosen_def nth_list_update)

text \<open>
  A stream has the size of the pool; each packet is a whole one, with the key of the handler
  chosen for it, or for an unmatched packet one of the 256 keys from the base on; and the
  frequency of a handler is the number of packets it was chosen for.
\<close>

theorem stream_shape:
  assumes "mset (shuffle [0..<length keys]) = mset [0..<length keys]" "keys \<noteq> []"
    and "packet_stream pw shuffle d keys draws = (ps, freq)"
  shows "length ps = kPacketPool \<and> length freq = length keys \<and>
    (\<forall>i < kPacketPool. packet_ok (ps ! i) \<and>
       protocol (ps ! i) = drawn_key (build_cdf pw shuffle d (length keys)) keys (draws i) \<and>
       (if unmatched (draws i)
        then 4096 \<le> unat (protocol (ps ! i)) \<and> unat (protocol (ps ! i)) < 4352
        else protocol (ps ! i) \<in> set keys)) \<and>
    (\<forall>h < length keys. freq ! h = of_nat (count_list
       (chosen (build_cdf pw shuffle d (length keys)) (map draws [0..<kPacketPool])) h))"
proof -
  let ?ch = "build_cdf pw shuffle d (length keys)"
  have ps: "ps = map (\<lambda>i. fst (fill_packet ?ch keys (draws i) [])) [0..<kPacketPool]"
    using assms(3) fill_loop_packets [of ?ch keys "map draws [0..<kPacketPool]"]
    by (simp add: packet_stream_def prod_eq_iff comp_def)
  have freq: "freq = snd (fill_loop ?ch keys (map draws [0..<kPacketPool]) (replicate (length keys) 0))"
    using assms(3) by (simp add: packet_stream_def prod_eq_iff)
  have "protocol (fst (fill_packet ?ch keys x [])) \<in> set keys" if "\<not> unmatched x" for x
    using pick_bound [of shuffle "length keys" pw d "dw_pick x", OF assms(1)] assms(2) that
    by (simp add: fill_packet_eq drawn_key_def)
  then have "\<forall>i < kPacketPool. packet_ok (ps ! i) \<and> protocol (ps ! i) = drawn_key ?ch keys (draws i) \<and>
       (if unmatched (draws i)
        then 4096 \<le> unat (protocol (ps ! i)) \<and> unat (protocol (ps ! i)) < 4352
        else protocol (ps ! i) \<in> set keys)"
    by (simp add: ps fill_packet_eq packet_ok_def drawn_key_def unmatched_key)
  moreover have "length ps = kPacketPool" by (simp add: ps)
  moreover have "length freq = length keys \<and> (\<forall>h < length keys. freq ! h = of_nat (count_list
       (chosen ?ch (map draws [0..<kPacketPool])) h))"
    using fill_loop_freq [of _ "replicate (length keys) 0" ?ch keys "map draws [0..<kPacketPool]"]
      assms(2) by (auto simp: freq)
  ultimately show ?thesis by blast
qed

definition still_draws :: "nat \<Rightarrow> draw" where
  "still_draws i = \<lparr>dw_unit = 1 / 2, dw_key = 0, dw_pick = 1 / 4, dw_flags = 0, dw_bytes = (\<lambda>b. 3)\<rparr>"

theorem stream_shape_witness:
  "length (fst (packet_stream (\<lambda>_. 1) rev Uniform [5, 6] still_draws)) = kPacketPool"
proof -
  obtain ps freq where "packet_stream (\<lambda>_. 1) rev Uniform [5, 6] still_draws = (ps, freq)" by fastforce
  then show ?thesis using stream_shape [of rev "[5, 6]" "\<lambda>_. 1" Uniform still_draws ps freq] by simp
qed

text \<open>
  No generated handler accepts an unmatched packet: every arm answers that it is unsupported.
\<close>

theorem unmatched_unsupported:
  assumes "unmatched x"
  shows "first_match (first_handlers r m) (fst (fill_packet ch keys x freq)) w = (unsupported, w)"
proof (rule first_match_none, intro ballI)
  fix h :: "'a handler" assume "h \<in> set (first_handlers r m)"
  then obtain n where n: "n < kHandlers" "h = generated r n"
    using first_handlers_set by fastforce
  let ?p = "fst (fill_packet ch keys x freq)"
  have "4096 \<le> unat (protocol ?p)"
    using assms by (simp add: fill_packet_eq drawn_key_def unmatched_key)
  then have "protocol ?p \<noteq> key_of n" using key_of_bound [OF n(1)] by force
  then show "\<not> matches h ?p" by (simp add: n(2) gen_matches_def)
qed

theorem unmatched_unsupported_witness:
  "first_match (first_handlers 48 100)
     (fst (fill_packet (build_cdf (\<lambda>_. 1) rev Uniform 1) [0] ((still_draws 0)\<lparr>dw_unit := 0\<rparr>) [0])) () =
   (unsupported, ())"
  by (rule unmatched_unsupported) (simp add: unmatched_def kUnmatchedFraction_def)

text \<open>
  C19: The frequencies are not the traffic of a handler with a residual predicate. A packet drawn for
  such a handler carries its key but a random first byte: the handler accepts it only when the two
  low bits of the byte are its own, and another handler of the key, or none, does otherwise.
\<close>

theorem frequency_is_not_traffic:
  assumes "\<not> unmatched x" "pick ch (dw_pick x) = n" "n < kHandlers" "residual_of n"
  shows "snd (fill_packet ch (map key_of [0..<kHandlers]) x freq) = freq[n := freq ! n + 1] \<and>
    (gen_matches n (fst (fill_packet ch (map key_of [0..<kHandlers]) x freq)) \<longleftrightarrow>
       (ucast (dw_bytes x 0) :: u8) AND 3 = of_nat (n div 10) AND 3)"
  using assms by (simp add: fill_packet_eq drawn_key_def gen_matches_def)

theorem frequency_is_not_traffic_witness:
  "snd (fill_packet \<lparr>cdf = [], perm = [7]\<rparr> (map key_of [0..<kHandlers]) (still_draws 0) (replicate 100 0)) ! 7 = 1 \<and>
   \<not> gen_matches 7 (fst (fill_packet \<lparr>cdf = [], perm = [7]\<rparr> (map key_of [0..<kHandlers]) (still_draws 0)
        (replicate 100 0)))"
proof -
  have "\<not> unmatched (still_draws 0)" "pick \<lparr>cdf = [], perm = [7]\<rparr> (dw_pick (still_draws 0)) = 7"
    "(7 :: nat) < kHandlers" "residual_of 7"
    by (simp_all add: unmatched_def still_draws_def kUnmatchedFraction_def pick_def kHandlers_def residual_of_def)
  from frequency_is_not_traffic [OF this, of "replicate 100 0"] show ?thesis
    by (simp add: still_draws_def)
qed

section \<open>Phase 1 of the bench\<close>

definition name_of :: "distribution \<Rightarrow> string" where
  "name_of d = (case d of Uniform \<Rightarrow> ''uniform'' | Zipf \<Rightarrow> ''zipf'' | Hot95 \<Rightarrow> ''95/5'' | Worst \<Rightarrow> ''worst'')"

text \<open>The checks of \<open>phase_invariants\<close>, in order; \<open>w\<close> is a world the handlers do not touch.\<close>

definition phase_invariants ::
    "(nat \<Rightarrow> rat) \<Rightarrow> (nat list \<Rightarrow> nat list) \<Rightarrow> (nat \<Rightarrow> draw) \<Rightarrow> 'w \<Rightarrow> bool list" where
  "phase_invariants pw shuffle draws w =
     (let hs = handler_set kFatRounds; keys = map key_of [0..<kHandlers];
          (ps, freq) = packet_stream pw shuffle Zipf keys draws;
          want = checksum_of (scan_run False) (scan_unordered hs) ps w;
          p = \<lparr>protocol = 3000, pkt_length = 0, flags = 0, payload = replicate 24 0\<rparr>;
          rf = fst (scan_run False p (scan_unordered [overlapping 1, overlapping 2]) w);
          rr = fst (scan_run False p (scan_unordered [overlapping 2, overlapping 1]) w)
      in [checksum_of (scan_run False) (scan_ordered hs freq) ps w = want,
          checksum_of (mtf_run False) (scan_unordered hs) ps w = want,
          checksum_of (direct16_run False) (table_direct16 hs) ps w = want,
          checksum_of (compact_run False) (table_compact hs) ps w = want,
          injective (table_compact hs),
          res_handler rf = 1 \<and> res_handler rr = 2])"

lemma handler_set_first: "handler_set r = first_handlers r kHandlers"
  by (simp add: first_handlers_def handler_set_def)

text \<open>
  Phase 1 passes, all six checks, whatever stream the random generator produces: the four other
  arms have the checksum of the brief's loop, the compact mapping is collision-free, and the order
  of a list decides between two overlapping handlers.
\<close>

theorem phase_one_passes: "list_all id (phase_invariants pw shuffle draws w)"
proof -
  let ?hs = "first_handlers kFatRounds kHandlers"
  obtain ps freq where s: "packet_stream pw shuffle Zipf (map key_of [0..<kHandlers]) draws = (ps, freq)"
    by fastforce
  let ?want = "checksum_of (ref_dispatch ?hs) () ps w"
  have "checksum_of (scan_run False) (scan_unordered ?hs) ps w = ?want"
    by (rule scan.checksum_agrees) simp
  moreover have "checksum_of (scan_run False) (scan_ordered ?hs freq) ps w = ?want"
    by (rule ordered.checksum_agrees) (simp add: first_handlers_exclusive scan_ordered_mset)
  moreover have "checksum_of (mtf_run False) (scan_unordered ?hs) ps w = ?want"
    by (rule mtf.checksum_agrees) (simp add: first_handlers_exclusive)
  moreover have "checksum_of (direct16_run False) (table_direct16 ?hs) ps w = ?want"
    by (rule direct16.checksum_agrees)
      (rule table_direct16_for [OF first_handlers_honest first_handlers_length])
  moreover have "checksum_of (compact_run False) (table_compact ?hs) ps w = ?want"
    by (rule compact.checksum_agrees) (rule first_handlers_compact(2))
  moreover have "injective (table_compact ?hs)" by (rule first_handlers_compact(1))
  ultimately show ?thesis
    unfolding phase_invariants_def Let_def s handler_set_first
    by (simp add: scan_run_def scan_unordered_def overlapping_def)
qed

end
