(* ===== verification/Sw_Measure.thy ===== *)
theory Sw_Measure
  imports Complex_Main Sw_Generated
begin

text \<open>
  The measuring templates of plugin-dispatch-kata/cpp/bench/harness.hpp: the median of
  repetitions, the timed run of an arm that is rebuilt for every repetition, the repetition-major
  order of \<open>measure_interleaved\<close> and \<open>measure_arms\<close>, and the untimed pass that counts probes. The
  clock is a function on the world the runs share; times are rational numbers, so the rounding of
  doubles is not modelled.
\<close>

section \<open>Measurements\<close>

definition kReps :: nat where "kReps = 9"

definition median_of :: "rat list \<Rightarrow> rat" where
  "median_of v = sort v ! (length v div 2)"

record measured =
  ns_per_packet :: rat
  m_checksum :: u64

type_synonym 'w clock = "'w \<Rightarrow> rat \<times> 'w"
type_synonym 'w timed = "'w \<Rightarrow> measured \<times> 'w"

text \<open>A factory's arm, built and run once over a stream (\<open>run_arm\<close> with its clock readings, in seconds).\<close>

definition timed_arm ::
    "'w clock \<Rightarrow> ('w \<Rightarrow> 'a \<times> 'w) \<Rightarrow> (packet \<Rightarrow> 'a \<Rightarrow> 'w \<Rightarrow> result \<times> 'a \<times> 'w) \<Rightarrow> packet list \<Rightarrow> 'w timed" where
  "timed_arm now build dispatch ps w =
     (let (a, w1) = build w; (t0, w2) = now w1;
          (h, _, w3) = pass_loop dispatch ps (passes (length ps)) fnv_basis a w2;
          (t1, w4) = now w3
      in (\<lparr>ns_per_packet = (t1 - t0) * 10 ^ 9 / (of_nat (passes (length ps)) * of_nat (length ps)),
           m_checksum = h\<rparr>, w4))"

fun repeat :: "nat \<Rightarrow> 'w timed \<Rightarrow> 'w \<Rightarrow> measured list \<times> 'w" where
  "repeat 0 run w = ([], w)"
| "repeat (Suc n) run w =
     (let (m, w1) = run w; (ms, w2) = repeat n run w1 in (m # ms, w2))"

definition measure_run :: "'w timed \<Rightarrow> 'w \<Rightarrow> measured \<times> 'w" where
  "measure_run run w =
     (let (_, w1) = run w; (ms, w2) = repeat kReps run w1
      in (\<lparr>ns_per_packet = median_of (map ns_per_packet ms), m_checksum = m_checksum (last ms)\<rparr>, w2))"

text \<open>One repetition of every arm, in order; then the next.\<close>

fun one_round :: "'w timed list \<Rightarrow> 'w \<Rightarrow> measured list \<times> 'w" where
  "one_round [] w = ([], w)"
| "one_round (r # rs) w = (let (m, w1) = r w; (ms, w2) = one_round rs w1 in (m # ms, w2))"

fun rounds :: "nat \<Rightarrow> 'w timed list \<Rightarrow> 'w \<Rightarrow> measured list list \<times> 'w" where
  "rounds 0 runs w = ([], w)"
| "rounds (Suc n) runs w =
     (let (ms, w1) = one_round runs w; (mss, w2) = rounds n runs w1 in (ms # mss, w2))"

definition measure_arms :: "'w timed list \<Rightarrow> 'w \<Rightarrow> measured list \<times> 'w" where
  "measure_arms runs w =
     (let (_, w1) = one_round runs w; (mss, w2) = rounds kReps runs w1
      in (map (\<lambda>k. \<lparr>ns_per_packet = median_of (map (\<lambda>ms. ns_per_packet (ms ! k)) mss),
                    m_checksum = m_checksum (last mss ! k)\<rparr>) [0..<length runs], w2))"

text \<open>The same with one stream for all arms.\<close>

definition measure_interleaved ::
    "packet list \<Rightarrow> (packet list \<Rightarrow> 'w timed) list \<Rightarrow> 'w \<Rightarrow> measured list \<times> 'w" where
  "measure_interleaved ps arms w = measure_arms (map (\<lambda>arm. arm ps) arms) w"

text \<open>What every call and every reading of the clock keeps of the world, a measurement keeps.\<close>

lemma checksum_loop_keeps:
  "(\<And>p a w. p \<in> set ps \<Longrightarrow> P w \<Longrightarrow> P (snd (snd (dispatch p a w)))) \<Longrightarrow> P w \<Longrightarrow>
   P (snd (snd (checksum_loop dispatch ps h a w)))"
  by (induction ps arbitrary: h a w) (simp_all add: split_beta)

lemma pass_loop_keeps:
  assumes "\<And>p a w. p \<in> set ps \<Longrightarrow> P w \<Longrightarrow> P (snd (snd (dispatch p a w)))"
  shows "P w \<Longrightarrow> P (snd (snd (pass_loop dispatch ps k h a w)))"
proof (induction k arbitrary: h a w)
  case (Suc k)
  show ?case
    using Suc.IH [OF checksum_loop_keeps [OF assms Suc.prems]] by (simp add: split_beta)
qed simp

lemma timed_arm_keeps:
  assumes "\<And>p a w. p \<in> set ps \<Longrightarrow> P w \<Longrightarrow> P (snd (snd (dispatch p a w)))"
    and "\<And>w. P w \<Longrightarrow> P (snd (build w))" "\<And>w. P w \<Longrightarrow> P (snd (now w))" "P w"
  shows "P (snd (timed_arm now build dispatch ps w))"
  using assms(2-4) pass_loop_keeps [of ps P dispatch, OF assms(1)] by (simp add: timed_arm_def split_beta)

lemma measure_arms_keeps:
  assumes "\<forall>r \<in> set runs. \<forall>w. P w \<longrightarrow> P (snd (r w))" "P w"
  shows "P (snd (measure_arms runs w))"
proof -
  have one: "P (snd (one_round rs w))" if "set rs \<subseteq> set runs" "P w" for rs w
    using that by (induction rs arbitrary: w) (use assms(1) in \<open>simp_all add: split_beta\<close>)
  have "P (snd (rounds n runs w))" if "P w" for n w
    using that by (induction n arbitrary: w) (simp_all add: split_beta one)
  then show ?thesis using one [OF _ assms(2)] by (simp add: measure_arms_def split_beta)
qed

text \<open>All repetitions of one arm before the next: the order the code does not use.\<close>

fun measure_arm_major :: "'w timed list \<Rightarrow> 'w \<Rightarrow> measured list \<times> 'w" where
  "measure_arm_major [] w = ([], w)"
| "measure_arm_major (r # rs) w =
     (let (m, w1) = measure_run r w; (ms, w2) = measure_arm_major rs w1 in (m # ms, w2))"

definition count_probes ::
    "('a \<Rightarrow> 'a) \<Rightarrow> (packet \<Rightarrow> 'a \<Rightarrow> 'w \<Rightarrow> result \<times> 'a \<times> 'w) \<Rightarrow> ('a \<Rightarrow> u64) \<Rightarrow> 'a \<Rightarrow> packet list \<Rightarrow> 'w \<Rightarrow> rat" where
  "count_probes reset dispatch_counted probes_of a ps w =
     (let (h, a1, w1) = checksum_loop dispatch_counted ps fnv_basis (reset a) w
      in of_nat (unat (probes_of a1)) / of_nat (length ps))"

section \<open>Drift\<close>

text \<open>
  A machine that slows down: run number \<open>m\<close> of the process takes \<open>d m\<close> longer than the arm's own
  cost \<open>c\<close>. The world is the number of runs so far.
\<close>

definition drifting :: "(nat \<Rightarrow> rat) \<Rightarrow> rat \<Rightarrow> u64 \<Rightarrow> nat timed" where
  "drifting d c h m = (\<lparr>ns_per_packet = c + d m, m_checksum = h\<rparr>, m + 1)"

lemma median_mono:
  assumes "mono d" shows "median_of (map (\<lambda>i. c + d (b + a * i)) [0..<kReps]) = c + d (b + a * 4)"
proof -
  have "sorted (map (\<lambda>i. c + d (b + a * i)) [0..<kReps])"
    by (auto simp: sorted_iff_nth_mono intro!: monoD [OF assms])
  then show ?thesis by (simp add: median_of_def sorted_sort_id kReps_def)
qed

lemma repeat_drifting:
  "repeat n (drifting d c h) m = (map (\<lambda>i. \<lparr>ns_per_packet = c + d (m + i), m_checksum = h\<rparr>) [0..<n], m + n)"
proof (induction n arbitrary: m)
  case (Suc n)
  then show ?case by (simp add: drifting_def upt_conv_Cons map_Suc_upt [symmetric] comp_def del: upt_Suc)
qed simp

lemma one_round_drifting:
  "one_round (map (\<lambda>(c, h). drifting d c h) arms) m =
     (map (\<lambda>k. \<lparr>ns_per_packet = fst (arms ! k) + d (m + k), m_checksum = snd (arms ! k)\<rparr>)
        [0..<length arms], m + length arms)"
proof (induction arms arbitrary: m)
  case (Cons a arms)
  show ?case
    by (simp add: Cons [unfolded case_prod_unfold] drifting_def [of d "fst a" "snd a" m] case_prod_unfold upt_conv_Cons map_Suc_upt [symmetric] comp_def del: upt_Suc)
qed simp

lemma rounds_drifting:
  "rounds n (map (\<lambda>(c, h). drifting d c h) arms) m =
     (map (\<lambda>i. map (\<lambda>k. \<lparr>ns_per_packet = fst (arms ! k) + d (m + k + length arms * i),
                          m_checksum = snd (arms ! k)\<rparr>) [0..<length arms]) [0..<n],
      m + length arms * n)"
proof (induction n arbitrary: m)
  case (Suc n)
  show ?case
    by (simp add: one_round_drifting Suc upt_conv_Cons map_Suc_upt [symmetric] comp_def add_ac del: upt_Suc)
qed simp

text \<open>
  Interleaving makes drift common to the arms: measured repetition-major, arm \<open>k\<close> of \<open>n\<close> is
  charged the drift of run \<open>5 n + k\<close>; measured arm after arm it would be charged that of run
  \<open>10 k + 5\<close>. With a constant drift per run two neighbouring arms come out one step apart instead
  of ten. The checksum reported is the arm's own.
\<close>

theorem interleaving_shares_drift:
  assumes "mono d" "k < length arms"
  shows "fst (measure_arms (map (\<lambda>(c, h). drifting d c h) arms) 0) ! k =
      \<lparr>ns_per_packet = fst (arms ! k) + d (5 * length arms + k), m_checksum = snd (arms ! k)\<rparr> \<and>
    fst (measure_arm_major (map (\<lambda>(c, h). drifting d c h) arms) 0) ! k =
      \<lparr>ns_per_packet = fst (arms ! k) + d (10 * k + 5), m_checksum = snd (arms ! k)\<rparr>"
proof -
  have one: "measure_run (drifting d c h) m =
      (\<lparr>ns_per_packet = c + d (m + 5), m_checksum = h\<rparr>, m + 10)" for c h m
    using median_mono [OF assms(1), of c "m + 1" 1]
    by (simp add: measure_run_def drifting_def [of d c h m] repeat_drifting comp_def kReps_def last_map add_ac)
  have major: "measure_arm_major (map (\<lambda>(c, h). drifting d c h) as) m =
      (map (\<lambda>k. \<lparr>ns_per_packet = fst (as ! k) + d (m + 10 * k + 5), m_checksum = snd (as ! k)\<rparr>)
         [0..<length as], m + 10 * length as)" for as m
  proof (induction as arbitrary: m)
    case (Cons a as)
    show ?case
      by (simp add: Cons [unfolded case_prod_unfold] one case_prod_unfold upt_conv_Cons map_Suc_upt [symmetric] comp_def add_ac del: upt_Suc)
  qed simp
  show ?thesis
    using assms(2) median_mono [OF assms(1), of "fst (arms ! k)" "length arms + k" "length arms"]
    by (simp add: measure_arms_def one_round_drifting rounds_drifting major comp_def kReps_def last_map algebra_simps)
qed

theorem interleaving_shares_drift_witness:
  "ns_per_packet (fst (measure_arms (map (\<lambda>(c, h). drifting of_nat c h) [(7, 0), (7, 0)]) 0) ! 1) = 18"
  using interleaving_shares_drift [of of_nat 1 "[(7, 0), (7, 0)]"]
  by (simp add: mono_def)

section \<open>Checksums of measured arms\<close>

text \<open>
  Handlers that leave the world alone and answer from the packet, as the generated ones do: what
  an arm over them computes does not depend on when it is run.
\<close>

definition inert :: "'w handler list \<Rightarrow> bool" where
  "inert hs \<longleftrightarrow> (\<forall>h \<in> set hs. \<forall>p w. snd (process h p w) = w) \<and>
     (\<forall>h \<in> set hs. \<forall>p w w'. fst (process h p w) = fst (process h p w'))"

lemma first_handlers_inert: "inert (first_handlers r n)"
proof -
  have "snd (process h p w) = w \<and> fst (process h p w) = fst (process h p w')"
    if "h \<in> set (first_handlers r n)" for h :: "'a handler" and p w w'
    using first_handlers_set [OF that] by (auto simp: generated_def)
  then show ?thesis unfolding inert_def by blast
qed

lemma inert_first_match:
  "inert hs \<Longrightarrow> snd (first_match hs p w) = w \<and> fst (first_match hs p w) = fst (first_match hs p w')"
  by (induction hs) (auto simp: inert_def)

lemma inert_checksum_loop:
  assumes "inert hs"
  shows "checksum_loop (ref_dispatch hs) ps h () w =
    (fst (checksum_loop (ref_dispatch hs) ps h () w'), (), w)"
proof (induction ps arbitrary: h)
  case (Cons p ps)
  obtain r where r: "first_match hs p w = (r, w)" "first_match hs p w' = (r, w')"
    using inert_first_match [OF assms, of p w w'] inert_first_match [OF assms, of p w' w]
    by (cases "first_match hs p w"; cases "first_match hs p w'") auto
  then show ?case using Cons.IH [of "feed r h"] by (simp add: ref_dispatch_def)
qed simp

lemma inert_pass_loop:
  assumes "inert hs"
  shows "fst (pass_loop (ref_dispatch hs) ps k h () w) = fst (pass_loop (ref_dispatch hs) ps k h () w')"
proof (induction k arbitrary: h)
  case (Suc k)
  then show ?case
    using inert_checksum_loop [OF assms, of ps h w w'] inert_checksum_loop [OF assms, of ps h w' w']
    by (simp add: split_beta) (metis fst_conv snd_conv)
qed simp

lemma inert_run_arm:
  "inert hs \<Longrightarrow> run_arm (ref_dispatch hs) () ps w = run_arm (ref_dispatch hs) () ps w'"
  unfolding run_arm_def by (rule inert_pass_loop)

context dispatch_arm begin

text \<open>A timed run of an arm over inert handlers reports their checksum, whatever the clock does.\<close>

lemma timed_checksum:
  assumes "\<And>w. represents hs (fst (build w))" "inert hs"
  shows "m_checksum (fst (timed_arm now build dispatch ps w)) = run_arm (ref_dispatch hs) () ps w'"
proof -
  let ?w2 = "snd (now (snd (build w)))"
  have "m_checksum (fst (timed_arm now build dispatch ps w)) = run_arm dispatch (fst (build w)) ps ?w2"
    by (simp add: timed_arm_def run_arm_def split_beta)
  also have "\<dots> = run_arm (ref_dispatch hs) () ps w'"
    using run_arm_agrees [OF assms(1)] inert_run_arm [OF assms(2)] by simp
  finally show ?thesis .
qed

end

text \<open>
  Each arm keeps its own checksum through all repetitions.
\<close>

lemma one_round_each:
  "list_all2 (\<lambda>r s. \<forall>w. m_checksum (fst (r w)) = s) runs ss \<Longrightarrow>
   map m_checksum (fst (one_round runs w)) = ss"
  by (induction runs ss arbitrary: w rule: list_all2_induct) (auto simp: split_beta)

lemma rounds_each:
  "list_all2 (\<lambda>r s. \<forall>w. m_checksum (fst (r w)) = s) runs ss \<Longrightarrow>
   length (fst (rounds n runs w)) = n \<and> (\<forall>ms \<in> set (fst (rounds n runs w)). map m_checksum ms = ss)"
  by (induction n arbitrary: w) (auto simp: split_beta one_round_each)

lemma measure_arms_each:
  assumes "list_all2 (\<lambda>r s. \<forall>w. m_checksum (fst (r w)) = s) runs ss"
  shows "map m_checksum (fst (measure_arms runs w)) = ss"
proof -
  obtain ms w1 where r1: "one_round runs w = (ms, w1)" by fastforce
  obtain mss w2 where r2: "rounds kReps runs w1 = (mss, w2)" by fastforce
  have len: "length ss = length runs" using list_all2_lengthD [OF assms] by simp
  have "length mss = kReps" and mss: "\<forall>ms \<in> set mss. map m_checksum ms = ss"
    using rounds_each [OF assms, of kReps w1] by (simp_all add: r2)
  then have ss: "map m_checksum (last mss) = ss" by (metis kReps_def last_in_set length_0_conv zero_neq_numeral)
  then have "length (last mss) = length runs" using len by (metis length_map)
  then show ?thesis using ss [symmetric] by (intro nth_equalityI) (simp_all add: measure_arms_def r1 r2)
qed

text \<open>The arms over the generated handlers, whenever they are timed.\<close>

lemma generated_arms_timed:
  fixes n r :: nat and ps :: "packet list" and w w' :: 'w and now :: "'w clock"
  defines "hs \<equiv> first_handlers r n" and "s \<equiv> run_arm (ref_dispatch (first_handlers r n)) () ps w'"
  shows "m_checksum (fst (timed_arm now (Pair (scan_unordered hs)) (scan_run False) ps w)) = s"
    and "m_checksum (fst (timed_arm now (Pair (scan_ordered hs freq)) (scan_run False) ps w)) = s"
    and "m_checksum (fst (timed_arm now (Pair (scan_unordered hs)) (mtf_run False) ps w)) = s"
    and "m_checksum (fst (timed_arm now (Pair (table_direct16 hs)) (direct16_run False) ps w)) = s"
    and "m_checksum (fst (timed_arm now (Pair (table_compact hs)) (compact_run False) ps w)) = s"
proof -
  note hon = first_handlers_honest [of r n] and ex = first_handlers_exclusive [of r n]
    and inert = first_handlers_inert [of r n]
  show "m_checksum (fst (timed_arm now (Pair (scan_unordered hs)) (scan_run False) ps w)) = s"
    unfolding s_def hs_def by (intro scan.timed_checksum inert) simp
  show "m_checksum (fst (timed_arm now (Pair (scan_ordered hs freq)) (scan_run False) ps w)) = s"
    unfolding s_def hs_def by (intro ordered.timed_checksum inert) (simp add: ex scan_ordered_mset)
  show "m_checksum (fst (timed_arm now (Pair (scan_unordered hs)) (mtf_run False) ps w)) = s"
    unfolding s_def hs_def by (intro mtf.timed_checksum inert) (simp add: ex)
  show "m_checksum (fst (timed_arm now (Pair (table_direct16 hs)) (direct16_run False) ps w)) = s"
    unfolding s_def hs_def
    by (intro direct16.timed_checksum inert) (simp add: table_direct16_for [OF hon first_handlers_length])
  show "m_checksum (fst (timed_arm now (Pair (table_compact hs)) (compact_run False) ps w)) = s"
    unfolding s_def hs_def by (intro compact.timed_checksum inert) (simp add: first_handlers_compact(2))
qed

text \<open>
  The arms of a phase are measured doing the same work: over the generated handlers, every arm that
  \<open>measure_interleaved\<close> rebuilds for each repetition reports the checksum of the brief's loop, for
  every stream, frequency table, clock and starting world.
\<close>

theorem measured_checksums_agree:
  fixes w w' :: 'w
  shows "map m_checksum (fst (measure_interleaved ps
      [timed_arm now (Pair (scan_unordered (first_handlers r n))) (scan_run False),
       timed_arm now (Pair (scan_ordered (first_handlers r n) freq)) (scan_run False),
       timed_arm now (Pair (scan_unordered (first_handlers r n))) (mtf_run False),
       timed_arm now (Pair (table_direct16 (first_handlers r n))) (direct16_run False),
       timed_arm now (Pair (table_compact (first_handlers r n))) (compact_run False)] w)) =
    replicate 5 (run_arm (ref_dispatch (first_handlers r n)) () ps w')"
  unfolding measure_interleaved_def
  by (rule measure_arms_each) (simp add: generated_arms_timed [where w' = w'] eval_nat_numeral)

section \<open>Probes\<close>

lemma scan_probe_loop:
  "probes (fst (snd (checksum_loop (scan_run True) ps h a w))) =
     probes a + of_nat (\<Sum>p \<leftarrow> ps. scan_depth p (handlers a))"
proof (induction ps arbitrary: h a w)
  case (Cons p ps)
  obtain r a1 w1 where d: "scan_run True p a w = (r, a1, w1)" by (metis prod_cases3)
  then have "handlers a1 = handlers a" "probes a1 = probes a + of_nat (scan_depth p (handlers a))"
    using scan_run_handlers [of True p a w] scan_loop_probes [of True p "handlers a" "probes a" w]
    by (auto simp: scan_run_def split: prod.splits)
  then show ?case using Cons.IH [of "feed r h" a1 w1] d by (simp add: add.assoc)
qed simp

text \<open>
  The probes per packet reported for a scan are the mean depth of its list at which the packets
  of the stream are accepted, counted afresh whatever the arm counted before.
\<close>

theorem count_probes_exact:
  assumes "length ps * length (handlers a) < 2 ^ 64"
  shows "count_probes reset_probes (scan_run True) probes a ps w =
    of_nat (\<Sum>p \<leftarrow> ps. scan_depth p (handlers a)) / of_nat (length ps)"
proof -
  let ?n = "\<Sum>p \<leftarrow> ps. scan_depth p (handlers a)"
  have "?n \<le> (\<Sum>p \<leftarrow> ps. length (handlers a))" by (intro sum_list_mono scan_depth_le)
  then have "?n < 2 ^ 64" using assms by (simp add: sum_list_triv)
  then have n: "unat (of_nat ?n :: u64) = ?n" by (simp add: unat_of_nat)
  have loop: "probes (fst (snd (checksum_loop (scan_run True) ps fnv_basis (reset_probes a) w))) = of_nat ?n"
    using scan_probe_loop [of ps fnv_basis "reset_probes a" w] by (simp add: reset_probes_def)
  show ?thesis unfolding count_probes_def Let_def split_beta loop n ..
qed

theorem count_probes_exact_witness:
  "count_probes reset_probes (scan_run True) probes (scan_unordered (first_handlers 48 3))
     [\<lparr>protocol = 1, pkt_length = 64, flags = 0, payload = []\<rparr>] () = 2"
proof -
  have hs: "first_handlers 48 3 = [generated 48 0, generated 48 1, generated 48 2 :: unit handler]"
    by (simp add: first_handlers_def handler_set_def kHandlers_def take_map upt_rec numeral_2_eq_2)
  show ?thesis
    using count_probes_exact [of "[\<lparr>protocol = 1, pkt_length = 64, flags = 0, payload = []\<rparr>]"
        "scan_unordered (first_handlers 48 3)" "()"]
    by (simp add: hs scan_unordered_def gen_matches_def key_of_def residual_of_def)
qed

end
