(* ===== verification/Sw_Mechanism.thy ===== *)
theory Sw_Mechanism
  imports Sw_Generated
begin

text \<open>
  The four ways of reaching \<open>process\<close> behind one selection: plugin-dispatch-kata/cpp/src/mechanism.hpp
  and the checks of phase 4 (bench/mechanism.cpp). A mechanism's vector of a hundred targets is a
  list; reading it past its end, which C++ leaves undefined, is the value \<open>None\<close> here, so that
  agreement includes that no index is out of range.
\<close>

section \<open>Selector\<close>

record selector =
  s_idx :: "u16 \<Rightarrow> u16"
  s_key :: "u16 \<Rightarrow> u16"

fun sel_fill :: "nat list \<Rightarrow> selector \<Rightarrow> selector" where
  "sel_fill [] s = s"
| "sel_fill (n # ns) s =
     (let k = key_of n; b = k AND kMask in
      if s_idx s b = kNone
      then sel_fill ns \<lparr>s_idx = (s_idx s)(b := of_nat n), s_key = (s_key s)(b := k)\<rparr>
      else sel_fill ns s)"

definition selector :: selector where
  "selector = sel_fill [0..<kHandlers] \<lparr>s_idx = (\<lambda>_. kNone), s_key = (\<lambda>_. 0xFFFF)\<rparr>"

definition select :: "selector \<Rightarrow> packet \<Rightarrow> u16" where
  "select s p =
     (let b = protocol p AND kMask in if s_key s b = protocol p then s_idx s b else kNone)"

text \<open>Loop invariant: each bucket holds the first handler done that claims its key.\<close>

definition bucket_ok :: "nat list \<Rightarrow> u16 \<Rightarrow> u16 \<Rightarrow> u16 \<Rightarrow> bool" where
  "bucket_ok done b i k \<longleftrightarrow>
     (case find (\<lambda>n. key_of n = b) done of
        None \<Rightarrow> i = kNone \<and> k = 0xFFFF
      | Some n \<Rightarrow> i = of_nat n \<and> k = b)"

definition sel_inv :: "nat list \<Rightarrow> selector \<Rightarrow> bool" where
  "sel_inv done s \<longleftrightarrow> (\<forall>b. bucket_ok done b (s_idx s b) (s_key s b))"

lemma small_not_kNone: "n < kHandlers \<Longrightarrow> (of_nat n :: u16) \<noteq> kNone"
proof
  assume n: "n < kHandlers" "(of_nat n :: u16) = kNone"
  then have "unat (of_nat n :: u16) = unat kNone" by simp
  then show False using n(1) by (simp add: kNone_def kHandlers_def unat_of_nat)
qed

lemma find_append:
  "find P (xs @ ys) = (case find P xs of None \<Rightarrow> find P ys | Some x \<Rightarrow> Some x)"
  by (induction xs) auto

lemma find_SomeD: "find P xs = Some x \<Longrightarrow> x \<in> set xs \<and> P x"
  by (induction xs) (auto split: if_splits)

lemma sel_fill_inv:
  "sel_inv done s \<Longrightarrow> \<forall>n \<in> set (done @ ns). n < kHandlers \<Longrightarrow> sel_inv (done @ ns) (sel_fill ns s)"
proof (induction ns arbitrary: "done" s)
  case (Cons n ns)
  have k: "key_of n AND kMask = key_of n"
    using Cons.prems(2) by (simp add: low_key_mask key_of_bound)
  have inv: "bucket_ok done b (s_idx s b) (s_key s b)" for b
    using Cons.prems(1) by (simp add: sel_inv_def)
  have idx: "s_idx s (key_of n) = kNone \<longleftrightarrow> find (\<lambda>m. key_of m = key_of n) done = None"
  proof (cases "find (\<lambda>m. key_of m = key_of n) done")
    case (Some m)
    then have "m < kHandlers" using Cons.prems(2) find_SomeD by fastforce
    then show ?thesis using Some inv [of "key_of n"] small_not_kNone [of m]
      by (simp add: bucket_ok_def)
  qed (use inv [of "key_of n"] in \<open>simp add: bucket_ok_def\<close>)
  show ?case
  proof (cases "s_idx s (key_of n) = kNone")
    case True
    have "sel_inv (done @ [n]) \<lparr>s_idx = (s_idx s)(key_of n := of_nat n),
        s_key = (s_key s)(key_of n := key_of n)\<rparr>"
      unfolding sel_inv_def
    proof (rule allI)
      fix b
      show "bucket_ok (done @ [n]) b
          (s_idx \<lparr>s_idx = (s_idx s)(key_of n := of_nat n), s_key = (s_key s)(key_of n := key_of n)\<rparr> b)
          (s_key \<lparr>s_idx = (s_idx s)(key_of n := of_nat n), s_key = (s_key s)(key_of n := key_of n)\<rparr> b)"
        using inv [of b] True idx
        by (cases "b = key_of n") (auto simp: bucket_ok_def find_append split: option.splits)
    qed
    then show ?thesis using Cons.IH [of "done @ [n]"] Cons.prems(2) True by (simp add: k Let_def)
  next
    case False
    have "bucket_ok (done @ [n]) b (s_idx s b) (s_key s b)" for b
      using inv [of b] False idx
      by (cases "b = key_of n") (auto simp: bucket_ok_def find_append split: option.splits)
    then have "sel_inv (done @ [n]) s" by (simp add: sel_inv_def)
    then show ?thesis using Cons.IH [of "done @ [n]"] Cons.prems(2) False by (simp add: k Let_def)
  qed
qed simp

lemma selector_inv: "sel_inv [0..<kHandlers] selector"
  using sel_fill_inv [of "[]" "\<lparr>s_idx = (\<lambda>_. kNone), s_key = (\<lambda>_. 0xFFFF)\<rparr>" "[0..<kHandlers]"]
  by (simp add: selector_def sel_inv_def bucket_ok_def)

lemma select_find:
  "select selector p =
    (case find (\<lambda>n. key_of n = protocol p) [0..<kHandlers] of None \<Rightarrow> kNone | Some n \<Rightarrow> of_nat n)"
proof (cases "find (\<lambda>n. key_of n = protocol p) [0..<kHandlers]")
  case (Some n)
  then have n: "n < kHandlers" "key_of n = protocol p" by (auto dest: find_SomeD)
  then have "protocol p AND kMask = protocol p" using key_of_bound [of n] by (simp add: low_key_mask)
  then show ?thesis
    using Some spec [OF selector_inv [unfolded sel_inv_def], of "protocol p"]
    by (simp add: select_def bucket_ok_def Let_def)
next
  case None
  let ?b = "protocol p AND kMask"
  show ?thesis
  proof (cases "find (\<lambda>n. key_of n = ?b) [0..<kHandlers]")
    case (Some n)
    then have "key_of n = ?b" "n < kHandlers" by (auto dest: find_SomeD)
    then have "?b \<noteq> protocol p" using None by (auto simp: find_None_iff)
    then show ?thesis
      using None Some spec [OF selector_inv [unfolded sel_inv_def], of ?b]
      by (simp add: select_def bucket_ok_def Let_def)
  next
    case None2: None
    then show ?thesis
      using None spec [OF selector_inv [unfolded sel_inv_def], of ?b]
      by (simp add: select_def bucket_ok_def Let_def) metis
  qed
qed

section \<open>The mechanisms\<close>

definition at :: "'b list \<Rightarrow> u16 \<Rightarrow> 'b option" where
  "at xs i = (if unat i < length xs then Some (xs ! unat i) else None)"

definition mech_direct :: "nat \<Rightarrow> packet \<Rightarrow> result" where
  "mech_direct rounds p = \<lparr>res_value = mix 0 rounds p, res_handler = key_of 0\<rparr>"

text \<open>\<open>MechVirtual\<close>: a vector of objects, called through their interface.\<close>

definition mech_virtual :: "nat \<Rightarrow> selector \<Rightarrow> packet \<Rightarrow> 'w \<Rightarrow> (result \<times> 'w) option" where
  "mech_virtual rounds s p w =
     (let i = select s p in
      if i = kNone then Some (unsupported, w)
      else map_option (\<lambda>h. process h p w) (at (handler_set rounds) i))"

text \<open>\<open>MechErasure\<close>: pairs of an object pointer, null here, and a function.\<close>

record erased =
  e_obj :: "unit option"
  e_fn :: "unit option \<Rightarrow> packet \<Rightarrow> result"

definition thunk :: "nat \<Rightarrow> nat \<Rightarrow> unit option \<Rightarrow> packet \<Rightarrow> result" where
  "thunk rounds n obj p = \<lparr>res_value = mix n rounds p, res_handler = key_of n\<rparr>"

definition erasure_table :: "nat \<Rightarrow> erased list" where
  "erasure_table rounds = map (\<lambda>n. \<lparr>e_obj = None, e_fn = thunk rounds n\<rparr>) [0..<kHandlers]"

definition mech_erasure :: "nat \<Rightarrow> selector \<Rightarrow> packet \<Rightarrow> result option" where
  "mech_erasure rounds s p =
     (let i = select s p in
      if i = kNone then Some unsupported
      else map_option (\<lambda>e. e_fn e (e_obj e) p) (at (erasure_table rounds) i))"

text \<open>
  \<open>MechVariant\<close>: a vector of tagged values; the tag of an alternative of \<open>HVariant\<close> is the
  template argument \<open>N\<close>, and \<open>std::visit\<close> calls the alternative's own \<open>process\<close>.
\<close>

datatype hvariant = Alternative (alt: nat)

definition variant_objs :: "hvariant list" where
  "variant_objs = map Alternative [0..<kHandlers]"

definition visit_process :: "nat \<Rightarrow> hvariant \<Rightarrow> packet \<Rightarrow> 'w \<Rightarrow> result \<times> 'w" where
  "visit_process rounds v p w = (case v of Alternative n \<Rightarrow> process (generated rounds n) p w)"

definition mech_variant :: "nat \<Rightarrow> selector \<Rightarrow> packet \<Rightarrow> 'w \<Rightarrow> (result \<times> 'w) option" where
  "mech_variant rounds s p w =
     (let i = select s p in
      if i = kNone then Some (unsupported, w)
      else map_option (\<lambda>v. visit_process rounds v p w) (at variant_objs i))"

definition mech_result :: "nat \<Rightarrow> packet \<Rightarrow> result" where
  "mech_result r p =
     (case find (\<lambda>n. key_of n = protocol p) [0..<kHandlers] of
        None \<Rightarrow> unsupported
      | Some n \<Rightarrow> \<lparr>res_value = mix n r p, res_handler = key_of n\<rparr>)"

lemma mechanisms_result:
  "mech_virtual r selector p w = Some (mech_result r p, w) \<and>
   mech_variant r selector p w = Some (mech_result r p, w) \<and>
   mech_erasure r selector p = Some (mech_result r p)"
proof (cases "find (\<lambda>n. key_of n = protocol p) [0..<kHandlers]")
  case None
  then have "select selector p = kNone" by (simp add: select_find)
  then show ?thesis
    using None by (simp add: mech_virtual_def mech_variant_def mech_erasure_def mech_result_def Let_def)
next
  case (Some n)
  then have n: "n < kHandlers" by (auto dest: find_SomeD)
  then have "select selector p = of_nat n" "(of_nat n :: u16) \<noteq> kNone"
    "unat (of_nat n :: u16) = n"
    using Some small_not_kNone [OF n] by (simp_all add: select_find unat_of_nat kHandlers_def)
  then show ?thesis
    using Some n by (simp add: mech_virtual_def mech_variant_def mech_erasure_def mech_result_def Let_def at_def
        handler_set_def variant_objs_def erasure_table_def thunk_def visit_process_def)
qed

text \<open>
  C10: The three real mechanisms give the same answer to every packet and never index their
  vectors out of range: unsupported when no handler claims the protocol, else what the first
  handler claiming it computes.
\<close>

theorem mechanisms_agree:
  "mech_virtual r selector p w =
     Some (case find (\<lambda>n. key_of n = protocol p) [0..<kHandlers] of
       None \<Rightarrow> (unsupported, w)
     | Some n \<Rightarrow> (\<lparr>res_value = mix n r p, res_handler = key_of n\<rparr>, w)) \<and>
   mech_variant r selector p w = mech_virtual r selector p w \<and>
   mech_erasure r selector p = map_option fst (mech_virtual r selector p w)"
  by (simp add: mechanisms_result mech_result_def split: option.split)

text \<open>
  The selection at build time is the brief's first-match rule exactly for the protocols whose
  claimants have no residual predicate: there a mechanism answers what the scan of the hundred
  handlers answers.
\<close>

theorem mechanism_is_scan:
  assumes "\<forall>n < kHandlers. key_of n = protocol p \<longrightarrow> \<not> residual_of n"
  shows "mech_virtual r selector p w =
    Some (let (res, _, w1) = scan_run c p (scan_unordered (handler_set r)) w in (res, w1))"
proof -
  have m: "gen_matches n p \<longleftrightarrow> key_of n = protocol p" if "n < kHandlers" for n
    using assms that by (auto simp: gen_matches_def)
  have f: "find (\<lambda>h. matches h p) (map (generated r) ns) =
      map_option (generated r) (find (\<lambda>n. gen_matches n p) ns)"
    for ns :: "nat list" by (induction ns) auto
  have "find (\<lambda>n. gen_matches n p) [0..<kHandlers] =
      find (\<lambda>n. key_of n = protocol p) [0..<kHandlers]"
    by (rule find_cong) (simp_all add: m)
  then have "first_match (handler_set r) p w =
      (case find (\<lambda>n. key_of n = protocol p) [0..<kHandlers] of
       None \<Rightarrow> (unsupported, w)
     | Some n \<Rightarrow> (\<lparr>res_value = mix n r p, res_handler = key_of n\<rparr>, w))"
    by (simp add: first_match_def handler_set_def f option.map_comp split: option.split)
  then show ?thesis
    using mechanisms_result [of r p w] scan_run_result [of c p "scan_unordered (handler_set r)" w]
    by (simp add: split_beta mech_result_def split: option.split)
qed

theorem mechanism_is_scan_witness:
  "mech_virtual 2 selector \<lparr>protocol = 2000, pkt_length = 64, flags = 0, payload = []\<rparr> () =
   Some (let (res, _, w1) = scan_run True \<lparr>protocol = 2000, pkt_length = 64, flags = 0, payload = []\<rparr>
     (scan_unordered (handler_set 2)) () in (res, w1))"
proof (rule mechanism_is_scan, intro allI impI)
  fix n assume "n < kHandlers"
    "key_of n = protocol \<lparr>protocol = 2000, pkt_length = 64, flags = 0, payload = []\<rparr>"
  then show "\<not> residual_of n" using key_of_bound [of n] by simp
qed

end
