(* ===== verification/Sw_Plugin.thy ===== *)
theory Sw_Plugin
  imports Sw_Generated
begin

text \<open>
  The plugin side of the boundary: the C structs of plugin-dispatch-kata/cpp/src/plugin_abi.h and
  the plugin of plugin/plugin.cpp, built at ABI level 1 or 2. A pointer that may be null is an
  option; the plugin's own objects live in its heap, a map from addresses to objects, and a call
  the C++ language leaves undefined (a dead object used or deleted) is the value \<open>None\<close>. The
  plugin's \<open>operator new (std::nothrow)\<close> is not code of the repository: the address it would
  choose is the argument \<open>pick\<close>, and an address that is null or still in use counts as failure.
\<close>

section \<open>The ABI\<close>

definition swy_abi_version :: u32 where "swy_abi_version = 1"
definition swy_ok :: "32 word" where "swy_ok = 0"
definition swy_unsupported :: "32 word" where "swy_unsupported = 1"
definition swy_error :: "32 word" where "swy_error = 2"

record packet_view =
  v_protocol :: u16
  v_reserved :: u16
  bytes_len :: u32
  v_bytes :: "u8 list"

record swy_result =
  r_value :: u64
  r_handler :: u16
  reserved0 :: u16
  reserved1 :: u32

text \<open>
  Layout of \<open>SwyPluginApi\<close>: each field's size, which is also its alignment, on the 64-bit targets
  the repository builds for.
\<close>

datatype api_field =
  FStructSize | FAbiVersion | FClaimedKeys | FCreate | FDestroy | FProcess | FProcessBatch

fun field_size :: "api_field \<Rightarrow> nat" where
  "field_size FStructSize = 4"
| "field_size FAbiVersion = 4"
| "field_size _ = 8"

definition api_fields :: "nat \<Rightarrow> api_field list" where
  "api_fields level = [FStructSize, FAbiVersion, FClaimedKeys, FCreate, FDestroy, FProcess] @
     (if level \<ge> 2 then [FProcessBatch] else [])"

definition align_up :: "nat \<Rightarrow> nat \<Rightarrow> nat" where
  "align_up n a = (n + a - 1) div a * a"

fun offset_in :: "api_field list \<Rightarrow> api_field \<Rightarrow> nat \<Rightarrow> nat option" where
  "offset_in [] f n = None"
| "offset_in (g # gs) f n =
     (let off = align_up n (field_size g) in
      if f = g then Some off else offset_in gs f (off + field_size g))"

definition offset_of :: "nat \<Rightarrow> api_field \<Rightarrow> nat option" where
  "offset_of level f = offset_in (api_fields level) f 0"

definition sizeof_api :: "nat \<Rightarrow> nat" where
  "sizeof_api level =
     align_up (foldl (\<lambda>n g. align_up n (field_size g) + field_size g) 0 (api_fields level)) 8"

lemma layout [simp]:
  "offset_of 2 FProcess = Some 32" "offset_of 2 FProcessBatch = Some 40"
  "sizeof_api (Suc 0) = 40" "sizeof_api 2 = 48"
  by (simp_all add: offset_of_def sizeof_api_def api_fields_def align_up_def Let_def)

text \<open>
  The struct as a host sees it. A function pointer beyond the end of the plugin's own struct is
  absent, \<open>None\<close>.
\<close>

type_synonym claimed_fn = "u16 list option \<Rightarrow> u16 \<Rightarrow> u16 \<times> u16 list option"
type_synonym 'h process_fn =
  "u64 \<Rightarrow> packet_view option \<Rightarrow> swy_result option \<Rightarrow> 'h \<Rightarrow> (32 word \<times> swy_result option \<times> 'h) option"
type_synonym 'h batch_fn =
  "u64 \<Rightarrow> packet_view list option \<Rightarrow> nat \<Rightarrow> swy_result list option \<Rightarrow> 'h
     \<Rightarrow> (32 word \<times> swy_result list option \<times> 'h) option"

record 'h api =
  struct_size :: u32
  abi_version :: u32
  a_claimed_keys :: "claimed_fn option"
  a_create :: "('h \<Rightarrow> u64 \<times> 'h) option"
  a_destroy :: "(u64 \<Rightarrow> 'h \<Rightarrow> 'h option) option"
  a_process :: "'h process_fn option"
  a_process_batch :: "'h batch_fn option"

section \<open>The plugin\<close>

type_synonym plug_heap = "u64 \<rightharpoonup> u64"

definition kKeys :: "u16 list" where "kKeys = [2000, 2001, 2002, 2003]"
definition kKeyCount :: u16 where "kKeyCount = 4"

definition view_len :: "packet_view \<Rightarrow> u32" where
  "view_len pkt = (if bytes_len pkt < 24 then bytes_len pkt else 24)"

definition plug_mix :: "packet_view \<Rightarrow> u64" where
  "plug_mix pkt =
     foldl (\<lambda>h i. (h XOR ucast (v_bytes pkt ! i)) * fnv_prime)
       (fnv_basis XOR ucast (v_protocol pkt)) [0..<unat (view_len pkt)]"

definition plug_claimed_keys :: "claimed_fn" where
  "plug_claimed_keys out cap =
     (case out of
        None \<Rightarrow> (kKeyCount, None)
      | Some xs \<Rightarrow>
          if cap < kKeyCount then (kKeyCount, Some xs)
          else (kKeyCount, Some (foldl (\<lambda>xs i. xs[i := kKeys ! i]) xs [0..<unat kKeyCount])))"

definition plug_create :: "(plug_heap \<Rightarrow> u64) \<Rightarrow> plug_heap \<Rightarrow> u64 \<times> plug_heap" where
  "plug_create pick hp =
     (let a = pick hp in if a = 0 \<or> hp a \<noteq> None then (0, hp) else (a, hp(a \<mapsto> 0)))"

definition plug_destroy :: "u64 \<Rightarrow> plug_heap \<Rightarrow> plug_heap option" where
  "plug_destroy self hp =
     (if self = 0 then Some hp
      else if hp self = None then None
      else Some (hp(self := None)))"

definition result_for :: "packet_view \<Rightarrow> swy_result" where
  "result_for pkt =
     \<lparr>r_value = plug_mix pkt, r_handler = v_protocol pkt, reserved0 = 0, reserved1 = 0\<rparr>"

definition plug_process :: "plug_heap process_fn" where
  "plug_process self pkt out hp =
     (case (pkt, out) of
        (Some v, Some _) \<Rightarrow>
          if self = 0 then Some (swy_error, out, hp)
          else (case hp self of
              None \<Rightarrow> None
            | Some calls \<Rightarrow> Some (swy_ok, Some (result_for v), hp(self \<mapsto> calls + 1)))
      | _ \<Rightarrow> Some (swy_error, out, hp))"

fun batch_loop :: "packet_view list \<Rightarrow> nat list \<Rightarrow> swy_result list \<Rightarrow> swy_result list" where
  "batch_loop pkts [] out = out"
| "batch_loop pkts (i # is) out = batch_loop pkts is (out[i := result_for (pkts ! i)])"

definition plug_process_batch :: "plug_heap batch_fn" where
  "plug_process_batch self pkts n out hp =
     (case (pkts, out) of
        (Some vs, Some os) \<Rightarrow>
          if self = 0 then Some (swy_error, out, hp)
          else (case hp self of
              None \<Rightarrow> None
            | Some calls \<Rightarrow>
                Some (swy_ok, Some (batch_loop vs [0..<n] os), hp(self \<mapsto> calls + of_nat n)))
      | _ \<Rightarrow> Some (swy_error, out, hp))"

definition plug_api :: "(plug_heap \<Rightarrow> u64) \<Rightarrow> nat \<Rightarrow> plug_heap api" where
  "plug_api pick level =
     \<lparr>struct_size = of_nat (sizeof_api level), abi_version = swy_abi_version,
      a_claimed_keys = Some plug_claimed_keys, a_create = Some (plug_create pick),
      a_destroy = Some plug_destroy, a_process = Some plug_process,
      a_process_batch = (if level \<ge> 2 then Some plug_process_batch else None)\<rparr>"

definition switchyard_plugin_entry :: "(plug_heap \<Rightarrow> u64) \<Rightarrow> nat \<Rightarrow> plug_heap api option" where
  "switchyard_plugin_entry pick level = Some (plug_api pick level)"

section \<open>A batch is so many single calls\<close>

text \<open>The host's alternative to one batched crossing: \<open>n\<close> single ones, over the same buffers.\<close>

fun process_each :: "u64 \<Rightarrow> packet_view list \<Rightarrow> nat list \<Rightarrow> swy_result list \<Rightarrow> plug_heap
    \<Rightarrow> (32 word \<times> swy_result list option \<times> plug_heap) option" where
  "process_each self vs [] os hp = Some (swy_ok, Some os, hp)"
| "process_each self vs (i # is) os hp =
     (case plug_process self (Some (vs ! i)) (Some (os ! i)) hp of
        Some (rc, Some r, hp1) \<Rightarrow>
          if rc = swy_ok then process_each self vs is (os[i := r]) hp1
          else Some (rc, Some (os[i := r]), hp1)
      | _ \<Rightarrow> None)"

lemma process_each_loop:
  "self \<noteq> 0 \<Longrightarrow> hp self = Some calls \<Longrightarrow>
   process_each self vs is os hp =
     Some (swy_ok, Some (batch_loop vs is os), hp(self \<mapsto> calls + of_nat (length is)))"
proof (induction "is" arbitrary: os hp calls)
  case Nil
  then show ?case by (auto simp: fun_upd_idem)
next
  case (Cons i "is")
  then show ?case
    using Cons.IH [of "hp(self \<mapsto> calls + 1)" "calls + 1" "os[i := result_for (vs ! i)]"]
    by (simp add: plug_process_def add.assoc [symmetric] fun_eq_iff)
qed

text \<open>
  The batch entry point is the batched form of the single one: on a live object it writes
  the results that one \<open>process\<close> call per packet would write, counts the same number of calls, and
  returns success, also where the object's 64-bit call counter wraps around.
\<close>

theorem batch_is_repeated_process:
  assumes "self \<noteq> 0" "self \<in> dom hp"
  shows "plug_process_batch self (Some vs) n (Some os) hp = process_each self vs [0..<n] os hp"
  using assms process_each_loop [of self hp _ vs "[0..<n]" os]
  by (auto simp: plug_process_batch_def dom_def)

theorem batch_is_repeated_process_witness:
  "\<forall>v r. plug_process_batch 8 (Some [v]) 1 (Some [r]) [8 \<mapsto> - 1] =
   process_each 8 [v] [0..<1] [r] [8 \<mapsto> - 1]"
  by (intro allI batch_is_repeated_process) simp_all

lemma length_batch_loop [simp]: "length (batch_loop vs is os) = length os"
  by (induction "is" arbitrary: os) simp_all

lemma batch_loop_nth:
  "distinct is \<Longrightarrow> i < length os \<Longrightarrow>
   batch_loop vs is os ! i = (if i \<in> set is then result_for (vs ! i) else os ! i)"
proof (induction "is" arbitrary: os)
  case (Cons j "is")
  then show ?case by (cases "i = j") auto
qed simp

lemma batch_loop_all: "length os = n \<Longrightarrow> length vs = n \<Longrightarrow> batch_loop vs [0..<n] os = map result_for vs"
  by (rule nth_equalityI) (simp_all add: batch_loop_nth)

section \<open>The contract\<close>

text \<open>
  What plugin_abi.h promises a host about a plugin's functions. \<open>live h self\<close>: \<open>self\<close> is an object
  of the plugin that has not been destroyed; \<open>keys\<close> what it claims.
\<close>

locale plugin_contract =
  fixes keys :: "u16 list"
    and live :: "'h \<Rightarrow> u64 \<Rightarrow> bool"
    and claimed :: "claimed_fn"
    and create :: "'h \<Rightarrow> u64 \<times> 'h"
    and destroy :: "u64 \<Rightarrow> 'h \<Rightarrow> 'h option"
    and call :: "'h process_fn"
  assumes claimed_needs: "claimed None 0 = (of_nat (length keys), None)"
    and claimed_fits: "length xs = length keys \<Longrightarrow>
      claimed (Some xs) (of_nat (length keys)) = (of_nat (length keys), Some keys)"
    and few_keys: "length keys < 2 ^ 16"
    and create_fresh: "create h = (a, h') \<Longrightarrow> \<not> live h a"
    and create_live: "create h = (a, h') \<Longrightarrow> live h' b \<longleftrightarrow> live h b \<or> b = a \<and> a \<noteq> 0"
    and null_dead: "\<not> live h 0"
    and call_null: "call 0 (Some v) (Some r) h = Some (swy_error, Some r, h)"
    and call_ok: "live h a \<Longrightarrow>
      \<exists>r' h'. call a (Some v) (Some r) h = Some (swy_ok, Some r', h') \<and> (\<forall>b. live h' b \<longleftrightarrow> live h b)"
    and destroy_null: "destroy 0 h = Some h"
    and destroy_live: "live h a \<Longrightarrow>
      \<exists>h'. destroy a h = Some h' \<and> (\<forall>b. live h' b \<longleftrightarrow> live h b \<and> b \<noteq> a)"

definition plug_live :: "plug_heap \<Rightarrow> u64 \<Rightarrow> bool" where
  "plug_live hp a \<longleftrightarrow> a \<noteq> 0 \<and> a \<in> dom hp"

lemma write_keys:
  assumes "length xs = 4"
  shows "foldl (\<lambda>xs i. xs[i := kKeys ! i]) xs [0..<4] = kKeys"
proof -
  obtain a b c d where "xs = [a, b, c, d]"
    using assms by (auto simp: length_Suc_conv eval_nat_numeral)
  then show ?thesis by (simp add: kKeys_def upt_rec)
qed

lemma claimed_keys_fits:
  "length xs = 4 \<Longrightarrow> plug_claimed_keys (Some xs) 4 = (4, Some kKeys)"
  by (simp add: plug_claimed_keys_def kKeyCount_def write_keys)

lemma kKeys_length [simp]: "length kKeys = 4"
  by (simp add: kKeys_def)

interpretation plug: plugin_contract kKeys plug_live plug_claimed_keys "plug_create pick"
  plug_destroy plug_process for pick
  by unfold_locales
    (auto simp: plug_live_def write_keys plug_claimed_keys_def kKeyCount_def
      plug_create_def plug_destroy_def plug_process_def Let_def split: if_splits)

end
