(* ===== verification/Sw_Host.thy ===== *)
theory Sw_Host
  imports Sw_Plugin
begin

text \<open>
  The host side of the plugin boundary: plugin-dispatch-kata/cpp/src/host.hpp. The operating
  system's loader is not code of the repository: \<open>dlopen\<close> is an argument that returns a handle,
  null on failure, and \<open>dlsym\<close> one that returns the entry point, if the symbol is there.
\<close>

section \<open>LoadedPlugin\<close>

definition kBatchFieldEnd :: nat where
  "kBatchFieldEnd = the (offset_of 2 FProcessBatch) + 8"

definition entry_name :: string where "entry_name = ''switchyard_plugin_entry''"

record 'h loaded_plugin =
  lp_handle :: u64
  lp_api :: "'h api option"
  lp_error :: string

definition fresh_plugin :: "'h loaded_plugin" where
  "fresh_plugin = \<lparr>lp_handle = 0, lp_api = None, lp_error = []\<rparr>"

definition unload :: "'h loaded_plugin \<Rightarrow> 'h loaded_plugin" where
  "unload l = l\<lparr>lp_api := None, lp_handle := 0\<rparr>"

definition load :: "(string \<Rightarrow> u64) \<Rightarrow> (u64 \<Rightarrow> string \<Rightarrow> (unit \<Rightarrow> 'h api option) option)
    \<Rightarrow> string \<Rightarrow> 'h loaded_plugin \<Rightarrow> bool \<times> 'h loaded_plugin" where
  "load dlopen dlsym path l0 =
     (let l1 = unload l0; l2 = l1\<lparr>lp_handle := dlopen path\<rparr> in
      if lp_handle l2 = 0 then (False, l2\<lparr>lp_error := ''dlopen failed''\<rparr>)
      else case dlsym (lp_handle l2) entry_name of
        None \<Rightarrow> (False, unload (l2\<lparr>lp_error := ''entry symbol not found''\<rparr>))
      | Some entry \<Rightarrow>
          (let l3 = l2\<lparr>lp_api := entry ()\<rparr> in
           case lp_api l3 of
             None \<Rightarrow> (False, unload (l3\<lparr>lp_error := ''entry returned null''\<rparr>))
           | Some a \<Rightarrow>
               if abi_version a \<noteq> swy_abi_version
               then (False, unload (l3\<lparr>lp_error := ''abi_version mismatch'', lp_api := None\<rparr>))
               else if unat (struct_size a) < the (offset_of 2 FProcess)
               then (False, unload (l3\<lparr>lp_error := ''struct_size below the version-1 minimum'',
                  lp_api := None\<rparr>))
               else (True, l3)))"

definition ok :: "'h loaded_plugin \<Rightarrow> bool" where
  "ok l \<longleftrightarrow> lp_api l \<noteq> None"

definition has_batch :: "'h loaded_plugin \<Rightarrow> bool" where
  "has_batch l \<longleftrightarrow>
     (case lp_api l of None \<Rightarrow> False | Some a \<Rightarrow> unat (struct_size a) \<ge> kBatchFieldEnd)"

text \<open>
  \<open>claimed_keys()\<close>: ask for the count, size the buffer, ask again. Calling a function pointer the
  plugin's struct does not have is \<open>None\<close>.
\<close>

definition claimed_keys :: "'h loaded_plugin \<Rightarrow> u16 list option" where
  "claimed_keys l =
     (case lp_api l of
        None \<Rightarrow> Some []
      | Some a \<Rightarrow>
          (case a_claimed_keys a of
             None \<Rightarrow> None
           | Some f \<Rightarrow>
               (let need = fst (f None 0); out = replicate (unat need) 0 in
                if need \<noteq> 0 then snd (f (Some out) need) else Some out)))"

text \<open>A field of the struct is there when the struct a plugin reports reaches past its end.\<close>

definition has_field :: "'h api \<Rightarrow> api_field \<Rightarrow> bool" where
  "has_field a f \<longleftrightarrow>
     (case offset_of 2 f of None \<Rightarrow> False | Some n \<Rightarrow> n + field_size f \<le> unat (struct_size a))"

text \<open>
  C20: Loading is all or nothing: \<open>load\<close> answers true exactly when the library and its entry point
  are found, the entry returns a struct of this ABI version and at least 32 bytes, and then that
  struct is held; on every failure nothing is held, the handle is dropped and an error is
  recorded. Neither outcome depends on what was loaded before.
\<close>

theorem load_all_or_nothing:
  "let (b, l) = load dlopen dlsym path l0 in
     (b \<longleftrightarrow> (\<exists>entry a. dlopen path \<noteq> 0 \<and> dlsym (dlopen path) entry_name = Some entry \<and>
        entry () = Some a \<and> abi_version a = swy_abi_version \<and> 32 \<le> unat (struct_size a) \<and>
        lp_api l = Some a \<and> lp_handle l = dlopen path)) \<and>
     (ok l \<longleftrightarrow> b) \<and>
     (\<not> b \<longrightarrow> lp_api l = None \<and> lp_handle l = 0 \<and> lp_error l \<noteq> [])"
  by (auto simp: load_def unload_def ok_def Let_def split: option.splits if_splits)

theorem load_all_or_nothing_witness:
  "let l = snd (load (\<lambda>_. 0) (\<lambda>_ _. None) ''p.so'' (fresh_plugin :: plug_heap loaded_plugin)) in
    lp_api l = None \<and> lp_handle l = 0 \<and> lp_error l \<noteq> []"
  using load_all_or_nothing [of "\<lambda>_. 0" "\<lambda>_ _. None" "''p.so''" "fresh_plugin :: plug_heap loaded_plugin"]
  by (simp add: load_def unload_def Let_def)

text \<open>
  C29: The size gate is 8 bytes too low. A struct of 32 bytes ends where the \<open>process\<close> pointer
  begins, yet it is accepted; version 1 of the struct has 40 bytes, and every struct of at least
  40 bytes has every version-1 field.
\<close>

theorem size_gate_too_low:
  fixes a :: "'h api"
  assumes "abi_version a = swy_abi_version"
  shows "(fst (load (\<lambda>_. 7) (\<lambda>_ _. Some (\<lambda>_. Some a)) path l) \<longleftrightarrow> 32 \<le> unat (struct_size a)) \<and>
    (has_field a FProcess \<longleftrightarrow> sizeof_api 1 \<le> unat (struct_size a)) \<and>
    (unat (struct_size a) \<in> {32..<40} \<longrightarrow>
       fst (load (\<lambda>_. 7) (\<lambda>_ _. Some (\<lambda>_. Some a)) path l) \<and> \<not> has_field a FProcess)"
  using assms by (auto simp: load_def unload_def has_field_def Let_def split: if_splits)

theorem size_gate_too_low_witness:
  "let a = (plug_api (\<lambda>_. 8) 1)\<lparr>struct_size := 32, a_process := None\<rparr> in
    fst (load (\<lambda>_. 7) (\<lambda>_ _. Some (\<lambda>_. Some a)) ''p.so'' fresh_plugin) \<and> \<not> has_field a FProcess"
  using size_gate_too_low [of "(plug_api (\<lambda>_. 8) 1)\<lparr>struct_size := 32, a_process := None\<rparr>"
      "''p.so''" fresh_plugin]
  by (simp add: plug_api_def Let_def)

section \<open>PluginBackedHandler\<close>

record 'h backed =
  b_api :: "'h api"
  b_key :: u16
  b_self :: u64

definition backed_new :: "'h api \<Rightarrow> u16 \<Rightarrow> 'h \<Rightarrow> ('h backed \<times> 'h) option" where
  "backed_new a key h =
     (case a_create a of
        None \<Rightarrow> None
      | Some create \<Rightarrow>
          (let (self, h1) = create h in Some (\<lparr>b_api = a, b_key = key, b_self = self\<rparr>, h1)))"

definition backed_delete :: "'h backed \<Rightarrow> 'h \<Rightarrow> 'h option" where
  "backed_delete b h =
     (if b_self b \<noteq> 0 then
        (case a_destroy (b_api b) of None \<Rightarrow> None | Some destroy \<Rightarrow> destroy (b_self b) h)
      else Some h)"

definition backed_valid :: "'h backed \<Rightarrow> bool" where
  "backed_valid b \<longleftrightarrow> b_self b \<noteq> 0"

definition backed_matches :: "'h backed \<Rightarrow> packet \<Rightarrow> bool" where
  "backed_matches b p \<longleftrightarrow> protocol p = b_key b"

definition view_of :: "packet \<Rightarrow> packet_view" where
  "view_of p = \<lparr>v_protocol = protocol p, v_reserved = 0, bytes_len = 24, v_bytes = payload p\<rparr>"

definition backed_process :: "'h backed \<Rightarrow> packet \<Rightarrow> 'h \<Rightarrow> (result \<times> 'h) option" where
  "backed_process b p h =
     (let out = \<lparr>r_value = 0, r_handler = 0, reserved0 = 0, reserved1 = 0\<rparr> in
      case a_process (b_api b) of
        None \<Rightarrow> None
      | Some call \<Rightarrow>
          (case call (b_self b) (Some (view_of p)) (Some out) h of
             Some (rc, Some r, h1) \<Rightarrow>
               if rc \<noteq> swy_ok then Some (unsupported, h1)
               else Some (\<lparr>res_value = r_value r, res_handler = r_handler r\<rparr>, h1)
           | _ \<Rightarrow> None))"

definition backed_declare :: "'h backed \<Rightarrow> registration" where
  "backed_declare b = \<lparr>reg_key = b_key b, residual = False\<rparr>"

text \<open>
  The adapter as a handler of the host. An undefined call has no result; the total function of
  the handler record answers unsupported there, and the theorems below say when a call is
  defined.
\<close>

definition backed_handler :: "'h backed \<Rightarrow> 'h handler" where
  "backed_handler b =
     \<lparr>matches = backed_matches b,
      process = (\<lambda>p h. case backed_process b p h of Some rh \<Rightarrow> rh | None \<Rightarrow> (unsupported, h)),
      declares = backed_declare b\<rparr>"

lemma backed_honest: "honest (backed_handler b)"
  by (simp add: honest_def backed_handler_def backed_matches_def backed_declare_def)

section \<open>A session of the host\<close>

text \<open>
  What a host does with the adapters of one plugin: make one for a key, hand one a packet, let
  one go. An adapter is owned by its place in the list, so one that is gone cannot be used.
  \<open>None\<close> is an undefined call.
\<close>

datatype host_op = Make u16 | Handle nat packet | Drop nat

fun session_step :: "'h api \<Rightarrow> host_op \<Rightarrow> 'h backed list \<times> 'h \<Rightarrow> ('h backed list \<times> 'h) option" where
  "session_step a (Make k) (bs, h) = map_option (\<lambda>(b, h1). (bs @ [b], h1)) (backed_new a k h)"
| "session_step a (Handle i p) (bs, h) =
     (if i < length bs then map_option (\<lambda>(_, h1). (bs, h1)) (backed_process (bs ! i) p h)
      else Some (bs, h))"
| "session_step a (Drop i) (bs, h) =
     (if i < length bs
      then map_option (\<lambda>h1. (take i bs @ drop (Suc i) bs, h1)) (backed_delete (bs ! i) h)
      else Some (bs, h))"

fun session :: "'h api \<Rightarrow> host_op list \<Rightarrow> 'h backed list \<times> 'h \<Rightarrow> ('h backed list \<times> 'h) option" where
  "session a [] s = Some s"
| "session a (x # xs) s =
     (case session_step a x s of None \<Rightarrow> None | Some s1 \<Rightarrow> session a xs s1)"

text \<open>The objects the adapters own, each with its place.\<close>

definition owned :: "'h backed list \<Rightarrow> u64 list" where
  "owned bs = filter (\<lambda>x. x \<noteq> 0) (map b_self bs)"

text \<open>
  The session's invariant: the adapters own distinct objects, and the live objects are those and
  the ones that were live before.
\<close>

definition session_inv :: "('h \<Rightarrow> u64 \<Rightarrow> bool) \<Rightarrow> 'h api \<Rightarrow> 'h \<Rightarrow> 'h backed list \<times> 'h \<Rightarrow> bool" where
  "session_inv lv a h0 s \<longleftrightarrow>
     (\<forall>b \<in> set (fst s). b_api b = a) \<and> distinct (owned (fst s)) \<and>
     (\<forall>c. lv (snd s) c \<longleftrightarrow> lv h0 c \<or> c \<in> set (owned (fst s))) \<and>
     (\<forall>c \<in> set (owned (fst s)). \<not> lv h0 c)"

section \<open>What the host gets from the contract\<close>

text \<open>The struct has the functions of the contract.\<close>

context plugin_contract
begin

definition provides :: "'h api \<Rightarrow> bool" where
  "provides a \<longleftrightarrow> a_claimed_keys a = Some claimed \<and> a_create a = Some create \<and>
     a_destroy a = Some destroy \<and> a_process a = Some call"

lemma host_claimed_keys:
  assumes "lp_api l = Some a" "provides a"
  shows "claimed_keys l = Some keys"
proof (cases "keys = []")
  case True
  then show ?thesis using assms claimed_needs by (simp add: claimed_keys_def provides_def)
next
  case False
  have u: "unat (of_nat (length keys) :: u16) = length keys"
    using few_keys by (simp add: unat_of_nat)
  then have "(of_nat (length keys) :: u16) \<noteq> 0" using False by (metis length_0_conv unat_0)
  then show ?thesis
    using assms claimed_needs claimed_fits [of "replicate (length keys) 0"] u
    by (simp add: claimed_keys_def provides_def Let_def)
qed

text \<open>A valid adapter's calls are defined and keep every live object alive.\<close>

lemma host_process:
  assumes "provides (b_api b)" "live h (b_self b)"
  shows "\<exists>res h'. backed_process b p h = Some (res, h') \<and> (\<forall>c. live h' c \<longleftrightarrow> live h c)"
proof -
  obtain r' h' where "call (b_self b) (Some (view_of p))
      (Some \<lparr>r_value = 0, r_handler = 0, reserved0 = 0, reserved1 = 0\<rparr>) h = Some (swy_ok, Some r', h')"
    "\<forall>c. live h' c \<longleftrightarrow> live h c"
    using call_ok [OF assms(2)] by blast
  then show ?thesis using assms(1) by (simp add: backed_process_def provides_def)
qed

lemma host_process_null:
  "provides (b_api b) \<Longrightarrow> b_self b = 0 \<Longrightarrow> backed_process b p h = Some (unsupported, h)"
  by (simp add: backed_process_def provides_def call_null swy_error_def swy_ok_def)

lemma session_inv_step:
  assumes inv: "session_inv live a h0 s" and a: "provides a"
  shows "\<exists>s'. session_step a x s = Some s' \<and> session_inv live a h0 s'"
proof (cases x)
  case (Make k)
  obtain bs h where s: "s = (bs, h)" by (cases s)
  obtain self h1 where c: "create h = (self, h1)" by (cases "create h")
  then show ?thesis
    using inv a Make s create_live [OF c] create_fresh [OF c]
    by (auto simp: session_inv_def owned_def backed_new_def provides_def)
next
  case (Handle i p)
  obtain bs h where s: "s = (bs, h)" by (cases s)
  show ?thesis
  proof (cases "i < length bs")
    case True
    then have b: "bs ! i \<in> set bs" "b_api (bs ! i) = a" using inv s by (auto simp: session_inv_def)
    show ?thesis
    proof (cases "b_self (bs ! i) = 0")
      case True
      then show ?thesis
        using inv s Handle \<open>i < length bs\<close> host_process_null [of "bs ! i" p h] a b(2) by simp
    next
      case False
      then have "live h (b_self (bs ! i))"
        using inv s b by (auto simp: session_inv_def owned_def)
      then obtain res h' where "backed_process (bs ! i) p h = Some (res, h')"
        "\<forall>c. live h' c \<longleftrightarrow> live h c" using host_process a b(2) by blast
      then show ?thesis using inv s Handle \<open>i < length bs\<close> by (auto simp: session_inv_def)
    qed
  next
    case False
    then show ?thesis using inv s Handle by simp
  qed
next
  case (Drop i)
  obtain bs h where s: "s = (bs, h)" by (cases s)
  show ?thesis
  proof (cases "i < length bs")
    case True
    let ?b = "bs ! i" and ?r = "take i bs @ drop (Suc i) bs"
    have split: "bs = take i bs @ ?b # drop (Suc i) bs" using True by (rule id_take_nth_drop)
    have b: "b_api ?b = a" using inv s True by (auto simp: session_inv_def)
    have sub: "set ?r \<subseteq> set bs" by (auto dest: in_set_takeD in_set_dropD)
    show ?thesis
    proof (cases "b_self ?b = 0")
      case True
      have "owned bs = owned ?r" by (subst split) (simp add: owned_def True)
      moreover have "backed_delete ?b h = Some h" using True by (simp add: backed_delete_def)
      ultimately show ?thesis using inv s Drop \<open>i < length bs\<close> sub by (auto simp: session_inv_def)
    next
      case False
      have "owned bs = owned (take i bs) @ b_self ?b # owned (drop (Suc i) bs)"
        by (subst split) (simp add: owned_def False)
      then have o: "set (owned bs) = insert (b_self ?b) (set (owned ?r))"
        "distinct (owned bs) \<longleftrightarrow> b_self ?b \<notin> set (owned ?r) \<and> distinct (owned ?r)"
        by (auto simp: owned_def)
      then have "live h (b_self ?b)" using inv s by (simp add: session_inv_def)
      then obtain h' where "destroy (b_self ?b) h = Some h'"
        "\<forall>c. live h' c \<longleftrightarrow> live h c \<and> c \<noteq> b_self ?b" using destroy_live by blast
      moreover from this(1) have "backed_delete ?b h = Some h'"
        using False a b by (simp add: backed_delete_def provides_def)
      ultimately show ?thesis
        using inv s Drop \<open>i < length bs\<close> o sub by (auto simp: session_inv_def)
    qed
  next
    case False
    then show ?thesis using inv s Drop by simp
  qed
qed

lemma session_safe:
  assumes a: "provides a"
  shows "session_inv live a h0 s \<Longrightarrow> \<exists>s'. session a xs s = Some s' \<and> session_inv live a h0 s'"
proof (induction xs arbitrary: s)
  case (Cons x xs)
  obtain s1 where "session_step a x s = Some s1" "session_inv live a h0 s1"
    using session_inv_step [OF Cons.prems a] by blast
  then show ?case using Cons.IH by simp
qed simp

lemma session_start: "session_inv live a h0 ([], h0)"
  by (simp add: session_inv_def owned_def)

end

section \<open>The repository's plugin under the host\<close>

lemma plug_provides: "plug.provides pick (plug_api pick level)"
  by (simp add: plug.provides_def plug_api_def)

text \<open>
  C21: No sequence of host operations on the plugin's adapters uses a dead object or frees one
  twice, whatever addresses the plugin's allocator picks and whether or not it fails; and the
  plugin's live objects are at every point those the surviving adapters own and those that were
  there before, so that dropping every adapter leaks nothing.
\<close>

theorem plugin_session_safe:
  "\<exists>bs h. session (plug_api pick level) xs ([], h0) = Some (bs, h) \<and>
     distinct (owned bs) \<and> set (owned bs) \<inter> {c. plug_live h0 c} = {} \<and>
     {c. plug_live h c} = {c. plug_live h0 c} \<union> set (owned bs)"
proof -
  obtain s' where s': "session (plug_api pick level) xs ([], h0) = Some s'"
    "session_inv plug_live (plug_api pick level) h0 s'"
    using plug.session_safe [OF plug_provides plug.session_start] by blast
  then show ?thesis by (cases s') (auto simp: session_inv_def)
qed

text \<open>
  Whichever ABI level the plugin was built at, the host loads it, learns its four keys, and
  finds the batch entry point exactly when the plugin's struct has one; a level-1 plugin has a
  complete version-1 struct and no field beyond it.
\<close>

theorem plugin_negotiation:
  assumes "level \<in> {1, 2}" "dlopen path \<noteq> 0"
    and "dlsym (dlopen path) entry_name = Some (\<lambda>_. switchyard_plugin_entry pick level)"
  shows "let (b, l) = load dlopen dlsym path l0; a = plug_api pick level in
    b \<and> lp_api l = Some a \<and> claimed_keys l = Some kKeys \<and> has_field a FProcess \<and>
    (has_batch l \<longleftrightarrow> level = 2) \<and> (has_field a FProcessBatch \<longleftrightarrow> has_batch l) \<and>
    (has_batch l \<longleftrightarrow> a_process_batch a \<noteq> None)"
proof -
  let ?a = "plug_api pick level"
  have size: "unat (struct_size ?a) = (if level = 1 then 40 else 48)"
    and v: "abi_version ?a = swy_abi_version"
    using assms(1) by (auto simp: plug_api_def)
  obtain l where l: "load dlopen dlsym path l0 = (True, l)" "lp_api l = Some ?a"
    using assms size v by (auto simp: load_def unload_def switchyard_plugin_entry_def Let_def)
  have "claimed_keys l = Some kKeys" by (rule plug.host_claimed_keys [OF l(2) plug_provides])
  then show ?thesis
    using l size assms(1)
    by (auto simp: has_batch_def has_field_def kBatchFieldEnd_def plug_api_def)
qed

theorem plugin_negotiation_witness:
  "fst (load (\<lambda>_. 7) (\<lambda>_ _. Some (\<lambda>_. switchyard_plugin_entry (\<lambda>_. 8) 1)) ''p.so'' fresh_plugin)"
  using plugin_negotiation [of 1 "\<lambda>_. 7" "''p.so''" "\<lambda>_ _. Some (\<lambda>_. switchyard_plugin_entry (\<lambda>_. 8) 1)"
      "\<lambda>_. 8" fresh_plugin]
  by (auto simp: split_beta Let_def)

lemma fold_bytes:
  "n \<le> length xs \<Longrightarrow> foldl (\<lambda>h i. f h (xs ! i)) a [0..<n] = foldl f a (take n xs)"
  by (induction n) (simp_all add: take_Suc_conv_app_nth)

text \<open>
  A packet handed to a live adapter of the plugin comes back as the FNV hash of its protocol
  and its 24 payload bytes, under the packet's own protocol number, and counts one call; an
  adapter whose object could not be created answers unsupported and touches nothing.
\<close>

theorem plugin_result:
  assumes "packet_ok p" "b_api b = plug_api pick level"
  shows "(b_self b = 0 \<longrightarrow> backed_process b p h = Some (unsupported, h)) \<and>
    (b_self b \<noteq> 0 \<and> h (b_self b) = Some calls \<longrightarrow>
      backed_process b p h =
        Some (\<lparr>res_value = foldl (\<lambda>x y. (x XOR ucast y) * fnv_prime)
                 (fnv_basis XOR ucast (protocol p)) (payload p),
               res_handler = protocol p\<rparr>, h(b_self b \<mapsto> calls + 1)))"
proof -
  have "plug_mix (view_of p) = foldl (\<lambda>x y. (x XOR ucast y) * fnv_prime)
      (fnv_basis XOR ucast (protocol p)) (payload p)"
    using assms(1) fold_bytes [of 24 "payload p" "\<lambda>x y. (x XOR ucast y) * fnv_prime"]
    by (simp add: plug_mix_def view_of_def view_len_def packet_ok_def)
  then show ?thesis
    using assms(2)
    by (simp add: backed_process_def plug_api_def plug_process_def result_for_def swy_ok_def
        swy_error_def view_of_def)
qed

theorem plugin_result_witness:
  "backed_process \<lparr>b_api = plug_api (\<lambda>_. 8) 2, b_key = 2000, b_self = 0\<rparr>
     \<lparr>protocol = 2000, pkt_length = 64, flags = 0, payload = replicate 24 7\<rparr> Map.empty =
   Some (unsupported, Map.empty)"
  using plugin_result [of "\<lparr>protocol = 2000, pkt_length = 64, flags = 0, payload = replicate 24 7\<rparr>"
      "\<lparr>b_api = plug_api (\<lambda>_. 8) 2, b_key = 2000, b_self = 0\<rparr>" "\<lambda>_. 8" 2 Map.empty 0]
  by (simp add: packet_ok_def)

text \<open>
  Adapters are handlers like any other: over the built-in handlers followed by any adapters,
  in any state of the plugin's heap, the direct table answers a stream as the scan does, so a
  plugin reached through the table sees the calls it would see through the brief's loop.
\<close>

theorem plugins_in_the_table:
  assumes "length bs < 2 ^ 15"
  shows "results_loop (direct16_run c) ps
      (table_direct16 (first_handlers r n @ map backed_handler bs)) h =
    results_loop (scan_run c) ps (scan_unordered (first_handlers r n @ map backed_handler bs)) h"
proof -
  let ?hs = "first_handlers r n @ map backed_handler bs"
  have "\<forall>x \<in> set ?hs. honest x" using first_handlers_honest backed_honest by fastforce
  moreover have "length ?hs < 2 ^ 16"
    using assms by (simp add: first_handlers_def handler_set_def kHandlers_def)
  ultimately have "direct16_for ?hs (table_direct16 ?hs)" by (rule table_direct16_for)
  then show ?thesis
    using direct16.results_agree [of ?hs "table_direct16 ?hs" c ps h]
      scan.results_agree [of "scan_unordered ?hs" ?hs c ps h] by simp
qed

theorem plugins_in_the_table_witness:
  "results_loop (direct16_run True)
      [\<lparr>protocol = 2000, pkt_length = 64, flags = 0, payload = replicate 24 7\<rparr>]
      (table_direct16 (first_handlers 1 1 @
         map backed_handler [\<lparr>b_api = plug_api (\<lambda>_. 8) 2, b_key = 2000, b_self = 8\<rparr>])) [8 \<mapsto> 0] =
    results_loop (scan_run True)
      [\<lparr>protocol = 2000, pkt_length = 64, flags = 0, payload = replicate 24 7\<rparr>]
      (scan_unordered (first_handlers 1 1 @
         map backed_handler [\<lparr>b_api = plug_api (\<lambda>_. 8) 2, b_key = 2000, b_self = 8\<rparr>])) [8 \<mapsto> 0]"
  by (rule plugins_in_the_table) simp

end
