(* ===== verification/Sw_Boundary.thy ===== *)
theory Sw_Boundary
  imports Sw_Host Sw_Measure
begin

text \<open>
  Phase 6 of plugin-dispatch-kata/cpp/bench/boundary.cpp: the plugin built at both ABI levels,
  found, loaded, negotiated with, and compared with the same arithmetic compiled into the host,
  one packet at a time and in batches. The file system, the loader, the clock and the packet stream
  are arguments; the phase is modelled to its end, with every call it makes of the plugin.
\<close>

section \<open>Finding the libraries\<close>

definition plugin_dirs :: "string list" where
  "plugin_dirs = ['''', ''bin/'', ''../bin/'', ''cpp/bin/'']"

text \<open>\<open>readable\<close> says which paths \<open>fopen\<close> opens.\<close>

definition find_plugin :: "(string \<Rightarrow> bool) \<Rightarrow> string \<Rightarrow> string \<Rightarrow> string" where
  "find_plugin readable ext stem =
     (case find readable (map (\<lambda>d. d @ stem @ ext) plugin_dirs) of None \<Rightarrow> '''' | Some path \<Rightarrow> path)"

section \<open>The internal equivalent\<close>

definition internal_process :: "packet \<Rightarrow> result" where
  "internal_process p =
     \<lparr>res_value = foldl (\<lambda>h i. (h XOR ucast (payload p ! i)) * fnv_prime)
        (fnv_basis XOR ucast (protocol p)) [0..<24],
      res_handler = protocol p\<rparr>"

definition internal_equivalent :: "u16 \<Rightarrow> 'w handler" where
  "internal_equivalent key =
     \<lparr>matches = (\<lambda>p. protocol p = key), process = (\<lambda>p w. (internal_process p, w)),
      declares = \<lparr>reg_key = key, residual = False\<rparr>\<rparr>"

section \<open>The phase\<close>

text \<open>
  The two checksums over packets sent to one key: the adapter's and the internal one. \<open>None\<close> is an
  undefined call.
\<close>

fun compare_sums :: "'h backed \<Rightarrow> u16 \<Rightarrow> packet list \<Rightarrow> u64 \<Rightarrow> u64 \<Rightarrow> 'h \<Rightarrow> (u64 \<times> u64 \<times> 'h) option" where
  "compare_sums b key [] x y h = Some (x, y, h)"
| "compare_sums b key (p # ps) x y h =
     (let q = p\<lparr>protocol := key\<rparr> in
      case backed_process b q h of None \<Rightarrow> None
      | Some (r, h1) \<Rightarrow> compare_sums b key ps (feed r x) (feed (internal_process q) y) h1)"

text \<open>The batched path: whole batches of 64, the result of the call ignored.\<close>

definition kBatch :: nat where "kBatch = 64"

function batched ::
    "'h batch_fn \<Rightarrow> u64 \<Rightarrow> packet list \<Rightarrow> swy_result list \<Rightarrow> u64 \<Rightarrow> 'h \<Rightarrow> (u64 \<times> 'h) option" where
  "batched call self ps outs x h =
     (if length ps < kBatch then Some (x, h)
      else case call self (Some (map view_of (take kBatch ps))) kBatch (Some outs) h of
        Some (_, Some outs', h') \<Rightarrow>
          batched call self (drop kBatch ps) outs'
            (fold (\<lambda>o'. feed \<lparr>res_value = r_value o', res_handler = r_handler o'\<rparr>) outs' x) h'
      | _ \<Rightarrow> None)"
  by pat_completeness auto
termination
  by (relation "measure (\<lambda>(call, self, ps, outs, x, h). length ps)") (auto simp: kBatch_def)

declare batched.simps [simp del]
section \<open>The phase\<close>

text \<open>
  The two timed arms: every packet through the adapter, or through the internal handler. What they
  share is the clock's world and the heap of the plugin; the heap is \<open>None\<close> after an undefined call.
\<close>

definition heap_clock :: "'w clock \<Rightarrow> ('w \<times> 'h option) clock" where
  "heap_clock now = (\<lambda>(w, h). let (t, w1) = now w in (t, (w1, h)))"

definition across_arm :: "'h backed \<Rightarrow> packet \<Rightarrow> unit \<Rightarrow> 'w \<times> 'h option \<Rightarrow> result \<times> unit \<times> ('w \<times> 'h option)" where
  "across_arm b p u = (\<lambda>(w, ho).
     case ho of None \<Rightarrow> (unsupported, u, (w, None))
     | Some h \<Rightarrow>
         (case backed_process b p h of None \<Rightarrow> (unsupported, u, (w, None))
          | Some (r, h1) \<Rightarrow> (r, u, (w, Some h1))))"

definition within_arm :: "packet \<Rightarrow> unit \<Rightarrow> 'w \<times> 'h option \<Rightarrow> result \<times> unit \<times> ('w \<times> 'h option)" where
  "within_arm p u wh = (internal_process p, u, wh)"

definition crossing_cost ::
    "'w clock \<Rightarrow> 'h backed \<Rightarrow> packet list \<Rightarrow> 'w \<Rightarrow> 'h \<Rightarrow> measured list \<times> ('w \<times> 'h option)" where
  "crossing_cost now b ps w h =
     measure_interleaved ps
       [timed_arm (heap_clock now) (Pair ()) (across_arm b), timed_arm (heap_clock now) (Pair ()) within_arm]
       (w, Some h)"

text \<open>
  The timed batches, on an object of their own that is created before and destroyed after: the
  nanoseconds per packet, and what is left.
\<close>

definition batched_cost ::
    "'w clock \<Rightarrow> 'h api \<Rightarrow> packet list \<Rightarrow> 'w \<Rightarrow> 'h \<Rightarrow> (rat \<times> 'w \<times> 'h) option" where
  "batched_cost now a ps w h =
     (case (a_create a, a_process_batch a, a_destroy a) of
        (Some create, Some call, Some destroy) \<Rightarrow>
          let outs = replicate kBatch \<lparr>r_value = 0, r_handler = 0, reserved0 = 0, reserved1 = 0\<rparr>;
              (self, h1) = create h;
              (t0, w1) = now w
          in (case batched call self ps outs fnv_basis h1 of None \<Rightarrow> None
              | Some (_, h2) \<Rightarrow>
                  let (t1, w2) = now w1;
                      dispatched = of_nat (length ps div kBatch) * of_nat kBatch
                  in map_option (\<lambda>h3. ((t1 - t0) * 10 ^ 9 / dispatched, w2, h3)) (destroy self h2))
      | _ \<Rightarrow> None)"

text \<open>
  The checks of the phase in order, its three figures (per packet through the plugin, per packet
  internally, batched), and what it leaves; a phase cut short by a failed check ends with it. The
  stream depends on the keys the plugin claims; the two checksums are over its first 4,096 packets.
  The adapter is let go at the end of the function.
\<close>

definition phase_boundary ::
    "'w clock \<Rightarrow> (string \<Rightarrow> bool) \<Rightarrow> string \<Rightarrow> (string \<Rightarrow> u64) \<Rightarrow>
     (u64 \<Rightarrow> string \<Rightarrow> (unit \<Rightarrow> 'h api option) option) \<Rightarrow>
     (u16 list \<Rightarrow> packet list) \<Rightarrow> 'w \<Rightarrow> 'h \<Rightarrow> (bool list \<times> rat list \<times> 'w \<times> 'h) option" where
  "phase_boundary now readable ext dlopen dlsym stream w h =
     (let v2_path = find_plugin readable ext ''plugin_v2''; v1_path = find_plugin readable ext ''plugin_v1''
      in if v2_path = '''' \<or> v1_path = '''' then Some ([False], [], w, h)
      else let (loaded, v2) = load dlopen dlsym v2_path fresh_plugin in
        if \<not> loaded then Some ([False], [], w, h)
        else let (v1_ok, v1) = load dlopen dlsym v1_path fresh_plugin in
          case (lp_api v2, claimed_keys v2) of
            (Some a, Some (key # keys)) \<Rightarrow>
              let checks = [ok v2, v1_ok, has_batch v2, v1_ok \<and> \<not> has_batch v1, True];
                  ps = stream (key # keys)
              in (case backed_new a key h of None \<Rightarrow> None
                  | Some (b, h1) \<Rightarrow>
                      (case compare_sums b key (take 4096 ps) fnv_basis fnv_basis h1 of None \<Rightarrow> None
                       | Some (x, y, h2) \<Rightarrow>
                           (case crossing_cost now b ps w h2 of
                              (_, (_, None)) \<Rightarrow> None
                            | (ms, (w3, Some h3)) \<Rightarrow>
                                (case batched_cost now a ps w3 h3 of None \<Rightarrow> None
                                 | Some (ns, w4, h4) \<Rightarrow>
                                     map_option (\<lambda>h5. (checks @ [backed_valid b, x = y],
                                         map ns_per_packet ms @ [ns], w4, h5))
                                       (backed_delete b h4)))))
          | _ \<Rightarrow> None)"

section \<open>What it shows\<close>

lemma internal_is_plugin:
  assumes "packet_ok p" "b_api b = plug_api pick level" "b_self b \<noteq> 0" "h (b_self b) = Some calls"
  shows "backed_process b p h = Some (internal_process p, h(b_self b \<mapsto> calls + 1))"
proof -
  have "internal_process p = \<lparr>res_value = foldl (\<lambda>x y. (x XOR ucast y) * fnv_prime)
      (fnv_basis XOR ucast (protocol p)) (payload p), res_handler = protocol p\<rparr>"
    using assms(1) fold_bytes [of 24 "payload p" "\<lambda>x y. (x XOR ucast y) * fnv_prime"]
    by (simp add: internal_process_def packet_ok_def)
  then show ?thesis using plugin_result [OF assms(1,2), of h calls] assms(3,4) by simp
qed

lemma compare_sums_plugin:
  assumes "b_api b = plug_api pick level" "b_self b \<noteq> 0"
  shows "\<forall>p \<in> set ps. packet_ok p \<Longrightarrow> h (b_self b) = Some calls \<Longrightarrow>
    \<exists>z. compare_sums b key ps x x h = Some (z, z, h(b_self b \<mapsto> calls + of_nat (length ps)))"
proof (induction ps arbitrary: x h calls)
  case Nil
  then show ?case by (auto simp: fun_upd_idem)
next
  case (Cons p ps)
  have "packet_ok (p\<lparr>protocol := key\<rparr>)" using Cons.prems(1) by (simp add: packet_ok_def)
  from internal_is_plugin [of _ b pick level h calls, OF this assms Cons.prems(2)]
  show ?case
    using Cons.IH [of "h(b_self b \<mapsto> calls + 1)" "calls + 1"
        "feed (internal_process (p\<lparr>protocol := key\<rparr>)) x"] Cons.prems(1)
    by (auto simp: Let_def add.assoc fun_upd_def cong: if_cong)
qed

lemma feed_results:
  "fold (\<lambda>o'. feed \<lparr>res_value = r_value o', res_handler = r_handler o'\<rparr>) (map (\<lambda>p. result_for (view_of p)) ps) x =
   fold feed (map internal_process ps) x"
  if "\<forall>p \<in> set ps. packet_ok p"
  using that
proof (induction ps arbitrary: x)
  case (Cons p ps)
  have "plug_mix (view_of p) = res_value (internal_process p)"
    by (simp add: plug_mix_def view_of_def view_len_def internal_process_def)
  then show ?case using Cons by (simp add: result_for_def view_of_def internal_process_def)
qed simp

text \<open>
  Batching changes the shape of the calls and nothing else: over any stream the batched loop
  feeds the checksum with exactly the results of single calls on the packets of its whole
  batches, and the plugin counts as many calls.
\<close>

theorem batched_agrees:
  assumes "\<forall>p \<in> set ps. packet_ok p" "self \<noteq> 0" "h self = Some calls" "length outs = kBatch"
  shows "batched plug_process_batch self ps outs x h =
    (let n = length ps div kBatch * kBatch
     in Some (fold feed (map internal_process (take n ps)) x, h(self \<mapsto> calls + of_nat n)))"
  using assms(1,3,4)
proof (induction "length ps" arbitrary: ps outs x h calls rule: less_induct)
  case less
  show ?case
  proof (cases "length ps < kBatch")
    case True
    then show ?thesis using less.prems by (simp add: batched.simps fun_upd_idem)
  next
    case False
    let ?now = "take kBatch ps" and ?rest = "drop kBatch ps"
    let ?outs = "map (\<lambda>p. result_for (view_of p)) ?now"
    have k: "0 < kBatch" "kBatch \<le> length ps" using False by (simp_all add: kBatch_def)
    have call: "plug_process_batch self (Some (map view_of ?now)) kBatch (Some outs) h =
        Some (swy_ok, Some ?outs, h(self \<mapsto> calls + of_nat kBatch))"
      using less.prems(2,3) assms(2) batch_loop_all [of outs kBatch "map view_of ?now"] k(2)
      by (simp add: plug_process_batch_def comp_def)
    have ok: "\<forall>p \<in> set ?now. packet_ok p" "\<forall>p \<in> set ?rest. packet_ok p"
      using less.prems(1) by (auto dest: in_set_takeD in_set_dropD)
    have len: "length ?outs = kBatch" using k(2) by simp
    have dec: "length ?rest < length ps" using k by simp
    have "length ps div kBatch * kBatch = kBatch + length ?rest div kBatch * kBatch"
      using k by (simp add: le_div_geq)
    then show ?thesis
      using less.hyps [OF dec ok(2) _ len, of "h(self \<mapsto> calls + of_nat kBatch)" "calls + of_nat kBatch"
          "fold feed (map internal_process ?now) x"] k(2)
      by (subst batched.simps) (simp add: False call feed_results [OF ok(1)] Let_def take_add fold_append add.assoc)
  qed
qed

theorem batched_agrees_witness:
  "batched plug_process_batch 8 [] (replicate 64 \<lparr>r_value = 0, r_handler = 0, reserved0 = 0, reserved1 = 0\<rparr>) 7 [8 \<mapsto> 0] =
     Some (7, [8 \<mapsto> 0])"
  by (subst batched_agrees [where calls = 0]) (simp_all add: kBatch_def)

text \<open>The timed calls count on the adapter's object and change nothing else of the heap.\<close>

definition counted_on :: "u64 \<Rightarrow> plug_heap \<Rightarrow> 'w \<times> plug_heap option \<Rightarrow> bool" where
  "counted_on self h wh \<longleftrightarrow> (\<exists>w c. wh = (w, Some (h(self \<mapsto> c))))"

lemma across_arm_plugin:
  assumes "b_api b = plug_api pick level" "b_self b \<noteq> 0" "packet_ok p" "counted_on (b_self b) h wh"
  shows "counted_on (b_self b) h (snd (snd (across_arm b p u wh)))"
proof -
  obtain w c where wh: "wh = (w, Some (h(b_self b \<mapsto> c)))" using assms(4) by (auto simp: counted_on_def)
  from internal_is_plugin [of p b pick level "h(b_self b \<mapsto> c)" c, OF assms(3,1,2)]
  show ?thesis unfolding wh by (auto simp: across_arm_def counted_on_def)
qed

lemma crossing_cost_plugin:
  assumes "b_api b = plug_api pick level" "b_self b \<noteq> 0" "\<forall>p \<in> set ps. packet_ok p" "h (b_self b) = Some c"
  shows "\<exists>ms w' c'. crossing_cost now b ps w h = (ms, (w', Some (h(b_self b \<mapsto> c'))))"
proof -
  let ?P = "counted_on (b_self b) h"
  have clock: "?P (snd (heap_clock now wh))" if "?P wh" for wh
    using that by (auto simp: heap_clock_def counted_on_def split_beta)
  have "?P (snd (crossing_cost now b ps w h))"
    unfolding crossing_cost_def measure_interleaved_def
  proof (rule measure_arms_keeps)
    show "?P (w, Some h)" using assms(4) by (auto simp: counted_on_def intro!: exI [of _ c] dest: fun_upd_idem)
    have "?P (snd (timed_arm (heap_clock now) (Pair ()) (across_arm b) ps wh))" if "?P wh" for wh
      by (rule timed_arm_keeps [OF _ _ clock that])
        (use assms(3) in \<open>blast intro: across_arm_plugin [OF assms(1,2)]\<close>, simp)
    moreover have "?P (snd (timed_arm (heap_clock now) (Pair ()) within_arm ps wh))" if "?P wh" for wh
      by (rule timed_arm_keeps [OF _ _ clock that]) (auto simp: within_arm_def)
    ultimately show "\<forall>r \<in> set (map (\<lambda>arm. arm ps)
        [timed_arm (heap_clock now) (Pair ()) (across_arm b), timed_arm (heap_clock now) (Pair ()) within_arm]).
      \<forall>wh. ?P wh \<longrightarrow> ?P (snd (r wh))" by simp
  qed
  then show ?thesis by (cases "crossing_cost now b ps w h") (auto simp: counted_on_def)
qed

text \<open>An allocator that does not fail on a heap.\<close>

definition allocates :: "(plug_heap \<Rightarrow> u64) \<Rightarrow> plug_heap \<Rightarrow> bool" where
  "allocates pick h \<longleftrightarrow> pick h \<noteq> 0 \<and> h (pick h) = None"

lemma batched_cost_plugin:
  assumes "\<forall>p \<in> set ps. packet_ok p" "allocates pick h"
  shows "\<exists>ns w'. batched_cost now (plug_api pick 2) ps w h = Some (ns, w', h)"
proof -
  let ?h1 = "h(pick h \<mapsto> 0)"
  have "plug_create pick h = (pick h, ?h1)"
    using assms(2) by (simp add: plug_create_def allocates_def Let_def)
  moreover obtain z n where "batched plug_process_batch (pick h) ps
      (replicate kBatch \<lparr>r_value = 0, r_handler = 0, reserved0 = 0, reserved1 = 0\<rparr>) fnv_basis ?h1 =
      Some (z, h(pick h \<mapsto> n))"
    using batched_agrees [OF assms(1), of "pick h" ?h1 0] assms(2) by (auto simp: allocates_def Let_def)
  moreover have "plug_destroy (pick h) (h(pick h \<mapsto> n)) = Some h"
    using assms(2) by (simp add: plug_destroy_def allocates_def fun_upd_idem)
  ultimately show ?thesis
    by (simp add: batched_cost_def plug_api_def split_beta Let_def)
qed

text \<open>
  With both libraries in one of the directories searched, the plugin's entry point behind each, and
  an allocator that does not fail for the two objects it makes, phase 6 passes all its checks,
  whatever the clock shows and whatever packets its stream holds, and leaves the plugin's heap as it found it: the
  adapter's object and the one of the batches are destroyed, and nothing else was touched.
\<close>

theorem boundary_phase_passes:
  fixes h :: plug_heap
  assumes "v2 = find_plugin readable ext ''plugin_v2''" "v1 = find_plugin readable ext ''plugin_v1''"
    and "v2 \<noteq> ''''" "v1 \<noteq> ''''" "dlopen v2 \<noteq> 0" "dlopen v1 \<noteq> 0"
    and "dlsym (dlopen v2) entry_name = Some (\<lambda>_. switchyard_plugin_entry pick 2)"
    and "dlsym (dlopen v1) entry_name = Some (\<lambda>_. switchyard_plugin_entry pick 1)"
    and alloc: "allocates pick h" "\<forall>calls. allocates pick (h(pick h \<mapsto> calls))"
    and pk: "\<forall>p \<in> set (stream kKeys). packet_ok p"
  shows "\<exists>figures w'. phase_boundary now readable ext dlopen dlsym stream w h =
    Some (replicate 7 True, figures, w', h)"
proof -
  obtain l2 where l2: "load dlopen dlsym v2 fresh_plugin = (True, l2)"
    and a2: "lp_api l2 = Some (plug_api pick 2)" "claimed_keys l2 = Some kKeys" "has_batch l2"
    using plugin_negotiation [of 2 dlopen v2 dlsym pick fresh_plugin] assms(5,7)
    by (auto simp: Let_def split: prod.splits)
  obtain l1 where l1: "load dlopen dlsym v1 fresh_plugin = (True, l1)" "\<not> has_batch l1"
    using plugin_negotiation [of 1 dlopen v1 dlsym pick fresh_plugin] assms(6,8)
    by (auto simp: Let_def split: prod.splits)
  let ?b = "\<lparr>b_api = plug_api pick 2, b_key = 2000, b_self = pick h\<rparr>"
  let ?h1 = "h(pick h \<mapsto> 0)" and ?ps = "stream kKeys"
  have new: "backed_new (plug_api pick 2) 2000 h = Some (?b, ?h1)"
    using alloc(1) by (simp add: backed_new_def plug_api_def plug_create_def allocates_def Let_def)
  have "\<forall>p \<in> set (take 4096 ?ps). packet_ok p" using pk by (meson in_set_takeD)
  from compare_sums_plugin [of ?b pick 2, OF _ _ this, of ?h1 0 2000 fnv_basis] alloc(1)
  obtain z n where cmp: "compare_sums ?b 2000 (take 4096 ?ps) fnv_basis fnv_basis ?h1 =
      Some (z, z, h(pick h \<mapsto> n))" by (auto simp: allocates_def)
  from crossing_cost_plugin [of ?b pick 2 ?ps "h(pick h \<mapsto> n)" n now w] alloc(1) pk
  obtain ms w3 c where cross: "crossing_cost now ?b ?ps w (h(pick h \<mapsto> n)) =
      (ms, (w3, Some (h(pick h \<mapsto> c))))" by (auto simp: allocates_def)
  obtain ns w4 where bat: "batched_cost now (plug_api pick 2) ?ps w3 (h(pick h \<mapsto> c)) =
      Some (ns, w4, h(pick h \<mapsto> c))"
    using batched_cost_plugin [OF pk alloc(2) [rule_format, of c], of now w3] by blast
  have del: "backed_delete ?b (h(pick h \<mapsto> c)) = Some h"
    using alloc(1) by (simp add: backed_delete_def plug_api_def plug_destroy_def allocates_def fun_upd_idem)
  have keys: "kKeys = 2000 # tl kKeys" by (simp add: kKeys_def)
  have ck: "claimed_keys l2 = Some (2000 # tl kKeys)" using a2(2) keys by simp
  have ok: "ok l2" "backed_valid ?b" using a2(1) alloc(1) by (simp_all add: ok_def backed_valid_def allocates_def)
  have seven: "replicate 7 True = [True, True, True, True, True, True, True]"
    by (simp add: eval_nat_numeral)
  show ?thesis
    unfolding phase_boundary_def Let_def assms(1,2) [symmetric] l2 l1 prod.case a2(1) ck
      option.case list.case
    unfolding keys [symmetric] new prod.case option.case cmp cross bat del seven
    using assms(3,4) ok a2(3) l1(2) by simp
qed

text \<open>An allocator with two places.\<close>

definition two_places :: "plug_heap \<Rightarrow> u64" where
  "two_places h = (if h 64 = None then 64 else 128)"

lemma two_places_allocates: "allocates two_places Map.empty" "allocates two_places [two_places Map.empty \<mapsto> n]"
  by (simp_all add: allocates_def two_places_def)

theorem boundary_phase_passes_witness:
  "\<exists>figures w'. phase_boundary (\<lambda>w. (of_nat w, Suc w)) (\<lambda>path. take 4 path = ''bin/'') ''.so''
     (\<lambda>path. if last (take 13 path) = CHR ''2'' then 7 else 8)
     (\<lambda>d _. Some (\<lambda>_. switchyard_plugin_entry two_places (if d = 7 then 2 else 1)))
     (\<lambda>keys. [\<lparr>protocol = hd keys, pkt_length = 0, flags = 0, payload = replicate 24 5\<rparr>]) 0 Map.empty =
   Some (replicate 7 True, figures, w', Map.empty)"
proof -
  let ?r = "\<lambda>path :: string. take 4 path = ''bin/''"
  have p: "find_plugin ?r ''.so'' ''plugin_v2'' = ''bin/plugin_v2.so''"
    "find_plugin ?r ''.so'' ''plugin_v1'' = ''bin/plugin_v1.so''"
    by (simp_all add: find_plugin_def plugin_dirs_def)
  show ?thesis
    by (rule boundary_phase_passes [where pick = two_places, OF refl refl])
      (simp_all only: p, simp_all add: packet_ok_def two_places_allocates)
qed

end
