(* ===== verification/Sw_Phases.thy ===== *)
theory Sw_Phases
  imports Clock_Gap Sw_Stream Sw_Measure Sw_Mechanism Sw_Boundary
begin

text \<open>
  The other phases of the switchyard bench and its exit code: the instrument (bench/instrument.cpp),
  the scan over a growing handler set (scan.cpp), the four traffic distributions (distribution.cpp), the
  dispatch mechanisms (mechanism.cpp), the code sizes read from a file (codesize.cpp), and main.cpp.
  A packet stream is an argument, a function of its distribution, keys and seed; so are the clock
  and the contents of the files. Figures are rational numbers.
\<close>

type_synonym streams = "distribution \<Rightarrow> u16 list \<Rightarrow> u64 \<Rightarrow> packet list \<times> u64 list"

definition first_keys :: "nat \<Rightarrow> u16 list" where
  "first_keys n = map key_of [0..<n]"

definition kTargetPacketsPerSec :: rat where "kTargetPacketsPerSec = 3 * 10 ^ 6"
definition kBudgetNs :: rat where "kBudgetNs = 10 ^ 9 / kTargetPacketsPerSec"

section \<open>Phase 0, the instrument\<close>

text \<open>
  The readings of the clock: one to compare with the deadline, one to keep, until the deadline or
  until \<open>room\<close> have been kept. A tick is \<open>unit\<close> nanoseconds.
\<close>

fun tick_readings :: "nat \<Rightarrow> int \<Rightarrow> int list \<Rightarrow> int list" where
  "tick_readings (Suc room) deadline (t # u # ts) =
     (if t < deadline then u # tick_readings room deadline ts else [])"
| "tick_readings _ _ _ = []"

definition clock_tick_ns :: "rat \<Rightarrow> int list \<Rightarrow> rat" where
  "clock_tick_ns unit readings =
     (let v = remdups_adj (sort readings)
      in if length v < 2 then 0 else of_int (smallest_gap v) * unit)"

definition null_arm :: "packet \<Rightarrow> unit \<Rightarrow> 'w \<Rightarrow> result \<times> unit \<times> 'w" where
  "null_arm p a w = (\<lparr>res_value = ucast (flags p), res_handler = protocol p\<rparr>, a, w)"

definition body_results :: "packet \<Rightarrow> u64 list" where
  "body_results p = map (\<lambda>n. mix n kFatRounds p) [0..<kHandlers]"

definition distinct_bodies :: "packet \<Rightarrow> nat" where
  "distinct_bodies p = length (remdups_adj (sort (body_results p)))"

text \<open>The two checks of the phase; \<open>w\<close> is the world after the warm-up.\<close>

definition phase_instrument :: "'w clock \<Rightarrow> streams \<Rightarrow> 'w \<Rightarrow> bool list \<times> 'w" where
  "phase_instrument now stream w =
     (let ps = fst (stream Zipf (first_keys kHandlers) 0xC0FFEE);
          (floor, w1) = measure_run (timed_arm now (Pair ()) null_arm ps) w
      in ([distinct_bodies (ps ! 0) = kHandlers, ns_per_packet floor < 5], w1))"

section \<open>Phase 2, the scan\<close>

record scan_row =
  sr_handlers :: nat
  sr_scan :: rat
  sr_table :: rat
  sr_scan_probes :: rat
  sr_budget :: rat      \<comment> \<open>per cent\<close>
  sr_speedup :: rat

definition one_scan :: "'w clock \<Rightarrow> streams \<Rightarrow> nat \<Rightarrow> 'w \<Rightarrow> (scan_row \<times> bool) \<times> 'w" where
  "one_scan now stream n w =
     (let ps = fst (stream Uniform (first_keys n) 0xABCD); hs = first_handlers kFatRounds n;
          (m, w1) = measure_interleaved ps
            [timed_arm now (Pair (scan_unordered hs)) (scan_run False),
             timed_arm now (Pair (table_compact hs)) (compact_run False)] w;
          scan = m ! 0; table = m ! 1;
          pr = count_probes reset_probes (scan_run True) probes (scan_unordered hs) ps w1
      in ((\<lparr>sr_handlers = n, sr_scan = ns_per_packet scan, sr_table = ns_per_packet table,
            sr_scan_probes = pr, sr_budget = 100 * ns_per_packet scan / kBudgetNs,
            sr_speedup = ns_per_packet scan / ns_per_packet table\<rparr>,
           m_checksum scan = m_checksum table), w1))"

text \<open>One row after another, in the world the one before left.\<close>

fun in_turn :: "('b \<Rightarrow> 'w \<Rightarrow> 'c \<times> 'w) \<Rightarrow> 'b list \<Rightarrow> 'w \<Rightarrow> 'c list \<times> 'w" where
  "in_turn f [] w = ([], w)"
| "in_turn f (x # xs) w = (let (y, w1) = f x w; (ys, w2) = in_turn f xs w1 in (y # ys, w2))"

definition phase_scan :: "'w clock \<Rightarrow> streams \<Rightarrow> 'w \<Rightarrow> (scan_row \<times> bool) list \<times> 'w" where
  "phase_scan now stream = in_turn (one_scan now stream) [10, 25, 50, 100]"

section \<open>Phase 3, the distribution\<close>

record dist_row =
  dr_traffic :: string
  dr_arm :: string
  dr_ns :: rat
  dr_probes :: rat
  dr_budget :: rat
  dr_rate :: rat

definition row :: "string \<Rightarrow> string \<Rightarrow> measured \<Rightarrow> rat \<Rightarrow> dist_row" where
  "row traffic arm m pr =
     \<lparr>dr_traffic = traffic, dr_arm = arm, dr_ns = ns_per_packet m, dr_probes = pr,
      dr_budget = 100 * ns_per_packet m / kBudgetNs, dr_rate = 1000 / ns_per_packet m\<rparr>"

definition one_distribution ::
    "'w clock \<Rightarrow> streams \<Rightarrow> distribution \<Rightarrow> 'w \<Rightarrow> (dist_row list \<times> bool) \<times> 'w" where
  "one_distribution now stream d w =
     (let hs = handler_set kFatRounds; dn = name_of d;
          (ps, freq) = stream d (first_keys kHandlers) 0xD15C0;
          (m, w1) = measure_interleaved ps
            [timed_arm now (Pair (scan_unordered hs)) (scan_run False),
             timed_arm now (Pair (scan_ordered hs freq)) (scan_run False),
             timed_arm now (Pair (scan_unordered hs)) (mtf_run False),
             timed_arm now (Pair (table_direct16 hs)) (direct16_run False),
             timed_arm now (Pair (table_compact hs)) (compact_run False)] w;
          unord = m ! 0
      in (([row dn ''scan-unordered'' unord
              (count_probes reset_probes (scan_run True) probes (scan_unordered hs) ps w1),
            row dn ''scan-ordered'' (m ! 1)
              (count_probes reset_probes (scan_run True) probes (scan_ordered hs freq) ps w1),
            row dn ''scan-mtf'' (m ! 2)
              (count_probes reset_probes (mtf_run True) probes (scan_unordered hs) ps w1),
            row dn ''table-direct16'' (m ! 3)
              (count_probes (\<lambda>a. a\<lparr>d_probes := 0\<rparr>) (direct16_run True) d_probes (table_direct16 hs) ps w1),
            row dn ''table-compact'' (m ! 4)
              (count_probes (\<lambda>a. a\<lparr>c_probes := 0\<rparr>) (compact_run True) c_probes (table_compact hs) ps w1)],
           \<forall>k \<in> {1, 2, 3, 4}. m_checksum (m ! k) = m_checksum unord), w1))"

definition phase_distribution ::
    "'w clock \<Rightarrow> streams \<Rightarrow> 'w \<Rightarrow> (dist_row list \<times> bool) list \<times> 'w" where
  "phase_distribution now stream = in_turn (one_distribution now stream) [Uniform, Zipf, Hot95, Worst]"

section \<open>Phase 4, the mechanisms\<close>

text \<open>
  A mechanism as an arm. An index out of range, \<open>None\<close>, is answered like an unsupported packet; by
  the agreement of the mechanisms it does not happen.
\<close>

definition reaching :: "(packet \<Rightarrow> 'w \<Rightarrow> (result \<times> 'w) option) \<Rightarrow> packet \<Rightarrow> unit \<Rightarrow> 'w \<Rightarrow> result \<times> unit \<times> 'w" where
  "reaching f p a w = (case f p w of Some (r, w1) \<Rightarrow> (r, a, w1) | None \<Rightarrow> (unsupported, a, w))"

definition direct_arm :: "nat \<Rightarrow> packet \<Rightarrow> unit \<Rightarrow> 'w \<Rightarrow> result \<times> unit \<times> 'w" where
  "direct_arm k = reaching (\<lambda>p w. Some (mech_direct k p, w))"

definition virtual_arm :: "nat \<Rightarrow> packet \<Rightarrow> unit \<Rightarrow> 'w \<Rightarrow> result \<times> unit \<times> 'w" where
  "virtual_arm k = reaching (mech_virtual k selector)"

definition erasure_arm :: "nat \<Rightarrow> packet \<Rightarrow> unit \<Rightarrow> 'w \<Rightarrow> result \<times> unit \<times> 'w" where
  "erasure_arm k = reaching (\<lambda>p w. map_option (\<lambda>r. (r, w)) (mech_erasure k selector p))"

definition variant_arm :: "nat \<Rightarrow> packet \<Rightarrow> unit \<Rightarrow> 'w \<Rightarrow> result \<times> unit \<times> 'w" where
  "variant_arm k = reaching (mech_variant k selector)"

record mech_row =
  mr_name :: string
  mr_hot :: rat
  mr_mixed :: rat
  mr_tiny :: rat
  mr_icache :: rat

definition report :: "string \<Rightarrow> measured \<Rightarrow> measured \<Rightarrow> measured \<Rightarrow> mech_row" where
  "report nm h m t =
     \<lparr>mr_name = nm, mr_hot = ns_per_packet h, mr_mixed = ns_per_packet m, mr_tiny = ns_per_packet t,
      mr_icache = ns_per_packet m - ns_per_packet h\<rparr>"

text \<open>The three cells of a mechanism: hot, mixed and mixed with tiny handlers.\<close>

definition cells ::
    "'w clock \<Rightarrow> packet list \<Rightarrow> packet list \<Rightarrow> (nat \<Rightarrow> packet \<Rightarrow> unit \<Rightarrow> 'w \<Rightarrow> result \<times> unit \<times> 'w) \<Rightarrow> 'w timed list" where
  "cells now hp mp arm =
     [timed_arm now (Pair ()) (arm kFatRounds) hp, timed_arm now (Pair ()) (arm kFatRounds) mp,
      timed_arm now (Pair ()) (arm kTinyRounds) mp]"

definition phase_mechanism :: "'w clock \<Rightarrow> streams \<Rightarrow> 'w \<Rightarrow> (mech_row list \<times> bool list) \<times> 'w" where
  "phase_mechanism now stream w =
     (let hp = fst (stream Worst [key_of 0] 0x404); mp = fst (stream Zipf (first_keys kHandlers) 0x404);
          (r, w1) = measure_arms
            (cells now hp mp direct_arm @ cells now hp mp virtual_arm @
             cells now hp mp erasure_arm @ cells now hp mp variant_arm) w
      in (([report ''direct-call'' (r ! 0) (r ! 1) (r ! 2), report ''virtual'' (r ! 3) (r ! 4) (r ! 5),
            report ''erasure'' (r ! 6) (r ! 7) (r ! 8), report ''variant'' (r ! 9) (r ! 10) (r ! 11)],
           [m_checksum (r ! 7) = m_checksum (r ! 4), m_checksum (r ! 10) = m_checksum (r ! 4)]), w1))"

section \<open>What it shows\<close>

text \<open>An arm that answers from the packet alone has one checksum, whenever it is timed.\<close>

definition answering :: "(packet \<Rightarrow> result) \<Rightarrow> packet \<Rightarrow> unit \<Rightarrow> 'w \<Rightarrow> result \<times> unit \<times> 'w" where
  "answering f p a w = (f p, a, w)"

lemma answering_loop:
  "checksum_loop (answering f) ps h a w = (foldl (\<lambda>h p. feed (f p) h) h ps, a, w)"
  by (induction ps arbitrary: h) (simp_all add: answering_def)

lemma answering_passes:
  "fst (pass_loop (answering f) ps k h a w) = ((\<lambda>h. foldl (\<lambda>h p. feed (f p) h) h ps) ^^ k) h"
  by (induction k arbitrary: h) (simp_all add: answering_loop funpow_Suc_right del: funpow.simps(2))

lemma answering_timed:
  "m_checksum (fst (timed_arm now (Pair ()) (answering f) ps w)) = run_arm (answering f) () ps ()"
  by (simp add: timed_arm_def run_arm_def answering_passes split_beta)

lemma mechanism_arms:
  "virtual_arm r = answering (mech_result r)" "erasure_arm r = answering (mech_result r)"
  "variant_arm r = answering (mech_result r)" "direct_arm r = answering (mech_direct r)"
  by (simp_all add: fun_eq_iff virtual_arm_def erasure_arm_def variant_arm_def direct_arm_def
      reaching_def answering_def mechanisms_result)

lemma in_turn_all:
  "(\<And>x w. x \<in> set xs \<Longrightarrow> Q (fst (f x w))) \<Longrightarrow> list_all Q (fst (in_turn f xs w))"
  by (induction xs arbitrary: w) (simp_all add: split_beta)

text \<open>
  Phases 2 and 3 pass all their checks, for every stream, clock and frequency table: at each of the
  four handler counts the compact table has the checksum of the scan, and under each of the four
  distributions every arm has the checksum of the brief's loop.
\<close>

theorem scan_phase_passes: "list_all snd (fst (phase_scan now stream w))"
proof -
  have "snd (fst (one_scan now stream n w))" for n w
  proof -
    let ?ps = "fst (stream Uniform (first_keys n) 0xABCD)" and ?hs = "first_handlers kFatRounds n"
    let ?s = "run_arm (ref_dispatch ?hs) () ?ps w"
    obtain m w1 where m: "measure_interleaved ?ps
        [timed_arm now (Pair (scan_unordered ?hs)) (scan_run False),
         timed_arm now (Pair (table_compact ?hs)) (compact_run False)] w = (m, w1)" by fastforce
    have "map m_checksum (fst (measure_interleaved ?ps
        [timed_arm now (Pair (scan_unordered ?hs)) (scan_run False),
         timed_arm now (Pair (table_compact ?hs)) (compact_run False)] w)) = [?s, ?s]"
      unfolding measure_interleaved_def
      by (rule measure_arms_each) (simp add: generated_arms_timed [where w' = w])
    then have "map m_checksum m = [?s, ?s]" by (simp only: m fst_conv)
    then show ?thesis by (auto simp: one_scan_def m)
  qed
  then show ?thesis unfolding phase_scan_def by (rule in_turn_all)
qed

theorem distribution_phase_passes: "list_all snd (fst (phase_distribution now stream w))"
proof -
  have "snd (fst (one_distribution now stream d w))" for d w
  proof -
    let ?hs = "first_handlers kFatRounds kHandlers"
    obtain ps freq where st: "stream d (first_keys kHandlers) 0xD15C0 = (ps, freq)" by fastforce
    obtain m w1 where m: "measure_interleaved ps
        [timed_arm now (Pair (scan_unordered ?hs)) (scan_run False),
         timed_arm now (Pair (scan_ordered ?hs freq)) (scan_run False),
         timed_arm now (Pair (scan_unordered ?hs)) (mtf_run False),
         timed_arm now (Pair (table_direct16 ?hs)) (direct16_run False),
         timed_arm now (Pair (table_compact ?hs)) (compact_run False)] w = (m, w1)" by fastforce
    have "map m_checksum m = replicate 5 (run_arm (ref_dispatch ?hs) () ps w)"
      using measured_checksums_agree [of ps now kFatRounds kHandlers freq w w] by (simp only: m fst_conv)
    then show ?thesis
      by (auto simp: one_distribution_def handler_set_first st m Let_def eval_nat_numeral)
  qed
  then show ?thesis unfolding phase_distribution_def by (rule in_turn_all)
qed

text \<open>
  Phase 4 passes: through erasure and through variants every packet gets the result it gets
  through virtual calls.
\<close>

theorem mechanism_phase_passes: "snd (fst (phase_mechanism now stream w)) = [True, True]"
proof -
  let ?hp = "fst (stream Worst [key_of 0] 0x404)" and ?mp = "fst (stream Zipf (first_keys kHandlers) 0x404)"
  let ?sum = "\<lambda>f ps. run_arm (answering f) () ps ()"
  let ?three = "\<lambda>f. [?sum (f kFatRounds) ?hp, ?sum (f kFatRounds) ?mp, ?sum (f kTinyRounds) ?mp]"
  let ?runs = "cells now ?hp ?mp direct_arm @ cells now ?hp ?mp virtual_arm @
      cells now ?hp ?mp erasure_arm @ cells now ?hp ?mp variant_arm"
  obtain r w1 where r: "measure_arms ?runs w = (r, w1)" by fastforce
  have "map m_checksum (fst (measure_arms ?runs w)) =
      ?three mech_direct @ ?three mech_result @ ?three mech_result @ ?three mech_result"
    by (rule measure_arms_each) (simp add: cells_def mechanism_arms answering_timed)
  then have "map m_checksum r =
      ?three mech_direct @ ?three mech_result @ ?three mech_result @ ?three mech_result"
    by (simp only: r fst_conv)
  then show ?thesis by (auto simp: phase_mechanism_def r)
qed

text \<open>
  The probes of a row of phase 2 are the mean position at which the packets of its stream are
  accepted, or the length of the list for a packet nobody accepts.
\<close>

theorem scan_row_probes:
  fixes w :: 'a
  assumes "length (fst (stream Uniform (first_keys n) 0xABCD)) = kPacketPool"
  shows "sr_scan_probes (fst (fst (one_scan now stream n w))) =
    of_nat (\<Sum>p \<leftarrow> fst (stream Uniform (first_keys n) 0xABCD).
      scan_depth p (first_handlers kFatRounds n :: 'a handler list)) / of_nat kPacketPool"
proof -
  have "length (first_handlers kFatRounds n :: 'a handler list) \<le> 100"
    by (simp add: first_handlers_def handler_set_def kHandlers_def)
  then have "kPacketPool * length (first_handlers kFatRounds n :: 'a handler list) < 2 ^ 64"
    by (rule order.strict_trans1 [OF mult_left_mono]) (simp_all add: kPacketPool_def)
  then show ?thesis
    using assms by (simp add: one_scan_def Let_def split_beta count_probes_exact scan_unordered_def)
qed

text \<open>
  The tick reported is the smallest difference of two readings that differ, and zero if none do.
\<close>

theorem clock_tick_smallest:
  assumes "a \<in> set rs" "b \<in> set rs" "a \<noteq> b"
  shows "clock_tick_ns unit rs = of_int (Min {y - x | x y. x \<in> set rs \<and> y \<in> set rs \<and> x < y}) * unit"
  using smallest_difference [OF assms] by (simp add: clock_tick_ns_def Let_def)

theorem clock_tick_none: "clock_tick_ns unit (replicate n t) = 0"
proof -
  have "set (sort (replicate n t)) \<subseteq> {t}" by auto
  then have "card (set (remdups_adj (sort (replicate n t)))) \<le> 1"
    by (metis card_mono finite.intros card.empty card_insert_disjoint empty_iff One_nat_def remdups_adj_set)
  then show ?thesis
    by (simp add: clock_tick_ns_def Let_def distinct_card [OF sorted_distinct_remdups_adj] del: remdups_adj_set set_sort)
qed

text \<open>The hundred bodies count as distinct exactly if no two of them agree on the packet.\<close>

theorem bodies_distinct:
  "distinct_bodies p = kHandlers \<longleftrightarrow> inj_on (\<lambda>n. mix n kFatRounds p) {..<kHandlers}"
proof -
  have "distinct_bodies p = card (set (body_results p))"
    using distinct_card [OF sorted_distinct_remdups_adj, of "sort (body_results p)"]
    by (simp add: distinct_bodies_def)
  also have "\<dots> = card ((\<lambda>n. mix n kFatRounds p) ` {..<kHandlers})"
    by (simp add: body_results_def atLeast0LessThan)
  finally show ?thesis by (metis card_lessThan eq_card_imp_inj_on card_image finite_lessThan)
qed

end
