(* ===== verification/Sw_Bench.thy ===== *)
theory Sw_Bench
  imports Sw_Phases
begin

text \<open>
  Phase 5 of the switchyard bench (bench/codesize.cpp), which reads what llvm-size printed, and the
  exit code of the whole bench (bench/main.cpp, bench/harness.cpp). The contents of the files that
  exist are an argument. An integer too long for its type, which leaves \<open>sscanf\<close> undefined, is not
  modelled: integers are unbounded here.
\<close>

section \<open>The standard library\<close>

text \<open>\<open>fgets\<close> with a buffer of \<open>n\<close> bytes, repeated to the end of the file.\<close>

function fgets_all :: "nat \<Rightarrow> string \<Rightarrow> string list" where
  "fgets_all n s =
     (if s = '''' \<or> n < 2 then []
      else let k = Suc (length (takeWhile (\<lambda>c. c \<noteq> CHR 0x0A) (take (n - 2) s)))
           in take k s # fgets_all n (drop k s))"
  by pat_completeness auto
termination
  by (relation "measure (\<lambda>(n, s). length s)") auto

declare fgets_all.simps [simp del]

definition isspace :: "char \<Rightarrow> bool" where
  "isspace c \<longleftrightarrow> c \<in> {CHR '' '', CHR 0x09, CHR 0x0A, CHR 0x0B, CHR 0x0C, CHR 0x0D}"

definition digit :: "char \<Rightarrow> bool" where
  "digit c \<longleftrightarrow> 48 \<le> (of_char c :: nat) \<and> (of_char c :: nat) \<le> 57"

definition decimal :: "string \<Rightarrow> int" where
  "decimal ds = foldl (\<lambda>n c. 10 * n + (of_char c - 48)) 0 ds"

text \<open>The conversions \<open>%lld\<close> and \<open>%<n>s\<close>, each with the input it leaves.\<close>

definition scan_lld :: "string \<Rightarrow> (int \<times> string) option" where
  "scan_lld s =
     (let s1 = dropWhile isspace s;
          signed = s1 \<noteq> '''' \<and> hd s1 \<in> {CHR ''-'', CHR ''+''};
          s2 = (if signed then drop 1 s1 else s1);
          ds = takeWhile digit s2
      in if ds = '''' then None
         else Some (if signed \<and> hd s1 = CHR ''-'' then - decimal ds else decimal ds, drop (length ds) s2))"

definition scan_s :: "nat \<Rightarrow> string \<Rightarrow> (string \<times> string) option" where
  "scan_s n s =
     (let s1 = dropWhile isspace s; w = takeWhile (\<lambda>c. \<not> isspace c) (take n s1)
      in if w = '''' then None else Some (w, drop (length w) s1))"

section \<open>Phase 5\<close>

record size_row =
  sz_name :: string
  sz_text :: int

text \<open>\<open>.../size_virtual.exe\<close> becomes \<open>virtual\<close>.\<close>

definition is_sep :: "char \<Rightarrow> bool" where
  "is_sep c \<longleftrightarrow> c \<in> {CHR ''/'', CHR 0x5C}"

definition after_slash :: "string \<Rightarrow> string" where
  "after_slash nm = rev (takeWhile (\<lambda>c. \<not> is_sep c) (rev nm))"

definition before_dot :: "string \<Rightarrow> string" where
  "before_dot nm =
     (if CHR ''.'' \<in> set nm then rev (drop 1 (dropWhile (\<lambda>c. c \<noteq> CHR ''.'') (rev nm))) else nm)"

definition probe_name :: "string \<Rightarrow> string" where
  "probe_name file =
     (let nm = before_dot (after_slash file)
      in if take 5 nm = ''size_'' then drop 5 nm else nm)"

definition read_line :: "string \<Rightarrow> size_row option" where
  "read_line line =
     (if line \<noteq> '''' \<and> hd line = CHR ''#'' then None
      else case scan_lld line of None \<Rightarrow> None | Some (tx, s1) \<Rightarrow>
        (case scan_lld s1 of None \<Rightarrow> None | Some (_, s2) \<Rightarrow>
        (case scan_lld s2 of None \<Rightarrow> None | Some (_, s3) \<Rightarrow>
        (case scan_lld s3 of None \<Rightarrow> None | Some (_, s4) \<Rightarrow>
        (case scan_s 63 s4 of None \<Rightarrow> None | Some (_, s5) \<Rightarrow>
        (case scan_s 511 s5 of None \<Rightarrow> None | Some (file, _) \<Rightarrow>
           Some \<lparr>sz_name = probe_name file, sz_text = tx\<rparr>))))))"

definition read_sizes :: "string option \<Rightarrow> size_row list" where
  "read_sizes f = (case f of None \<Rightarrow> [] | Some s \<Rightarrow> List.map_filter read_line (fgets_all 1024 s))"

definition size_files :: "string list" where
  "size_files = [''sizes.txt'', ''bin/sizes.txt'', ''../bin/sizes.txt'', ''cpp/bin/sizes.txt'']"

definition size_rows :: "(string \<Rightarrow> string option) \<Rightarrow> size_row list" where
  "size_rows files =
     (case find (\<lambda>rows. rows \<noteq> []) (map (\<lambda>p. read_sizes (files p)) size_files) of
        None \<Rightarrow> [] | Some rows \<Rightarrow> rows)"

definition size_of :: "string \<Rightarrow> size_row list \<Rightarrow> int" where
  "size_of nm rows = foldl (\<lambda>n r. if sz_name r = nm then sz_text r else n) 0 rows"

text \<open>What each row is printed with: its distance from the baseline, except for the baselines.\<close>

definition size_deltas :: "size_row list \<Rightarrow> (string \<times> int \<times> int option) list" where
  "size_deltas rows =
     map (\<lambda>r. (sz_name r, sz_text r,
       if sz_name r \<in> {''none'', ''empty''} then None else Some (sz_text r - size_of ''none'' rows))) rows"

definition phase_codesize :: "(string \<Rightarrow> string option) \<Rightarrow> bool list" where
  "phase_codesize files =
     (let rows = size_rows files; base = size_of ''none'' rows; empty = size_of ''empty'' rows;
          measured = base > 0 \<and> empty > 0
      in if rows = [] then []
         else measured # (if measured then [base - empty > 32 * 1024] else []))"

section \<open>The exit code\<close>

definition failure_count :: "bool list \<Rightarrow> nat" where
  "failure_count checks = length (filter Not checks)"

text \<open>
  The bench: every stream has a generator of its own, which the shuffle and then the draws come
  from, so the draws depend on the distribution and the number of keys.
  \<open>w\<close> is what the measurements share, \<open>h\<close> the heap of the plugins.
\<close>

definition bench_stream ::
    "(nat \<Rightarrow> rat) \<Rightarrow> (u64 \<Rightarrow> nat list \<Rightarrow> nat list) \<Rightarrow> (u64 \<Rightarrow> distribution \<Rightarrow> nat \<Rightarrow> nat \<Rightarrow> draw) \<Rightarrow> streams" where
  "bench_stream pw shuffle draws d keys seed = packet_stream pw (shuffle seed) d keys (draws seed d (length keys))"

definition bench_main ::
    "'w clock \<Rightarrow> (nat \<Rightarrow> rat) \<Rightarrow> (u64 \<Rightarrow> nat list \<Rightarrow> nat list) \<Rightarrow> (u64 \<Rightarrow> distribution \<Rightarrow> nat \<Rightarrow> nat \<Rightarrow> draw) \<Rightarrow>
     (string \<Rightarrow> string option) \<Rightarrow> (string \<Rightarrow> bool) \<Rightarrow> string \<Rightarrow> (string \<Rightarrow> u64) \<Rightarrow>
     (u64 \<Rightarrow> string \<Rightarrow> (unit \<Rightarrow> 'h api option) option) \<Rightarrow> 'w \<Rightarrow> 'h \<Rightarrow> (nat \<times> 'h) option" where
  "bench_main now pw shuffle draws files readable ext dlopen dlsym w h =
     (let stream = bench_stream pw shuffle draws;
          (c0, w0) = phase_instrument now stream w;
          c1 = phase_invariants pw (shuffle 0x5EED) (draws 0x5EED Zipf kHandlers) w0;
          (r2, w2) = phase_scan now stream w0;
          (r3, w3) = phase_distribution now stream w2;
          ((_, c4), w4) = phase_mechanism now stream w3;
          c5 = phase_codesize files
      in case phase_boundary now readable ext dlopen dlsym
             (\<lambda>keys. fst (stream Uniform keys 0xB0117)) w4 h of
           None \<Rightarrow> None
         | Some (c6, _, _, h1) \<Rightarrow>
             Some (if failure_count (c0 @ c1 @ map snd r2 @ map snd r3 @ c4 @ c5 @ c6) = 0 then 0 else 1, h1))"

section \<open>Reading a line\<close>

lemma digit_plain: "digit c \<Longrightarrow> \<not> isspace c \<and> c \<notin> {CHR ''-'', CHR ''+'', CHR ''#''}"
  by (auto simp: digit_def isspace_def)

lemma skip_blanks:
  "list_all isspace g \<Longrightarrow> x \<noteq> '''' \<Longrightarrow> \<not> isspace (hd x) \<Longrightarrow> dropWhile isspace (g @ x @ rest) = x @ rest"
  by (induction g) (auto simp: neq_Nil_conv)

lemma take_all_while:
  "list_all P x \<Longrightarrow> y = [] \<or> \<not> P (hd y) \<Longrightarrow> takeWhile P (x @ y) = x"
  by (cases y) (auto simp: takeWhile_append2 list_all_iff takeWhile_tail)

lemma scan_lld_digits:
  assumes "list_all isspace g" "ds \<noteq> ''''" "list_all digit ds" "rest = '''' \<or> \<not> digit (hd rest)"
  shows "scan_lld (g @ ds @ rest) = Some (decimal ds, rest)"
proof -
  obtain c cs where ds: "ds = c # cs" using assms(2) by (cases ds) auto
  then have "digit c" using assms(3) by simp
  from digit_plain [OF this] have c: "\<not> isspace c" "c \<noteq> CHR ''-''" "c \<noteq> CHR ''+''" by auto
  have "dropWhile isspace (g @ ds @ rest) = ds @ rest"
    by (rule skip_blanks [OF assms(1,2)]) (simp add: ds c)
  moreover have "takeWhile digit (ds @ rest) = ds" by (rule take_all_while [OF assms(3,4)])
  ultimately show ?thesis using c assms(2) by (simp add: scan_lld_def Let_def ds)
qed

lemma scan_s_word:
  assumes "list_all isspace g" "x \<noteq> ''''" "list_all (\<lambda>c. \<not> isspace c) x" "length x \<le> n"
    and "rest = '''' \<or> isspace (hd rest)"
  shows "scan_s n (g @ x @ rest) = Some (x, rest)"
proof -
  have "dropWhile isspace (g @ x @ rest) = x @ rest"
    by (rule skip_blanks [OF assms(1,2)]) (use assms(2,3) in \<open>cases x; simp\<close>)
  moreover have "takeWhile (\<lambda>c. \<not> isspace c) (x @ take (n - length x) rest) = x"
    by (rule take_all_while [OF assms(3)]) (use assms(5) in \<open>auto simp: hd_take\<close>)
  ultimately show ?thesis using assms(2,4) by (simp add: scan_s_def Let_def del: takeWhile_append)
qed

lemma after_slash_tail:
  assumes "dir = '''' \<or> is_sep (last dir)" "list_all (\<lambda>c. \<not> is_sep c) nm"
  shows "after_slash (dir @ nm) = nm"
proof -
  have "takeWhile (\<lambda>c. \<not> is_sep c) (rev nm @ rev dir) = rev nm"
    by (rule take_all_while) (use assms in \<open>auto simp: list_all_iff hd_rev\<close>)
  then show ?thesis by (simp add: after_slash_def)
qed

lemma before_dot_stem:
  assumes "CHR ''.'' \<notin> set nm" "ext = '''' \<or> (\<exists>e. ext = CHR ''.'' # e \<and> CHR ''.'' \<notin> set e)"
  shows "before_dot (nm @ ext) = nm"
proof (cases "ext = ''''")
  case False
  then obtain e where e: "ext = CHR ''.'' # e" "CHR ''.'' \<notin> set e" using assms(2) by blast
  have "dropWhile (\<lambda>c. c \<noteq> CHR ''.'') (rev e @ CHR ''.'' # rev nm) = CHR ''.'' # rev nm"
    by (subst dropWhile_append2) (use e(2) in auto)
  then show ?thesis by (simp add: before_dot_def e(1))
qed (simp add: before_dot_def assms(1))

text \<open>
  C37: A line of the table is read back: whatever the blanks between its six fields, the row has the name
  the build gave the probe, without directory, prefix and extension, and the size of its text section.
\<close>

theorem berkeley_line_parsed:
  assumes "list_all isspace g0" "list_all (\<lambda>g. g \<noteq> '''' \<and> list_all isspace g) [g1, g2, g3, g4, g5]"
    and "list_all (\<lambda>ds. ds \<noteq> '''' \<and> list_all digit ds) [tx, data, bss, dec]"
    and "hex \<noteq> ''''" "list_all (\<lambda>c. \<not> isspace c) hex" "length hex \<le> 63"
    and "file = dir @ ''size_'' @ stem @ ext" "list_all (\<lambda>c. \<not> isspace c) file" "length file \<le> 511"
    and "dir = '''' \<or> is_sep (last dir)" "list_all (\<lambda>c. \<not> is_sep c) (stem @ ext)" "CHR ''.'' \<notin> set stem"
    and "ext = '''' \<or> (\<exists>e. ext = CHR ''.'' # e \<and> CHR ''.'' \<notin> set e)"
    and "eol = '''' \<or> isspace (hd eol)"
  shows "read_line (g0 @ tx @ g1 @ data @ g2 @ bss @ g3 @ dec @ g4 @ hex @ g5 @ file @ eol) =
    Some \<lparr>sz_name = stem, sz_text = decimal tx\<rparr>"
proof -
  have gap: "\<not> digit (hd g)" "isspace (hd g)" if "g \<noteq> ''''" "list_all isspace g" for g
    using that digit_plain [of "hd g"] by ((cases g; auto)+)
  have name: "probe_name file = stem"
  proof -
    have "after_slash file = (''size_'' @ stem) @ ext"
      unfolding assms(7) using after_slash_tail [OF assms(10), of "''size_'' @ stem @ ext"] assms(11)
      by (simp add: is_sep_def)
    moreover have "before_dot ((''size_'' @ stem) @ ext) = ''size_'' @ stem"
      by (rule before_dot_stem) (use assms(12,13) in auto)
    ultimately show ?thesis by (simp add: probe_name_def)
  qed
  have "file \<noteq> ''''" using assms(7) by simp
  moreover have "hd (g0 @ tx @ r) \<noteq> CHR ''#''" for r
    using assms(1,3) digit_plain [of "hd tx"] by (cases g0; cases tx) (auto simp: isspace_def)
  ultimately show ?thesis
    using assms(1-6,8,9,14) unfolding read_line_def
    by (simp add: scan_lld_digits scan_s_word gap name)
qed

theorem berkeley_line_parsed_witness:
  "read_line (''  120832'' @ ''  2048'' @ ''  64'' @ '' 122944'' @ '' 1e040'' @ '' bin/size_none.exe'') =
   Some \<lparr>sz_name = ''none'', sz_text = 120832\<rparr>"
  using berkeley_line_parsed [of "''  ''" "''  ''" "''  ''" "'' ''" "'' ''" "'' ''" "''120832''" "''2048''"
      "''64''" "''122944''" "''1e040''" "''bin/size_none.exe''" "''bin/''" "''none''" "''.exe''" "''''"]
  by (simp add: isspace_def digit_def is_sep_def decimal_def)

text \<open>The pieces of a file are the file, none empty and none too long for the buffer.\<close>

lemma fgets_all_pieces:
  "2 \<le> n \<Longrightarrow> concat (fgets_all n s) = s \<and> (\<forall>l \<in> set (fgets_all n s). l \<noteq> '''' \<and> length l < n)"
proof (induction n s rule: fgets_all.induct)
  case (1 n s)
  let ?k = "Suc (length (takeWhile (\<lambda>c. c \<noteq> CHR 0x0A) (take (n - 2) s)))"
  show ?case
  proof (cases "s = ''''")
    case False
    have "length (takeWhile (\<lambda>c. c \<noteq> CHR 0x0A) (take (n - 2) s)) \<le> n - 2"
      by (rule order_trans [OF length_takeWhile_le]) simp
    then have "?k < n" using 1(2) by linarith
    then show ?thesis
      using False 1 by (subst (1 2) fgets_all.simps) (auto simp: Let_def)
  qed (simp add: fgets_all.simps)
qed

section \<open>The verdict\<close>

lemma stream_packets_ok: "\<forall>p \<in> set (fst (bench_stream pw shuffle draws d keys seed)). packet_ok p"
  by (auto simp: bench_stream_def packet_stream_def fill_loop_packets fill_packet_eq packet_ok_def)

lemma failure_count_zero: "failure_count cs = 0 \<longleftrightarrow> list_all id cs"
  by (induction cs) (auto simp: failure_count_def)

text \<open>
  C35: The exit code tells what the bench measured, not what it computes: with the plugin's two libraries
  in place, whatever the random generator, the clock and the world do, the program exits with 0
  exactly if the hundred bodies differ on the first packet, an empty pass costs less than five
  nanoseconds and the code sizes, if there are any, are those the phases assume. All the other
  checks, of phases 1 to 4 and 6, always hold, and the plugins' heap is left as it was, after all
  calls of phase 6, the timed ones included. The plugin's allocator does not fail for the two
  objects the bench makes.
\<close>

theorem bench_exit_code:
  fixes h :: plug_heap
  assumes "v2 = find_plugin readable ext ''plugin_v2''" "v1 = find_plugin readable ext ''plugin_v1''"
    and "v2 \<noteq> ''''" "v1 \<noteq> ''''" "dlopen v2 \<noteq> 0" "dlopen v1 \<noteq> 0"
    and "dlsym (dlopen v2) entry_name = Some (\<lambda>_. switchyard_plugin_entry alloc 2)"
    and "dlsym (dlopen v1) entry_name = Some (\<lambda>_. switchyard_plugin_entry alloc 1)"
    and "allocates alloc h" "\<forall>calls. allocates alloc (h(alloc h \<mapsto> calls))"
    and ps: "ps = fst (bench_stream pw shuffle draws Zipf (first_keys kHandlers) 0xC0FFEE)"
  shows "bench_main now pw shuffle draws files readable ext dlopen dlsym w h =
    Some (if inj_on (\<lambda>n. mix n kFatRounds (ps ! 0)) {..<kHandlers} \<and>
             ns_per_packet (fst (measure_run (timed_arm now (Pair ()) null_arm ps) w)) < 5 \<and>
             list_all id (phase_codesize files) then 0 else 1, h)"
proof -
  let ?st = "bench_stream pw shuffle draws"
  obtain f w0 where f: "measure_run (timed_arm now (Pair ()) null_arm ps) w = (f, w0)" by fastforce
  obtain r2 w2 where r2: "phase_scan now ?st w0 = (r2, w2)" by fastforce
  obtain r3 w3 where r3: "phase_distribution now ?st w2 = (r3, w3)" by fastforce
  obtain r4 c4 w4 where r4: "phase_mechanism now ?st w3 = ((r4, c4), w4)" by (metis prod.collapse)
  have "\<exists>figures w'. phase_boundary now readable ext dlopen dlsym
      (\<lambda>keys. fst (?st Uniform keys 0xB0117)) w4 h = Some (replicate 7 True, figures, w', h)"
    by (rule boundary_phase_passes [where ?v1.0 = v1 and ?v2.0 = v2 and pick = alloc])
      (rule assms stream_packets_ok)+
  then obtain figures w' where c6: "phase_boundary now readable ext dlopen dlsym
      (\<lambda>keys. fst (?st Uniform keys 0xB0117)) w4 h = Some (replicate 7 True, figures, w', h)" by blast
  have "list_all id (map snd r2)" using scan_phase_passes [of now ?st w0] by (simp add: r2 list_all_iff)
  moreover have "list_all id (map snd r3)"
    using distribution_phase_passes [of now ?st w2] by (simp add: r3 list_all_iff)
  moreover have "c4 = [True, True]" using mechanism_phase_passes [of now ?st w3] by (simp add: r4)
  moreover have "list_all id (phase_invariants pw (shuffle 0x5EED) (draws 0x5EED Zipf kHandlers) w0)"
    by (rule phase_one_passes)
  ultimately show ?thesis
    by (simp add: bench_main_def phase_instrument_def Let_def ps [symmetric] f r2 r3 r4 c6
        failure_count_zero bodies_distinct eval_nat_numeral)
qed

theorem bench_exit_code_witness:
  "bench_main (\<lambda>w. (0, w)) (\<lambda>_. 1) (\<lambda>_. rev) (\<lambda>_ _ _. still_draws)
     (\<lambda>f. if f = ''sizes.txt'' then Some ''7 0 0 7 7 size_none'' else None)
     (\<lambda>path. take 4 path = ''bin/'') ''.so'' (\<lambda>path. if last (take 13 path) = CHR ''2'' then 7 else 8)
     (\<lambda>d _. Some (\<lambda>_. switchyard_plugin_entry two_places (if d = 7 then 2 else 1))) () Map.empty =
   Some (1, Map.empty)"
proof -
  let ?r = "\<lambda>path :: string. take 4 path = ''bin/''"
  let ?f = "\<lambda>f. if f = ''sizes.txt'' then Some ''7 0 0 7 7 size_none'' else None"
  have p: "find_plugin ?r ''.so'' ''plugin_v2'' = ''bin/plugin_v2.so''"
    "find_plugin ?r ''.so'' ''plugin_v1'' = ''bin/plugin_v1.so''"
    by (simp_all add: find_plugin_def plugin_dirs_def)
  have "fgets_all 1024 ''7 0 0 7 7 size_none'' = [''7 0 0 7 7 size_none'']"
    by (simp add: fgets_all.simps)
  moreover have "read_line ''7 0 0 7 7 size_none'' = Some \<lparr>sz_name = ''none'', sz_text = 7\<rparr>"
    by (simp add: read_line_def scan_lld_def scan_s_def isspace_def digit_def decimal_def probe_name_def
        before_dot_def after_slash_def is_sep_def Let_def)
  ultimately have "read_sizes (?f ''sizes.txt'') = [\<lparr>sz_name = ''none'', sz_text = 7\<rparr>]"
    by (simp add: read_sizes_def List.map_filter_def)
  then have "size_rows ?f = [\<lparr>sz_name = ''none'', sz_text = 7\<rparr>]"
    by (simp add: size_rows_def size_files_def)
  then have "phase_codesize ?f = [False]"
    by (simp add: phase_codesize_def size_of_def Let_def)
  then show ?thesis
    by (subst bench_exit_code [where alloc = two_places, OF refl refl _ _ _ _ _ _ _ _ refl])
      (simp_all only: p, simp_all add: two_places_allocates)
qed

end
