(* ===== verification/Sw_Probes.thy ===== *)
theory Sw_Probes
  imports Sw_Mechanism
begin

text \<open>
  The two programs of plugin-dispatch-kata/cpp that are built to be looked at from outside: one mechanism
  alone in a binary, whose sections are measured (bench/size_probe.cpp), and the probe of what a
  loader does with a C++ class (abi-probe/probe.cpp). The loader, the C++ runtime and the addresses
  they give out are arguments of the second.
\<close>

section \<open>One mechanism alone\<close>

datatype size_mech = MechEmpty | MechNone | MechVirtual | MechErasure | MechVariant

definition size_packet :: packet where
  "size_packet =
     \<lparr>protocol = key_of 3, pkt_length = 0, flags = 0, payload = map (\<lambda>i. of_nat (i * 7 + 1)) [0..<24]\<rparr>"

text \<open>What the program prints: its name, the value and the handler. \<open>None\<close> is an index out of range.\<close>

definition size_probe :: "size_mech \<Rightarrow> (string \<times> u64 \<times> u16) option" where
  "size_probe m =
     (let p = size_packet; show = (\<lambda>which r. (which, res_value r, res_handler r))
      in case m of
           MechEmpty \<Rightarrow> Some (show ''empty'' \<lparr>res_value = ucast (protocol p), res_handler = protocol p\<rparr>)
         | MechNone \<Rightarrow> Some (show ''none'' (fst (process (handler_set kFatRounds ! 3) p ())))
         | MechVirtual \<Rightarrow> map_option (\<lambda>x. show ''virtual'' (fst x)) (mech_virtual kFatRounds selector p ())
         | MechErasure \<Rightarrow> map_option (show ''erasure'') (mech_erasure kFatRounds selector p)
         | MechVariant \<Rightarrow> map_option (\<lambda>x. show ''variant'' (fst x)) (mech_variant kFatRounds selector p ()))"

lemma first_claim: "find (\<lambda>n. key_of n = key_of 3) [0..<kHandlers] = Some 3"
proof -
  have "[0..<kHandlers] = [0, 1, 2] @ [3..<kHandlers]"
    by (simp add: kHandlers_def upt_conv_Cons)
  moreover have "[3..<kHandlers] = 3 # [4..<kHandlers]" by (simp add: kHandlers_def upt_conv_Cons)
  moreover have "key_of 0 \<noteq> key_of 3" "key_of 1 \<noteq> key_of 3" "key_of 2 \<noteq> key_of 3"
    by (simp_all add: key_of_def residual_of_def)
  ultimately show ?thesis by simp
qed

text \<open>
  The binaries whose sizes are compared do the same work: each prints the answer of the fourth
  handler, through whatever machinery it has, and no index it computes is out of range. The name it
  prints is its own.
\<close>

theorem size_probes_agree:
  "map size_probe [MechNone, MechVirtual, MechErasure, MechVariant] =
     map (\<lambda>which. Some (which, mix 3 kFatRounds size_packet, key_of 3))
       [''none'', ''virtual'', ''erasure'', ''variant'']"
proof -
  have "mech_result kFatRounds size_packet = \<lparr>res_value = mix 3 kFatRounds size_packet, res_handler = key_of 3\<rparr>"
    using first_claim by (simp add: mech_result_def size_packet_def)
  moreover have "handler_set kFatRounds ! 3 = (generated kFatRounds 3 :: unit handler)"
    by (simp add: handler_set_def kHandlers_def)
  ultimately show ?thesis by (simp add: size_probe_def mechanisms_result)
qed

section \<open>What a loader does with a class\<close>

text \<open>
  A library as it is found by one \<open>dlopen\<close>: which symbols it has, what \<open>dynamic_cast\<close> and
  \<open>typeid\<close> say of its object, where its type information and its \<open>operator new\<close> are.
\<close>

record library =
  l_make :: bool
  l_kind :: bool
  l_addr :: bool
  l_new :: "nat option"
  l_cast :: bool
  l_typeid :: bool
  l_typeinfo :: nat

record observation =
  cast_ok :: bool
  typeid_equal :: bool
  their_typeinfo :: "nat option"

datatype dl_call = DlOpen bool | DlClose

text \<open>\<open>probe\<close>: the observation, the failures it adds, and its calls of the loader.\<close>

definition probe :: "library option \<Rightarrow> observation \<times> nat \<times> dl_call list" where
  "probe lib =
     (let nothing = \<lparr>cast_ok = False, typeid_equal = False, their_typeinfo = None\<rparr>
      in case lib of
           None \<Rightarrow> (nothing, 1, [DlOpen False])
         | Some l \<Rightarrow>
             if \<not> l_make l \<or> \<not> l_kind l \<or> \<not> l_addr l then (nothing, 1, [DlOpen True, DlClose])
             else (\<lparr>cast_ok = l_cast l, typeid_equal = l_typeid l, their_typeinfo = Some (l_typeinfo l)\<rparr>, 0,
                   [DlOpen True, DlClose]))"

definition failed :: "bool \<Rightarrow> nat" where "failed c = (if c then 0 else 1)"

text \<open>
  What the allocator section prints: nothing if the library or the symbol is missing, otherwise
  whether both sides call the same function.
\<close>

definition allocator_section :: "nat \<Rightarrow> library option \<Rightarrow> bool option \<times> dl_call list" where
  "allocator_section mine lib =
     (case lib of
        None \<Rightarrow> (None, [DlOpen False])
      | Some l \<Rightarrow> (map_option (\<lambda>theirs. mine = theirs) (l_new l), [DlOpen True, DlClose]))"

record abi_report =
  ab_exit :: int
  ab_one_heap :: "bool option"
  ab_calls :: "dl_call list"

text \<open>\<open>merged\<close> is the macro \<open>__GXX_MERGED_TYPEINFO_NAMES\<close>, if it is defined.\<close>

definition abi_main ::
  "int option \<Rightarrow> nat \<Rightarrow> library option \<Rightarrow> library option \<Rightarrow> library option \<Rightarrow> abi_report" where
  "abi_main merged mine lib1 lib2 lib3 =
     (let (loc, f1, c1) = probe lib1; (glob, f2, c2) = probe lib2;
          failures = f1 + f2 + failed (cast_ok loc \<and> cast_ok glob) + failed (typeid_equal loc) +
            (case merged of None \<Rightarrow> 0 | Some v \<Rightarrow> failed (v = 0));
          (heap, c3) = allocator_section mine lib3
      in \<lparr>ab_exit = (if failures = 0 then 0 else 1), ab_one_heap = heap, ab_calls = c1 @ c2 @ c3\<rparr>)"

definition usable :: "library option \<Rightarrow> bool" where
  "usable lib \<longleftrightarrow> (case lib of None \<Rightarrow> False | Some l \<Rightarrow> l_make l \<and> l_kind l \<and> l_addr l)"

text \<open>The program succeeds exactly if both loads worked and the class was recognised as the checks say.\<close>

theorem abi_exit_code:
  "ab_exit (abi_main merged mine lib1 lib2 lib3) = 0 \<longleftrightarrow>
     usable lib1 \<and> usable lib2 \<and> l_cast (the lib1) \<and> l_cast (the lib2) \<and> l_typeid (the lib1) \<and>
     (merged = None \<or> merged = Some 0)"
  by (auto simp: abi_main_def probe_def usable_def failed_def split: option.splits prod.splits if_splits)

text \<open>
  It does not assert everything it demonstrates. Whether the two type informations are distinct
  objects, whether the second load agrees on \<open>typeid\<close>, whose \<open>operator new\<close> it is, and even whether
  the third load succeeds leave the exit code as it is.
\<close>

theorem abi_only_prints:
  "ab_exit (abi_main merged mine (Some l) (Some g) lib3) =
   ab_exit (abi_main merged mine' (Some (l\<lparr>l_typeinfo := a, l_new := n\<rparr>))
     (Some (g\<lparr>l_typeinfo := b, l_new := n', l_typeid := t\<rparr>)) lib3')"
  by (simp add: abi_main_def probe_def failed_def Let_def split: prod.split option.split)

text \<open>Every library that was opened is closed again.\<close>

lemma probe_closes:
  "length (filter (\<lambda>c. c = DlOpen True) (snd (snd (probe lib)))) = length (filter (\<lambda>c. c = DlClose) (snd (snd (probe lib))))"
  by (simp add: probe_def Let_def split: option.split)

theorem abi_closes_all:
  "length (filter (\<lambda>c. c = DlOpen True) (ab_calls (abi_main merged mine lib1 lib2 lib3))) =
   length (filter (\<lambda>c. c = DlClose) (ab_calls (abi_main merged mine lib1 lib2 lib3)))"
  using probe_closes [of lib1] probe_closes [of lib2]
  by (simp add: abi_main_def allocator_section_def Let_def case_prod_unfold split: option.split)

end
