(* ===== verification/Weir_Sink.thy ===== *)
theory Weir_Sink
  imports Prelude
begin

text \<open>
  mpsc-event-pipeline-kata/cpp/src/event.hpp and sink.hpp: the event, and the output side. The
  concept \<open>Sink\<close> is the interface between the pipeline's consumer and whatever takes its batches;
  as a locale it is one operation on spans of bytes and the law every sink here keeps, that it
  accounts for every byte and every batch. Both benchmark sinks interpret it.

  Events are handed over as their object representation, which the model fixes as the
  little-endian one, without padding (the \<open>static_assert\<close> on the size).
\<close>

section \<open>The event\<close>

record event =
  producer_id :: u32
  seq :: u32
  stamp_ns :: "64 word"
  payload :: "u8 list"

definition kEventBytes :: nat where "kEventBytes = 32"

definition event_ok :: "event \<Rightarrow> bool" where
  "event_ok e \<longleftrightarrow> length (payload e) = 16"

definition le_bytes :: "nat \<Rightarrow> 'a::len word \<Rightarrow> u8 list" where
  "le_bytes n w = map (\<lambda>i. ucast (drop_bit (8 * i) w)) [0..<n]"

definition event_bytes :: "event \<Rightarrow> u8 list" where
  "event_bytes e =
     le_bytes 4 (producer_id e) @ le_bytes 4 (seq e) @ le_bytes 8 (stamp_ns e) @ payload e"

text \<open>\<open>make_event\<close> of the benchmark harness: the sequence number again as the payload.\<close>

definition make_event :: "u32 \<Rightarrow> u32 \<Rightarrow> 64 word \<Rightarrow> event" where
  "make_event i s st =
     \<lparr>producer_id = i, seq = s, stamp_ns = st, payload = le_bytes 4 s @ replicate 12 0\<rparr>"

lemma length_le_bytes [simp]: "length (le_bytes n w) = n"
  by (simp add: le_bytes_def)

lemma make_event_ok [simp]: "event_ok (make_event i s st)"
  by (simp add: event_ok_def make_event_def)

lemma length_event_bytes [simp]: "event_ok e \<Longrightarrow> length (event_bytes e) = kEventBytes"
  by (simp add: event_ok_def event_bytes_def kEventBytes_def)

lemma le_bytes_inj:
  fixes w v :: "'a::len word"
  assumes "le_bytes n w = le_bytes n v" "LENGTH('a) \<le> 8 * n"
  shows "w = v"
proof (rule bit_eqI)
  fix k assume k: "possible_bit TYPE('a word) k"
  define i where "i = k div 8"
  have "i < n" "k = 8 * i + k mod 8" using k assms(2) by (auto simp: i_def)
  then have "(ucast (drop_bit (8 * i) w) :: u8) = ucast (drop_bit (8 * i) v)"
    using arg_cong [OF assms(1), of "\<lambda>xs. xs ! i"] by (simp add: le_bytes_def)
  then have "bit (ucast (drop_bit (8 * i) w) :: u8) (k mod 8) =
      bit (ucast (drop_bit (8 * i) v) :: u8) (k mod 8)" by simp
  then show "bit w k = bit v k"
    using k \<open>k = 8 * i + k mod 8\<close> by (simp add: bit_ucast_iff bit_drop_bit_eq)
qed

lemma event_bytes_inj:
  "event_ok e \<Longrightarrow> event_ok f \<Longrightarrow> event_bytes e = event_bytes f \<Longrightarrow> e = f"
  by (auto simp: event_bytes_def intro!: event.equality dest: le_bytes_inj)

text \<open>A staging buffer as bytes.\<close>

definition batch_bytes :: "event list \<Rightarrow> u8 list" where
  "batch_bytes es = concat (map event_bytes es)"

lemma length_batch_bytes:
  "list_all event_ok es \<Longrightarrow> length (batch_bytes es) = kEventBytes * length es"
  by (induction es) (simp_all add: batch_bytes_def)

lemma batch_bytes_append [simp]: "batch_bytes (xs @ ys) = batch_bytes xs @ batch_bytes ys"
  by (simp add: batch_bytes_def)

section \<open>The interface\<close>

locale sink =
  fixes put :: "u8 list \<Rightarrow> 's \<Rightarrow> 's"
    and bytes :: "'s \<Rightarrow> u64"
    and batches :: "'s \<Rightarrow> u64"
  assumes write_bytes: "bytes (put bs s) = bytes s + of_nat (length bs)"
    and write_batches: "batches (put bs s) = batches s + 1"
begin

definition write_all :: "event list list \<Rightarrow> 's \<Rightarrow> 's" where
  "write_all bss s = foldl (\<lambda>s es. put (batch_bytes es) s) s bss"

lemma write_all_accounts:
  "list_all (list_all event_ok) bss \<Longrightarrow>
   bytes (write_all bss s) = bytes s + of_nat (kEventBytes * length (concat bss)) \<and>
   batches (write_all bss s) = batches s + of_nat (length bss)"
proof (induction bss arbitrary: s)
  case (Cons es bss)
  then have "list_all event_ok es" "list_all (list_all event_ok) bss" by simp_all
  then show ?case
    using Cons.IH [of "put (batch_bytes es) s"]
    by (simp add: write_all_def write_bytes write_batches length_batch_bytes algebra_simps)
qed (simp add: write_all_def)

end

section \<open>The counting sink\<close>

record counting_sink =
  cs_checksum :: u64
  cs_bytes :: u64
  cs_batches :: u64

definition new_counting_sink :: counting_sink where
  "new_counting_sink = \<lparr>cs_checksum = 0xcbf29ce484222325, cs_bytes = 0, cs_batches = 0\<rparr>"

text \<open>\<open>std::memcpy\<close> of eight bytes at an offset; an offset outside the span has no value.\<close>

definition load_word :: "u8 list \<Rightarrow> nat \<Rightarrow> u64 option" where
  "load_word bs off =
     (if off + 8 \<le> length bs
      then Some (foldr (\<lambda>b acc. ucast b OR push_bit 8 acc) (take 8 (drop off bs)) 0) else None)"

function sample_loop :: "u8 list \<Rightarrow> nat \<Rightarrow> nat \<Rightarrow> nat \<Rightarrow> u64 \<Rightarrow> u64 option" where
  "sample_loop bs stride words i h =
     (if i < words \<and> 0 < stride then
        case load_word bs (i * 8) of
          None \<Rightarrow> None
        | Some w \<Rightarrow> sample_loop bs stride words (i + stride) ((h XOR w) * 0x100000001b3)
      else Some h)"
  by pat_completeness auto
termination by (relation "measure (\<lambda>(bs, stride, words, i, h). words - i)") auto

declare sample_loop.simps [simp del]

definition counting_checksum :: "u8 list \<Rightarrow> u64 \<Rightarrow> u64 option" where
  "counting_checksum bs c =
     (let h = c XOR of_nat (length bs);
          words = length bs div 8;
          stride = max 1 (words div 32)
      in sample_loop bs stride words 0 h)"

definition counting_write :: "u8 list \<Rightarrow> counting_sink \<Rightarrow> counting_sink" where
  "counting_write bs s =
     \<lparr>cs_checksum = the (counting_checksum bs (cs_checksum s)),
      cs_bytes = cs_bytes s + of_nat (length bs), cs_batches = cs_batches s + 1\<rparr>"

text \<open>The words a batch's checksum reads.\<close>

function sampled :: "nat \<Rightarrow> nat \<Rightarrow> nat \<Rightarrow> nat list" where
  "sampled stride words i =
     (if i < words \<and> 0 < stride then i # sampled stride words (i + stride) else [])"
  by pat_completeness auto
termination by (relation "measure (\<lambda>(stride, words, i). words - i)") auto

declare sampled.simps [simp del]

lemma sampled_less: "k \<in> set (sampled stride words i) \<Longrightarrow> k < words"
  by (induction stride words i rule: sampled.induct)
    (subst (asm) (2) sampled.simps, auto split: if_splits)

lemma length_sampled: "0 < stride \<Longrightarrow> length (sampled stride words i) * stride < words - i + stride"
proof (induction stride words i rule: sampled.induct)
  case (1 stride words i)
  show ?case
  proof (cases "i < words")
    case True
    then have "length (sampled stride words (i + stride)) * stride < words - (i + stride) + stride"
      using 1 by simp
    moreover have "length (sampled stride words i) = Suc (length (sampled stride words (i + stride)))"
      using True 1(2) by (subst sampled.simps) simp
    ultimately show ?thesis using True
      by (cases "i + stride \<le> words") (simp_all add: algebra_simps)
  next
    case False
    then show ?thesis using 1(2) by (subst sampled.simps) simp
  qed
qed

lemma sample_loop_total:
  "words * 8 \<le> length bs \<Longrightarrow> \<exists>h'. sample_loop bs stride words i h = Some h' \<and>
     h' = foldl (\<lambda>h k. (h XOR the (load_word bs (k * 8))) * 0x100000001b3) h (sampled stride words i)"
proof (induction bs stride words i h rule: sample_loop.induct)
  case (1 bs stride words i h)
  show ?case
  proof (cases "i < words \<and> 0 < stride")
    case True
    then have "i * 8 + 8 \<le> length bs" using 1(2) by simp
    then obtain w where w: "load_word bs (i * 8) = Some w" by (auto simp: load_word_def)
    from 1(1) [OF True w 1(2)] show ?thesis
      using True w by (subst sample_loop.simps, subst sampled.simps) simp
  next
    case False
    then show ?thesis by (subst sample_loop.simps, subst sampled.simps) auto
  qed
qed

text \<open>
  The checksum of a batch costs no more than 63 reads however large the batch is, and every
  read lies inside it: the sampling stride keeps the sink off the critical path without ever
  reaching past the span.
\<close>

theorem counting_sink_bounded:
  "let words = length bs div 8; ks = sampled (max 1 (words div 32)) words 0 in
     length ks \<le> 63 \<and> (\<forall>k \<in> set ks. k * 8 + 8 \<le> length bs) \<and>
     counting_checksum bs c =
       Some (foldl (\<lambda>h k. (h XOR the (load_word bs (k * 8))) * 0x100000001b3)
         (c XOR of_nat (length bs)) ks)"
proof -
  define words where "words = length bs div 8"
  define stride where "stride = max 1 (words div 32)"
  have st: "0 < stride" by (simp add: stride_def)
  have "length (sampled stride words 0) * stride < words + stride"
    using length_sampled [OF st, of words 0] by simp
  moreover have "words < 63 * stride + 1"
  proof (cases "words < 64")
    case True
    then show ?thesis by (cases "32 \<le> words") (simp_all add: stride_def)
  next
    case False
    then show ?thesis unfolding stride_def by linarith
  qed
  ultimately have "length (sampled stride words 0) * stride < 64 * stride" by linarith
  then have n: "length (sampled stride words 0) \<le> 63" by simp
  have w: "words * 8 \<le> length bs" by (simp add: words_def)
  have r: "k * 8 + 8 \<le> length bs" if "k \<in> set (sampled stride words 0)" for k
    using sampled_less [OF that] w by linarith
  have "counting_checksum bs c =
      Some (foldl (\<lambda>h k. (h XOR the (load_word bs (k * 8))) * 0x100000001b3)
         (c XOR of_nat (length bs)) (sampled stride words 0))"
    using sample_loop_total [OF w, of stride 0 "c XOR of_nat (length bs)"]
    by (simp add: counting_checksum_def Let_def words_def stride_def)
  then show ?thesis
    using n r unfolding Let_def words_def [symmetric] stride_def [symmetric] by blast
qed

theorem counting_sink_bounded_witness:
  "length (sampled (max 1 (16384 div 32)) 16384 0) \<le> 63"
  using counting_sink_bounded [of "replicate 131072 0" 0] by (simp add: Let_def)

section \<open>The slow sink\<close>

text \<open>
  \<open>SlowSink\<close> spins until the clock has reached its deadline. The clock is the list of its
  readings, in nanoseconds, the first the one the deadline is computed from.
\<close>

record slow_sink =
  ss_delay :: nat
  ss_bytes :: u64
  ss_batches :: u64

definition new_slow_sink :: "nat \<Rightarrow> slow_sink" where
  "new_slow_sink d = \<lparr>ss_delay = d, ss_bytes = 0, ss_batches = 0\<rparr>"

fun spin_until :: "nat \<Rightarrow> nat list \<Rightarrow> nat list option" where
  "spin_until deadline [] = None"
| "spin_until deadline (now # later) = (if now < deadline then spin_until deadline later else Some later)"

definition slow_account :: "u8 list \<Rightarrow> slow_sink \<Rightarrow> slow_sink" where
  "slow_account bs s =
     s\<lparr>ss_bytes := ss_bytes s + of_nat (length bs), ss_batches := ss_batches s + 1\<rparr>"

fun slow_write :: "u8 list \<Rightarrow> nat list \<Rightarrow> slow_sink \<Rightarrow> (slow_sink \<times> nat list) option" where
  "slow_write bs [] s = None"
| "slow_write bs (now # clock) s =
     map_option (\<lambda>later. (slow_account bs s, later)) (spin_until (now + ss_delay s) clock)"

lemma spin_until_returns:
  "\<exists>t \<in> set clock. deadline \<le> t \<Longrightarrow> \<exists>later. spin_until deadline clock = Some later"
  by (induction clock) auto

lemma slow_write_accounts:
  "slow_write bs clock s = Some (s', later) \<Longrightarrow> s' = slow_account bs s"
  by (cases clock) auto

interpretation counting: sink counting_write cs_bytes cs_batches
  by unfold_locales (simp_all add: counting_write_def)

interpretation slow: sink slow_account ss_bytes ss_batches
  by unfold_locales (simp_all add: slow_account_def)

end
