(* ===== verification/Weir_Pipeline.thy ===== *)
theory Weir_Pipeline
  imports Weir_Sink Spsc_Ring
begin

text \<open>
  mpsc-event-pipeline-kata/cpp/src/config.hpp and event_pipeline.hpp: the registry of producer
  slots, each with its own SPSC ring, and the one consumer that drains them into a sink. This
  theory holds the state and the operations; their properties are in \<open>Weir_Accounting\<close> and
  \<open>Weir_Shutdown\<close>, and the memory-order argument behind \<open>signal\<close> and \<open>clear_empty_bits\<close> is in
  \<open>Weir_Wakeup\<close>.

  The operations are the code's functions on one state. What other threads do in the middle of
  the consumer's functions is explicit: wherever the consumer is about to look at something a
  producer can change, it first lets the next entry of \<open>sched\<close> happen (\<open>interfere\<close>), a list of
  producer-side actions. A theorem about an arbitrary \<open>sched\<close> is a theorem about every
  interleaving at that grain; with an empty one the functions are the sequential code.

  \<open>log\<close> and \<open>written\<close> record what is observable: which pushes were accepted or dropped, the
  events the consumer's hook saw, the slots' comings and goings, and the batches handed to the
  sink, oldest first.
\<close>

section \<open>Configuration\<close>

datatype full_policy = DropNewest | SpinThenDrop
datatype scan_policy = FullScan | Bitmap
datatype stop_mode = Drain | Abort

definition kMaxProducers :: nat where "kMaxProducers = 64"
definition kRingCapacity :: nat where "kRingCapacity = 4096"
definition kDrainBatch :: nat where "kDrainBatch = 512"
definition kStageEvents :: nat where "kStageEvents = 2048"

lemmas pipeline_sizes = kMaxProducers_def kRingCapacity_def kDrainBatch_def kStageEvents_def

record config =
  full :: full_policy
  scan :: scan_policy
  spin_before_park :: u32
  push_spin :: u32

definition default_config :: config where
  "default_config =
     \<lparr>full = DropNewest, scan = Bitmap, spin_before_park = 2000, push_spin = 200\<rparr>"

record pipeline_stats =
  s_pushed :: u64
  s_dropped :: u64
  s_consumed :: u64
  s_rings_probed :: u64
  s_rings_empty :: u64
  s_passes :: u64
  s_bitmap_writes :: u64
  s_notifies :: u64
  s_parks :: u64
  s_high_water :: u64

section \<open>State\<close>

datatype slot_state = Free | Active | Retiring

record pslot =
  ring :: "event spsc"
  state :: slot_state
  pushed :: u64
  dropped :: u64
  high_water :: u64

datatype pev =
    Accepted nat event
  | Dropped nat event
  | Delivered nat event
  | Registered nat
  | Freed nat

text \<open>What another thread may do while the consumer is between two of its accesses.\<close>

datatype pact =
    ARegister
  | APush nat event      \<comment> \<open>a whole \<open>push\<close>\<close>
  | ATry nat event       \<comment> \<open>one attempt of a \<open>push\<close> that has passed its first test\<close>
  | ADrop nat event      \<comment> \<open>such a \<open>push\<close> giving up\<close>
  | ARetireMark nat      \<comment> \<open>the first store of \<open>retire\<close>\<close>
  | ARetireFlag nat      \<comment> \<open>the rest of \<open>retire\<close>\<close>
  | AStopAccepting
  | AStopRunning

record pipeline =
  cfg :: config
  p_slots :: "pslot list"
  active :: u64
  accepting :: bool
  running :: bool
  parked :: bool
  retire_pending :: bool
  stage :: "event list"
  staged :: nat
  joinable :: bool
  drain_deadline_met :: bool
  consumed :: u64
  retired_pushed :: u64
  retired_dropped :: u64
  rings_probed :: u64
  rings_empty :: u64
  passes :: u64
  bitmap_writes :: u64
  notifies :: u64
  parks :: u64
  written :: "event list list"
  log :: "pev list"
  sched :: "pact list list"

definition blank_event :: event where
  "blank_event = \<lparr>producer_id = 0, seq = 0, stamp_ns = 0, payload = replicate 16 0\<rparr>"

definition new_slot :: pslot where
  "new_slot = \<lparr>ring = new_ring kRingCapacity blank_event, state = Free, pushed = 0, dropped = 0,
     high_water = 0\<rparr>"

definition new_pipeline :: "config \<Rightarrow> pact list list \<Rightarrow> pipeline" where
  "new_pipeline c sch =
     \<lparr>cfg = c, p_slots = replicate kMaxProducers new_slot, active = 0, accepting = False,
      running = False, parked = False, retire_pending = False,
      stage = replicate kStageEvents blank_event, staged = 0, joinable = False,
      drain_deadline_met = False, consumed = 0, retired_pushed = 0, retired_dropped = 0,
      rings_probed = 0, rings_empty = 0, passes = 0, bitmap_writes = 0, notifies = 0, parks = 0,
      written = [], log = [], sched = sch\<rparr>"

definition upd_slot :: "nat \<Rightarrow> (pslot \<Rightarrow> pslot) \<Rightarrow> pipeline \<Rightarrow> pipeline" where
  "upd_slot i f p = p\<lparr>p_slots := (p_slots p)[i := f (p_slots p ! i)]\<rparr>"

definition observe :: "pev list \<Rightarrow> pipeline \<Rightarrow> pipeline" where
  "observe es p = p\<lparr>log := log p @ es\<rparr>"

section \<open>Producers\<close>

definition slot_bit :: "nat \<Rightarrow> u64" where
  "slot_bit i = push_bit i 1"

definition signal :: "nat \<Rightarrow> pipeline \<Rightarrow> pipeline" where
  "signal i p =
     (let bit = slot_bit i in
      if active p AND bit \<noteq> 0 then p
      else
        let prev = active p;
            p1 = p\<lparr>active := active p OR bit, bitmap_writes := bitmap_writes p + 1\<rparr>
        in if prev = 0 \<and> parked p1 then p1\<lparr>notifies := notifies p1 + 1\<rparr> else p1)"

definition attempt :: "nat \<Rightarrow> event \<Rightarrow> pipeline \<Rightarrow> bool \<times> pipeline" where
  "attempt i e p =
     (let (ok, r) = try_push e (ring (p_slots p ! i)) in (ok, upd_slot i (\<lambda>s. s\<lparr>ring := r\<rparr>) p))"

text \<open>What a push does once its event is in the ring, and what it does when it gives up.\<close>

definition push_counted :: "nat \<Rightarrow> event \<Rightarrow> pipeline \<Rightarrow> pipeline" where
  "push_counted i e p =
     (let p1 = observe [Accepted i e] (upd_slot i (\<lambda>s. s\<lparr>pushed := pushed s + 1\<rparr>) p);
          depth = producer_size_hint (ring (p_slots p1 ! i));
          p2 = if depth > high_water (p_slots p1 ! i)
               then upd_slot i (\<lambda>s. s\<lparr>high_water := depth\<rparr>) p1 else p1
      in if scan (cfg p2) = Bitmap then signal i p2 else p2)"

definition push_dropped :: "nat \<Rightarrow> event \<Rightarrow> pipeline \<Rightarrow> pipeline" where
  "push_dropped i e p = observe [Dropped i e] (upd_slot i (\<lambda>s. s\<lparr>dropped := dropped s + 1\<rparr>) p)"

fun push_spins :: "nat \<Rightarrow> nat \<Rightarrow> event \<Rightarrow> bool \<times> pipeline \<Rightarrow> bool \<times> pipeline" where
  "push_spins 0 i e (ok, p) = (ok, p)"
| "push_spins (Suc n) i e (ok, p) = (if ok then (ok, p) else push_spins n i e (attempt i e p))"

definition push :: "nat \<Rightarrow> event \<Rightarrow> pipeline \<Rightarrow> bool \<times> pipeline" where
  "push i e p =
     (if \<not> accepting p then (False, p)
      else
        let (ok, p1) = attempt i e p;
            (ok, p2) = (if \<not> ok \<and> full (cfg p1) = SpinThenDrop
                        then push_spins (unat (push_spin (cfg p1))) i e (ok, p1) else (ok, p1))
        in if \<not> ok then (False, push_dropped i e p2) else (True, push_counted i e p2))"

fun register_from :: "nat list \<Rightarrow> pipeline \<Rightarrow> nat option \<times> pipeline" where
  "register_from [] p = (None, p)"
| "register_from (i # is) p =
     (if state (p_slots p ! i) = Free
      then (Some i, observe [Registered i]
              (upd_slot i (\<lambda>s. s\<lparr>state := Active, pushed := 0, dropped := 0, high_water := 0\<rparr>) p))
      else register_from is p)"

definition register_producer :: "pipeline \<Rightarrow> nat option \<times> pipeline" where
  "register_producer p = register_from [0..<kMaxProducers] p"

definition retire_mark :: "nat \<Rightarrow> pipeline \<Rightarrow> pipeline" where
  "retire_mark i p = upd_slot i (\<lambda>s. s\<lparr>state := Retiring\<rparr>) p"

definition retire_flag :: "nat \<Rightarrow> pipeline \<Rightarrow> pipeline" where
  "retire_flag i p =
     (let p1 = p\<lparr>retire_pending := True\<rparr> in if scan (cfg p1) = Bitmap then signal i p1 else p1)"

definition retire :: "nat \<Rightarrow> pipeline \<Rightarrow> pipeline" where
  "retire i p = retire_flag i (retire_mark i p)"

text \<open>
  \<open>ProducerHandle\<close>: the pipeline pointer, as whether there is one, and the slot's number. A moved-from
  handle is empty, and assigning to a handle retires the slot it held.
\<close>

record handle =
  has_pipe :: bool
  h_id :: nat

definition no_handle :: handle where "no_handle = \<lparr>has_pipe = False, h_id = 0\<rparr>"

definition handle_of :: "nat option \<Rightarrow> handle" where
  "handle_of r = (case r of Some i \<Rightarrow> \<lparr>has_pipe = True, h_id = i\<rparr> | None \<Rightarrow> no_handle)"

definition handle_release :: "handle \<Rightarrow> pipeline \<Rightarrow> handle \<times> pipeline" where
  "handle_release h p =
     (if has_pipe h then (h\<lparr>has_pipe := False\<rparr>, retire (h_id h) p) else (h, p))"

text \<open>The handle moved into, the handle moved from, and the pipeline.\<close>

definition handle_move :: "handle \<Rightarrow> handle \<times> handle" where
  "handle_move src = (\<lparr>has_pipe = has_pipe src, h_id = h_id src\<rparr>, src\<lparr>has_pipe := False\<rparr>)"

definition handle_assign :: "handle \<Rightarrow> handle \<Rightarrow> pipeline \<Rightarrow> (handle \<times> handle) \<times> pipeline" where
  "handle_assign dst src p = (let (_, p1) = handle_release dst p in (handle_move src, p1))"

definition handle_push :: "handle \<Rightarrow> event \<Rightarrow> pipeline \<Rightarrow> bool \<times> pipeline" where
  "handle_push h e p = (if has_pipe h then push (h_id h) e p else (False, p))"

section \<open>Interference\<close>

text \<open>
  A producer acts on a slot only while it holds the handle, which is while the slot is active;
  the tail of a \<open>retire\<close> may come at any time after its mark.
\<close>

definition owns :: "nat \<Rightarrow> pipeline \<Rightarrow> bool" where
  "owns i p \<longleftrightarrow> i < kMaxProducers \<and> state (p_slots p ! i) = Active"

fun act :: "pact \<Rightarrow> pipeline \<Rightarrow> pipeline" where
  "act ARegister p = snd (register_producer p)"
| "act (APush i e) p = (if owns i p then snd (push i e p) else p)"
| "act (ATry i e) p =
     (if owns i p then let (ok, p1) = attempt i e p in if ok then push_counted i e p1 else p1 else p)"
| "act (ADrop i e) p = (if owns i p then push_dropped i e p else p)"
| "act (ARetireMark i) p = (if owns i p then retire_mark i p else p)"
| "act (ARetireFlag i) p = (if i < kMaxProducers then retire_flag i p else p)"
| "act AStopAccepting p = p\<lparr>accepting := False\<rparr>"
| "act AStopRunning p = p\<lparr>running := False\<rparr>"

definition acts :: "pact list \<Rightarrow> pipeline \<Rightarrow> pipeline" where
  "acts as p = fold act as p"

definition interfere :: "pipeline \<Rightarrow> pipeline" where
  "interfere p = (case sched p of [] \<Rightarrow> p | as # rest \<Rightarrow> acts as (p\<lparr>sched := rest\<rparr>))"

section \<open>The consumer\<close>

definition flush :: "pipeline \<Rightarrow> pipeline" where
  "flush p =
     (if staged p = 0 then p
      else p\<lparr>written := written p @ [take (staged p) (stage p)], staged := 0\<rparr>)"

text \<open>\<open>pop_batch\<close> straight into the staging buffer, with the hook called on each event.\<close>

definition stage_in :: "nat \<Rightarrow> event list \<Rightarrow> pipeline \<Rightarrow> pipeline" where
  "stage_in i xs p =
     observe (map (Delivered i) xs)
       (p\<lparr>stage := take (staged p) (stage p) @ xs @ drop (staged p + length xs) (stage p),
          staged := staged p + length xs\<rparr>)"

function drain_loop :: "nat \<Rightarrow> nat \<Rightarrow> pipeline \<Rightarrow> nat \<times> pipeline" where
  "drain_loop i got p =
     (if got < kDrainBatch then
        let p1 = (if staged p = length (stage p) then flush p else p);
            room = min (length (stage p1) - staged p1) (kDrainBatch - got);
            p2 = interfere p1;
            (xs, r) = pop_batch (of_nat room) (ring (p_slots p2 ! i));
            p3 = upd_slot i (\<lambda>s. s\<lparr>ring := r\<rparr>) p2
        in if xs = [] then (got, p3) else drain_loop i (got + length xs) (stage_in i xs p3)
      else (got, p))"
  by pat_completeness auto
termination
  by (relation "measure (\<lambda>(i, got, p). kDrainBatch - got)") (auto intro!: diff_less_mono2)

declare drain_loop.simps [simp del]

definition drain_ring :: "nat \<Rightarrow> pipeline \<Rightarrow> nat \<times> pipeline" where
  "drain_ring i p = (let (got, p1) = drain_loop i 0 p in (got, p1\<lparr>consumed := consumed p1 + of_nat got\<rparr>))"

definition probe :: "nat \<Rightarrow> pipeline \<Rightarrow> nat \<times> pipeline" where
  "probe i p =
     (let p1 = p\<lparr>rings_probed := rings_probed p + 1\<rparr>;
          (n, p2) = drain_ring i p1
      in (n, if n = 0 then p2\<lparr>rings_empty := rings_empty p2 + 1\<rparr> else p2))"

text \<open>The slot a scan that starts at \<open>rot\<close> visits at its \<open>k\<close>-th turn.\<close>

definition scan_ix :: "nat \<Rightarrow> nat \<Rightarrow> nat" where
  "scan_ix k rot = (k + rot) AND (kMaxProducers - 1)"

fun full_loop :: "nat list \<Rightarrow> nat \<Rightarrow> nat \<Rightarrow> pipeline \<Rightarrow> nat \<times> pipeline" where
  "full_loop [] rot tot p = (tot, p)"
| "full_loop (k # ks) rot tot p =
     (let i = scan_ix k rot;
          p1 = interfere p
      in if state (p_slots p1 ! i) = Free then full_loop ks rot tot p1
         else let (n, p2) = probe i p1 in full_loop ks rot (tot + n) p2)"

definition drain_full :: "nat \<Rightarrow> pipeline \<Rightarrow> nat \<times> pipeline" where
  "drain_full rot p =
     (let (tot, p1) = full_loop [0..<kMaxProducers] rot 0 p
      in (tot, if tot > 0 then flush p1 else p1))"

text \<open>The bits of a word, lowest first: \<open>std::countr_zero\<close> and \<open>m &= m - 1\<close>.\<close>

definition countr_zero :: "u64 \<Rightarrow> nat" where
  "countr_zero m = length (takeWhile (\<lambda>i. \<not> bit m i) [0..<64])"

function bit_order :: "u64 \<Rightarrow> nat list" where
  "bit_order m = (if m = 0 then [] else countr_zero m # bit_order (m AND (m - 1)))"
  by pat_completeness auto
termination
proof (relation "measure unat")
  fix m :: u64 assume "m \<noteq> 0"
  have "unat (m AND (m - 1)) \<le> unat (m - 1)" by (simp add: word_and_le1 word_le_nat_alt [symmetric])
  also have "\<dots> < unat m" using \<open>m \<noteq> 0\<close> by (rule measure_unat)
  finally show "(m AND (m - 1), m) \<in> measure unat" by simp
qed simp

declare bit_order.simps [simp del]

fun bitmap_loop :: "nat list \<Rightarrow> nat \<Rightarrow> nat \<Rightarrow> pipeline \<Rightarrow> nat \<times> pipeline" where
  "bitmap_loop [] rot tot p = (tot, p)"
| "bitmap_loop (off # offs) rot tot p =
     (let i = scan_ix off rot;
          (n, p1) = probe i p
      in bitmap_loop offs rot (tot + n) p1)"

definition drain_bitmap :: "nat \<Rightarrow> pipeline \<Rightarrow> nat \<times> pipeline" where
  "drain_bitmap rot p =
     (let p0 = interfere p;
          snapshot = active p0;
          (tot, p1) = bitmap_loop (bit_order (word_rotr rot snapshot)) rot 0 p0
      in (tot, if tot > 0 then flush p1 else p1))"

text \<open>\<open>empty_now\<close> of a slot's ring.\<close>

definition ring_empty :: "nat \<Rightarrow> pipeline \<Rightarrow> bool \<times> pipeline" where
  "ring_empty i p =
     (let (b, r) = empty_now (ring (p_slots p ! i)) in (b, upd_slot i (\<lambda>s. s\<lparr>ring := r\<rparr>) p))"

definition clear_bit :: "nat \<Rightarrow> pipeline \<Rightarrow> pipeline" where
  "clear_bit i p =
     (let (empty, p1) = ring_empty i (interfere p) in
      if \<not> empty then p1
      else
        let p2 = interfere p1;
            p3 = p2\<lparr>active := active p2 AND NOT (slot_bit i), bitmap_writes := bitmap_writes p2 + 1\<rparr>;
            (empty, p4) = ring_empty i (interfere p3)
        in if \<not> empty \<or> state (p_slots p4 ! i) = Retiring
           then let p5 = interfere p4 in
             p5\<lparr>active := active p5 OR slot_bit i, bitmap_writes := bitmap_writes p5 + 1\<rparr>
           else p4)"

definition clear_empty_bits :: "pipeline \<Rightarrow> pipeline" where
  "clear_empty_bits p = (let p0 = interfere p in fold clear_bit (bit_order (active p0)) p0)"

definition reclaim_slot :: "nat \<Rightarrow> pipeline \<Rightarrow> pipeline" where
  "reclaim_slot i p0 =
     (let p = interfere p0 in
      if state (p_slots p ! i) \<noteq> Retiring then p
      else
        let (empty, p1) = ring_empty i p in
        if \<not> empty then p1
        else
          let s = p_slots p1 ! i;
              p2 = p1\<lparr>retired_pushed := retired_pushed p1 + pushed s,
                      retired_dropped := retired_dropped p1 + dropped s,
                      active := active p1 AND NOT (slot_bit i)\<rparr>
          in observe [Freed i] (upd_slot i (\<lambda>s. s\<lparr>pushed := 0, dropped := 0, state := Free\<rparr>) p2))"

definition reclaim_retired :: "pipeline \<Rightarrow> pipeline" where
  "reclaim_retired p = fold reclaim_slot [0..<kMaxProducers] p"

definition park :: "pipeline \<Rightarrow> pipeline" where
  "park p =
     (let p1 = interfere (p\<lparr>parked := True\<rparr>);
          p2 = (if active p1 = 0 \<and> running p1 then interfere (p1\<lparr>parks := parks p1 + 1\<rparr>) else p1)
      in p2\<lparr>parked := False\<rparr>)"

text \<open>
  \<open>consume\<close>. \<open>pass\<close> is one iteration of its main loop after the test of \<open>running_\<close>; it returns the
  loop's two local variables.
\<close>

definition take_retire_pending :: "pipeline \<Rightarrow> pipeline" where
  "take_retire_pending p0 =
     (let p = interfere p0 in
      if retire_pending p then reclaim_retired (p\<lparr>retire_pending := False\<rparr>) else p)"

definition scan_once :: "nat \<Rightarrow> pipeline \<Rightarrow> nat \<times> pipeline" where
  "scan_once rot p =
     (let (n, p1) = (if scan (cfg p) = Bitmap then drain_bitmap rot p else drain_full rot p)
      in (n, p1\<lparr>passes := passes p1 + 1\<rparr>))"

definition go_to_sleep :: "nat \<Rightarrow> pipeline \<Rightarrow> pipeline" where
  "go_to_sleep rot p =
     (let p1 = (if scan (cfg p) = Bitmap then clear_empty_bits p else p);
          (n, p2) = drain_full rot p1
      in if n > 0 then p2 else park p2)"

definition pass :: "u32 \<Rightarrow> nat \<Rightarrow> pipeline \<Rightarrow> u32 \<times> nat \<times> pipeline" where
  "pass idle rot p =
     (let (n, p1) = scan_once rot p; rot' = scan_ix rot 1 in
      if n > 0 then (0, rot', p1)
      else
        let p2 = take_retire_pending p1; idle' = idle + 1 in
        if idle' < spin_before_park (cfg p2) then (idle', rot', p2)
        else if idle' < spin_before_park (cfg p2) * 2 then (idle', rot', p2)
        else (0, rot', go_to_sleep rot' p2))"

text \<open>The loops of \<open>consume\<close>, with fuel; \<open>None\<close> is that the fuel did not suffice.\<close>

fun main_loop :: "nat \<Rightarrow> u32 \<Rightarrow> nat \<Rightarrow> pipeline \<Rightarrow> pipeline option" where
  "main_loop 0 idle rot p = None"
| "main_loop (Suc fuel) idle rot p =
     (let p1 = interfere p in
      if \<not> running p1 then Some p1
      else let (idle', rot', p2) = pass idle rot p1 in main_loop fuel idle' rot' p2)"

fun final_drain :: "nat \<Rightarrow> nat \<Rightarrow> pipeline \<Rightarrow> pipeline option" where
  "final_drain 0 r p = None"
| "final_drain (Suc fuel) r p =
     (let (n, p1) = drain_full r p in
      if n > 0 then final_drain fuel (scan_ix r 1) p1 else Some p1)"

definition wind_up :: "nat \<Rightarrow> pipeline \<Rightarrow> pipeline option" where
  "wind_up fuel p =
     (case final_drain fuel 0 p of None \<Rightarrow> None
      | Some p1 \<Rightarrow> (case final_drain fuel 0 p1 of None \<Rightarrow> None
        | Some p2 \<Rightarrow> Some (reclaim_retired (flush p2))))"

definition consume :: "nat \<Rightarrow> nat \<Rightarrow> pipeline \<Rightarrow> pipeline option" where
  "consume fuel fuel' p =
     (case main_loop fuel 0 0 p of None \<Rightarrow> None | Some p1 \<Rightarrow> wind_up fuel' p1)"

section \<open>Start, stop, statistics\<close>

definition start :: "pipeline \<Rightarrow> pipeline" where
  "start p = p\<lparr>running := True, accepting := True, joinable := True\<rparr>"

definition all_quiesced :: "pipeline \<Rightarrow> bool" where
  "all_quiesced p \<longleftrightarrow> list_all (\<lambda>s. state s = Free \<or> size_now (ring s) = 0) (p_slots p)"

text \<open>
  The polling of a draining stop: at each turn whether the clock has passed the deadline, and
  what the other threads do before the next one. \<open>None\<close> is that it is still polling.
\<close>

type_synonym others = "pipeline \<Rightarrow> pipeline"

fun stop_poll :: "(bool \<times> others) list \<Rightarrow> pipeline \<Rightarrow> pipeline option" where
  "stop_poll [] p = None"
| "stop_poll ((late, others) # polls) p =
     (if \<not> late \<and> \<not> all_quiesced p then stop_poll polls (others p) else Some p)"

text \<open>\<open>join\<close> is what the consumer does from the stop to its end.\<close>

definition stop :: "stop_mode \<Rightarrow> (bool \<times> others) list \<Rightarrow> (pipeline \<Rightarrow> pipeline option)
    \<Rightarrow> pipeline \<Rightarrow> pipeline option" where
  "stop mode polls join p =
     (if \<not> joinable p then Some p
      else
        let p1 = p\<lparr>accepting := False\<rparr>;
            waited = (if mode = Drain
              then map_option (\<lambda>q. q\<lparr>drain_deadline_met := all_quiesced q\<rparr>) (stop_poll polls p1)
              else Some p1)
        in case waited of None \<Rightarrow> None
           | Some p2 \<Rightarrow> map_option (\<lambda>q. q\<lparr>joinable := False\<rparr>) (join (p2\<lparr>running := False\<rparr>)))"

definition stats :: "pipeline \<Rightarrow> pipeline_stats" where
  "stats p =
     \<lparr>s_pushed = foldl (\<lambda>n s. n + pushed s) (retired_pushed p) (p_slots p),
      s_dropped = foldl (\<lambda>n s. n + dropped s) (retired_dropped p) (p_slots p),
      s_consumed = consumed p, s_rings_probed = rings_probed p, s_rings_empty = rings_empty p,
      s_passes = passes p, s_bitmap_writes = bitmap_writes p, s_notifies = notifies p,
      s_parks = parks p, s_high_water = foldl (\<lambda>m s. max m (high_water s)) 0 (p_slots p)\<rparr>"

end
