(* ===== verification/Weir_Accounting.thy ===== *)
theory Weir_Accounting
  imports Weir_Pipeline
begin

text \<open>
  The invariant of the pipeline and what it gives: nothing is lost, duplicated or reordered within
  a slot, every push is counted, a slot is reused only after its last owner's events are out, and
  the sink gets exactly the delivered events in order. All of it for an arbitrary schedule of
  what the producers do in the middle of the consumer's work.
\<close>

section \<open>Reading the log\<close>

fun ev_accepted :: "pev \<Rightarrow> (nat \<times> event) list" where
  "ev_accepted (Accepted i e) = [(i, e)]"
| "ev_accepted _ = []"

fun ev_dropped :: "pev \<Rightarrow> (nat \<times> event) list" where
  "ev_dropped (Dropped i e) = [(i, e)]"
| "ev_dropped _ = []"

fun ev_delivered :: "pev \<Rightarrow> (nat \<times> event) list" where
  "ev_delivered (Delivered i e) = [(i, e)]"
| "ev_delivered _ = []"

definition acceptances :: "pev list \<Rightarrow> (nat \<times> event) list" where
  "acceptances L = concat (map ev_accepted L)"

definition drops :: "pev list \<Rightarrow> (nat \<times> event) list" where
  "drops L = concat (map ev_dropped L)"

definition deliveries :: "pev list \<Rightarrow> (nat \<times> event) list" where
  "deliveries L = concat (map ev_delivered L)"

definition of_slot :: "nat \<Rightarrow> (nat \<times> event) list \<Rightarrow> event list" where
  "of_slot i xs = map snd (filter (\<lambda>x. fst x = i) xs)"

lemma log_append [simp]:
  "acceptances (L @ M) = acceptances L @ acceptances M"
  "drops (L @ M) = drops L @ drops M"
  "deliveries (L @ M) = deliveries L @ deliveries M"
  "of_slot i (xs @ ys) = of_slot i xs @ of_slot i ys"
  by (simp_all add: acceptances_def drops_def deliveries_def of_slot_def)

lemma log_nil [simp]:
  "acceptances [] = []" "drops [] = []" "deliveries [] = []" "of_slot i [] = []"
  by (simp_all add: acceptances_def drops_def deliveries_def of_slot_def)

lemma log_single [simp]:
  "acceptances [x] = ev_accepted x" "drops [x] = ev_dropped x" "deliveries [x] = ev_delivered x"
  by (simp_all add: acceptances_def drops_def deliveries_def)

lemma log_delivered [simp]:
  "acceptances (map (Delivered i) xs) = []" "drops (map (Delivered i) xs) = []"
  "deliveries (map (Delivered i) xs) = map (Pair i) xs"
  by (induction xs) (simp_all add: acceptances_def drops_def deliveries_def)

lemma of_slot_Cons [simp]:
  "of_slot i (x # xs) = (if fst x = i then [snd x] else []) @ of_slot i xs"
  by (simp add: of_slot_def)

lemma of_slot_pairs [simp]: "of_slot i (map (Pair j) xs) = (if i = j then xs else [])"
  by (induction xs) (auto simp: of_slot_def)

text \<open>A slot is registered, and freed, only with everything accepted on it so far delivered.\<close>

fun clean_ev :: "pev list \<Rightarrow> pev \<Rightarrow> bool" where
  "clean_ev pre (Registered i) \<longleftrightarrow> of_slot i (acceptances pre) = of_slot i (deliveries pre)"
| "clean_ev pre (Freed i) \<longleftrightarrow> of_slot i (acceptances pre) = of_slot i (deliveries pre)"
| "clean_ev pre _ \<longleftrightarrow> True"

fun clean_from :: "pev list \<Rightarrow> pev list \<Rightarrow> bool" where
  "clean_from pre [] \<longleftrightarrow> True"
| "clean_from pre (x # xs) \<longleftrightarrow> clean_ev pre x \<and> clean_from (pre @ [x]) xs"

lemma clean_from_append: "clean_from pre (xs @ ys) \<longleftrightarrow> clean_from pre xs \<and> clean_from (pre @ xs) ys"
  by (induction xs arbitrary: pre) auto

lemma clean_from_delivered [simp]: "clean_from pre (map (Delivered i) xs)"
  by (induction xs arbitrary: pre) auto

section \<open>The invariant\<close>

definition slot_ok :: "pev list \<Rightarrow> nat \<Rightarrow> pslot \<Rightarrow> bool" where
  "slot_ok L i s \<longleftrightarrow>
     spsc_inv (ring s) \<and> capacity (ring s) = kRingCapacity \<and>
     of_slot i (acceptances L) = of_slot i (deliveries L) @ contents (ring s) \<and>
     (state s = Free \<longrightarrow> contents (ring s) = [] \<and> pushed s = 0 \<and> dropped s = 0) \<and>
     unat (high_water s) \<le> kRingCapacity"

text \<open>\<open>g\<close> is how many events have been taken since \<open>consumed\<close> was last brought up to date.\<close>

definition counts_ok :: "nat \<Rightarrow> pipeline \<Rightarrow> bool" where
  "counts_ok g p \<longleftrightarrow>
     retired_pushed p + sum_list (map pushed (p_slots p)) = of_nat (length (acceptances (log p))) \<and>
     retired_dropped p + sum_list (map dropped (p_slots p)) = of_nat (length (drops (log p))) \<and>
     consumed p + of_nat g = of_nat (length (deliveries (log p)))"

definition stage_ok :: "pipeline \<Rightarrow> bool" where
  "stage_ok p \<longleftrightarrow>
     length (stage p) = kStageEvents \<and> staged p \<le> kStageEvents \<and>
     concat (written p) @ take (staged p) (stage p) = map snd (deliveries (log p)) \<and>
     (\<forall>b \<in> set (written p). b \<noteq> [] \<and> length b \<le> kStageEvents)"

definition slots_ok :: "pipeline \<Rightarrow> bool" where
  "slots_ok p \<longleftrightarrow> length (p_slots p) = kMaxProducers \<and>
     (\<forall>i < kMaxProducers. slot_ok (log p) i (p_slots p ! i)) \<and> clean_from [] (log p) \<and>
     (\<forall>x \<in> set (acceptances (log p) @ deliveries (log p)). fst x < kMaxProducers)"

definition pipe_ok :: "nat \<Rightarrow> pipeline \<Rightarrow> bool" where
  "pipe_ok g p \<longleftrightarrow> slots_ok p \<and> counts_ok g p \<and> stage_ok p"

lemmas pipe_parts = pipe_ok_def slots_ok_def counts_ok_def stage_ok_def

lemma pipe_ok_flags [simp]:
  "pipe_ok g (p\<lparr>active := a\<rparr>) = pipe_ok g p" "pipe_ok g (p\<lparr>accepting := b\<rparr>) = pipe_ok g p"
  "pipe_ok g (p\<lparr>running := b\<rparr>) = pipe_ok g p" "pipe_ok g (p\<lparr>parked := b\<rparr>) = pipe_ok g p"
  "pipe_ok g (p\<lparr>retire_pending := b\<rparr>) = pipe_ok g p" "pipe_ok g (p\<lparr>joinable := b\<rparr>) = pipe_ok g p"
  "pipe_ok g (p\<lparr>drain_deadline_met := b\<rparr>) = pipe_ok g p" "pipe_ok g (p\<lparr>sched := s\<rparr>) = pipe_ok g p"
  "pipe_ok g (p\<lparr>rings_probed := c\<rparr>) = pipe_ok g p" "pipe_ok g (p\<lparr>rings_empty := c\<rparr>) = pipe_ok g p"
  "pipe_ok g (p\<lparr>passes := c\<rparr>) = pipe_ok g p" "pipe_ok g (p\<lparr>bitmap_writes := c\<rparr>) = pipe_ok g p"
  "pipe_ok g (p\<lparr>notifies := c\<rparr>) = pipe_ok g p" "pipe_ok g (p\<lparr>parks := c\<rparr>) = pipe_ok g p"
  by (simp_all add: pipe_parts)

lemma pipe_okD:
  assumes "pipe_ok g p"
  shows "length (p_slots p) = kMaxProducers" and "i < kMaxProducers \<Longrightarrow> slot_ok (log p) i (p_slots p ! i)"
    and "clean_from [] (log p)" and "counts_ok g p" and "stage_ok p"
    and "\<forall>x \<in> set (acceptances (log p) @ deliveries (log p)). fst x < kMaxProducers"
  using assms by (simp_all add: pipe_ok_def slots_ok_def)

lemma sum_list_upd:
  "i < length xs \<Longrightarrow> sum_list (xs[i := x]) + xs ! i = sum_list xs + (x :: 'a::ab_group_add)"
  by (induction xs arbitrary: i) (auto simp: algebra_simps split: nat.splits)

lemma sum_slots_upd:
  fixes f :: "pslot \<Rightarrow> u64"
  shows "i < length xs \<Longrightarrow> sum_list (map f (xs[i := s])) = sum_list (map f xs) + f s - f (xs ! i)"
  using sum_list_upd [of i "map f xs" "f s"] by (simp add: map_update algebra_simps)

text \<open>The step every operation on one slot is an instance of.\<close>

lemma pipe_ok_slot:
  assumes p: "pipe_ok g p" and i: "i < kMaxProducers"
    and q: "p_slots q = (p_slots p)[i := s]" "log q = log p @ es"
    and s: "slot_ok (log p @ es) i s"
    and es: "\<forall>x \<in> set (acceptances es @ deliveries es). fst x = i"
      "clean_from (log p) es"
    and c: "retired_pushed q + pushed s =
        retired_pushed p + pushed (p_slots p ! i) + of_nat (length (acceptances es))"
      "retired_dropped q + dropped s =
        retired_dropped p + dropped (p_slots p ! i) + of_nat (length (drops es))"
      "consumed q + of_nat g' = consumed p + of_nat g + of_nat (length (deliveries es))"
    and st: "stage_ok q"
  shows "pipe_ok g' q"
proof -
  note d = pipe_okD [OF p]
  have l: "i < length (p_slots p)" using d(1) i by simp
  have "slot_ok (log q) j (p_slots q ! j)" if "j < kMaxProducers" for j
  proof (cases "j = i")
    case True
    then show ?thesis using s q l by simp
  next
    case False
    then have "of_slot j (acceptances es) = []" "of_slot j (deliveries es) = []"
      using es(1) by (auto simp: of_slot_def filter_empty_conv)
    then show ?thesis using d(2) [OF that] False q by (simp add: slot_ok_def)
  qed
  moreover have "clean_from [] (log q)" using d(3) es(2) q(2) by (simp add: clean_from_append)
  moreover have "\<forall>x \<in> set (acceptances (log q) @ deliveries (log q)). fst x < kMaxProducers"
    using d(6) es(1) i unfolding q(2) log_append by auto
  ultimately have "slots_ok q" using d(1) q(1) by (simp add: slots_ok_def)
  moreover have "counts_ok g' q"
  proof -
    note k = d(4) [unfolded counts_ok_def]
    have "retired_pushed q + sum_list (map pushed (p_slots q)) =
        (retired_pushed q + pushed s) + sum_list (map pushed (p_slots p)) - pushed (p_slots p ! i)"
      unfolding q(1) sum_slots_upd [OF l] by (simp add: algebra_simps)
    also have "\<dots> = of_nat (length (acceptances (log q)))"
      using k unfolding c(1) q(2) by (simp add: algebra_simps)
    finally have a: "retired_pushed q + sum_list (map pushed (p_slots q)) =
        of_nat (length (acceptances (log q)))" .
    have "retired_dropped q + sum_list (map dropped (p_slots q)) =
        (retired_dropped q + dropped s) + sum_list (map dropped (p_slots p)) - dropped (p_slots p ! i)"
      unfolding q(1) sum_slots_upd [OF l] by (simp add: algebra_simps)
    also have "\<dots> = of_nat (length (drops (log q)))"
      using k unfolding c(2) q(2) by (simp add: algebra_simps)
    finally show ?thesis using a k c(3) q(2) by (simp add: counts_ok_def)
  qed
  ultimately show ?thesis using st by (simp add: pipe_ok_def)
qed

section \<open>Producers keep it\<close>

lemma stage_ok_same:
  "stage_ok p \<Longrightarrow> stage q = stage p \<Longrightarrow> staged q = staged p \<Longrightarrow> written q = written p \<Longrightarrow>
   deliveries (log q) = deliveries (log p) \<Longrightarrow> stage_ok q"
  by (simp add: stage_ok_def)

lemma signal_simps [simp]:
  "p_slots (signal i p) = p_slots p" "log (signal i p) = log p" "stage (signal i p) = stage p"
  "staged (signal i p) = staged p" "written (signal i p) = written p" "cfg (signal i p) = cfg p"
  "retired_pushed (signal i p) = retired_pushed p" "retired_dropped (signal i p) = retired_dropped p"
  "consumed (signal i p) = consumed p" "sched (signal i p) = sched p"
  "running (signal i p) = running p" "accepting (signal i p) = accepting p"
  "retire_pending (signal i p) = retire_pending p"
  by (simp_all add: signal_def Let_def)

lemma upd_slot_simps [simp]:
  "log (upd_slot i f p) = log p" "stage (upd_slot i f p) = stage p" "staged (upd_slot i f p) = staged p"
  "written (upd_slot i f p) = written p" "cfg (upd_slot i f p) = cfg p"
  "retired_pushed (upd_slot i f p) = retired_pushed p"
  "retired_dropped (upd_slot i f p) = retired_dropped p" "consumed (upd_slot i f p) = consumed p"
  "sched (upd_slot i f p) = sched p" "running (upd_slot i f p) = running p"
  "accepting (upd_slot i f p) = accepting p" "active (upd_slot i f p) = active p"
  "retire_pending (upd_slot i f p) = retire_pending p"
  "p_slots (upd_slot i f p) = (p_slots p)[i := f (p_slots p ! i)]"
  "drain_deadline_met (upd_slot i f p) = drain_deadline_met p"
  by (simp_all add: upd_slot_def)

lemma observe_simps [simp]:
  "log (observe es p) = log p @ es" "stage (observe es p) = stage p" "staged (observe es p) = staged p"
  "written (observe es p) = written p" "cfg (observe es p) = cfg p"
  "retired_pushed (observe es p) = retired_pushed p"
  "retired_dropped (observe es p) = retired_dropped p" "consumed (observe es p) = consumed p"
  "sched (observe es p) = sched p" "running (observe es p) = running p"
  "accepting (observe es p) = accepting p" "active (observe es p) = active p"
  "retire_pending (observe es p) = retire_pending p"
  "p_slots (observe es p) = p_slots p" "drain_deadline_met (observe es p) = drain_deadline_met p"
  by (simp_all add: observe_def)

lemma attempt_slot:
  "attempt i e p = (fst (try_push e (ring (p_slots p ! i))),
     upd_slot i (\<lambda>s. s\<lparr>ring := snd (try_push e (ring (p_slots p ! i)))\<rparr>) p)"
  by (simp add: attempt_def split_beta)

definition counted_slot :: "pslot \<Rightarrow> pslot" where
  "counted_slot s = s\<lparr>pushed := pushed s + 1,
     high_water := max (high_water s) (producer_size_hint (ring s))\<rparr>"

lemma push_counted_simps [simp]:
  "log (push_counted i e p) = log p @ [Accepted i e]"
  "stage (push_counted i e p) = stage p" "staged (push_counted i e p) = staged p"
  "written (push_counted i e p) = written p" "cfg (push_counted i e p) = cfg p"
  "retired_pushed (push_counted i e p) = retired_pushed p"
  "retired_dropped (push_counted i e p) = retired_dropped p"
  "consumed (push_counted i e p) = consumed p" "sched (push_counted i e p) = sched p"
  "running (push_counted i e p) = running p" "accepting (push_counted i e p) = accepting p"
  "retire_pending (push_counted i e p) = retire_pending p"
  by (simp_all add: push_counted_def Let_def)

lemma push_counted_slots:
  assumes "i < length (p_slots p)"
  shows "p_slots (push_counted i e p) = (p_slots p)[i := counted_slot (p_slots p ! i)]"
proof -
  have "s\<lparr>pushed := x, high_water := max (high_water s) d\<rparr> =
      (if d > high_water s then s\<lparr>pushed := x, high_water := d\<rparr> else s\<lparr>pushed := x\<rparr>)"
    for s :: pslot and x d
    by (auto simp: max_def)
  then show ?thesis using assms by (simp add: push_counted_def counted_slot_def Let_def)
qed

lemma accept_ok:
  assumes p: "pipe_ok g p" and o': "owns i p" and a: "fst (attempt i e p)"
  shows "pipe_ok g (push_counted i e (snd (attempt i e p)))"
proof -
  let ?s = "p_slots p ! i" let ?r = "snd (try_push e (ring ?s))" let ?p1 = "snd (attempt i e p)"
  have i: "i < kMaxProducers" and st: "state ?s = Active" using o' by (simp_all add: owns_def)
  note d = pipe_okD [OF p]
  note s = d(2) [OF i, unfolded slot_ok_def]
  have l: "i < length (p_slots ?p1)" using i d(1) by (simp add: attempt_slot)
  have r: "spsc_inv ?r" "capacity ?r = kRingCapacity" "contents ?r = contents (ring ?s) @ [e]"
    using try_push_spec [of "ring ?s" e] s a by (simp_all add: attempt_slot)
  have h: "unat (producer_size_hint ?r) \<le> kRingCapacity" using hint_bounds(2) [OF r(1)] r(2) by simp
  show ?thesis
  proof (rule pipe_ok_slot [OF p i])
    show "p_slots (push_counted i e ?p1) = (p_slots p)[i := counted_slot (?s\<lparr>ring := ?r\<rparr>)]"
      unfolding push_counted_slots [OF l] using d(1) i by (simp add: attempt_slot)
    show "slot_ok (log p @ [Accepted i e]) i (counted_slot (?s\<lparr>ring := ?r\<rparr>))"
      using s r h st by (auto simp: slot_ok_def counted_slot_def max_def)
    show "stage_ok (push_counted i e ?p1)"
      using d(5) by (rule stage_ok_same) (simp_all add: attempt_slot)
  qed (simp_all add: attempt_slot counted_slot_def)
qed

lemma refuse_ok:
  assumes p: "pipe_ok g p" and o': "owns i p" and a: "\<not> fst (attempt i e p)"
  shows "pipe_ok g (snd (attempt i e p))" and "owns i (snd (attempt i e p))"
proof -
  let ?s = "p_slots p ! i" let ?r = "snd (try_push e (ring ?s))"
  have i: "i < kMaxProducers" and st: "state ?s = Active" using o' by (simp_all add: owns_def)
  note d = pipe_okD [OF p]
  note s = d(2) [OF i, unfolded slot_ok_def]
  have r: "spsc_inv ?r" "capacity ?r = kRingCapacity" "contents ?r = contents (ring ?s)"
    using try_push_spec [of "ring ?s" e] s a by (simp_all add: attempt_slot)
  show "pipe_ok g (snd (attempt i e p))"
  proof (rule pipe_ok_slot [OF p i])
    show "p_slots (snd (attempt i e p)) = (p_slots p)[i := ?s\<lparr>ring := ?r\<rparr>]"
      by (simp add: attempt_slot)
    show "slot_ok (log p @ []) i (?s\<lparr>ring := ?r\<rparr>)" using s r st by (simp add: slot_ok_def)
    show "stage_ok (snd (attempt i e p))"
      using d(5) by (rule stage_ok_same) (simp_all add: attempt_slot)
  qed (simp_all add: attempt_slot)
  show "owns i (snd (attempt i e p))" using i st d(1) by (simp add: owns_def attempt_slot)
qed

lemma dropped_ok:
  assumes p: "pipe_ok g p" and o': "owns i p"
  shows "pipe_ok g (push_dropped i e p)"
proof -
  have i: "i < kMaxProducers" using o' by (simp add: owns_def)
  note d = pipe_okD [OF p]
  show ?thesis
  proof (rule pipe_ok_slot [OF p i])
    show "p_slots (push_dropped i e p) =
        (p_slots p)[i := (p_slots p ! i)\<lparr>dropped := dropped (p_slots p ! i) + 1\<rparr>]"
      by (simp add: push_dropped_def)
    show "slot_ok (log p @ [Dropped i e]) i ((p_slots p ! i)\<lparr>dropped := dropped (p_slots p ! i) + 1\<rparr>)"
      using d(2) [OF i] o' by (simp add: slot_ok_def owns_def)
    show "stage_ok (push_dropped i e p)"
      using d(5) by (rule stage_ok_same) (simp_all add: push_dropped_def)
  qed (simp_all add: push_dropped_def)
qed

text \<open>
  A push alone on its ring either finds room at its first attempt or never does, however long
  it spins.
\<close>

lemma attempt_again:
  assumes "pipe_ok g p" "owns i p" "\<not> fst (attempt i e p)"
  shows "\<not> fst (attempt i e (snd (attempt i e p)))"
proof -
  have i: "i < kMaxProducers" using assms(2) by (simp add: owns_def)
  note d = pipe_okD [OF assms(1)]
  then show ?thesis
    using assms(3) i try_push_spec [of "ring (p_slots p ! i)" e]
      try_push_spec(3) [of "snd (try_push e (ring (p_slots p ! i)))" e] d(2) [OF i]
    by (simp add: attempt_slot slot_ok_def)
qed

lemma push_spins_ok:
  "pipe_ok g p \<Longrightarrow> owns i p \<Longrightarrow> \<not> fst (attempt i e p) \<Longrightarrow>
   \<exists>q. push_spins n i e (False, snd (attempt i e p)) = (False, q) \<and> pipe_ok g q \<and> owns i q"
proof (induction n arbitrary: p)
  case 0
  then show ?case using refuse_ok by simp
next
  case (Suc n)
  let ?p1 = "snd (attempt i e p)"
  have "\<not> fst (attempt i e ?p1)" by (rule attempt_again [OF Suc.prems])
  then have "attempt i e ?p1 = (False, snd (attempt i e ?p1))" by (simp add: attempt_slot)
  then show ?case
    using Suc.IH [OF refuse_ok [OF Suc.prems] attempt_again [OF Suc.prems]] by simp
qed

lemma push_cases:
  assumes "pipe_ok g p" "owns i p" "accepting p"
  shows "fst (push i e p) = fst (attempt i e p)"
    and "fst (attempt i e p) \<Longrightarrow> push i e p = (True, push_counted i e (snd (attempt i e p)))"
    and "\<not> fst (attempt i e p) \<Longrightarrow>
      \<exists>q. push i e p = (False, push_dropped i e q) \<and> pipe_ok g q \<and> owns i q"
proof -
  show 2: "push i e p = (True, push_counted i e (snd (attempt i e p)))" if "fst (attempt i e p)"
    using assms(3) that by (cases "attempt i e p") (simp add: push_def)
  show 3: "\<exists>q. push i e p = (False, push_dropped i e q) \<and> pipe_ok g q \<and> owns i q"
    if a: "\<not> fst (attempt i e p)"
  proof -
    let ?p1 = "snd (attempt i e p)"
    obtain q where "push_spins (unat (push_spin (cfg ?p1))) i e (False, ?p1) = (False, q)"
      "pipe_ok g q" "owns i q" using push_spins_ok [OF assms(1,2) a] by blast
    then show ?thesis
      using assms(3) a refuse_ok [OF assms(1,2) a]
      by (cases "attempt i e p") (auto simp: push_def)
  qed
  show "fst (push i e p) = fst (attempt i e p)" using 2 3 by fastforce
qed

lemma push_ok:
  assumes "pipe_ok g p" "owns i p"
  shows "pipe_ok g (snd (push i e p))"
proof (cases "accepting p")
  case True
  then show ?thesis
    using push_cases [OF assms True, of e] accept_ok [OF assms, of e] dropped_ok by fastforce
next
  case False
  then show ?thesis using assms(1) by (simp add: push_def)
qed

lemma register_from_ok:
  "pipe_ok g p \<Longrightarrow> set is \<subseteq> {..<kMaxProducers} \<Longrightarrow> pipe_ok g (snd (register_from is p))"
proof (induction "is")
  case (Cons i "is")
  show ?case
  proof (cases "state (p_slots p ! i) = Free")
    case True
    let ?s = "(p_slots p ! i)\<lparr>state := Active, pushed := 0, dropped := 0, high_water := 0\<rparr>"
    have i: "i < kMaxProducers" using Cons.prems by simp
    note d = pipe_okD [OF Cons.prems(1)]
    note s = d(2) [OF i, unfolded slot_ok_def]
    have "pipe_ok g (observe [Registered i] (upd_slot i (\<lambda>s. s\<lparr>state := Active, pushed := 0,
        dropped := 0, high_water := 0\<rparr>) p))"
    proof (rule pipe_ok_slot [OF Cons.prems(1) i, where s = ?s and es = "[Registered i]"])
      show "slot_ok (log p @ [Registered i]) i ?s" using s True by (simp add: slot_ok_def)
      show "clean_from (log p) [Registered i]" using s True by simp
    qed (use s True d(5) in \<open>simp_all add: stage_ok_def\<close>)
    then show ?thesis using True by simp
  next
    case False
    then show ?thesis using Cons by simp
  qed
qed simp

lemma retire_mark_ok:
  assumes p: "pipe_ok g p" and o': "owns i p"
  shows "pipe_ok g (retire_mark i p)"
proof -
  have i: "i < kMaxProducers" using o' by (simp add: owns_def)
  note d = pipe_okD [OF p]
  show ?thesis
  proof (rule pipe_ok_slot [OF p i, where s = "(p_slots p ! i)\<lparr>state := Retiring\<rparr>" and es = "[]"])
    show "slot_ok (log p @ []) i ((p_slots p ! i)\<lparr>state := Retiring\<rparr>)"
      using d(2) [OF i] by (simp add: slot_ok_def)
  qed (use d(5) in \<open>simp_all add: retire_mark_def stage_ok_def\<close>)
qed

lemma signal_ok [simp]: "pipe_ok g (signal i p) = pipe_ok g p"
  by (simp add: signal_def Let_def)

lemma retire_flag_ok [simp]: "pipe_ok g (retire_flag i p) = pipe_ok g p"
  by (simp add: retire_flag_def Let_def)

lemma act_ok: "pipe_ok g p \<Longrightarrow> pipe_ok g (act a p)"
proof (cases a)
  case (ATry i e)
  assume "pipe_ok g p"
  with ATry accept_ok [of g p i e] refuse_ok(1) [of g p i e] show ?thesis
    by (cases "attempt i e p") (auto simp: Let_def)
qed (auto simp: push_ok dropped_ok retire_mark_ok register_producer_def intro!: register_from_ok)

lemma acts_ok: "pipe_ok g p \<Longrightarrow> pipe_ok g (acts as p)"
  by (induction "as" arbitrary: p) (simp_all add: acts_def act_ok)

lemma interfere_ok: "pipe_ok g p \<Longrightarrow> pipe_ok g (interfere p)"
  by (simp add: interfere_def acts_ok split: list.split)

section \<open>What producers cannot touch\<close>

definition cside :: "pipeline \<Rightarrow> event list \<times> nat \<times> event list list \<times> u64 \<times> config \<times> (nat \<times> event) list" where
  "cside p = (stage p, staged p, written p, consumed p, cfg p, deliveries (log p))"

lemma push_spins_cside: "cside (snd (push_spins n i e (b, p))) = cside p"
  by (induction n arbitrary: b p) (simp_all add: attempt_slot cside_def)

lemma push_cside: "cside (snd (push i e p)) = cside p"
proof -
  let ?p1 = "snd (attempt i e p)"
  have 1: "cside ?p1 = cside p" by (simp add: attempt_slot cside_def)
  have 2: "cside (push_counted i e q) = cside q" "cside (push_dropped i e q) = cside q" for q
    by (simp_all add: cside_def push_dropped_def)
  show ?thesis
    using 1 2 push_spins_cside [of "unat (push_spin (cfg ?p1))" i e False ?p1]
    by (cases "attempt i e p") (simp add: push_def split_beta Let_def)
qed

lemma register_from_cside: "cside (snd (register_from is p)) = cside p"
  by (induction "is") (simp_all add: cside_def)

lemma act_cside [simp]: "cside (act a p) = cside p"
proof (cases a)
  case (APush i e)
  then show ?thesis by (simp add: push_cside)
next
  case (ATry i e)
  then show ?thesis by (simp add: attempt_slot Let_def) (simp add: cside_def)
next
  case ARegister
  then show ?thesis by (simp add: register_producer_def register_from_cside)
qed (simp_all add: cside_def push_dropped_def retire_mark_def retire_flag_def Let_def)

lemma acts_cside [simp]: "cside (acts as p) = cside p"
  by (induction "as" arbitrary: p) (simp_all add: acts_def)

lemma interfere_cside [simp]: "cside (interfere p) = cside p"
proof -
  have "cside (p\<lparr>sched := x\<rparr>) = cside p" for x by (simp add: cside_def)
  then show ?thesis by (simp add: interfere_def split: list.split)
qed

lemma interfere_same [simp]:
  "stage (interfere p) = stage p" "staged (interfere p) = staged p"
  "written (interfere p) = written p" "consumed (interfere p) = consumed p"
  "cfg (interfere p) = cfg p" "deliveries (log (interfere p)) = deliveries (log p)"
  using interfere_cside [of p] by (simp_all add: cside_def)

section \<open>The consumer keeps it\<close>

lemma flush_ok: "pipe_ok g p \<Longrightarrow> pipe_ok g (flush p)"
proof (cases "staged p = 0")
  case False
  assume p: "pipe_ok g p"
  then have "stage_ok (flush p)" using False pipe_okD(5) [OF p] by (auto simp: stage_ok_def flush_def)
  then show ?thesis using p False by (simp add: pipe_ok_def slots_ok_def counts_ok_def flush_def)
qed (simp add: flush_def)

lemma flush_room: "pipe_ok g p \<Longrightarrow> staged (if staged p = length (stage p) then flush p else p) < kStageEvents"
  using pipe_okD(5) [of g p] by (auto simp: stage_ok_def flush_def pipeline_sizes)

lemma stage_in_stage:
  assumes "stage_ok p" "staged p + length xs \<le> kStageEvents"
  shows "stage_ok (stage_in i xs p)"
proof -
  have "take (staged p + length xs) (take (staged p) (stage p) @ xs @ drop (staged p + length xs) (stage p)) =
      take (staged p) (stage p) @ xs"
    using assms by (simp add: stage_ok_def)
  moreover have "map snd (map (Pair i) xs) = xs" by (induction xs) simp_all
  ultimately show ?thesis
    using assms by (simp only: stage_ok_def stage_in_def observe_simps log_append log_delivered)
      (simp add: stage_ok_def [symmetric])
qed

lemma stage_ok_upd [simp]: "stage_ok (upd_slot i f p) = stage_ok p"
  by (simp add: stage_ok_def)

lemma pop_ok:
  assumes p: "pipe_ok g p" and i: "i < kMaxProducers"
    and pop: "pop_batch m (ring (p_slots p ! i)) = (xs, r)"
    and fits: "staged p + unat m \<le> kStageEvents"
  shows "pipe_ok (g + length xs) (stage_in i xs (upd_slot i (\<lambda>s. s\<lparr>ring := r\<rparr>) p))" (is "pipe_ok _ ?q")
    and "contents (ring (p_slots p ! i)) = xs @ contents r" "length xs \<le> unat m"
    and "xs = [] \<Longrightarrow> pipe_ok g (upd_slot i (\<lambda>s. s\<lparr>ring := r\<rparr>) p)"
    and "xs = [] \<longleftrightarrow> m = 0 \<or> contents (ring (p_slots p ! i)) = []"
proof -
  let ?s = "p_slots p ! i"
  note d = pipe_okD [OF p]
  note s = d(2) [OF i, unfolded slot_ok_def]
  have "spsc_inv (ring ?s)" using s by blast
  from pop_batch_spec [OF this, of m, unfolded pop fst_conv snd_conv]
  have b: "spsc_inv r" "capacity r = capacity (ring ?s)" "contents (ring ?s) = xs @ contents r"
    "length xs \<le> unat m" "xs = [] \<longleftrightarrow> m = 0 \<or> contents (ring ?s) = []" by blast+
  show "contents (ring ?s) = xs @ contents r" "length xs \<le> unat m"
    "xs = [] \<longleftrightarrow> m = 0 \<or> contents (ring ?s) = []" using b by blast+
  have so: "slot_ok (log p @ map (Delivered i) xs) i (?s\<lparr>ring := r\<rparr>)"
    using s b(1-3) by (simp add: slot_ok_def)
  have st: "stage_ok ?q" using d(5) b(4) fits by (intro stage_in_stage) simp_all
  show "pipe_ok (g + length xs) ?q"
    by (rule pipe_ok_slot [OF p i, where s = "?s\<lparr>ring := r\<rparr>" and es = "map (Delivered i) xs"])
      (use so st in \<open>simp_all add: stage_in_def\<close>)
  show "pipe_ok g (upd_slot i (\<lambda>s. s\<lparr>ring := r\<rparr>) p)" if "xs = []"
    by (rule pipe_ok_slot [OF p i, where s = "?s\<lparr>ring := r\<rparr>" and es = "[]"])
      (use so d(5) that in simp_all)
qed

definition drain_room :: "nat \<Rightarrow> pipeline \<Rightarrow> u64" where
  "drain_room got p = of_nat (min (length (stage p) - staged p) (kDrainBatch - got))"

lemma drain_room_bounds:
  assumes "pipe_ok g p" "got < kDrainBatch" "staged p < kStageEvents"
  shows "staged p + unat (drain_room got p) \<le> kStageEvents" "drain_room got p \<noteq> 0"
    "got + unat (drain_room got p) \<le> kDrainBatch"
proof -
  let ?n = "min (length (stage p) - staged p) (kDrainBatch - got)"
  have n: "?n < 2 ^ 64" "0 < ?n" using assms pipe_okD(5) [OF assms(1)]
    by (auto simp: stage_ok_def pipeline_sizes)
  then have u: "unat (drain_room got p) = ?n" by (simp add: drain_room_def unat_of_nat)
  then show "staged p + unat (drain_room got p) \<le> kStageEvents"
    "got + unat (drain_room got p) \<le> kDrainBatch"
    using assms pipe_okD(5) [OF assms(1)] by (auto simp: stage_ok_def)
  show "drain_room got p \<noteq> 0" using u n(2) by auto
qed

lemma drain_loop_pop:
  assumes "got < kDrainBatch" "p1 = (if staged p = length (stage p) then flush p else p)"
    "p2 = interfere p1" "pop_batch (drain_room got p1) (ring (p_slots p2 ! i)) = (xs, r)"
  shows "drain_loop i got p =
    (if xs = [] then (got, upd_slot i (\<lambda>s. s\<lparr>ring := r\<rparr>) p2)
     else drain_loop i (got + length xs) (stage_in i xs (upd_slot i (\<lambda>s. s\<lparr>ring := r\<rparr>) p2)))"
  by (subst drain_loop.simps, simp only: assms(1) if_True Let_def assms(2) [symmetric]
      assms(3) [symmetric] drain_room_def [symmetric] assms(4) prod.case)

text \<open>One turn of the drain loop, as the two ways it can go.\<close>

lemma drain_loop_turn:
  assumes p: "pipe_ok got p" and i: "i < kMaxProducers" and got: "got < kDrainBatch"
  defines "p2 \<equiv> interfere (if staged p = length (stage p) then flush p else p)"
  obtains (stop) r where "drain_loop i got p = (got, upd_slot i (\<lambda>s. s\<lparr>ring := r\<rparr>) p2)"
      "pipe_ok got p2" "pipe_ok got (upd_slot i (\<lambda>s. s\<lparr>ring := r\<rparr>) p2)"
      "contents (ring (p_slots p2 ! i)) = []" "contents r = []"
  | (more) xs r where "xs \<noteq> []" "got + length xs \<le> kDrainBatch" "pipe_ok got p2"
      "drain_loop i got p =
         drain_loop i (got + length xs) (stage_in i xs (upd_slot i (\<lambda>s. s\<lparr>ring := r\<rparr>) p2))"
      "pipe_ok (got + length xs) (stage_in i xs (upd_slot i (\<lambda>s. s\<lparr>ring := r\<rparr>) p2))"
      "contents (ring (p_slots p2 ! i)) = xs @ contents r"
proof -
  let ?p1 = "if staged p = length (stage p) then flush p else p"
  have 1: "pipe_ok got ?p1" using p flush_ok by simp
  then have 2: "pipe_ok got p2" unfolding p2_def by (rule interfere_ok)
  have r: "drain_room got ?p1 = drain_room got p2" "staged ?p1 = staged p2"
    unfolding drain_room_def p2_def interfere_same by (rule refl)+
  have b: "staged p2 + unat (drain_room got p2) \<le> kStageEvents" "drain_room got p2 \<noteq> 0"
    "got + unat (drain_room got p2) \<le> kDrainBatch"
    by (rule drain_room_bounds [OF 2 got], use flush_room [OF p] r(2) in argo)+
  obtain xs r' where pop: "pop_batch (drain_room got p2) (ring (p_slots p2 ! i)) = (xs, r')"
    by (cases "pop_batch (drain_room got p2) (ring (p_slots p2 ! i))")
  note k = pop_ok [OF 2 i pop b(1)]
  note step = drain_loop_pop [OF got refl p2_def [THEN meta_eq_to_obj_eq] pop [folded r(1)]]
  show ?thesis
  proof (cases "xs = []")
    case True
    have c: "contents (ring (p_slots p2 ! i)) = []" using k(5) True b(2) by blast
    show ?thesis
      by (rule stop [OF _ 2 k(4) [OF True] c]) (use step True k(2) c in \<open>simp_all only: if_True append_Nil simp_thms\<close>)
  next
    case False
    then have "got + length xs \<le> kDrainBatch" using k(3) b(3) by linarith
    then show ?thesis
      by (rule more [OF False _ 2 _ k(1,2)]) (use step False in \<open>simp only: if_False\<close>)
  qed
qed

lemma drain_loop_ok:
  "pipe_ok got p \<Longrightarrow> i < kMaxProducers \<Longrightarrow> got \<le> kDrainBatch \<Longrightarrow>
   pipe_ok (fst (drain_loop i got p)) (snd (drain_loop i got p)) \<and>
   got \<le> fst (drain_loop i got p) \<and> fst (drain_loop i got p) \<le> kDrainBatch"
proof (induction "kDrainBatch - got" arbitrary: got p rule: less_induct)
  case less
  show ?case
  proof (cases "got < kDrainBatch")
    case True
    show ?thesis
    proof (rule drain_loop_turn [OF less.prems(1,2) True])
      fix xs r
      let ?p2 = "interfere (if staged p = length (stage p) then flush p else p)"
      let ?q = "stage_in i xs (upd_slot i (\<lambda>s. s\<lparr>ring := r\<rparr>) ?p2)"
      assume a: "xs \<noteq> []" "got + length xs \<le> kDrainBatch"
        "drain_loop i got p = drain_loop i (got + length xs) ?q" "pipe_ok (got + length xs) ?q"
      have "kDrainBatch - (got + length xs) < kDrainBatch - got"
        using a(1) True by (intro diff_less_mono2) simp_all
      from less.hyps [OF this a(4) less.prems(2) a(2)] show ?thesis unfolding a(3) by auto
    qed (use less.prems in auto)
  next
    case False
    then show ?thesis using less.prems by (subst (1 2 3 4) drain_loop.simps) simp
  qed
qed

lemma drain_ring_ok:
  assumes "pipe_ok 0 p" "i < kMaxProducers"
  shows "pipe_ok 0 (snd (drain_ring i p))" "fst (drain_ring i p) \<le> kDrainBatch"
proof -
  obtain got q where d: "drain_loop i 0 p = (got, q)" by (cases "drain_loop i 0 p")
  have "pipe_ok got q" "got \<le> kDrainBatch"
    using drain_loop_ok [OF assms, of] d by (simp_all add: pipeline_sizes)
  then show "pipe_ok 0 (snd (drain_ring i p))" "fst (drain_ring i p) \<le> kDrainBatch"
    using d by (simp_all add: drain_ring_def pipe_parts)
qed

lemma probe_ok:
  "pipe_ok 0 p \<Longrightarrow> i < kMaxProducers \<Longrightarrow> pipe_ok 0 (snd (probe i p)) \<and> fst (probe i p) \<le> kDrainBatch"
  using drain_ring_ok [of "p\<lparr>rings_probed := rings_probed p + 1\<rparr>" i]
  by (simp add: probe_def split_beta Let_def)

lemma scan_ix_mod: "scan_ix k rot = (k + rot) mod kMaxProducers"
proof -
  have "scan_ix k rot = (k + rot) AND mask 6"
    by (simp add: scan_ix_def kMaxProducers_def mask_eq_exp_minus_1)
  then show ?thesis by (simp only: take_bit_eq_mask [symmetric] take_bit_eq_mod kMaxProducers_def) simp
qed

lemma scan_ix_less [simp]: "scan_ix k rot < kMaxProducers"
  by (simp add: scan_ix_mod kMaxProducers_def)

lemma full_loop_ok: "pipe_ok 0 p \<Longrightarrow> pipe_ok 0 (snd (full_loop ks rot tot p))"
proof (induction ks arbitrary: tot p)
  case (Cons k ks)
  show ?case
    using Cons.IH interfere_ok [OF Cons.prems] probe_ok [of "interfere p"]
    by (simp add: Let_def split_beta)
qed simp

lemma drain_full_ok: "pipe_ok 0 p \<Longrightarrow> pipe_ok 0 (snd (drain_full rot p))"
  by (simp add: drain_full_def split_beta Let_def full_loop_ok flush_ok)

lemma bitmap_loop_ok: "pipe_ok 0 p \<Longrightarrow> pipe_ok 0 (snd (bitmap_loop offs rot tot p))"
proof (induction offs arbitrary: tot p)
  case (Cons off offs)
  then show ?case using probe_ok [OF Cons.prems] by (simp add: Let_def split_beta)
qed simp

lemma drain_bitmap_ok: "pipe_ok 0 p \<Longrightarrow> pipe_ok 0 (snd (drain_bitmap rot p))"
  by (simp add: drain_bitmap_def split_beta Let_def bitmap_loop_ok flush_ok interfere_ok)

end
