(* ===== verification/Weir_Runs.thy ===== *)
theory Weir_Runs
  imports Weir_Accounting
begin

text \<open>
  The states a pipeline can be in, as an inductive relation: built, started, acted upon by producers
  and stopping threads, taken through a pass of the consumer or through its end, under schedules
  chosen freely at every point. The invariant of \<open>Weir_Accounting\<close> holds in all of them; this
  theory states what that means.
\<close>

section \<open>The rest of the consumer\<close>

lemma ring_empty_ok:
  assumes p: "pipe_ok g p" and i: "i < kMaxProducers"
  shows "pipe_ok g (snd (ring_empty i p))"
    and "fst (ring_empty i p) \<longleftrightarrow> contents (ring (p_slots p ! i)) = []"
    and "contents (ring (p_slots (snd (ring_empty i p)) ! i)) = contents (ring (p_slots p ! i))"
    and "state (p_slots (snd (ring_empty i p)) ! i) = state (p_slots p ! i)"
proof -
  let ?s = "p_slots p ! i" let ?r = "snd (empty_now (ring ?s))"
  note d = pipe_okD [OF p]
  note s = d(2) [OF i, unfolded slot_ok_def]
  note e = empty_now_spec [of "ring ?s", OF conjunct1 [OF s]]
  have re: "ring_empty i p = (fst (empty_now (ring ?s)), upd_slot i (\<lambda>s. s\<lparr>ring := ?r\<rparr>) p)"
    by (simp add: ring_empty_def split_beta)
  show "fst (ring_empty i p) \<longleftrightarrow> contents (ring ?s) = []" using e re by simp
  show "contents (ring (p_slots (snd (ring_empty i p)) ! i)) = contents (ring ?s)"
    "state (p_slots (snd (ring_empty i p)) ! i) = state ?s"
    using e re d(1) i by simp_all
  have "slot_ok (log p @ []) i (?s\<lparr>ring := ?r\<rparr>)" using s e by (simp add: slot_ok_def)
  then show "pipe_ok g (snd (ring_empty i p))"
    unfolding re snd_conv
    by (intro pipe_ok_slot [OF p i, where s = "?s\<lparr>ring := ?r\<rparr>" and es = "[]"]) (use d(5) in simp_all)
qed

lemma clear_bit_ok:
  assumes "pipe_ok g p" "i < kMaxProducers"
  shows "pipe_ok g (clear_bit i p)"
proof -
  let ?p1 = "snd (ring_empty i (interfere p))"
  let ?p2 = "interfere ?p1"
  let ?p3 = "?p2\<lparr>active := active ?p2 AND NOT (slot_bit i), bitmap_writes := bitmap_writes ?p2 + 1\<rparr>"
  have 1: "pipe_ok g ?p1" using assms by (intro ring_empty_ok(1) interfere_ok)
  then have "pipe_ok g ?p3" by (simp add: interfere_ok)
  then have 4: "pipe_ok g (snd (ring_empty i (interfere ?p3)))"
    using assms(2) by (intro ring_empty_ok(1) interfere_ok)
  then show ?thesis
    using 1 by (simp add: clear_bit_def split_beta Let_def interfere_ok)
qed

lemma bit_order_less: "m \<noteq> 0 \<Longrightarrow> countr_zero m < 64 \<and> bit m (countr_zero m)"
proof -
  assume "m \<noteq> 0"
  moreover have "m = 0" if "\<forall>k < 64. \<not> bit m k" using that by (intro bit_word_eqI) simp
  ultimately obtain k where "k < 64" "bit m k" by blast
  then have e: "\<exists>i \<in> set [0..<64]. \<not> \<not> bit m i" by auto
  let ?t = "takeWhile (\<lambda>i. \<not> bit m i) [0..<64]"
  have l: "length ?t < length [0..<64]"
    using e by (metis length_takeWhile_le nat_less_le takeWhile_eq_all_conv takeWhile_eq_take take_all)
  then have "\<not> \<not> bit m ([0..<64] ! length ?t)" by (rule nth_length_takeWhile)
  then show ?thesis using l by (simp add: countr_zero_def)
qed

lemma bit_order_set: "set (bit_order m) \<subseteq> {..<kMaxProducers}"
proof (induction m rule: bit_order.induct)
  case (1 m)
  then show ?case
    using bit_order_less [of m] by (subst bit_order.simps) (simp add: kMaxProducers_def)
qed

lemma fold_ok:
  "(\<And>x p. x \<in> set xs \<Longrightarrow> pipe_ok g p \<Longrightarrow> pipe_ok g (f x p)) \<Longrightarrow> pipe_ok g p \<Longrightarrow> pipe_ok g (fold f xs p)"
  by (induction xs arbitrary: p) simp_all

lemma clear_empty_bits_ok: "pipe_ok g p \<Longrightarrow> pipe_ok g (clear_empty_bits p)"
  unfolding clear_empty_bits_def Let_def
  using bit_order_set by (intro fold_ok interfere_ok) (auto intro!: clear_bit_ok)

lemma reclaim_slot_ok:
  assumes p0: "pipe_ok g p0" and i: "i < kMaxProducers"
  shows "pipe_ok g (reclaim_slot i p0)"
proof -
  let ?p = "interfere p0" let ?p1 = "snd (ring_empty i ?p)"
  have p: "pipe_ok g ?p" using p0 by (rule interfere_ok)
  note e = ring_empty_ok [OF p i]
  consider "state (p_slots ?p ! i) \<noteq> Retiring" | "state (p_slots ?p ! i) = Retiring" "\<not> fst (ring_empty i ?p)"
    | "state (p_slots ?p ! i) = Retiring" "fst (ring_empty i ?p)" by blast
  then show ?thesis
  proof cases
    case 3
    let ?s = "p_slots ?p1 ! i"
    let ?s' = "?s\<lparr>pushed := 0, dropped := 0, state := Free\<rparr>"
    let ?q = "reclaim_slot i p0"
    note d = pipe_okD [OF e(1)]
    note s = d(2) [OF i, unfolded slot_ok_def]
    have c: "contents (ring ?s) = []" using 3 e by simp
    have q: "?q = observe [Freed i] (upd_slot i (\<lambda>s. s\<lparr>pushed := 0, dropped := 0, state := Free\<rparr>)
        (?p1\<lparr>retired_pushed := retired_pushed ?p1 + pushed ?s,
             retired_dropped := retired_dropped ?p1 + dropped ?s,
             active := active ?p1 AND NOT (slot_bit i)\<rparr>))"
      using 3 by (simp add: reclaim_slot_def Let_def split_beta)
    show ?thesis
    proof (rule pipe_ok_slot [OF e(1) i, where s = ?s' and es = "[Freed i]"])
      show "slot_ok (log ?p1 @ [Freed i]) i ?s'" using s c by (simp add: slot_ok_def)
      show "clean_from (log ?p1) [Freed i]" using s c by simp
      show "stage_ok ?q" using d(5) unfolding q by (simp add: stage_ok_def)
    qed (simp_all add: q)
  qed (use e p in \<open>simp_all add: reclaim_slot_def Let_def split_beta\<close>)
qed

lemma reclaim_retired_ok: "pipe_ok g p \<Longrightarrow> pipe_ok g (reclaim_retired p)"
  unfolding reclaim_retired_def by (auto intro!: fold_ok reclaim_slot_ok)

lemma park_ok: "pipe_ok g p \<Longrightarrow> pipe_ok g (park p)"
  by (simp add: park_def Let_def interfere_ok)

lemma take_retire_pending_ok: "pipe_ok g p \<Longrightarrow> pipe_ok g (take_retire_pending p)"
  by (simp add: take_retire_pending_def Let_def interfere_ok reclaim_retired_ok)

lemma scan_once_ok: "pipe_ok 0 p \<Longrightarrow> pipe_ok 0 (snd (scan_once rot p))"
  by (simp add: scan_once_def split_beta Let_def drain_bitmap_ok drain_full_ok)

lemma go_to_sleep_ok: "pipe_ok 0 p \<Longrightarrow> pipe_ok 0 (go_to_sleep rot p)"
  by (simp add: go_to_sleep_def split_beta Let_def drain_full_ok clear_empty_bits_ok park_ok)

lemma pass_ok: "pipe_ok 0 p \<Longrightarrow> pipe_ok 0 (snd (snd (pass idle rot p)))"
  unfolding pass_def Let_def split_beta
  by (simp add: scan_once_ok take_retire_pending_ok go_to_sleep_ok)

lemma main_loop_ok: "pipe_ok 0 p \<Longrightarrow> main_loop fuel idle rot p = Some q \<Longrightarrow> pipe_ok 0 q"
proof (induction fuel arbitrary: idle rot p)
  case (Suc fuel)
  show ?case
    using Suc.prems(2) interfere_ok [OF Suc.prems(1)] pass_ok [OF interfere_ok [OF Suc.prems(1)]] Suc.IH
    by (simp add: Let_def split_beta split: if_splits) blast
qed simp

lemma final_drain_ok: "pipe_ok 0 p \<Longrightarrow> final_drain fuel r p = Some q \<Longrightarrow> pipe_ok 0 q"
proof (induction fuel arbitrary: r p)
  case (Suc fuel)
  show ?case
    using Suc.prems(2) drain_full_ok [OF Suc.prems(1), of r] Suc.IH
    by (auto simp: Let_def split_beta split: if_splits)
qed simp

lemma wind_up_ok: "pipe_ok 0 p \<Longrightarrow> wind_up fuel p = Some q \<Longrightarrow> pipe_ok 0 q"
  by (auto simp: wind_up_def split: option.splits
      intro!: reclaim_retired_ok flush_ok dest: final_drain_ok)

section \<open>Reachable states\<close>

inductive pipe_reach :: "pipeline \<Rightarrow> bool" where
  reach_new: "pipe_reach (new_pipeline c sch)"
| reach_start: "pipe_reach p \<Longrightarrow> pipe_reach (start p)"
| reach_act: "pipe_reach p \<Longrightarrow> pipe_reach (act a p)"
| reach_sched: "pipe_reach p \<Longrightarrow> pipe_reach (p\<lparr>sched := sch\<rparr>)"
| reach_interfere: "pipe_reach p \<Longrightarrow> pipe_reach (interfere p)"
| reach_pass: "pipe_reach p \<Longrightarrow> pipe_reach (snd (snd (pass idle rot p)))"
| reach_wind_up: "pipe_reach p \<Longrightarrow> wind_up fuel p = Some q \<Longrightarrow> pipe_reach q"
| reach_drained: "pipe_reach p \<Longrightarrow> pipe_reach (p\<lparr>drain_deadline_met := b\<rparr>)"
| reach_joined: "pipe_reach p \<Longrightarrow> pipe_reach (p\<lparr>joinable := False\<rparr>)"

lemma ring_cap_4096: "ring_cap kRingCapacity"
  using power_has_single_bit [of 12] by (simp add: ring_cap_def kRingCapacity_def)

lemma new_pipeline_ok: "pipe_ok 0 (new_pipeline c sch)"
proof -
  have "slot_ok [] i new_slot" for i
    using new_ring_inv [OF ring_cap_4096] by (simp add: slot_ok_def new_slot_def)
  then show ?thesis
    by (simp add: pipe_parts new_pipeline_def sum_list_replicate new_slot_def)
qed

lemma reach_ok: "pipe_reach p \<Longrightarrow> pipe_ok 0 p"
  by (induction rule: pipe_reach.induct)
    (simp_all add: new_pipeline_ok start_def act_ok interfere_ok pass_ok wind_up_ok)

lemma reach_acts: "pipe_reach p \<Longrightarrow> pipe_reach (acts as p)"
  by (induction "as" arbitrary: p) (simp_all add: acts_def reach_act)

lemma reach_main_loop: "pipe_reach p \<Longrightarrow> main_loop fuel idle rot p = Some q \<Longrightarrow> pipe_reach q"
proof (induction fuel arbitrary: idle rot p)
  case (Suc fuel)
  show ?case
    using Suc.prems(2) reach_interfere [OF Suc.prems(1)]
      reach_pass [OF reach_interfere [OF Suc.prems(1)]] Suc.IH
    by (simp add: Let_def split_beta split: if_splits) blast
qed simp

lemma reach_consume: "pipe_reach p \<Longrightarrow> consume fuel fuel' p = Some q \<Longrightarrow> pipe_reach q"
  by (auto simp: consume_def split: option.splits intro: reach_main_loop reach_wind_up)

section \<open>Properties\<close>

text \<open>A sample run: a pipeline with the full scan, two producers, one pass with a late push.\<close>

definition sample_event :: "u32 \<Rightarrow> event" where
  "sample_event k = make_event 0 k 0"

definition sample_run :: pipeline where
  "sample_run =
     snd (snd (pass 0 0 (acts [ARegister, ATry 0 (sample_event 1), ATry 0 (sample_event 2)]
       (new_pipeline (default_config\<lparr>scan := FullScan\<rparr>) []))))"

lemma sample_reach: "pipe_reach sample_run"
  unfolding sample_run_def by (intro reach_pass reach_acts reach_new)

text \<open>
  C3: Nothing is lost, duplicated or reordered on the way through a slot: in every reachable state
  what was accepted on a slot is what was delivered from it followed by what its ring still holds,
  and the ring holds, and ever held, at most its capacity.
\<close>

theorem pipeline_fifo:
  assumes "pipe_reach p" "i < kMaxProducers"
  shows "of_slot i (acceptances (log p)) =
      of_slot i (deliveries (log p)) @ contents (ring (p_slots p ! i)) \<and>
    length (contents (ring (p_slots p ! i))) \<le> kRingCapacity \<and>
    unat (high_water (p_slots p ! i)) \<le> kRingCapacity"
  using pipe_okD(2) [OF reach_ok [OF assms(1)] assms(2)]
    contents_le_capacity [of "ring (p_slots p ! i)"] by (simp add: slot_ok_def)

theorem pipeline_fifo_witness:
  "length (contents (ring (p_slots sample_run ! 0))) \<le> kRingCapacity"
  using pipeline_fifo [OF sample_reach, of 0] by (simp add: kMaxProducers_def)

lemma foldl_sum: "foldl (\<lambda>n s. n + f s) (a :: u64) xs = a + sum_list (map f xs)"
  by (induction xs arbitrary: a) (simp_all add: add.assoc)

lemma of_slot_count:
  assumes "\<forall>x \<in> set xs. fst x < n"
  shows "length xs = (\<Sum>i \<leftarrow> [0..<n]. length (of_slot i xs))"
  using assms
proof (induction xs)
  case (Cons x xs)
  have "(\<Sum>i \<leftarrow> [0..<n]. length (of_slot i (x # xs))) =
      (\<Sum>i \<leftarrow> [0..<n]. if fst x = i then 1 else 0) + (\<Sum>i \<leftarrow> [0..<n]. length (of_slot i xs))"
    unfolding sum_list_addf [symmetric] by (rule arg_cong [of _ _ sum_list]) auto
  moreover have "(\<Sum>i \<leftarrow> [0..<n]. if fst x = i then 1 else 0) = (1 :: nat)"
    using Cons.prems by (simp add: sum_list_sum_nth atLeast0LessThan)
  ultimately show ?case using Cons by simp
qed (simp add: of_slot_def)

definition in_rings :: "pipeline \<Rightarrow> nat" where
  "in_rings p = (\<Sum>i \<leftarrow> [0..<kMaxProducers]. length (contents (ring (p_slots p ! i))))"

lemma accepted_count:
  assumes "pipe_ok g p"
  shows "length (acceptances (log p)) = length (deliveries (log p)) + in_rings p"
proof -
  note d = pipe_okD [OF assms]
  have "length (acceptances (log p)) =
      (\<Sum>i \<leftarrow> [0..<kMaxProducers]. length (of_slot i (acceptances (log p))))"
    using d(6) by (intro of_slot_count) auto
  also have "\<dots> = (\<Sum>i \<leftarrow> [0..<kMaxProducers]. length (of_slot i (deliveries (log p))) +
      length (contents (ring (p_slots p ! i))))"
    using d(2) by (intro arg_cong [of _ _ sum_list] map_cong) (auto simp: slot_ok_def)
  also have "\<dots> = length (deliveries (log p)) + in_rings p"
    using d(6) by (subst of_slot_count [of "deliveries (log p)" kMaxProducers])
      (auto simp: sum_list_addf in_rings_def)
  finally show ?thesis .
qed

lemma pipeline_counts:
  assumes "pipe_reach p"
  shows "s_pushed (stats p) = of_nat (length (acceptances (log p)))"
    and "s_dropped (stats p) = of_nat (length (drops (log p)))"
    and "s_consumed (stats p) = of_nat (length (deliveries (log p)))"
  using pipe_okD(4) [OF reach_ok [OF assms]] by (simp_all add: counts_ok_def stats_def foldl_sum)

text \<open>
  C15: The statistics add up, however many slots were recycled: \<open>pushed\<close> counts the accepted
  pushes, \<open>dropped\<close> the refused ones, \<open>consumed\<close> the delivered events, and accepted less delivered
  is what the rings hold.
\<close>

theorem pipeline_accounting:
  assumes "pipe_reach p"
  shows "s_pushed (stats p) = of_nat (length (acceptances (log p))) \<and>
    s_dropped (stats p) = of_nat (length (drops (log p))) \<and>
    s_consumed (stats p) = of_nat (length (deliveries (log p))) \<and>
    length (acceptances (log p)) = length (deliveries (log p)) + in_rings p"
  using accepted_count [OF reach_ok [OF assms]] pipeline_counts [OF assms] by simp

theorem pipeline_accounting_witness:
  "s_consumed (stats sample_run) = of_nat (length (deliveries (log sample_run)))"
  using pipeline_accounting [OF sample_reach] by blast

text \<open>
  C16: A slot changes hands only when it is clean: whenever a slot was registered or freed,
  everything accepted on it until then had been delivered, so no producer's events are mixed with its
  predecessor's; and a slot that is free now has an empty ring and its counters are rolled up.
\<close>

theorem slot_reuse_clean:
  assumes "pipe_reach p" "i < kMaxProducers"
  shows "(log p = pre @ Registered i # post \<or> log p = pre @ Freed i # post \<longrightarrow>
      of_slot i (acceptances pre) = of_slot i (deliveries pre)) \<and>
    (state (p_slots p ! i) = Free \<longrightarrow>
      contents (ring (p_slots p ! i)) = [] \<and> pushed (p_slots p ! i) = 0 \<and>
      dropped (p_slots p ! i) = 0 \<and>
      of_slot i (acceptances (log p)) = of_slot i (deliveries (log p)))"
proof -
  note d = pipe_okD [OF reach_ok [OF assms(1)]]
  have "of_slot i (acceptances pre) = of_slot i (deliveries pre)"
    if "log p = pre @ x # post" "x = Registered i \<or> x = Freed i" for x
    using d(3) that by (auto simp: clean_from_append)
  then show ?thesis using d(2) [OF assms(2)] by (auto simp: slot_ok_def)
qed

theorem slot_reuse_clean_witness:
  "contents (ring (p_slots (new_pipeline default_config []) ! 5)) = []"
  using slot_reuse_clean [OF reach_new, of 5 default_config "[]"]
  by (simp add: new_pipeline_def new_slot_def kMaxProducers_def)

text \<open>
  The sink gets every delivered event, in order, and nothing else: the batches written so far
  followed by what is staged are the delivered events; no batch is empty or longer than the staging
  buffer; and the counting sink that took them has counted their bytes and their number.
\<close>

theorem sink_stream:
  assumes "pipe_reach p"
  shows "concat (written p) @ take (staged p) (stage p) = map snd (deliveries (log p)) \<and>
    (\<forall>b \<in> set (written p). b \<noteq> [] \<and> length b \<le> kStageEvents) \<and>
    (list_all (list_all event_ok) (written p) \<longrightarrow>
      cs_bytes (counting.write_all (written p) new_counting_sink) =
        of_nat (kEventBytes * length (concat (written p))) \<and>
      cs_batches (counting.write_all (written p) new_counting_sink) = of_nat (length (written p)))"
  using pipe_okD(5) [OF reach_ok [OF assms]]
    counting.write_all_accounts [of "written p" new_counting_sink]
  by (simp add: stage_ok_def new_counting_sink_def)

theorem sink_stream_witness:
  "concat (written sample_run) @ take (staged sample_run) (stage sample_run) =
    map snd (deliveries (log sample_run))"
  using sink_stream [OF sample_reach] by blast

text \<open>
  C40: The pipeline keeps its shape: 64 slots, each with a consistent ring of the one capacity and a
  high-water mark within it, and a staging buffer of its fixed size, filled no further than that.
  All memory is what the constructor allocated.
\<close>

theorem pipeline_shape:
  assumes "pipe_reach p"
  shows "length (p_slots p) = kMaxProducers \<and>
    list_all (\<lambda>s. spsc_inv (ring s) \<and> capacity (ring s) = kRingCapacity \<and>
      unat (high_water s) \<le> kRingCapacity) (p_slots p) \<and>
    length (stage p) = kStageEvents \<and> staged p \<le> kStageEvents"
  using pipe_okD [OF reach_ok [OF assms]] by (auto simp: list_all_length slot_ok_def stage_ok_def)

theorem pipeline_shape_witness:
  "length (p_slots sample_run) = 64 \<and> length (stage sample_run) = 2048"
  using pipeline_shape [OF sample_reach] by (simp add: pipeline_sizes)

end
