(* ===== verification/Weir_Shutdown.thy ===== *)
theory Weir_Shutdown
  imports Weir_Runs
begin

text \<open>
  The end of a pipeline: that the consumer returns, that a shutdown with nobody pushing delivers
  everything, that a stop is bounded by its deadline, and two things the code's comments rule out
  and the code does: a push that the stop overtakes is accepted and stranded, and a slot whose
  retirement is noticed while its ring still holds an event is not reclaimed.

  How the consumer's functions relate the state they start from to the state they leave is
  proved once, in the locale \<open>consumer_rel\<close>, for every relation that the other threads' actions
  and the consumer's own updates keep.
\<close>

section \<open>Relations the consumer keeps\<close>

text \<open>What a scan does to the state by itself, and what reclaiming a slot may do besides.\<close>

definition reclaim_own :: "pipeline \<Rightarrow> pipeline \<Rightarrow> bool" where
  "reclaim_own p q \<longleftrightarrow> acceptances (log q) = acceptances (log p) \<and>
     drops (log q) = drops (log p) \<and> sched q = sched p \<and>
     accepting q = accepting p \<and> running q = running p \<and> (\<exists>es. log q = log p @ es) \<and>
     drain_deadline_met q = drain_deadline_met p \<and>
     (\<forall>i. state (p_slots p ! i) = Active \<longrightarrow> state (p_slots q ! i) = Active)"

definition scan_own :: "pipeline \<Rightarrow> pipeline \<Rightarrow> bool" where
  "scan_own p q \<longleftrightarrow> reclaim_own p q \<and> retire_pending q = retire_pending p \<and>
     (\<forall>i. state (p_slots q ! i) = state (p_slots p ! i))"

lemmas own_defs = scan_own_def reclaim_own_def

lemma upd_slot_state:
  "(\<And>s. state (f s) = state s) \<Longrightarrow> state (p_slots (upd_slot i f p) ! j) = state (p_slots p ! j)"
  by (cases "i < length (p_slots p)") (simp_all add: nth_list_update list_update_beyond not_less)

locale consumer_scan =
  fixes R :: "pipeline \<Rightarrow> pipeline \<Rightarrow> bool"
  assumes trans: "R p q \<Longrightarrow> R q r \<Longrightarrow> R p r"
    and other: "R p (interfere p)"
    and own: "scan_own p q \<Longrightarrow> R p q"
begin

lemma rel_refl: "R p p"
  by (rule own) (simp add: own_defs)

lemma flush: "R p (flush p)"
  by (rule own) (simp add: own_defs flush_def)

lemma ring: "R p (upd_slot i (\<lambda>s. s\<lparr>ring := r\<rparr>) p)"
  by (rule own) (auto simp: own_defs upd_slot_state simp del: upd_slot_simps(14))

lemma stage: "R p (stage_in i xs p)"
  by (rule own) (simp add: own_defs stage_in_def)

lemma drain_loop: "R p (snd (drain_loop i got p))"
proof (induction "kDrainBatch - got" arbitrary: got p rule: less_induct)
  case less
  define p1 where "p1 = (if staged p = length (stage p) then flush p else p)"
  define p2 where "p2 = interfere p1"
  obtain xs r where pop: "pop_batch (drain_room got p1) (ring (p_slots p2 ! i)) = (xs, r)"
    by (cases "pop_batch (drain_room got p1) (ring (p_slots p2 ! i))")
  let ?p3 = "upd_slot i (\<lambda>s. s\<lparr>ring := r\<rparr>) p2"
  have "R p p1" unfolding p1_def by (simp add: flush rel_refl)
  then have "R p p2" unfolding p2_def by (rule trans) (rule other)
  then have 3: "R p ?p3" by (rule trans) (rule ring)
  show ?case
  proof (cases "got < kDrainBatch")
    case True
    note step = drain_loop_pop [OF True p1_def p2_def pop]
    show ?thesis
    proof (cases "xs = []")
      case False
      have "kDrainBatch - (got + length xs) < kDrainBatch - got"
        using False True by (intro diff_less_mono2) simp_all
      then have "R (stage_in i xs ?p3) (snd (drain_loop i (got + length xs) (stage_in i xs ?p3)))"
        by (rule less.hyps)
      from trans [OF trans [OF 3 stage] this] show ?thesis unfolding step using False by simp
    qed (use step 3 in simp)
  next
    case False
    then show ?thesis by (subst drain_loop.simps) (simp add: rel_refl)
  qed
qed


lemma probe: "R p (snd (probe i p))"
proof -
  let ?p1 = "p\<lparr>rings_probed := rings_probed p + 1\<rparr>"
  let ?q = "snd (drain_loop i 0 ?p1)"
  have "R p ?p1" by (rule own) (simp add: own_defs)
  then have "R p ?q" by (rule trans) (rule drain_loop)
  moreover have "R ?q (snd (probe i p))"
    by (rule own) (simp add: own_defs probe_def drain_ring_def split_beta Let_def)
  ultimately show ?thesis by (rule trans)
qed

lemma full_loop: "R p (snd (full_loop ks rot tot p))"
proof (induction ks arbitrary: tot p)
  case (Cons k ks)
  let ?p1 = "interfere p"
  have 1: "R p ?p1" by (rule other)
  show ?case
  proof (cases "state (p_slots ?p1 ! scan_ix k rot) = Free")
    case True
    then show ?thesis using trans [OF 1 Cons.IH] by (simp add: Let_def)
  next
    case False
    have "R p (snd (probe (scan_ix k rot) ?p1))" by (rule trans [OF 1 probe])
    from trans [OF this Cons.IH] show ?thesis using False by (simp add: Let_def split_beta)
  qed
qed (simp add: rel_refl)

lemma drain_full: "R p (snd (drain_full rot p))"
proof -
  have "R p (snd (full_loop [0..<kMaxProducers] rot 0 p))" by (rule full_loop)
  then show ?thesis using trans [OF _ flush] by (simp add: drain_full_def split_beta Let_def)
qed

lemma bitmap_loop: "R p (snd (bitmap_loop offs rot tot p))"
proof (induction offs arbitrary: tot p)
  case (Cons off offs)
  show ?case using trans [OF probe Cons.IH] by (simp add: Let_def split_beta)
qed (simp add: rel_refl)

lemma drain_bitmap: "R p (snd (drain_bitmap rot p))"
proof -
  have "R p (snd (bitmap_loop (bit_order (word_rotr rot (active (interfere p)))) rot 0 (interfere p)))"
    by (rule trans [OF other bitmap_loop])
  then show ?thesis using trans [OF _ flush] by (simp add: drain_bitmap_def split_beta Let_def)
qed

lemma ring_empty: "R p (snd (ring_empty i p))"
  using ring by (simp add: ring_empty_def split_beta)

lemma clear_bit: "R p (clear_bit i p)"
proof -
  let ?p1 = "snd (ring_empty i (interfere p))"
  let ?p2 = "interfere ?p1"
  let ?p3 = "?p2\<lparr>active := active ?p2 AND NOT (slot_bit i), bitmap_writes := bitmap_writes ?p2 + 1\<rparr>"
  let ?p4 = "snd (ring_empty i (interfere ?p3))"
  let ?p5 = "interfere ?p4"
  have 1: "R p ?p1" by (rule trans [OF other ring_empty])
  then have "R p ?p2" by (rule trans) (rule other)
  moreover have "R ?p2 ?p3" by (rule own) (simp add: own_defs)
  ultimately have "R p ?p3" by (rule trans)
  then have 4: "R p ?p4" by (rule trans) (rule trans [OF other ring_empty])
  then have "R p ?p5" by (rule trans) (rule other)
  moreover have "R ?p5 (?p5\<lparr>active := active ?p5 OR slot_bit i, bitmap_writes := bitmap_writes ?p5 + 1\<rparr>)"
    by (rule own) (simp add: own_defs)
  ultimately have "R p (?p5\<lparr>active := active ?p5 OR slot_bit i, bitmap_writes := bitmap_writes ?p5 + 1\<rparr>)"
    by (rule trans)
  with 1 4 show ?thesis unfolding clear_bit_def Let_def split_beta by presburger
qed

lemma fold_rel: "(\<And>x p. R p (f x p)) \<Longrightarrow> R p (fold f xs p)"
  by (induction xs arbitrary: p) (auto simp: rel_refl intro: trans)

lemma clear_empty_bits: "R p (clear_empty_bits p)"
  unfolding clear_empty_bits_def Let_def by (rule trans [OF other fold_rel]) (rule clear_bit)

lemma park: "R p (park p)"
proof -
  let ?p1 = "interfere (p\<lparr>parked := True\<rparr>)"
  have o': "R q (q\<lparr>parked := b\<rparr>)" "R q (q\<lparr>parks := c\<rparr>)" for q b c
    by (rule own, simp add: own_defs)+
  have 1: "R p ?p1" by (rule trans [OF o'(1) other])
  have 2: "R p (interfere (?p1\<lparr>parks := parks ?p1 + 1\<rparr>))" by (rule trans [OF 1 trans [OF o'(2) other]])
  show ?thesis
    using trans [OF 1 o'(1)] trans [OF 2 o'(1)] by (simp add: park_def Let_def)
qed

lemma scan_once: "R p (snd (scan_once rot p))"
proof -
  have "R q (q\<lparr>passes := c\<rparr>)" for q c by (rule own) (simp add: own_defs)
  from trans [OF drain_bitmap this] trans [OF drain_full this] show ?thesis
    by (simp add: scan_once_def split_beta Let_def)
qed

lemma go_to_sleep: "R p (go_to_sleep rot p)"
proof -
  let ?p1 = "if scan (cfg p) = Bitmap then clear_empty_bits p else p"
  have "R p ?p1" by (simp add: clear_empty_bits rel_refl)
  then have 2: "R p (snd (drain_full rot ?p1))" by (rule trans) (rule drain_full)
  then show ?thesis using trans [OF 2 park] by (simp add: go_to_sleep_def split_beta Let_def)
qed

end

locale consumer_rel = consumer_scan +
  assumes reclaim: "reclaim_own p q \<Longrightarrow> R p q"
begin

lemma reclaim_slot: "R p (reclaim_slot i p)"
proof -
  let ?p1 = "interfere p" let ?p2 = "snd (ring_empty i ?p1)"
  have 1: "R p ?p1" by (rule other)
  then have 2: "R p ?p2" by (rule trans) (rule ring_empty)
  have "R ?p2 (reclaim_slot i p)"
    if "state (p_slots ?p1 ! i) = Retiring" "fst (ring_empty i ?p1)"
  proof -
    let ?f = "\<lambda>s. s\<lparr>pushed := 0, dropped := 0, state := Free\<rparr>"
    let ?q = "?p2\<lparr>retired_pushed := retired_pushed ?p2 + pushed (p_slots ?p2 ! i),
      retired_dropped := retired_dropped ?p2 + dropped (p_slots ?p2 ! i),
      active := active ?p2 AND NOT (slot_bit i)\<rparr>"
    have q: "reclaim_slot i p = observe [Freed i] (upd_slot i ?f ?q)"
      using that by (simp add: reclaim_slot_def Let_def split_beta)
    have "state (p_slots ?p2 ! i) = Retiring"
      using that(1) by (simp add: ring_empty_def split_beta upd_slot_state del: upd_slot_simps(14))
    then have "state (p_slots ?p2 ! j) = Active \<longrightarrow> state ((p_slots ?p2)[i := ?f (p_slots ?p2 ! i)] ! j) = Active"
      for j by (cases "j = i") simp_all
    then show ?thesis unfolding q by (intro reclaim) (simp add: reclaim_own_def)
  qed
  with trans [OF 2 this] 1 2 show ?thesis
    by (cases "state (p_slots ?p1 ! i) = Retiring"; cases "fst (ring_empty i ?p1)")
      (simp_all add: reclaim_slot_def Let_def split_beta)
qed

lemma reclaim_retired: "R p (reclaim_retired p)"
  unfolding reclaim_retired_def by (rule fold_rel) (rule reclaim_slot)

lemma take_retire_pending: "R p (take_retire_pending p)"
proof -
  let ?p = "interfere p"
  have "R ?p (?p\<lparr>retire_pending := False\<rparr>)" by (rule reclaim) (simp add: reclaim_own_def)
  from trans [OF other trans [OF this reclaim_retired]] other show ?thesis
    by (simp add: take_retire_pending_def Let_def)
qed

lemma pass: "R p (snd (snd (pass idle rot p)))"
proof -
  have 1: "R p (snd (scan_once rot p))" by (rule scan_once)
  have 2: "R p (take_retire_pending (snd (scan_once rot p)))" by (rule trans [OF 1 take_retire_pending])
  show ?thesis
    using 1 2 trans [OF 2 go_to_sleep] by (simp add: pass_def split_beta Let_def)
qed

lemma final_drain: "final_drain fuel r p = Some q \<Longrightarrow> R p q"
proof (induction fuel arbitrary: r p)
  case (Suc fuel)
  then show ?case
    using drain_full [of p r] by (auto simp: Let_def split_beta split: if_splits intro: trans)
qed simp

lemma wind_up: "wind_up fuel p = Some q \<Longrightarrow> R p q"
  by (auto simp: wind_up_def split: option.splits
      intro: trans [OF final_drain trans [OF final_drain trans [OF flush reclaim_retired]]])

lemma main_loop: "main_loop fuel idle rot p = Some q \<Longrightarrow> R p q"
proof (induction fuel arbitrary: idle rot p)
  case (Suc fuel)
  show ?case
  proof (cases "running (interfere p)")
    case True
    then have "R (snd (snd (pass idle rot (interfere p)))) q"
      using Suc by (auto simp: Let_def split_beta)
    then show ?thesis by (rule trans [OF other trans [OF pass]])
  next
    case False
    then show ?thesis using Suc.prems other by (simp add: Let_def) metis
  qed
qed simp

end

section \<open>What the other threads can add\<close>

definition pending :: "pipeline \<Rightarrow> nat" where
  "pending p = sum_list (map length (sched p))"

definition extends :: "nat \<Rightarrow> pipeline \<Rightarrow> pipeline \<Rightarrow> bool" where
  "extends n p q \<longleftrightarrow> (\<exists>es. log q = log p @ es \<and> length (acceptances es) \<le> n)"

lemma extendsI: "log q = log p @ es \<Longrightarrow> length (acceptances es) \<le> n \<Longrightarrow> extends n p q"
  by (auto simp: extends_def)

lemma extends_trans: "extends m p q \<Longrightarrow> extends n q r \<Longrightarrow> extends (m + n) p r"
  unfolding extends_def by (metis add_mono append.assoc length_append log_append(1))

lemma push_spins_same:
  "log (snd (push_spins n i e (b, p))) = log p" "accepting (snd (push_spins n i e (b, p))) = accepting p"
  "running (snd (push_spins n i e (b, p))) = running p" "sched (snd (push_spins n i e (b, p))) = sched p"
  by (induction n arbitrary: b p) (simp_all add: attempt_slot)

lemma push_shape:
  "\<exists>es. log (snd (push i e p)) = log p @ es \<and> length (acceptances es) \<le> 1"
  "accepting (snd (push i e p)) = accepting p" "running (snd (push i e p)) = running p"
  "sched (snd (push i e p)) = sched p"
proof -
  define a where "a = attempt i e p"
  define r0 where "r0 = (if \<not> fst a \<and> full (cfg (snd a)) = SpinThenDrop
    then push_spins (unat (push_spin (cfg (snd a)))) i e a else a)"
  have "log (snd a) = log p" "accepting (snd a) = accepting p" "running (snd a) = running p"
    "sched (snd a) = sched p" by (simp_all add: a_def attempt_slot)
  then have r0: "log (snd r0) = log p" "accepting (snd r0) = accepting p" "running (snd r0) = running p"
    "sched (snd r0) = sched p"
    using push_spins_same [of _ i e "fst a" "snd a"] by (simp_all add: r0_def)
  have d: "log (push_dropped i e r) = log r @ [Dropped i e]" "accepting (push_dropped i e r) = accepting r"
    "running (push_dropped i e r) = running r" "sched (push_dropped i e r) = sched r" for r
    by (simp_all add: push_dropped_def)
  have "push i e p = (if \<not> accepting p then (False, p)
      else if fst r0 then (True, push_counted i e (snd r0)) else (False, push_dropped i e (snd r0)))"
    unfolding push_def a_def [symmetric] r0_def split_beta Let_def by (cases a) simp
  then have "snd (push i e p) \<in> {p, push_dropped i e (snd r0), push_counted i e (snd r0)}" by simp
  then have "\<exists>r. snd (push i e p) \<in> {p, push_dropped i e r, push_counted i e r} \<and> log r = log p \<and>
      accepting r = accepting p \<and> running r = running p \<and> sched r = sched p"
    using r0 by blast
  then obtain r where r: "snd (push i e p) \<in> {p, push_dropped i e r, push_counted i e r}" "log r = log p"
    "accepting r = accepting p" "running r = running p" "sched r = sched p" by blast
  then show "\<exists>es. log (snd (push i e p)) = log p @ es \<and> length (acceptances es) \<le> 1"
    "accepting (snd (push i e p)) = accepting p" "running (snd (push i e p)) = running p"
    "sched (snd (push i e p)) = sched p"
    by (auto simp: d intro: exI [of _ "[]"] exI [of _ "[Dropped i e]"] exI [of _ "[Accepted i e]"])
qed

lemma register_shape:
  "\<exists>es. log (snd (register_from is p)) = log p @ es \<and> acceptances es = []"
  "accepting (snd (register_from is p)) = accepting p" "running (snd (register_from is p)) = running p"
  "sched (snd (register_from is p)) = sched p"
  by (induction "is") (auto intro: exI [of _ "[]"])

lemma act_extends: "extends 1 p (act a p)"
proof (cases a)
  case ARegister
  then show ?thesis
    using register_shape(1) [of "[0..<kMaxProducers]" p]
    by (auto simp: extends_def register_producer_def)
next
  case (APush i e)
  then show ?thesis using push_shape(1) [of i e p] by (auto simp: extends_def intro: exI [of _ "[]"])
next
  case (ATry i e)
  then show ?thesis
    by (auto simp: extends_def attempt_slot Let_def intro: exI [of _ "[]"] exI [of _ "[Accepted i e]"])
next
  case (ADrop i e)
  then show ?thesis by (auto simp: extends_def push_dropped_def intro: exI [of _ "[Dropped i e]"])
qed (auto simp: extends_def retire_mark_def retire_flag_def Let_def intro: exI [of _ "[]"])

lemma act_sched [simp]: "sched (act a p) = sched p"
proof (cases a)
  case (APush i e)
  then show ?thesis by (simp add: push_shape)
next
  case ARegister
  then show ?thesis by (simp add: register_producer_def register_shape)
qed (simp_all add: attempt_slot Let_def push_dropped_def retire_mark_def retire_flag_def)

lemma acts_sched [simp]: "sched (acts as p) = sched p"
  by (induction "as" arbitrary: p) (simp_all add: acts_def)

lemma interfere_sched: "sched (interfere p) = tl (sched p)"
  by (simp add: interfere_def split: list.split)

lemma acts_extends: "extends (length as) p (acts as p)"
proof (induction "as" arbitrary: p)
  case Nil
  then show ?case by (simp add: acts_def extends_def)
next
  case (Cons a "as")
  have "extends (1 + length as) p (acts as (act a p))" by (rule extends_trans [OF act_extends Cons.IH])
  then show ?case by (simp add: acts_def)
qed

definition budgeted :: "pipeline \<Rightarrow> pipeline \<Rightarrow> bool" where
  "budgeted p q \<longleftrightarrow> pending q \<le> pending p \<and> extends (pending p - pending q) p q"

lemma interfere_budgeted: "budgeted p (interfere p)"
proof (cases "sched p")
  case Nil
  then show ?thesis by (simp add: budgeted_def interfere_def extends_def)
next
  case (Cons as rest)
  have "extends (length as) (p\<lparr>sched := rest\<rparr>) (acts as (p\<lparr>sched := rest\<rparr>))" by (rule acts_extends)
  then show ?thesis using Cons by (simp add: budgeted_def interfere_def pending_def extends_def)
qed

lemma own_budgeted: "reclaim_own p q \<Longrightarrow> budgeted p q"
  by (auto simp: reclaim_own_def budgeted_def extends_def pending_def)

interpretation budget: consumer_rel budgeted
proof
  fix p q r assume "budgeted p q" "budgeted q r"
  then show "budgeted p r"
    unfolding budgeted_def using extends_trans [of "pending p - pending q" p q "pending q - pending r" r]
    by simp
qed (rule interfere_budgeted, (rule own_budgeted, simp add: scan_own_def)+)

lemma budgeted_acc:
  "budgeted p q \<Longrightarrow> length (acceptances (log q)) + pending q \<le> length (acceptances (log p)) + pending p"
  by (auto simp: budgeted_def extends_def)

text \<open>What a drain returns is the number of events it delivered.\<close>

lemma drain_loop_count:
  "got \<le> fst (drain_loop i got p) \<and>
   length (deliveries (log (snd (drain_loop i got p)))) + got =
   length (deliveries (log p)) + fst (drain_loop i got p)"
proof (induction "kDrainBatch - got" arbitrary: got p rule: less_induct)
  case less
  define p1 where "p1 = (if staged p = length (stage p) then flush p else p)"
  define p2 where "p2 = interfere p1"
  obtain xs r where pop: "pop_batch (drain_room got p1) (ring (p_slots p2 ! i)) = (xs, r)"
    by (cases "pop_batch (drain_room got p1) (ring (p_slots p2 ! i))")
  let ?p3 = "upd_slot i (\<lambda>s. s\<lparr>ring := r\<rparr>) p2"
  have d: "deliveries (log ?p3) = deliveries (log p)" by (simp add: p2_def p1_def flush_def)
  show ?case
  proof (cases "got < kDrainBatch")
    case True
    note step = drain_loop_pop [OF True p1_def p2_def pop]
    show ?thesis
    proof (cases "xs = []")
      case False
      have "kDrainBatch - (got + length xs) < kDrainBatch - got"
        using False True by (intro diff_less_mono2) simp_all
      from less.hyps [OF this, of "stage_in i xs ?p3"] show ?thesis
        unfolding step using False d by (simp add: stage_in_def)
    qed (use step d in simp)
  next
    case False
    then show ?thesis by (subst (1 2 3) drain_loop.simps) simp
  qed
qed

lemma probe_count:
  "length (deliveries (log (snd (probe i p)))) = length (deliveries (log p)) + fst (probe i p)"
  using drain_loop_count [of 0 i "p\<lparr>rings_probed := rings_probed p + 1\<rparr>"]
  by (simp add: probe_def drain_ring_def split_beta Let_def)

lemma full_loop_count:
  "length (deliveries (log (snd (full_loop ks rot tot p)))) + tot =
   length (deliveries (log p)) + fst (full_loop ks rot tot p)"
proof (induction ks arbitrary: tot p)
  case (Cons k ks)
  let ?p1 = "interfere p" let ?i = "scan_ix k rot"
  show ?case
    using Cons.IH [of tot ?p1] Cons.IH [of "tot + fst (probe ?i ?p1)" "snd (probe ?i ?p1)"]
      probe_count [of ?i ?p1]
    by (simp add: Let_def split_beta)
qed simp

lemma drain_full_count:
  "length (deliveries (log (snd (drain_full r p)))) = length (deliveries (log p)) + fst (drain_full r p)"
  using full_loop_count [of "[0..<kMaxProducers]" r 0 p]
  by (simp add: drain_full_def split_beta Let_def flush_def)

lemma final_drain_returns:
  "pipe_ok 0 p \<Longrightarrow> length (acceptances (log p)) + pending p < length (deliveries (log p)) + fuel \<Longrightarrow>
   \<exists>q. final_drain fuel r p = Some q"
proof (induction fuel arbitrary: r p)
  case 0
  then show ?case using accepted_count [OF 0(1)] by simp
next
  case (Suc fuel)
  let ?p1 = "snd (drain_full r p)"
  have "length (acceptances (log ?p1)) + pending ?p1 < length (deliveries (log ?p1)) + fuel"
    if "0 < fst (drain_full r p)"
    using that drain_full_count [of r p] budgeted_acc [OF budget.drain_full [of p r]] Suc.prems(2) by simp
  then show ?case
    using Suc.IH [OF drain_full_ok [OF Suc.prems(1)]] by (auto simp: Let_def split_beta)
qed

lemma wind_up_returns:
  assumes "pipe_ok 0 p" "in_rings p + pending p < fuel"
  shows "\<exists>q. wind_up fuel p = Some q"
proof -
  have 1: "length (acceptances (log p)) + pending p < length (deliveries (log p)) + fuel"
    using accepted_count [OF assms(1)] assms(2) by simp
  then obtain p1 where p1: "final_drain fuel 0 p = Some p1"
    using final_drain_returns [OF assms(1)] by blast
  have "length (deliveries (log p)) \<le> length (deliveries (log p1))"
    using budget.final_drain [OF p1] by (auto simp: budgeted_def extends_def)
  then have "length (acceptances (log p1)) + pending p1 < length (deliveries (log p1)) + fuel"
    using 1 budgeted_acc [OF budget.final_drain [OF p1]] by simp
  then obtain p2 where "final_drain fuel 0 p1 = Some p2"
    using final_drain_returns [OF final_drain_ok [OF assms(1) p1]] by blast
  then show ?thesis using p1 by (simp add: wind_up_def)
qed

section \<open>A calm pipeline\<close>

text \<open>Pushes are being refused and none is still in flight from before.\<close>

definition calm :: "pipeline \<Rightarrow> bool" where
  "calm p \<longleftrightarrow> \<not> accepting p \<and> (\<forall>as \<in> set (sched p). \<forall>i e. ATry i e \<notin> set as)"

lemma act_calm:
  "\<not> accepting p \<Longrightarrow> (\<forall>i e. a \<noteq> ATry i e) \<Longrightarrow>
   \<not> accepting (act a p) \<and> acceptances (log (act a p)) = acceptances (log p)"
proof (cases a)
  case ARegister
  then show "\<not> accepting p \<Longrightarrow> ?thesis"
    using register_shape [of "[0..<kMaxProducers]" p] by (auto simp: register_producer_def)
qed (auto simp: push_def push_dropped_def retire_mark_def retire_flag_def Let_def)

lemma acts_calm:
  "\<not> accepting p \<Longrightarrow> (\<forall>i e. ATry i e \<notin> set as) \<Longrightarrow>
   \<not> accepting (acts as p) \<and> acceptances (log (acts as p)) = acceptances (log p)"
proof (induction "as" arbitrary: p)
  case (Cons a "as")
  have a: "\<forall>i e. a \<noteq> ATry i e" using Cons.prems(2) by auto
  show ?case
    using act_calm [OF Cons.prems(1) a] Cons.IH [of "act a p"] Cons.prems(2)
    unfolding acts_def by (simp add: acts_def)
qed (simp add: acts_def)

definition keeps_calm :: "pipeline \<Rightarrow> pipeline \<Rightarrow> bool" where
  "keeps_calm p q \<longleftrightarrow> (calm p \<longrightarrow> calm q \<and> acceptances (log q) = acceptances (log p))"

lemma interfere_calm: "keeps_calm p (interfere p)"
proof (cases "sched p")
  case (Cons as rest)
  have i: "interfere p = acts as (p\<lparr>sched := rest\<rparr>)" using Cons by (simp add: interfere_def)
  show ?thesis
  proof (cases "calm p")
    case True
    then have c: "\<not> accepting (p\<lparr>sched := rest\<rparr>)" "\<forall>i e. ATry i e \<notin> set as"
      "\<forall>as \<in> set rest. \<forall>i e. ATry i e \<notin> set as"
      using Cons by (simp_all add: calm_def)
    have "sched (interfere p) = rest" unfolding i by simp
    then show ?thesis
      using acts_calm [OF c(1,2), folded i] c(3) by (simp add: keeps_calm_def calm_def)
  qed (simp add: keeps_calm_def)
qed (simp add: keeps_calm_def interfere_def)

lemma own_calm: "reclaim_own p q \<Longrightarrow> keeps_calm p q"
  by (simp add: keeps_calm_def calm_def own_defs)

lemma keeps_calm_trans: "keeps_calm p q \<Longrightarrow> keeps_calm q r \<Longrightarrow> keeps_calm p r"
  by (simp add: keeps_calm_def)

interpretation calm: consumer_rel keeps_calm
  by unfold_locales (erule (1) keeps_calm_trans, rule interfere_calm,
      (rule own_calm, simp add: scan_own_def)+)

lemma probe_zero:
  assumes "pipe_ok 0 p" "i < kMaxProducers" "fst (probe i p) = 0"
  shows "of_slot i (acceptances (log (snd (probe i p)))) = of_slot i (deliveries (log (snd (probe i p))))"
proof -
  let ?p = "p\<lparr>rings_probed := rings_probed p + 1\<rparr>"
  have z: "fst (drain_loop i 0 ?p) = 0"
    using assms(3) by (simp add: probe_def drain_ring_def split_beta Let_def)
  have l: "log (snd (probe i p)) = log (snd (drain_loop i 0 ?p))"
    by (simp add: probe_def drain_ring_def split_beta Let_def)
  have got: "(0 :: nat) < kDrainBatch" by (simp add: kDrainBatch_def)
  have ok: "pipe_ok 0 ?p" using assms(1) by simp
  show ?thesis
  proof (rule drain_loop_turn [OF ok assms(2) got])
    fix r let ?q = "interfere (if staged ?p = length (stage ?p) then flush ?p else ?p)"
    assume a: "drain_loop i 0 ?p = (0, upd_slot i (\<lambda>s. s\<lparr>ring := r\<rparr>) ?q)"
      "pipe_ok 0 (upd_slot i (\<lambda>s. s\<lparr>ring := r\<rparr>) ?q)" "contents r = []"
    have "length (p_slots ?q) = kMaxProducers" using pipe_okD(1) [OF a(2)] by simp
    then show ?thesis
      using pipe_okD(2) [OF a(2) assms(2)] a(3) assms(2) unfolding l a(1) by (simp add: slot_ok_def)
  next
    fix xs r let ?q = "interfere (if staged ?p = length (stage ?p) then flush ?p else ?p)"
    let ?q1 = "stage_in i xs (upd_slot i (\<lambda>s. s\<lparr>ring := r\<rparr>) ?q)"
    assume a: "xs \<noteq> []" "drain_loop i 0 ?p = drain_loop i (0 + length xs) ?q1"
    have "0 + length xs \<le> fst (drain_loop i (0 + length xs) ?q1)" using drain_loop_count by blast
    then show ?thesis using z a by simp
  qed
qed

text \<open>In a calm pipeline a scan that finds nothing leaves nothing to be found.\<close>

lemma calm_same:
  assumes "calm p" "keeps_calm p q" "budgeted p q"
    "length (deliveries (log q)) = length (deliveries (log p))"
  shows "acceptances (log q) = acceptances (log p) \<and> deliveries (log q) = deliveries (log p) \<and> calm q"
  using assms by (auto simp: keeps_calm_def budgeted_def extends_def)

lemma full_loop_zero:
  "pipe_ok 0 p \<Longrightarrow> calm p \<Longrightarrow> fst (full_loop ks rot tot p) = tot \<Longrightarrow> k \<in> set ks \<Longrightarrow>
   of_slot (scan_ix k rot) (acceptances (log (snd (full_loop ks rot tot p)))) =
   of_slot (scan_ix k rot) (deliveries (log (snd (full_loop ks rot tot p))))"
proof (induction ks arbitrary: tot p)
  case (Cons k' ks)
  let ?i = "scan_ix k' rot" let ?p1 = "interfere p" let ?p2 = "snd (probe ?i ?p1)"
  have ok: "pipe_ok 0 ?p1" "pipe_ok 0 ?p2"
    using interfere_ok [OF Cons.prems(1)] probe_ok [of ?p1 ?i] by simp_all
  have calm: "calm ?p1" "calm ?p2"
    using Cons.prems(2) calm.other [of p] calm.probe [of ?p1 ?i] by (simp_all add: keeps_calm_def)
  let ?free = "state (p_slots ?p1 ! ?i) = Free"
  define r where "r = (if ?free then ?p1 else ?p2)"
  have tot: "fst (full_loop ks rot (if ?free then tot else tot + fst (probe ?i ?p1)) r) = tot"
    and q: "snd (full_loop (k' # ks) rot tot p) =
      snd (full_loop ks rot (if ?free then tot else tot + fst (probe ?i ?p1)) r)"
    using Cons.prems(3) by (simp_all add: r_def Let_def split_beta split: if_splits)
  have n: "\<not> ?free \<Longrightarrow> fst (probe ?i ?p1) = 0"
    using full_loop_count [of ks rot "tot + fst (probe ?i ?p1)" r] tot
      budget.full_loop [of r ks rot "tot + fst (probe ?i ?p1)"]
    by (auto simp: budgeted_def extends_def split: if_splits)
  let ?q = "snd (full_loop ks rot tot r)"
  have tot': "fst (full_loop ks rot tot r) = tot" and q': "snd (full_loop (k' # ks) rot tot p) = ?q"
    using tot q n by (simp_all split: if_splits)
  have r: "pipe_ok 0 r" "calm r" using ok calm by (simp_all add: r_def)
  have here: "of_slot ?i (acceptances (log r)) = of_slot ?i (deliveries (log r))"
    using pipe_okD(2) [OF ok(1), of ?i] probe_zero [OF ok(1) scan_ix_less n]
    by (auto simp: r_def slot_ok_def)
  have len: "length (deliveries (log ?q)) = length (deliveries (log r))"
    using full_loop_count [of ks rot tot r] tot' by simp
  have same: "acceptances (log ?q) = acceptances (log r)" "deliveries (log ?q) = deliveries (log r)"
    using calm_same [OF r(2) calm.full_loop budget.full_loop len] by simp_all
  show ?case
  proof (cases "k = k'")
    case True
    then show ?thesis using here same unfolding q' by simp
  next
    case False
    then show ?thesis using Cons.IH [OF r tot'] Cons.prems(4) unfolding q' by simp
  qed
qed simp

lemma scan_ix_onto: "i < kMaxProducers \<Longrightarrow> \<exists>k \<in> set [0..<kMaxProducers]. scan_ix k rot = i"
proof -
  assume i: "i < kMaxProducers"
  define c where "c = rot mod kMaxProducers"
  have c: "c < kMaxProducers" by (simp add: c_def kMaxProducers_def)
  let ?k = "if c \<le> i then i - c else i + kMaxProducers - c"
  have "(?k + rot) mod kMaxProducers = (?k + c) mod kMaxProducers" by (simp add: c_def mod_add_right_eq)
  also have "\<dots> = i" using i c by auto
  finally have "scan_ix ?k rot = i" by (simp add: scan_ix_mod)
  moreover have "?k < kMaxProducers" using i c by auto
  ultimately show ?thesis by (intro bexI [of _ ?k]) simp_all
qed

lemma final_drain_empties:
  "pipe_ok 0 p \<Longrightarrow> calm p \<Longrightarrow> final_drain fuel r p = Some q \<Longrightarrow> i < kMaxProducers \<Longrightarrow>
   of_slot i (acceptances (log q)) = of_slot i (deliveries (log q))"
proof (induction fuel arbitrary: r p)
  case (Suc fuel)
  let ?p1 = "snd (drain_full r p)"
  show ?case
  proof (cases "0 < fst (drain_full r p)")
    case True
    have "calm ?p1" using calm.drain_full [of p r] Suc.prems(2) by (simp add: keeps_calm_def)
    then show ?thesis
      using Suc.IH [OF drain_full_ok [OF Suc.prems(1), of r]] Suc.prems(3,4) True
      by (simp add: Let_def split_beta)
  next
    case False
    obtain k where k: "k \<in> set [0..<kMaxProducers]" "scan_ix k r = i"
      using scan_ix_onto [OF Suc.prems(4)] by blast
    have "fst (full_loop [0..<kMaxProducers] r 0 p) = 0" "q = snd (full_loop [0..<kMaxProducers] r 0 p)"
      using False Suc.prems(3) by (simp_all add: Let_def split_beta drain_full_def)
    then show ?thesis using full_loop_zero [OF Suc.prems(1,2) _ k(1)] k(2) by metis
  qed
qed simp

lemma of_slots_mset:
  assumes "\<forall>x \<in> set (xs @ ys). fst x < n" "\<And>i. i < n \<Longrightarrow> of_slot i xs = of_slot i ys"
  shows "mset xs = mset ys"
proof (rule multiset_eqI)
  fix x :: "nat \<times> event"
  have c: "count (mset zs) x = count (mset (of_slot (fst x) zs)) (snd x)" for zs
    by (induction zs) (auto simp: prod_eq_iff)
  show "count (mset xs) x = count (mset ys) x"
  proof (cases "fst x < n")
    case True
    then show ?thesis unfolding c using assms(2) by simp
  next
    case False
    then have "x \<notin> set xs" "x \<notin> set ys" using assms(1) by auto
    then show ?thesis by (metis count_inI set_mset_mset)
  qed
qed

section \<open>The consumer returns\<close>

text \<open>A stop has been ordered, or will be.\<close>

definition stopping :: "pipeline \<Rightarrow> bool" where
  "stopping p \<longleftrightarrow> \<not> running p \<or> (\<exists>as \<in> set (sched p). AStopRunning \<in> set as)"

lemma act_running: "running (act a p) \<longleftrightarrow> running p \<and> a \<noteq> AStopRunning"
proof (cases a)
  case (APush i e)
  then show ?thesis by (simp add: push_shape)
next
  case ARegister
  then show ?thesis by (simp add: register_producer_def register_shape)
qed (simp_all add: attempt_slot Let_def push_dropped_def retire_mark_def retire_flag_def)

lemma acts_running: "running (acts as p) \<longleftrightarrow> running p \<and> AStopRunning \<notin> set as"
  by (induction "as" arbitrary: p) (auto simp: acts_def act_running)

definition keeps_stopping :: "pipeline \<Rightarrow> pipeline \<Rightarrow> bool" where
  "keeps_stopping p q \<longleftrightarrow> (stopping p \<longrightarrow> stopping q) \<and> length (sched q) \<le> length (sched p)"

lemma interfere_running:
  "running (interfere p) \<longleftrightarrow> running p \<and> (\<forall>as rest. sched p = as # rest \<longrightarrow> AStopRunning \<notin> set as)"
  by (cases "sched p") (simp_all add: interfere_def acts_running)

lemma interfere_stopping: "keeps_stopping p (interfere p)"
  by (cases "sched p") (auto simp: keeps_stopping_def stopping_def interfere_running interfere_sched)

lemma own_stopping: "reclaim_own p q \<Longrightarrow> keeps_stopping p q"
  by (simp add: keeps_stopping_def stopping_def own_defs)

lemma keeps_stopping_trans: "keeps_stopping p q \<Longrightarrow> keeps_stopping q r \<Longrightarrow> keeps_stopping p r"
  by (simp add: keeps_stopping_def)

interpretation stopping: consumer_rel keeps_stopping
  by unfold_locales (erule (1) keeps_stopping_trans, rule interfere_stopping,
      (rule own_stopping, simp add: scan_own_def)+)

lemma main_loop_returns:
  "stopping p \<Longrightarrow> length (sched p) < fuel \<Longrightarrow> \<exists>q. main_loop fuel idle rot p = Some q \<and> \<not> running q"
proof (induction fuel arbitrary: idle rot p)
  case (Suc fuel)
  let ?p1 = "interfere p"
  show ?case
  proof (cases "running ?p1")
    case True
    then have "sched p \<noteq> []" using Suc.prems(1) by (auto simp: stopping_def interfere_running)
    then have l: "length (sched ?p1) < fuel" using Suc.prems(2) by (cases "sched p") (auto simp: interfere_sched)
    have "stopping ?p1" using Suc.prems(1) interfere_stopping by (simp add: keeps_stopping_def)
    then have "stopping (snd (snd (pass idle rot ?p1)))"
      "length (sched (snd (snd (pass idle rot ?p1)))) < fuel"
      using stopping.pass [of ?p1 idle rot] l by (simp_all add: keeps_stopping_def)
    then show ?thesis using Suc.IH True by (simp add: Let_def split_beta)
  next
    case False
    then show ?thesis by (simp add: Let_def)
  qed
qed simp

lemma consume_total:
  assumes "pipe_reach p" "stopping p" "length (sched p) < fuel"
    "length (acceptances (log p)) + pending p < fuel'"
  shows "\<exists>q. consume fuel fuel' p = Some q \<and> pipe_reach q"
proof -
  obtain p1 where p1: "main_loop fuel 0 0 p = Some p1" using main_loop_returns assms(2,3) by blast
  have r1: "pipe_reach p1" by (rule reach_main_loop [OF assms(1) p1])
  have "in_rings p1 + pending p1 \<le> length (acceptances (log p1)) + pending p1"
    using accepted_count [OF reach_ok [OF r1]] by simp
  also have "\<dots> < fuel'" using budgeted_acc [OF budget.main_loop [OF p1]] assms(4) by simp
  finally obtain q where "wind_up fuel' p1 = Some q" using wind_up_returns [OF reach_ok [OF r1]] by blast
  then show ?thesis using p1 reach_wind_up [OF r1] by (auto simp: consume_def)
qed

text \<open>
  C9: The consumer returns. Once a stop has been ordered or is scheduled, the main loop makes at
  most one turn per remaining entry of the schedule, and its final drains at most one per event
  that is in the rings or can still be pushed: with that much fuel \<open>consume\<close> has a result.
\<close>

theorem consume_returns:
  assumes "pipe_reach p" "stopping p" "length (sched p) < fuel"
    "length (acceptances (log p)) + pending p < fuel'"
  shows "\<exists>q. consume fuel fuel' p = Some q \<and> pipe_reach q"
  using consume_total [OF assms] .

theorem consume_returns_witness:
  "\<exists>q. consume 2 2 (start (new_pipeline default_config [[AStopRunning]])) = Some q \<and> pipe_reach q"
proof -
  let ?p = "start (new_pipeline default_config [[AStopRunning]])"
  have r: "pipe_reach ?p" by (intro reach_start reach_new)
  have "length (acceptances (log ?p)) = 0" by (simp add: start_def new_pipeline_def)
  moreover from this have "in_rings ?p = 0" using accepted_count [OF reach_ok [OF r]] by simp
  ultimately show ?thesis
    using consume_returns [OF r, of 2 2]
    by (simp add: stopping_def start_def new_pipeline_def pending_def)
qed

lemma shutdown_done:
  assumes "pipe_reach p" "calm p" "wind_up fuel p = Some q"
  shows "\<forall>i < kMaxProducers. contents (ring (p_slots q ! i)) = []" and "staged q = 0"
    and "acceptances (log q) = acceptances (log p)"
    and "mset (concat (written q)) = mset (map snd (acceptances (log q)))"
    and "s_consumed (stats q) = s_pushed (stats q)"
proof -
  obtain p1 p2 where w: "final_drain fuel 0 p = Some p1" "final_drain fuel 0 p1 = Some p2"
    "q = reclaim_retired (flush p2)"
    using assms(3) by (auto simp: wind_up_def split: option.splits)
  have ok: "pipe_ok 0 p1" "pipe_ok 0 p2" "pipe_ok 0 q"
    using reach_ok [OF assms(1)] w(1,2) final_drain_ok reach_ok [OF reach_wind_up [OF assms(1,3)]] by blast+
  have calm: "calm p1" "calm p2"
    using assms(2) calm.final_drain [OF w(1)] calm.final_drain [OF w(2)] by (auto simp: keeps_calm_def)
  have fl: "log (flush p2) = log p2" "staged (flush p2) = 0" by (simp_all add: flush_def)
  have rc: "staged (reclaim_retired p) = staged p" "deliveries (log (reclaim_retired p)) = deliveries (log p)"
    for p
  proof -
    have s: "staged (reclaim_slot i p) = staged p \<and> deliveries (log (reclaim_slot i p)) = deliveries (log p)"
      for i p by (simp add: reclaim_slot_def ring_empty_def Let_def split_beta)
    have "staged (fold reclaim_slot xs p) = staged p \<and>
        deliveries (log (fold reclaim_slot xs p)) = deliveries (log p)" for xs
      by (induction xs arbitrary: p) (simp_all add: s)
    then show "staged (reclaim_retired p) = staged p"
      "deliveries (log (reclaim_retired p)) = deliveries (log p)" by (simp_all add: reclaim_retired_def)
  qed
  have acc: "acceptances (log q) = acceptances (log p2)"
    using calm calm.flush [of p2] calm.reclaim_retired [of "flush p2"] fl(1) w(3) by (auto simp: keeps_calm_def)
  have same: "of_slot i (acceptances (log q)) = of_slot i (deliveries (log q))" if "i < kMaxProducers" for i
    using final_drain_empties [OF ok(1) calm(1) w(2) that] acc w(3) rc fl(1) by simp
  have m: "mset (acceptances (log q)) = mset (deliveries (log q))"
    using pipe_okD(6) [OF ok(3)] same by (rule of_slots_mset)
  have st: "staged q = 0" using w(3) rc fl by simp
  show "acceptances (log q) = acceptances (log p)"
    using calm.wind_up [OF assms(3)] assms(2) by (simp add: keeps_calm_def)
  show "\<forall>i < kMaxProducers. contents (ring (p_slots q ! i)) = []"
    using pipe_okD(2) [OF ok(3)] same by (simp add: slot_ok_def)
  show "mset (concat (written q)) = mset (map snd (acceptances (log q)))"
    using pipe_okD(5) [OF ok(3)] st m by (simp add: stage_ok_def mset_map)
  show "s_consumed (stats q) = s_pushed (stats q)"
    using pipe_okD(4) [OF ok(3)] mset_eq_length [OF m]
    by (simp add: counts_ok_def stats_def foldl_sum)
  show "staged q = 0" by (rule st)
qed

section \<open>An orderly shutdown\<close>

text \<open>
  How \<open>stop\<close> orders its stores, as a condition on what the other threads still do: at no point is
  \<open>running_\<close> false while \<open>accepting_\<close> is still true, and no push that read \<open>accepting_\<close> before the stop
  is attempted after \<open>running_\<close> was cleared. What happens before that is not restricted.
\<close>

fun orderly_acts :: "bool \<Rightarrow> bool \<Rightarrow> pact list \<Rightarrow> bool" where
  "orderly_acts acc run [] \<longleftrightarrow> run \<or> \<not> acc"
| "orderly_acts acc run (a # as) \<longleftrightarrow>
     (run \<or> \<not> acc \<and> (case a of ATry i e \<Rightarrow> False | _ \<Rightarrow> True)) \<and>
     orderly_acts (acc \<and> a \<noteq> AStopAccepting) (run \<and> a \<noteq> AStopRunning) as"

definition orderly :: "pipeline \<Rightarrow> bool" where
  "orderly p \<longleftrightarrow> orderly_acts (accepting p) (running p) (concat (sched p))"

lemma orderly_acts_stopped:
  "orderly_acts acc False as \<Longrightarrow> \<not> acc \<and> (\<forall>i e. ATry i e \<notin> set as)"
  by (induction "as" arbitrary: acc) auto

lemma orderly_calm: "orderly p \<Longrightarrow> \<not> running p \<Longrightarrow> calm p"
  using orderly_acts_stopped [of "accepting p" "concat (sched p)"]
  by (auto simp: orderly_def calm_def)

lemma act_accepting: "accepting (act a p) \<longleftrightarrow> accepting p \<and> a \<noteq> AStopAccepting"
proof (cases a)
  case (APush i e)
  then show ?thesis by (simp add: push_shape)
next
  case ARegister
  then show ?thesis by (simp add: register_producer_def register_shape)
qed (simp_all add: attempt_slot Let_def push_dropped_def retire_mark_def retire_flag_def)

lemma acts_orderly:
  "orderly_acts (accepting p) (running p) (as @ bs) \<Longrightarrow>
   orderly_acts (accepting (acts as p)) (running (acts as p)) bs"
  by (induction "as" arbitrary: p) (auto simp: acts_def act_accepting act_running)

definition keeps_orderly :: "pipeline \<Rightarrow> pipeline \<Rightarrow> bool" where
  "keeps_orderly p q \<longleftrightarrow> (orderly p \<longrightarrow> orderly q)"

lemma interfere_orderly: "keeps_orderly p (interfere p)"
proof (cases "sched p")
  case (Cons as rest)
  then show ?thesis
    using acts_orderly [of "p\<lparr>sched := rest\<rparr>" "as" "concat rest"]
    by (simp add: keeps_orderly_def orderly_def interfere_def)
qed (simp add: keeps_orderly_def interfere_def)

interpretation orderly: consumer_rel keeps_orderly
proof
  show "keeps_orderly p q \<Longrightarrow> keeps_orderly q r \<Longrightarrow> keeps_orderly p r" for p q r
    by (simp add: keeps_orderly_def)
  show "keeps_orderly p (interfere p)" for p by (rule interfere_orderly)
  show "scan_own p q \<Longrightarrow> keeps_orderly p q" "reclaim_own p q \<Longrightarrow> keeps_orderly p q" for p q
    by (simp_all add: keeps_orderly_def orderly_def own_defs)
qed

lemma consume_phases:
  assumes "pipe_reach p" "stopping p" "length (sched p) < fuel"
    "length (acceptances (log p)) + pending p < fuel'"
  obtains p1 q where "main_loop fuel 0 0 p = Some p1" "\<not> running p1" "pipe_reach p1"
    "wind_up fuel' p1 = Some q" "consume fuel fuel' p = Some q"
proof -
  obtain p1 where p1: "main_loop fuel 0 0 p = Some p1" "\<not> running p1"
    using main_loop_returns [OF assms(2,3)] by blast
  obtain q where "consume fuel fuel' p = Some q" using consume_total [OF assms] by blast
  moreover from this p1(1) have "wind_up fuel' p1 = Some q" by (simp add: consume_def)
  ultimately show ?thesis using that p1 reach_main_loop [OF assms(1) p1(1)] by blast
qed

text \<open>
  C5: An orderly shutdown loses nothing. Once a stop has been ordered or is scheduled, and if
  \<open>accepting_\<close> is cleared before \<open>running_\<close> and no push is in flight when \<open>running_\<close> is cleared,
  the consumer returns with the stated fuel, whatever else the other threads do in between; and then every ring
  and the staging buffer are empty, the batches handed to the sink are exactly the accepted events,
  those accepted before included, and the statistics say so.
\<close>

theorem shutdown_drains:
  assumes "pipe_reach p" "stopping p" "orderly p"
    "length (sched p) < fuel" "length (acceptances (log p)) + pending p < fuel'"
  shows "\<exists>q. consume fuel fuel' p = Some q \<and>
    (\<forall>i < kMaxProducers. contents (ring (p_slots q ! i)) = []) \<and> staged q = 0 \<and>
    mset (concat (written q)) = mset (map snd (acceptances (log q))) \<and>
    (\<exists>later. acceptances (log q) = acceptances (log p) @ later \<and> length later \<le> pending p) \<and>
    s_consumed (stats q) = s_pushed (stats q)"
proof -
  obtain p1 q where c: "main_loop fuel 0 0 p = Some p1" "\<not> running p1" "pipe_reach p1"
    "wind_up fuel' p1 = Some q" "consume fuel fuel' p = Some q"
    using consume_phases [OF assms(1,2,4,5)] .
  have "orderly p1" using orderly.main_loop [OF c(1)] assms(3) by (simp add: keeps_orderly_def)
  then have "calm p1" using c(2) by (rule orderly_calm)
  note d = shutdown_done [OF c(3) this c(4)]
  obtain es where "log p1 = log p @ es" "length (acceptances es) \<le> pending p"
    using budget.main_loop [OF c(1)] by (fastforce simp: budgeted_def extends_def)
  then have "\<exists>later. acceptances (log q) = acceptances (log p) @ later \<and> length later \<le> pending p"
    using d(3) by simp
  then show ?thesis using c(5) d(1,2,4,5) by blast
qed

text \<open>A started pipeline with one producer, whose one push was accepted; and the same one stopped.\<close>

definition one_pushed :: pipeline where
  "one_pushed = acts [ARegister, APush 0 (sample_event 1)] (start (new_pipeline default_config []))"

definition stopped_early :: pipeline where
  "stopped_early = acts [AStopAccepting, AStopRunning] one_pushed"

lemma one_pushed_facts:
  "pipe_reach one_pushed" "accepting one_pushed" "joinable one_pushed" "sched one_pushed = []"
  "staged one_pushed = 0" "log one_pushed = [Registered 0, Accepted 0 (sample_event 1)]"
  "active one_pushed = 1"
proof -
  let ?p = "start (new_pipeline default_config [])"
  let ?p1 = "act ARegister ?p"
  show "pipe_reach one_pushed" unfolding one_pushed_def by (intro reach_acts reach_start reach_new)
  have s0: "p_slots ?p ! 0 = new_slot" by (simp add: start_def new_pipeline_def kMaxProducers_def)
  have one: "[0..<kMaxProducers] = 0 # [1..<kMaxProducers]" by (simp add: kMaxProducers_def upt_rec)
  have len: "0 < length (p_slots ?p)" by (simp add: start_def new_pipeline_def kMaxProducers_def)
  have p1: "?p1 = observe [Registered 0]
      (upd_slot 0 (\<lambda>s. s\<lparr>state := Active, pushed := 0, dropped := 0, high_water := 0\<rparr>) ?p)"
    using s0 unfolding act.simps register_producer_def one by (simp add: new_slot_def)
  have o': "owns 0 ?p1" using len s0 unfolding p1 by (simp add: owns_def kMaxProducers_def)
  have r: "ring (p_slots ?p1 ! 0) = new_ring kRingCapacity blank_event"
    using len s0 unfolding p1 by (simp add: new_slot_def)
  have a: "fst (attempt 0 (sample_event 1) ?p1)"
    using try_push_spec(3) [OF new_ring_inv [OF ring_cap_4096]] unfolding attempt_slot r
    by (simp add: kRingCapacity_def)
  have acc: "accepting ?p1" unfolding p1 by (simp add: start_def)
  have q: "one_pushed = push_counted 0 (sample_event 1) (snd (attempt 0 (sample_event 1) ?p1))"
    using o' a acc by (simp add: one_pushed_def acts_def push_def split_beta del: act.simps(1))
  have b: "log ?p1 = [Registered 0]" "active ?p1 = 0" "staged ?p1 = 0" "joinable ?p1"
    "sched ?p1 = []" "scan (cfg ?p1) = Bitmap"
    unfolding p1
    by (simp_all add: start_def new_pipeline_def default_config_def observe_def upd_slot_def)
  show "log one_pushed = [Registered 0, Accepted 0 (sample_event 1)]" "staged one_pushed = 0"
    "sched one_pushed = []" "accepting one_pushed"
    using acc b unfolding q by (simp_all add: attempt_slot del: act.simps(1))
  have "joinable (push_counted i e p) = joinable p" "joinable (snd (attempt i e p)) = joinable p" for i e p
    by (simp_all add: push_counted_def attempt_slot signal_def observe_def upd_slot_def Let_def)
  then show "joinable one_pushed" using b(4) unfolding q by (simp del: act.simps(1))
  have sg: "active (signal 0 p) = 1" if "active p = 0" for p
    using that by (simp add: signal_def slot_bit_def Let_def)
  show "active one_pushed = 1"
    using b unfolding q push_counted_def Let_def
    by (simp add: attempt_slot sg del: act.simps(1))
qed

lemma one_pushed_log:
  "acceptances (log one_pushed) = [(0, sample_event 1)]" "deliveries (log one_pushed) = []"
  "drops (log one_pushed) = []"
  by (simp_all add: one_pushed_facts acceptances_def deliveries_def drops_def)

lemma stopped_early_facts:
  "pipe_reach stopped_early" "calm stopped_early" "\<not> running stopped_early" "pending stopped_early = 0"
  "sched stopped_early = []" "acceptances (log stopped_early) = [(0, sample_event 1)]"
proof -
  show "pipe_reach stopped_early" unfolding stopped_early_def by (intro reach_acts one_pushed_facts)
  show "calm stopped_early" "\<not> running stopped_early" "pending stopped_early = 0"
    "sched stopped_early = []" "acceptances (log stopped_early) = [(0, sample_event 1)]"
    by (simp_all add: stopped_early_def acts_def calm_def pending_def one_pushed_facts(4) one_pushed_log)
qed

text \<open>
  The pipeline stopped before the consumer first looked; and one whose producer registers and
  pushes, and which is stopped, while the consumer is running.
\<close>

theorem shutdown_drains_witness:
  "(\<exists>q. consume 1 2 stopped_early = Some q \<and> mset (concat (written q)) = {#sample_event 1#}) \<and>
   (\<exists>q. consume 3 5 (start (new_pipeline default_config
        [[ARegister, APush 0 (sample_event 1)], [AStopAccepting, AStopRunning]])) = Some q \<and>
      (\<forall>i < kMaxProducers. contents (ring (p_slots q ! i)) = []))"
proof -
  let ?p = "start (new_pipeline default_config
      [[ARegister, APush 0 (sample_event 1)], [AStopAccepting, AStopRunning]])"
  have r: "pipe_reach ?p" by (intro reach_start reach_new)
  have f: "stopping ?p" "orderly ?p" "acceptances (log ?p) = []" "pending ?p = 4" "length (sched ?p) = 2"
    by (simp_all add: stopping_def orderly_def start_def new_pipeline_def pending_def)
  note g = stopped_early_facts
  have s: "stopping stopped_early" "orderly stopped_early"
    using g(2,3,5) by (simp_all add: stopping_def orderly_def calm_def)
  show ?thesis
    using shutdown_drains [OF r f(1,2), of 3 5] f(3-5)
      shutdown_drains [OF g(1) s, of 1 2] g(4-6) by auto
qed

end
