(* ===== verification/Weir_Stop.thy ===== *)
theory Weir_Stop
  imports Weir_Shutdown
begin

text \<open>
  \<open>stop\<close>, and two behaviours of shutdown and retirement that the comments in event_pipeline.hpp do
  not expect: a push that tested \<open>accepting_\<close> before the stop is accepted after it, into a ring
  nobody will drain; and \<open>consume\<close> forgets a retirement it noticed while the ring was not empty yet,
  so that the slot is not freed until some other producer retires.
\<close>

section \<open>Stop\<close>

lemma stop_poll_ends: "\<exists>x \<in> set polls. fst x \<Longrightarrow> \<exists>q. stop_poll polls p = Some q"
proof (induction polls arbitrary: p)
  case (Cons x polls)
  obtain late w where x: "x = (late, w)" by (cases x)
  show ?case
  proof (cases "late \<or> all_quiesced p")
    case False
    then have "\<exists>x \<in> set polls. fst x" using Cons.prems x by simp
    then show ?thesis using Cons.IH False x by simp
  qed (auto simp: x)
qed simp

text \<open>
  A stop always ends, and within its deadline: once a reading of the clock is past the deadline
  the polling is over, so as soon as the consumer's thread returns the stop has; a second stop does
  nothing; and \<open>drain_completed\<close> says truly whether every ring was seen empty at the end of the polling.
\<close>

theorem stop_bounded:
  assumes "\<exists>x \<in> set polls. fst x" "\<And>q. \<exists>r. join q = Some r \<and> drain_deadline_met r = drain_deadline_met q"
  shows "\<exists>q. stop mode polls join p = Some q \<and> (joinable p \<longrightarrow> \<not> joinable q) \<and>
    stop mode' polls' join' (q\<lparr>joinable := False\<rparr>) = Some (q\<lparr>joinable := False\<rparr>) \<and>
    (joinable p \<and> mode = Drain \<longrightarrow>
      (\<exists>s. stop_poll polls (p\<lparr>accepting := False\<rparr>) = Some s \<and> drain_deadline_met q = all_quiesced s))"
proof -
  obtain s where s: "stop_poll polls (p\<lparr>accepting := False\<rparr>) = Some s"
    using stop_poll_ends [OF assms(1)] by blast
  obtain r1 where r1: "join (s\<lparr>drain_deadline_met := all_quiesced s, running := False\<rparr>) = Some r1"
    "drain_deadline_met r1 = all_quiesced s" using assms(2) by fastforce
  obtain r2 where r2: "join (p\<lparr>accepting := False, running := False\<rparr>) = Some r2" using assms(2) by blast
  show ?thesis
  proof (cases "joinable p")
    case True
    show ?thesis
    proof (cases "mode = Drain")
      case True
      then show ?thesis using s r1 \<open>joinable p\<close> by (simp add: stop_def Let_def)
    next
      case False
      then show ?thesis using r2 \<open>joinable p\<close> by (simp add: stop_def Let_def)
    qed
  qed (simp add: stop_def)
qed

theorem stop_bounded_witness:
  "\<exists>q. stop Drain [(False, id), (True, id)] Some (start (new_pipeline default_config [])) = Some q"
  using stop_bounded [of "[(False, id), (True, id)]" Some] by fastforce

section \<open>Slots under interference\<close>

lemma attempt_state: "state (p_slots (snd (attempt i e p)) ! j) = state (p_slots p ! j)"
  by (simp add: attempt_slot upd_slot_state del: upd_slot_simps)

lemma push_spins_state: "state (p_slots (snd (push_spins n i e (b, p))) ! j) = state (p_slots p ! j)"
proof (induction n arbitrary: b p)
  case (Suc n)
  show ?case
    using Suc.IH [of "fst (attempt i e p)" "snd (attempt i e p)"]
    by (simp add: attempt_state)
qed simp

lemma push_counted_state: "state (p_slots (push_counted i e p) ! j) = state (p_slots p ! j)"
proof -
  define p1 where "p1 = observe [Accepted i e] (upd_slot i (\<lambda>s. s\<lparr>pushed := pushed s + 1\<rparr>) p)"
  have "state (p_slots p1 ! j) = state (p_slots p ! j)"
    by (simp add: p1_def upd_slot_state del: upd_slot_simps)
  moreover have "state (p_slots (push_counted i e p) ! j) = state (p_slots p1 ! j)"
    unfolding push_counted_def p1_def [symmetric] Let_def
    by (simp add: upd_slot_state del: upd_slot_simps(14))
  ultimately show ?thesis by simp
qed

lemma push_state: "state (p_slots (snd (push i e p)) ! j) = state (p_slots p ! j)"
proof -
  define a where "a = attempt i e p"
  have a: "state (p_slots (snd a) ! j) = state (p_slots p ! j)" by (simp add: a_def attempt_state)
  have s: "state (p_slots (snd (push_spins n i e a)) ! j) = state (p_slots p ! j)" for n
    using push_spins_state [of n i e "fst a" "snd a"] a by simp
  have d: "state (p_slots (push_dropped i e q) ! j) = state (p_slots q ! j)" for q
    by (simp add: push_dropped_def upd_slot_state del: upd_slot_simps(14))
  show ?thesis
    unfolding push_def a_def [symmetric] split_beta Let_def
    using a s d push_counted_state by (cases a; cases "fst a") simp_all
qed

lemma register_retiring:
  "state (p_slots p ! i) \<noteq> Free \<Longrightarrow> state (p_slots (snd (register_from js p)) ! i) = state (p_slots p ! i)"
proof (induction js)
  case (Cons j js)
  then show ?case by (cases "i = j") auto
qed simp

lemma act_retiring:
  assumes "state (p_slots p ! i) = Retiring"
  shows "state (p_slots (act a p) ! i) = Retiring"
proof (cases a)
  case ARegister
  then show ?thesis using assms register_retiring by (simp add: register_producer_def)
next
  case (APush j e)
  then show ?thesis using assms push_state by simp
next
  case (ATry j e)
  then show ?thesis using assms attempt_state push_counted_state by (simp add: Let_def split_beta)
next
  case (ADrop j e)
  then show ?thesis
    using assms by (simp add: push_dropped_def upd_slot_state del: upd_slot_simps(14))
next
  case (ARetireMark j)
  then show ?thesis using assms by (cases "i = j") (simp_all add: owns_def retire_mark_def)
qed (use assms in \<open>simp_all add: retire_flag_def Let_def\<close>)

lemma push_pending: "retire_pending (snd (push i e p)) = retire_pending p"
proof -
  have s: "retire_pending (snd (push_spins n i e (b, q))) = retire_pending q" for n b q
    by (induction n arbitrary: b q) (simp_all add: attempt_slot)
  define a where "a = attempt i e p"
  have a: "retire_pending (snd a) = retire_pending p" by (simp add: a_def attempt_slot)
  have d: "retire_pending (push_dropped i e q) = retire_pending q" for q by (simp add: push_dropped_def)
  show ?thesis
    unfolding push_def a_def [symmetric] split_beta Let_def using a s d by (cases a) simp
qed

lemma act_pending:
  assumes "\<forall>j. a \<noteq> ARetireFlag j"
  shows "retire_pending (act a p) = retire_pending p"
proof (cases a)
  case ARegister
  have "retire_pending (snd (register_from js p)) = retire_pending p" for js
    by (induction js) simp_all
  then show ?thesis using ARegister by (simp add: register_producer_def)
qed (use assms in \<open>simp_all add: push_pending attempt_slot Let_def push_dropped_def retire_mark_def\<close>)

section \<open>A retirement noticed too early\<close>

text \<open>Slot \<open>i\<close> is retiring, and nothing will make the consumer look for retired slots.\<close>

definition stuck :: "nat \<Rightarrow> pipeline \<Rightarrow> bool" where
  "stuck i p \<longleftrightarrow> state (p_slots p ! i) = Retiring \<and> \<not> retire_pending p \<and>
     (\<forall>as \<in> set (sched p). \<forall>j. ARetireFlag j \<notin> set as)"

lemma acts_stuck:
  "state (p_slots p ! i) = Retiring \<Longrightarrow> \<not> retire_pending p \<Longrightarrow> (\<forall>j. ARetireFlag j \<notin> set as) \<Longrightarrow>
   state (p_slots (acts as p) ! i) = Retiring \<and> \<not> retire_pending (acts as p)"
proof (induction "as" arbitrary: p)
  case (Cons a "as")
  have a: "\<forall>j. a \<noteq> ARetireFlag j" using Cons.prems(3) by auto
  show ?case
    using Cons.IH [OF act_retiring [OF Cons.prems(1), of a]] act_pending [OF a, of p] Cons.prems(2,3)
    by (simp add: acts_def)
qed (simp add: acts_def)

definition keeps_stuck :: "nat \<Rightarrow> pipeline \<Rightarrow> pipeline \<Rightarrow> bool" where
  "keeps_stuck i p q \<longleftrightarrow> (stuck i p \<longrightarrow> stuck i q)"

lemma interfere_stuck: "keeps_stuck i p (interfere p)"
proof (cases "sched p")
  case (Cons as rest)
  have i: "interfere p = acts as (p\<lparr>sched := rest\<rparr>)" using Cons by (simp add: interfere_def)
  show ?thesis
  proof (cases "stuck i p")
    case True
    then have c: "state (p_slots (p\<lparr>sched := rest\<rparr>) ! i) = Retiring" "\<not> retire_pending (p\<lparr>sched := rest\<rparr>)"
      "\<forall>j. ARetireFlag j \<notin> set as" "\<forall>as \<in> set rest. \<forall>j. ARetireFlag j \<notin> set as"
      using Cons by (simp_all add: stuck_def)
    have "sched (interfere p) = rest" unfolding i by simp
    then show ?thesis
      using acts_stuck [OF c(1-3), folded i] c(4) by (simp add: keeps_stuck_def stuck_def)
  qed (simp add: keeps_stuck_def)
qed (simp add: keeps_stuck_def interfere_def)

lemma own_stuck: "scan_own p q \<Longrightarrow> keeps_stuck i p q"
  by (simp add: keeps_stuck_def stuck_def own_defs)

lemma keeps_stuck_trans: "keeps_stuck i p q \<Longrightarrow> keeps_stuck i q r \<Longrightarrow> keeps_stuck i p r"
  by (simp add: keeps_stuck_def)

interpretation stuck: consumer_scan "keeps_stuck i" for i
  by unfold_locales (erule (1) keeps_stuck_trans, rule interfere_stuck, erule own_stuck)

lemma stuck_pass: "stuck i p \<Longrightarrow> stuck i (snd (snd (pass idle rot p)))"
proof -
  assume s: "stuck i p"
  let ?p1 = "snd (scan_once rot p)" let ?p2 = "take_retire_pending ?p1"
  have 1: "stuck i ?p1" using stuck.scan_once [of i p rot] s by (simp add: keeps_stuck_def)
  then have "stuck i (interfere ?p1)" using stuck.other [of i ?p1] by (simp add: keeps_stuck_def)
  then have 2: "stuck i ?p2" by (simp add: take_retire_pending_def Let_def stuck_def)
  then have "stuck i (go_to_sleep r ?p2)" for r
    using stuck.go_to_sleep [of i ?p2 r] by (simp add: keeps_stuck_def)
  then show ?thesis using 1 2 by (simp add: pass_def split_beta Let_def)
qed

fun passes_run :: "nat \<Rightarrow> u32 \<Rightarrow> nat \<Rightarrow> pipeline \<Rightarrow> pipeline" where
  "passes_run 0 idle rot p = p"
| "passes_run (Suc n) idle rot p =
     (let (idle', rot', q) = pass idle rot (interfere p) in passes_run n idle' rot' q)"

lemma stuck_passes: "stuck i p \<Longrightarrow> stuck i (passes_run n idle rot p)"
proof (induction n arbitrary: idle rot p)
  case (Suc n)
  have "stuck i (interfere p)" using Suc.prems interfere_stuck by (simp add: keeps_stuck_def)
  then show ?case using Suc.IH stuck_pass by (simp add: Let_def split_beta)
qed simp

text \<open>
  One pass of a freshly started pipeline with the default configuration. Its scan finds nothing;
  before it takes \<open>retire_pending_\<close> a producer registers, pushes one event and is gone.
\<close>

definition brief_producer :: "event \<Rightarrow> pact list" where
  "brief_producer e = [ARegister, APush 0 e, ARetireMark 0, ARetireFlag 0]"

definition leaky :: "event \<Rightarrow> pipeline" where
  "leaky e = snd (snd (pass 0 0 (start (new_pipeline default_config [[], brief_producer e]))))"

lemma brief_producer_effect:
  fixes e :: event and p0 :: pipeline
  assumes "p_slots p0 = replicate kMaxProducers new_slot" "accepting p0"
  defines "q \<equiv> acts (brief_producer e) p0"
  shows "state (p_slots q ! 0) = Retiring" "retire_pending q" "contents (ring (p_slots q ! 0)) = [e]"
    "\<And>i. 0 < i \<Longrightarrow> i < kMaxProducers \<Longrightarrow> p_slots q ! i = new_slot" "length (p_slots q) = kMaxProducers"
proof -
  have len: "0 < length (p_slots p0)" "length (p_slots p0) = kMaxProducers" and s0: "p_slots p0 ! 0 = new_slot"
    using assms(1) by (simp_all add: kMaxProducers_def)
  have one: "[0..<kMaxProducers] = 0 # [1..<kMaxProducers]" by (simp add: kMaxProducers_def upt_rec)
  define p1 where "p1 = observe [Registered 0]
      (upd_slot 0 (\<lambda>s. s\<lparr>state := Active, pushed := 0, dropped := 0, high_water := 0\<rparr>) p0)"
  have p1: "act ARegister p0 = p1"
    using s0 unfolding act.simps register_producer_def one p1_def by (simp add: new_slot_def)
  have o': "owns 0 p1" using len s0 unfolding p1_def by (simp add: owns_def kMaxProducers_def)
  have r: "ring (p_slots p1 ! 0) = new_ring kRingCapacity blank_event" and l1: "length (p_slots p1) = kMaxProducers"
    using len s0 unfolding p1_def by (simp_all add: new_slot_def)
  have inv: "spsc_inv (new_ring kRingCapacity blank_event)" by (rule new_ring_inv [OF ring_cap_4096])
  have a: "fst (attempt 0 e p1)"
    using try_push_spec(3) [OF inv] unfolding attempt_slot r by (simp add: kRingCapacity_def)
  have acc: "accepting p1" using assms(2) by (simp add: p1_def)
  define p2 where "p2 = push_counted 0 e (snd (attempt 0 e p1))"
  have p2: "act (APush 0 e) p1 = p2" using o' a acc by (simp add: p2_def push_def split_beta)
  have slots2: "p_slots p2 = (p_slots p1)[0 := counted_slot ((p_slots p1 ! 0)
      \<lparr>ring := snd (try_push e (new_ring kRingCapacity blank_event))\<rparr>)]"
    using len(1) l1 unfolding p2_def
    by (subst push_counted_slots) (simp_all add: attempt_slot r kMaxProducers_def)
  have st2: "state (p_slots p2 ! 0) = Active" "contents (ring (p_slots p2 ! 0)) = [e]"
    "length (p_slots p2) = kMaxProducers"
    using o' l1 a try_push_spec(4) [OF inv, of e] unfolding slots2 attempt_slot r
    by (simp_all add: counted_slot_def owns_def kMaxProducers_def)
  have o2: "owns 0 p2" using st2 by (simp add: owns_def kMaxProducers_def)
  have q: "q = retire_flag 0 (retire_mark 0 p2)"
    using p1 p2 o2 unfolding q_def acts_def brief_producer_def by (simp add: kMaxProducers_def)
  have f: "p_slots (retire_flag 0 p) = p_slots p" "retire_pending (retire_flag 0 p)" for p
    by (simp_all add: retire_flag_def Let_def)
  show "state (p_slots q ! 0) = Retiring" "contents (ring (p_slots q ! 0)) = [e]"
    "length (p_slots q) = kMaxProducers"
    using st2 unfolding q f by (simp_all add: retire_mark_def kMaxProducers_def)
  show "retire_pending q" unfolding q by (rule f)
  show "p_slots q ! i = new_slot" if "0 < i" "i < kMaxProducers" for i
    using that assms(1) unfolding q f by (simp add: retire_mark_def slots2 p1_def)
qed

text \<open>The scan for retired slots passes over one whose ring is not empty.\<close>

definition not_yet :: "event \<Rightarrow> pipeline \<Rightarrow> bool" where
  "not_yet e p \<longleftrightarrow> pipe_ok 0 p \<and> sched p = [] \<and> \<not> retire_pending p \<and>
     state (p_slots p ! 0) = Retiring \<and> contents (ring (p_slots p ! 0)) = [e] \<and>
     (\<forall>i. 0 < i \<and> i < kMaxProducers \<longrightarrow> state (p_slots p ! i) = Free)"

lemma not_yet_reclaim:
  assumes "not_yet e p" "i < kMaxProducers"
  shows "not_yet e (reclaim_slot i p)"
proof -
  note j = assms(1) [unfolded not_yet_def]
  have n: "interfere p = p" using j by (simp add: interfere_def)
  show ?thesis
  proof (cases "i = 0")
    case True
    have ok: "pipe_ok 0 p" using j by blast
    note k = ring_empty_ok [OF ok assms(2)]
    have re: "reclaim_slot i p = snd (ring_empty i p)"
      using j True k(2) by (simp add: reclaim_slot_def Let_def split_beta n)
    have "sched (snd (ring_empty i p)) = []" "\<not> retire_pending (snd (ring_empty i p))"
      "\<And>l. state (p_slots (snd (ring_empty i p)) ! l) = state (p_slots p ! l)"
      using j by (simp_all add: ring_empty_def split_beta upd_slot_state del: upd_slot_simps(14))
    then show ?thesis using j k True unfolding re not_yet_def by simp
  next
    case False
    then have "reclaim_slot i p = p" using j assms(2) by (simp add: reclaim_slot_def Let_def n)
    then show ?thesis using assms(1) by simp
  qed
qed

lemma not_yet_retired: "not_yet e p \<Longrightarrow> not_yet e (reclaim_retired p)"
proof -
  have "not_yet e p \<Longrightarrow> set xs \<subseteq> {..<kMaxProducers} \<Longrightarrow> not_yet e (fold reclaim_slot xs p)" for xs p
    by (induction xs arbitrary: p) (simp_all add: not_yet_reclaim)
  then show "not_yet e p \<Longrightarrow> ?thesis" by (simp add: reclaim_retired_def atLeast0LessThan)
qed

lemma reclaim_retired_keeps:
  assumes "sched p = []"
  shows "cfg (reclaim_retired p) = cfg p" "accepting (reclaim_retired p) = accepting p"
    "running (reclaim_retired p) = running p"
proof -
  have s: "cfg (reclaim_slot i p) = cfg p \<and> accepting (reclaim_slot i p) = accepting p \<and>
    running (reclaim_slot i p) = running p \<and> sched (reclaim_slot i p) = []" if "sched p = []" for i p
    using that by (simp add: reclaim_slot_def ring_empty_def interfere_def Let_def split_beta)
  have "cfg (fold reclaim_slot xs p) = cfg p \<and> accepting (fold reclaim_slot xs p) = accepting p \<and>
    running (fold reclaim_slot xs p) = running p" for xs
    using assms by (induction xs arbitrary: p) (simp_all add: s)
  then show "cfg (reclaim_retired p) = cfg p" "accepting (reclaim_retired p) = accepting p"
    "running (reclaim_retired p) = running p" by (simp_all add: reclaim_retired_def)
qed

lemma leaky_stuck:
  "pipe_reach (leaky e)" "stuck 0 (leaky e)" "sched (leaky e) = []"
  "accepting (leaky e) \<and> running (leaky e)"
  "contents (ring (p_slots (leaky e) ! 0)) = [e]"
proof -
  let ?p = "start (new_pipeline default_config [[], brief_producer e])"
  have rp: "pipe_reach ?p" by (intro reach_start reach_new)
  then show "pipe_reach (leaky e)" unfolding leaky_def by (rule reach_pass)
  define p1 where "p1 = snd (scan_once 0 ?p)"
  have i0: "interfere ?p = ?p\<lparr>sched := [brief_producer e]\<rparr>"
    by (simp add: interfere_def new_pipeline_def start_def acts_def)
  have w: "word_rotr 0 (0 :: u64) = 0" by simp
  have so: "scan_once 0 ?p = (0, ?p\<lparr>sched := [brief_producer e], passes := 1\<rparr>)"
    unfolding scan_once_def drain_bitmap_def Let_def i0
    by (simp add: new_pipeline_def start_def default_config_def bit_order.simps)
  define r where "r = acts (brief_producer e) (?p\<lparr>sched := [], passes := 1\<rparr>)"
  have ir: "interfere (?p\<lparr>sched := [brief_producer e], passes := 1\<rparr>) = r"
    by (simp add: interfere_def r_def new_pipeline_def start_def)
  have e: "state (p_slots r ! 0) = Retiring" "retire_pending r" "contents (ring (p_slots r ! 0)) = [e]"
    "\<And>i. 0 < i \<Longrightarrow> i < kMaxProducers \<Longrightarrow> p_slots r ! i = new_slot" "length (p_slots r) = kMaxProducers"
    unfolding r_def by (rule brief_producer_effect; simp add: new_pipeline_def start_def)+
  have sr: "sched r = []" by (simp add: r_def)
  have "pipe_ok 0 (?p\<lparr>sched := [], passes := 1\<rparr>)" using reach_ok [OF rp] by simp
  then have pipe_ok_r: "pipe_ok 0 r" unfolding r_def by (rule acts_ok)
  have take: "take_retire_pending (?p\<lparr>sched := [brief_producer e], passes := 1\<rparr>) =
      reclaim_retired (r\<lparr>retire_pending := False\<rparr>)"
    using e(2) unfolding take_retire_pending_def Let_def ir by simp
  have "cfg r = default_config" unfolding ir [symmetric] by (simp add: new_pipeline_def start_def)
  moreover have "1 < spin_before_park default_config" by (simp add: default_config_def)
  ultimately have leak: "leaky e = reclaim_retired (r\<lparr>retire_pending := False\<rparr>)"
    unfolding leaky_def pass_def so Let_def by (simp add: take reclaim_retired_keeps sr)
  have "not_yet e (r\<lparr>retire_pending := False\<rparr>)"
    using e sr pipe_ok_r by (simp add: not_yet_def new_slot_def)
  then have "not_yet e (leaky e)" unfolding leak by (rule not_yet_retired)
  then show "stuck 0 (leaky e)" "sched (leaky e) = []" "contents (ring (p_slots (leaky e) ! 0)) = [e]"
    by (simp_all add: not_yet_def stuck_def)
  have "running r" by (simp add: r_def acts_running start_def brief_producer_def)
  moreover have "accepting r"
    by (simp add: r_def acts_def act_accepting start_def brief_producer_def del: act.simps)
  ultimately show "accepting (leaky e) \<and> running (leaky e)"
    unfolding leak using sr by (simp add: reclaim_retired_keeps)
qed

text \<open>
  C26: A slot can be lost to the registry while the pipeline runs: \<open>consume\<close> clears \<open>retire_pending_\<close>
  before it looks at the slots, and passes over one whose ring it finds not empty yet. A started
  pipeline can reach, in one pass, a state in which it is running and accepting, slot 0 is retiring
  with an event in its ring, and no retirement is pending. And from any state in which a slot is
  retiring and none is pending, no number of passes frees the slot, whatever the other
  threads do, as long as no other producer retires.
\<close>

theorem retirement_forgotten:
  "(pipe_reach (leaky e) \<and> running (leaky e) \<and> accepting (leaky e) \<and>
    state (p_slots (leaky e) ! 0) = Retiring \<and> \<not> retire_pending (leaky e) \<and>
    contents (ring (p_slots (leaky e) ! 0)) = [e]) \<and>
   (state (p_slots p ! i) = Retiring \<and> \<not> retire_pending p \<and>
      (\<forall>as \<in> set (sched p). \<forall>j. ARetireFlag j \<notin> set as) \<longrightarrow>
    state (p_slots (passes_run n idle rot p) ! i) = Retiring \<and>
      \<not> retire_pending (passes_run n idle rot p))"
proof -
  note l = leaky_stuck [of e]
  have "stuck i (passes_run n idle rot p)" if "stuck i p" using that by (rule stuck_passes)
  then show ?thesis using l by (auto simp: stuck_def)
qed

text \<open>
  The slot of the forgotten producer stays out of the registry through a thousand passes in which
  another producer registers and pushes.
\<close>

theorem retirement_forgotten_witness:
  "state (p_slots (passes_run 1000 0 0 ((leaky blank_event)\<lparr>sched := [[ARegister], [APush 1 blank_event]]\<rparr>)) ! 0) =
   Retiring"
  using retirement_forgotten [of blank_event
      "(leaky blank_event)\<lparr>sched := [[ARegister], [APush 1 blank_event]]\<rparr>" 0 1000 0 0] by auto

section \<open>A push the stop overtakes\<close>

text \<open>An active slot stays active while nobody retires it.\<close>

definition keeps_active :: "pipeline \<Rightarrow> pipeline \<Rightarrow> bool" where
  "keeps_active p q \<longleftrightarrow> (sched p = [] \<longrightarrow> sched q = [] \<and> accepting q = accepting p \<and>
     drain_deadline_met q = drain_deadline_met p \<and>
     (\<forall>i. state (p_slots p ! i) = Active \<longrightarrow> state (p_slots q ! i) = Active))"

interpretation active: consumer_rel keeps_active
proof
  show "keeps_active p q \<Longrightarrow> keeps_active q r \<Longrightarrow> keeps_active p r" for p q r
    by (simp add: keeps_active_def)
  show "keeps_active p (interfere p)" for p by (simp add: keeps_active_def interfere_def)
  show "scan_own p q \<Longrightarrow> keeps_active p q" "reclaim_own p q \<Longrightarrow> keeps_active p q" for p q
    by (simp_all add: keeps_active_def own_defs)
qed

text \<open>A started pipeline with one producer.\<close>

definition one_producer :: pipeline where
  "one_producer = start (act ARegister (new_pipeline default_config []))"

lemma one_producer_facts:
  "pipe_reach one_producer" "owns 0 one_producer" "sched one_producer = []" "joinable one_producer"
  "acceptances (log one_producer) = []" "all_quiesced one_producer"
proof -
  let ?p = "new_pipeline default_config []"
  have s0: "p_slots ?p ! 0 = new_slot" by (simp add: new_pipeline_def kMaxProducers_def)
  have one: "[0..<kMaxProducers] = 0 # [1..<kMaxProducers]" by (simp add: kMaxProducers_def upt_rec)
  have p1: "act ARegister ?p = observe [Registered 0]
      (upd_slot 0 (\<lambda>s. s\<lparr>state := Active, pushed := 0, dropped := 0, high_water := 0\<rparr>) ?p)"
    using s0 unfolding act.simps register_producer_def one by (simp add: new_slot_def)
  show "pipe_reach one_producer" unfolding one_producer_def by (intro reach_start reach_act reach_new)
  show "owns 0 one_producer" "sched one_producer = []" "joinable one_producer" "acceptances (log one_producer) = []"
    using s0 unfolding one_producer_def p1
    by (simp_all add: start_def owns_def new_pipeline_def kMaxProducers_def)
  have "size_now (ring s) = 0" if "s \<in> set (p_slots one_producer)" for s
  proof -
    let ?f = "\<lambda>s. s\<lparr>state := Active, pushed := 0, dropped := 0, high_water := 0\<rparr>"
    have "set (p_slots one_producer) \<subseteq> insert (?f new_slot) (set (p_slots ?p))"
      using set_update_subset_insert [of "p_slots ?p" 0 "?f new_slot"]
      unfolding one_producer_def p1 by (simp add: start_def s0)
    then have "s = ?f new_slot \<or> s = new_slot" using that by (auto simp: new_pipeline_def)
    then show ?thesis by (auto simp: new_slot_def size_now_def new_ring_def)
  qed
  then show "all_quiesced one_producer" by (simp add: all_quiesced_def list_all_iff)
qed

text \<open>
  C27: The rings can grow after a completed drain. A push that found the pipeline accepting, and was
  overtaken by a whole \<open>stop(Drain)\<close> before its first attempt, is accepted and counted although the
  consumer is gone and \<open>drain_completed\<close> has answered true, while a push that starts then is refused.
\<close>

theorem late_push_stranded:
  "\<exists>q. stop Drain [(False, id)] (consume 1 1) one_producer = Some q \<and> drain_deadline_met q \<and>
     \<not> fst (push 0 e q) \<and> acceptances (log q) = [] \<and>
     acceptances (log (act (ATry 0 e) q)) = [(0, e)] \<and> deliveries (log (act (ATry 0 e) q)) = [] \<and>
     s_pushed (stats (act (ATry 0 e) q)) = 1 \<and> s_consumed (stats (act (ATry 0 e) q)) = 0"
proof -
  note f = one_producer_facts
  let ?s = "one_producer\<lparr>accepting := False, drain_deadline_met := True, running := False\<rparr>"
  have q1: "all_quiesced (one_producer\<lparr>accepting := False\<rparr>)" using f(6) by (simp add: all_quiesced_def)
  have rs: "pipe_reach ?s"
  proof -
    have "pipe_reach (act AStopRunning ((act AStopAccepting one_producer)\<lparr>drain_deadline_met := True\<rparr>))"
      using f(1) by (intro reach_act reach_drained)
    then show ?thesis by simp
  qed
  have st: "stopping ?s" "pending ?s = 0" "acceptances (log ?s) = []" "calm ?s"
    using f by (simp_all add: stopping_def pending_def calm_def)
  then obtain r where r: "consume 1 1 ?s = Some r" "pipe_reach r"
    using consume_total [OF rs, of 1 1] f by auto
  have "interfere ?s = ?s" using f(3) by (simp add: interfere_def)
  then have w: "wind_up 1 ?s = Some r" using r(1) by (simp add: consume_def Let_def)
  have a: "\<not> accepting r" "drain_deadline_met r" "state (p_slots r ! 0) = Active"
    using active.wind_up [OF w] f(2,3) by (simp_all add: keeps_active_def owns_def)
  note d = shutdown_done [OF rs st(4) w]
  let ?q = "r\<lparr>joinable := False\<rparr>"
  have stop: "stop Drain [(False, id)] (consume 1 1) one_producer = Some ?q"
    using f(4) q1 r(1) by (simp add: stop_def Let_def)
  have o': "owns 0 ?q" using a(3) by (simp add: owns_def kMaxProducers_def)
  have rq: "pipe_reach ?q" by (rule reach_joined [OF r(2)])
  have acc: "acceptances (log ?q) = []" using d(3) st(3) by simp
  have del: "deliveries (log ?q) = []" using accepted_count [OF reach_ok [OF rq]] acc by simp
  have ring: "spsc_inv (ring (p_slots ?q ! 0))" "capacity (ring (p_slots ?q ! 0)) = kRingCapacity"
    using pipe_okD(2) [OF reach_ok [OF rq], of 0] by (simp_all add: slot_ok_def kMaxProducers_def)
  have "contents (ring (p_slots ?q ! 0)) = []" using d(1) by (simp add: kMaxProducers_def)
  then have at: "fst (attempt 0 e ?q)"
    using try_push_spec(3) [OF ring(1), of e] ring(2) by (simp add: attempt_slot kRingCapacity_def)
  have q': "act (ATry 0 e) ?q = push_counted 0 e (snd (attempt 0 e ?q))"
    using o' at by (simp add: Let_def split_beta)
  have lg: "acceptances (log (act (ATry 0 e) ?q)) = [(0, e)]" "deliveries (log (act (ATry 0 e) ?q)) = []"
    unfolding q' using acc del by (simp_all add: attempt_slot)
  have "pipe_reach (act (ATry 0 e) ?q)" by (rule reach_act [OF rq])
  from pipeline_counts [OF this] have "s_pushed (stats (act (ATry 0 e) ?q)) = 1"
    "s_consumed (stats (act (ATry 0 e) ?q)) = 0" using lg by simp_all
  moreover have "\<not> fst (push 0 e ?q)" using a(1) by (simp add: push_def)
  ultimately show ?thesis using stop a(2) acc lg by (intro exI [of _ ?q]) simp
qed

end
