(* ===== verification/Weir_Life.thy ===== *)
theory Weir_Life
  imports Weir_Stop
begin

text \<open>
  The end of a pipeline's life (event_pipeline.hpp): its destructor, and what \<open>drain_completed\<close> says
  after a stop.
\<close>

definition destroy_pipe :: "(pipeline \<Rightarrow> pipeline option) \<Rightarrow> pipeline \<Rightarrow> pipeline option" where
  "destroy_pipe join p = stop Abort [] join p"

definition drain_completed :: "pipeline \<Rightarrow> bool" where
  "drain_completed p \<longleftrightarrow> drain_deadline_met p"

lemma stop_joined: "stop mode polls join p = Some q \<Longrightarrow> \<not> joinable q"
  by (auto simp: stop_def Let_def split: if_splits option.splits)

text \<open>After a stop, in either mode, the destructor does nothing.\<close>

theorem destructor_after_stop:
  assumes "stop mode polls join p = Some q"
  shows "destroy_pipe join' q = Some q"
  using stop_joined [OF assms] by (simp add: destroy_pipe_def stop_def)

text \<open>
  The destructor of a running pipeline refuses further pushes and lets the consumer end, and it does
  not claim to have drained anything it did not.
\<close>

theorem destructor_aborts:
  assumes "joinable p" "destroy_pipe join p = Some q"
  shows "\<exists>q0. join (p\<lparr>accepting := False, running := False\<rparr>) = Some q0 \<and> q = q0\<lparr>joinable := False\<rparr> \<and>
    drain_completed q = drain_completed q0"
  using assms by (auto simp: destroy_pipe_def stop_def Let_def drain_completed_def)

text \<open>
  The flag is never reset: a pipeline that was drained, started again and then aborted still reports
  that its drain completed, with an event left in a ring.
\<close>

definition restarted :: "event \<Rightarrow> pipeline option" where
  "restarted e =
     (case stop Drain [(True, id)] Some (start (new_pipeline default_config [])) of
        None \<Rightarrow> None
      | Some p \<Rightarrow>
          (case register_producer (start p) of
             (None, _) \<Rightarrow> None
           | (Some i, p1) \<Rightarrow> stop Abort [] Some (snd (push i e p1))))"

lemma stop_at_once:
  "joinable p \<Longrightarrow> stop Drain [(True, f)] Some p =
     Some (p\<lparr>accepting := False, drain_deadline_met := all_quiesced p, running := False, joinable := False\<rparr>)"
  by (simp add: stop_def Let_def all_quiesced_def)

lemma first_push:
  assumes "accepting p" "p_slots p ! 0 = new_slot\<lparr>state := Active\<rparr>" "0 < length (p_slots p)" "scan (cfg p) = Bitmap"
  obtains p' where "push 0 e p = (True, p')" "\<not> all_quiesced p'" "joinable p' = joinable p"
    "drain_deadline_met p' = drain_deadline_met p"
proof -
  have ok: "try_push e (new_ring kRingCapacity blank_event) = (True, publish 0 e (new_ring kRingCapacity blank_event))"
    by (simp add: try_push_def new_ring_def kRingCapacity_def capacity_def)
  have left: "size_now (publish 0 e (new_ring kRingCapacity blank_event)) \<noteq> 0"
    by (simp add: size_now_def publish_def new_ring_def)
  have bad: "\<not> all_quiesced q" if "p_slots q = (p_slots p)[0 := s]" "state s = Active" "size_now (ring s) \<noteq> 0" for q s
    using that assms(3) by (auto simp: all_quiesced_def list_all_length intro!: exI [of _ 0])
  show thesis
    using assms ok left
    by (intro that [of "snd (push 0 e p)"] bad
        [of _ "new_slot\<lparr>state := Active, ring := publish 0 e (new_ring kRingCapacity blank_event), pushed := 1,
          high_water := 1\<rparr>"])
      (simp_all add: push_def attempt_def push_counted_def signal_def upd_slot_def observe_def new_slot_def
        producer_size_hint_def publish_def new_ring_def Let_def)
qed

theorem drain_flag_outlives_the_drain:
  "\<exists>p. restarted e = Some p \<and> drain_completed p \<and> \<not> all_quiesced p"
proof -
  let ?p = "start (new_pipeline default_config [])"
  have "all_quiesced ?p"
    by (simp add: start_def all_quiesced_def new_pipeline_def new_slot_def list_all_iff)
  then have drained: "stop Drain [(True, id)] Some ?p =
      Some (?p\<lparr>accepting := False, drain_deadline_met := True, running := False, joinable := False\<rparr>)"
    by (subst stop_at_once) (simp_all add: start_def)
  let ?s = "start (?p\<lparr>accepting := False, drain_deadline_met := True, running := False, joinable := False\<rparr>)"
  define p1 where "p1 = observe [Registered 0]
      (upd_slot 0 (\<lambda>s. s\<lparr>state := Active, pushed := 0, dropped := 0, high_water := 0\<rparr>) ?s)"
  have "state (p_slots ?s ! 0) = Free" by (simp add: start_def new_pipeline_def kMaxProducers_def new_slot_def)
  moreover have "[0..<kMaxProducers] = 0 # [1..<kMaxProducers]" by (simp add: kMaxProducers_def upt_rec)
  ultimately have reg: "register_producer ?s = (Some 0, p1)" by (simp add: register_producer_def p1_def)
  have "accepting p1" "p_slots p1 ! 0 = new_slot\<lparr>state := Active\<rparr>" "0 < length (p_slots p1)" "scan (cfg p1) = Bitmap"
    by (simp_all add: p1_def observe_def upd_slot_def start_def new_pipeline_def kMaxProducers_def new_slot_def
        default_config_def)
  then obtain p2 where p2: "push 0 e p1 = (True, p2)" "\<not> all_quiesced p2" "joinable p2 = joinable p1"
    "drain_deadline_met p2 = drain_deadline_met p1" by (rule first_push)
  have "joinable p1" "drain_deadline_met p1" by (simp_all add: p1_def observe_def upd_slot_def start_def)
  moreover have "restarted e = stop Abort [] Some p2"
    by (simp only: restarted_def drained option.case reg prod.case p2(1) snd_conv)
  ultimately show ?thesis
    using p2 by (simp add: stop_def drain_completed_def all_quiesced_def)
qed

end
