(* ===== verification/Weir_Scan.thy ===== *)
theory Weir_Scan
  imports Weir_Shutdown
begin

text \<open>
  The two scans of the consumer against each other: the naive one over all slots, and the bitmap's.
  \<open>bit_order\<close>, the loop over \<open>countr_zero\<close> and \<open>m &= m - 1\<close>, lists the set bits in order, the
  rotation starts it at the right place, and as long as every ring with something in it has its bit
  set the bitmap scan takes the same events in the same order with fewer probes.
\<close>

section \<open>The loop over the bits of a word\<close>

lemma countr_zero_low: "k < countr_zero m \<Longrightarrow> \<not> bit m k"
proof -
  let ?t = "takeWhile (\<lambda>i. \<not> bit m i) [0..<64]"
  assume k: "k < countr_zero m"
  then have l: "k < length ?t" by (simp add: countr_zero_def)
  then have "k < 64" using length_takeWhile_le [of "\<lambda>i. \<not> bit m i" "[0..<64]"] by simp
  then have "?t ! k = k" using l by (simp add: takeWhile_nth)
  moreover have "?t ! k \<in> set ?t" using l by (rule nth_mem)
  ultimately show ?thesis by (auto dest: set_takeWhileD)
qed

lemma clear_lowest:
  fixes m :: u64
  assumes "m \<noteq> 0"
  shows "bit (m AND (m - 1)) k \<longleftrightarrow> bit m k \<and> k \<noteq> countr_zero m"
proof -
  define c where "c = countr_zero m"
  define a where "a = unset_bit c m"
  have c: "c < 64" "bit m c" using bit_order_less [OF assms] by (simp_all add: c_def)
  have low: "\<not> bit m j" if "j < c" for j using countr_zero_low that by (simp add: c_def)
  have ab: "bit a j \<longleftrightarrow> bit m j \<and> j \<noteq> c" for j by (auto simp: a_def bit_unset_bit_iff)
  have 1: "a + push_bit c 1 = m"
    using c by (subst disjunctive_add_eq_or)
      (auto intro!: bit_word_eqI simp: ab bit_simps)
  have 2: "a + mask c = a OR mask c"
    using low by (intro disjunctive_add_eq_or bit_word_eqI) (auto simp: ab bit_simps)
  have "m - 1 = a + mask c" unfolding 1 [symmetric] by (simp add: mask_eq_exp_minus_1 push_bit_eq_mult)
  then have "bit (m - 1) k \<longleftrightarrow> bit a k \<or> k < c \<and> k < 64" using 2 by (auto simp: bit_simps)
  then show ?thesis using low [of k] ab [of k] unfolding c_def [symmetric] by (auto simp: bit_and_iff)
qed

theorem bit_order_filter: "bit_order m = filter (bit m) [0..<64]"
proof (induction m rule: bit_order.induct)
  case (1 m)
  show ?case
  proof (cases "m = 0")
    case True
    then show ?thesis by (simp add: bit_order.simps)
  next
    case False
    let ?c = "countr_zero m" let ?m = "m AND (m - 1)"
    have c: "?c < 64" "bit m ?c" using bit_order_less [OF False] by simp_all
    have split: "[0..<64] = [0..<?c] @ ?c # [Suc ?c..<64]"
      using c(1) by (metis add.commute le0 less_imp_le_nat upt_add_eq_append upt_conv_Cons
          le_add_diff_inverse2 plus_nat.add_0)
    have "filter (bit m) [0..<?c] = []" "filter (bit ?m) [0..<?c] = []"
      using countr_zero_low by (auto simp: filter_empty_conv clear_lowest [OF False])
    moreover have "filter (bit ?m) [Suc ?c..<64] = filter (bit m) [Suc ?c..<64]"
      by (rule filter_cong) (auto simp: clear_lowest [OF False])
    moreover have "\<not> bit ?m ?c" by (simp add: clear_lowest [OF False])
    ultimately have "filter (bit m) [0..<64] = ?c # filter (bit ?m) [0..<64]"
      unfolding split using c(2) by simp
    then show ?thesis using 1 [OF False] False by (subst bit_order.simps) simp
  qed
qed

lemma rotated_order:
  "map (\<lambda>k. scan_ix k rot) (bit_order (word_rotr rot w)) =
   filter (bit w) (map (\<lambda>k. scan_ix k rot) [0..<kMaxProducers])"
proof -
  have "bit (word_rotr rot w) k \<longleftrightarrow> bit w (scan_ix k rot)" if "k < 64" for k
    using that by (simp add: bit_word_rotr_iff scan_ix_mod kMaxProducers_def add.commute)
  then have "filter (bit (word_rotr rot w)) [0..<64] = filter (\<lambda>k. bit w (scan_ix k rot)) [0..<64]"
    by (intro filter_cong) simp_all
  then show ?thesis by (simp add: bit_order_filter filter_map o_def kMaxProducers_def)
qed

section \<open>Scanning without interference\<close>

text \<open>
  Forgetting how many rings were probed, and flushing a full stage, which the next ring probed would
  do anyway.
\<close>

definition set_probes :: "u64 \<Rightarrow> u64 \<Rightarrow> pipeline \<Rightarrow> pipeline" where
  "set_probes a b p = p\<lparr>rings_probed := a, rings_empty := b\<rparr>"

definition flush_full :: "pipeline \<Rightarrow> pipeline" where
  "flush_full p = (if staged p = length (stage p) then flush p else p)"

definition norm_scan :: "pipeline \<Rightarrow> pipeline" where
  "norm_scan p = set_probes 0 0 (flush_full p)"

lemma set_probes_simps [simp]:
  "p_slots (set_probes a b p) = p_slots p" "stage (set_probes a b p) = stage p"
  "staged (set_probes a b p) = staged p" "sched (set_probes a b p) = sched p"
  "rings_probed (set_probes a b p) = a" "rings_empty (set_probes a b p) = b"
  "consumed (set_probes a b p) = consumed p" "log (set_probes a b p) = log p"
  "written (set_probes a b p) = written p"
  "set_probes a b (set_probes c d p) = set_probes a b p"
  "pipe_ok g (set_probes a b p) = pipe_ok g p"
  by (simp_all add: set_probes_def)

lemma set_probes_same: "set_probes (rings_probed p) (rings_empty p) p = p"
  by (simp add: set_probes_def)

lemma set_probes_ops:
  "flush (set_probes a b p) = set_probes a b (flush p)"
  "flush_full (set_probes a b p) = set_probes a b (flush_full p)"
  "upd_slot i f (set_probes a b p) = set_probes a b (upd_slot i f p)"
  "stage_in i xs (set_probes a b p) = set_probes a b (stage_in i xs p)"
  by (simp_all add: set_probes_def flush_def flush_full_def upd_slot_def stage_in_def observe_def)

lemma no_interference: "sched p = [] \<Longrightarrow> interfere p = p"
  by (simp add: interfere_def)

lemma flush_full_simps [simp]:
  "p_slots (flush_full p) = p_slots p" "sched (flush_full p) = sched p" "stage (flush_full p) = stage p"
  "log (flush_full p) = log p" "consumed (flush_full p) = consumed p"
  "rings_probed (flush_full p) = rings_probed p" "rings_empty (flush_full p) = rings_empty p"
  by (simp_all add: flush_full_def flush_def)

lemma flush_full_idem: "flush_full (flush_full p) = flush_full p"
  by (auto simp: flush_full_def flush_def)

lemma drain_turn:
  assumes "sched p = []" "got < kDrainBatch"
    "pop_batch (drain_room got (flush_full p)) (ring (p_slots p ! i)) = (xs, r)"
  shows "drain_loop i got p =
    (if xs = [] then (got, upd_slot i (\<lambda>s. s\<lparr>ring := r\<rparr>) (flush_full p))
     else drain_loop i (got + length xs) (stage_in i xs (upd_slot i (\<lambda>s. s\<lparr>ring := r\<rparr>) (flush_full p))))"
  by (rule drain_loop_pop [OF assms(2) flush_full_def])
    (use assms no_interference [of "flush_full p"] in simp_all)

lemma drain_set_probes:
  "sched p = [] \<Longrightarrow> drain_loop i got (set_probes a b p) =
    (fst (drain_loop i got p), set_probes a b (snd (drain_loop i got p)))"
proof (induction "kDrainBatch - got" arbitrary: got p rule: less_induct)
  case less
  obtain xs r where pop: "pop_batch (drain_room got (flush_full p)) (ring (p_slots p ! i)) = (xs, r)"
    by (cases "pop_batch (drain_room got (flush_full p)) (ring (p_slots p ! i))")
  let ?q = "upd_slot i (\<lambda>s. s\<lparr>ring := r\<rparr>) (flush_full p)"
  show ?case
  proof (cases "got < kDrainBatch")
    case True
    have "drain_room got (flush_full (set_probes a b p)) = drain_room got (flush_full p)"
      by (simp add: set_probes_ops drain_room_def)
    then have pop': "pop_batch (drain_room got (flush_full (set_probes a b p)))
        (ring (p_slots (set_probes a b p) ! i)) = (xs, r)" using pop by simp
    have sch: "sched (set_probes a b p) = []" using less.prems by simp
    note t = drain_turn [OF less.prems True pop] and t' = drain_turn [OF sch True pop']
    show ?thesis
    proof (cases "xs = []")
      case False
      have "kDrainBatch - (got + length xs) < kDrainBatch - got"
        using False True by (intro diff_less_mono2) simp_all
      moreover have "sched (stage_in i xs ?q) = []" using less.prems by (simp add: stage_in_def)
      ultimately show ?thesis using less.hyps t t' False by (simp add: set_probes_ops)
    qed (use t t' in \<open>simp add: set_probes_ops\<close>)
  next
    case False
    then show ?thesis by (subst (1 2 3) drain_loop.simps) simp
  qed
qed

lemma drain_flush_full: "sched p = [] \<Longrightarrow> drain_loop i 0 p = drain_loop i 0 (flush_full p)"
proof -
  assume s: "sched p = []"
  have g: "(0 :: nat) < kDrainBatch" by (simp add: kDrainBatch_def)
  obtain xs r where pop: "pop_batch (drain_room 0 (flush_full p)) (ring (p_slots p ! i)) = (xs, r)"
    by (cases "pop_batch (drain_room 0 (flush_full p)) (ring (p_slots p ! i))")
  show ?thesis
    unfolding drain_turn [OF s g pop]
    by (subst drain_turn [of "flush_full p" 0 i xs r]) (use s g pop in \<open>simp_all add: flush_full_idem\<close>)
qed

lemma probe_norm:
  assumes "sched p = []"
  shows "fst (probe i p) = fst (drain_ring i (norm_scan p))"
    and "set_probes 0 0 (snd (probe i p)) = snd (drain_ring i (norm_scan p))"
    and "rings_probed (snd (probe i p)) = rings_probed p + 1"
    and "sched (snd (probe i p)) = []"
proof -
  let ?a = "rings_probed p + 1" let ?b = "rings_empty p"
  let ?f = "drain_loop i 0 (flush_full p)"
  have s: "sched (flush_full p) = []" using assms by simp
  have d: "drain_loop i 0 (set_probes a b p) = (fst ?f, set_probes a b (snd ?f))" for a b
    using drain_set_probes [OF assms, of i 0 a b] drain_flush_full [OF assms, of i] by simp
  have n: "drain_loop i 0 (norm_scan p) = (fst ?f, set_probes 0 0 (snd ?f))"
    unfolding norm_scan_def using drain_set_probes [OF s] .
  have p: "p\<lparr>rings_probed := ?a\<rparr> = set_probes ?a ?b p" by (simp add: set_probes_def)
  have c: "set_probes a b (p\<lparr>consumed := x\<rparr>) = (set_probes a b p)\<lparr>consumed := x\<rparr>"
    "set_probes 0 0 (p\<lparr>rings_empty := y\<rparr>) = set_probes 0 0 p" for a b x y and p :: pipeline
    by (simp_all add: set_probes_def)
  have pr: "probe i p = (fst ?f, let q = (set_probes ?a ?b (snd ?f))\<lparr>consumed := consumed (snd ?f) + of_nat (fst ?f)\<rparr>
      in if fst ?f = 0 then q\<lparr>rings_empty := rings_empty q + 1\<rparr> else q)"
    unfolding probe_def drain_ring_def Let_def p d by (simp add: split_beta)
  show "fst (probe i p) = fst (drain_ring i (norm_scan p))"
    unfolding pr drain_ring_def n by simp
  show "set_probes 0 0 (snd (probe i p)) = snd (drain_ring i (norm_scan p))"
    unfolding pr drain_ring_def n by (simp add: Let_def c)
  show "rings_probed (snd (probe i p)) = rings_probed p + 1" unfolding pr by (simp add: Let_def)
  have "sched (snd ?f) = []"
    using stopping.drain_loop [of "flush_full p" i 0] s by (simp add: keeps_stopping_def)
  then show "sched (snd (probe i p)) = []" unfolding pr by (simp add: Let_def)
qed

lemma norm_of_set: "norm_scan q = set_probes 0 0 (flush_full (set_probes 0 0 q))"
  by (simp add: norm_scan_def set_probes_ops)

lemma probe_cong:
  assumes "sched p = []" "sched q = []" "norm_scan p = norm_scan q"
  shows "fst (probe i p) = fst (probe i q)" "norm_scan (snd (probe i p)) = norm_scan (snd (probe i q))"
  using probe_norm [OF assms(1)] probe_norm [OF assms(2)] assms(3) norm_of_set by metis+

text \<open>Probing an empty ring changes nothing else.\<close>

lemma pop_empty:
  assumes "spsc_inv r" "contents r = []"
  shows "pop_batch m r = ([], r)"
proof -
  obtain ch h ct t where at: "spsc_at r ch h ct t" using spsc_inv_at [OF assms(1)] by blast
  have "t - h = 0" using contents_at [OF at] assms(2) by (metis length_seg list.size(3))
  then have "h = t" using at by (simp add: spsc_at_def)
  then have "cached_tail r = head r" "tail r = head r" using at by (auto simp: spsc_at_def)
  then show ?thesis by (simp add: pop_batch_def Let_def)
qed

lemma probe_empty:
  assumes "sched p = []" "pipe_ok 0 p" "i < kMaxProducers" "contents (ring (p_slots p ! i)) = []"
  shows "fst (probe i p) = 0" "norm_scan (snd (probe i p)) = norm_scan p"
    "set_probes 0 0 (snd (probe i p)) = norm_scan p"
proof -
  let ?n = "norm_scan p"
  have g: "(0 :: nat) < kDrainBatch" by (simp add: kDrainBatch_def)
  have i: "spsc_inv (ring (p_slots p ! i))" using pipe_okD(2) [OF assms(2,3)] by (simp add: slot_ok_def)
  have n: "p_slots ?n = p_slots p" "sched ?n = []" "flush_full ?n = ?n"
    using assms(1) by (simp_all add: norm_scan_def set_probes_ops flush_full_idem)
  have "drain_loop i 0 ?n = (0, upd_slot i (\<lambda>s. s\<lparr>ring := ring (p_slots p ! i)\<rparr>) ?n)"
    by (subst drain_turn [OF n(2) g, of i "[]" "ring (p_slots p ! i)"])
      (use n pop_empty [OF i assms(4)] in simp_all)
  moreover have "upd_slot i (\<lambda>s. s\<lparr>ring := ring (p_slots p ! i)\<rparr>) ?n = ?n"
    using n(1) by (simp add: upd_slot_def)
  ultimately have "drain_ring i ?n = (0, ?n)" by (simp add: drain_ring_def)
  then show "fst (probe i p) = 0" "norm_scan (snd (probe i p)) = norm_scan p"
    "set_probes 0 0 (snd (probe i p)) = norm_scan p"
    using probe_norm [OF assms(1), of i] norm_of_set [of "snd (probe i p)"] n(3)
    by (simp_all add: norm_scan_def)
qed

text \<open>Without interference a scan leaves the slots' states alone.\<close>

definition keeps_states :: "pipeline \<Rightarrow> pipeline \<Rightarrow> bool" where
  "keeps_states p q \<longleftrightarrow> (sched p = [] \<longrightarrow> sched q = [] \<and>
     (\<forall>j. state (p_slots q ! j) = state (p_slots p ! j)))"

interpretation states: consumer_scan keeps_states
proof
  show "keeps_states p q \<Longrightarrow> keeps_states q r \<Longrightarrow> keeps_states p r" for p q r
    by (simp add: keeps_states_def)
  show "keeps_states p (interfere p)" for p by (simp add: keeps_states_def interfere_def)
  show "scan_own p q \<Longrightarrow> keeps_states p q" for p q by (simp add: keeps_states_def own_defs)
qed

text \<open>Both scans as visits of a list of slots, probing those a guard lets through.\<close>

fun visits :: "(nat \<Rightarrow> bool) \<Rightarrow> nat list \<Rightarrow> nat \<Rightarrow> pipeline \<Rightarrow> nat \<times> pipeline" where
  "visits f [] tot p = (tot, p)"
| "visits f (i # is) tot p =
     (if f i then let (n, q) = probe i p in visits f is (tot + n) q else visits f is tot p)"

lemma probe_state:
  "sched p = [] \<Longrightarrow> state (p_slots (snd (probe i p)) ! j) = state (p_slots p ! j)"
proof -
  have "keeps_states p (snd (probe i p))" by (rule states.probe)
  then show "sched p = [] \<Longrightarrow> ?thesis" by (simp add: keeps_states_def)
qed

lemma probe_slot_other: "sched p = [] \<Longrightarrow> i \<noteq> j \<Longrightarrow> p_slots (snd (probe i p)) ! j = p_slots p ! j"
proof -
  assume s: "sched p = []" and ij: "i \<noteq> j"
  have d: "sched p = [] \<Longrightarrow> p_slots (snd (drain_loop i got p)) ! j = p_slots p ! j" for got p
  proof (induction "kDrainBatch - got" arbitrary: got p rule: less_induct)
    case less
    obtain xs r where pop: "pop_batch (drain_room got (flush_full p)) (ring (p_slots p ! i)) = (xs, r)"
      by (cases "pop_batch (drain_room got (flush_full p)) (ring (p_slots p ! i))")
    let ?q = "upd_slot i (\<lambda>s. s\<lparr>ring := r\<rparr>) (flush_full p)"
    show ?case
    proof (cases "got < kDrainBatch")
      case True
      note t = drain_turn [OF less.prems True pop]
      show ?thesis
      proof (cases "xs = []")
        case False
        have "kDrainBatch - (got + length xs) < kDrainBatch - got"
          using False True by (intro diff_less_mono2) simp_all
        moreover have "sched (stage_in i xs ?q) = []" using less.prems by (simp add: stage_in_def)
        ultimately show ?thesis using less.hyps t False ij by (simp add: stage_in_def)
      qed (use t ij in simp)
    next
      case False
      then show ?thesis by (subst drain_loop.simps) simp
    qed
  qed
  show ?thesis
    using d [of "p\<lparr>rings_probed := rings_probed p + 1\<rparr>" 0] s
    by (simp add: probe_def drain_ring_def split_beta Let_def)
qed

lemma visits_agree:
  "distinct is \<Longrightarrow> set is \<subseteq> {..<kMaxProducers} \<Longrightarrow> sched p = [] \<Longrightarrow> sched q = [] \<Longrightarrow>
   pipe_ok 0 p \<Longrightarrow> pipe_ok 0 q \<Longrightarrow> norm_scan p = norm_scan q \<Longrightarrow>
   (\<forall>i \<in> set is. f i \<noteq> g i \<longrightarrow> contents (ring (p_slots p ! i)) = []) \<Longrightarrow>
   fst (visits f is tot p) = fst (visits g is tot q) \<and>
   norm_scan (snd (visits f is tot p)) = norm_scan (snd (visits g is tot q))"
proof (induction "is" arbitrary: tot p q)
  case (Cons i "is")
  let ?p = "snd (probe i p)" let ?q = "snd (probe i q)"
  have i: "i < kMaxProducers" using Cons.prems(2) by simp
  have ok: "pipe_ok 0 ?p" "pipe_ok 0 ?q" using Cons.prems(5,6) probe_ok i by blast+
  have sch: "sched ?p = []" "sched ?q = []" using probe_norm(4) Cons.prems(3,4) by blast+
  have slots: "p_slots q = p_slots p"
    using arg_cong [OF Cons.prems(7), of p_slots] by (simp add: norm_scan_def)
  have rest: "\<forall>j \<in> set is. f j \<noteq> g j \<longrightarrow> contents (ring (p_slots ?p ! j)) = []"
  proof (intro ballI impI)
    fix j assume j: "j \<in> set is" "f j \<noteq> g j"
    then have "i \<noteq> j" using Cons.prems(1) by auto
    then show "contents (ring (p_slots ?p ! j)) = []"
      using j Cons.prems(8) probe_slot_other [OF Cons.prems(3)] by simp
  qed
  have rest': "\<forall>j \<in> set is. f j \<noteq> g j \<longrightarrow> contents (ring (p_slots p ! j)) = []"
    using Cons.prems(8) by simp
  have d: "distinct is" "set is \<subseteq> {..<kMaxProducers}" using Cons.prems(1,2) by simp_all
  note c = probe_cong [OF Cons.prems(3,4,7), of i]
  consider "f i" "g i" | "f i" "\<not> g i" | "\<not> f i" "g i" | "\<not> f i" "\<not> g i" by blast
  then show ?case
  proof cases
    case 1
    then show ?thesis using Cons.IH [OF d sch ok c(2) rest] c(1) by (simp add: split_beta)
  next
    case 2
    then have e: "contents (ring (p_slots p ! i)) = []" using Cons.prems(8) by simp
    note z = probe_empty [OF Cons.prems(3,5) i e]
    show ?thesis
      using 2 z Cons.IH [OF d sch(1) Cons.prems(4) ok(1) Cons.prems(6) _ rest] Cons.prems(7)
      by (simp add: split_beta)
  next
    case 3
    then have e: "contents (ring (p_slots q ! i)) = []" using Cons.prems(8) slots by simp
    note z = probe_empty [OF Cons.prems(4,6) i e]
    show ?thesis
      using 3 z Cons.IH [OF d Cons.prems(3) sch(2) Cons.prems(5) ok(2) _ rest'] Cons.prems(7)
      by (simp add: split_beta)
  next
    case 4
    then show ?thesis using Cons.IH [OF d Cons.prems(3-7) rest'] by simp
  qed
qed simp

lemma bitmap_visits:
  "bitmap_loop offs rot tot p = visits (\<lambda>_. True) (map (\<lambda>k. scan_ix k rot) offs) tot p"
  by (induction offs arbitrary: tot p) (simp_all add: Let_def split_beta)

lemma visits_filter: "visits (\<lambda>_. True) (filter f is) tot p = visits f is tot p"
  by (induction "is" arbitrary: tot p) (simp_all add: split_beta)

lemma full_visits:
  "sched p = [] \<Longrightarrow> (\<And>j. state (p_slots p ! j) = Free \<longleftrightarrow> free j) \<Longrightarrow>
   full_loop ks rot tot p = visits (\<lambda>i. \<not> free i) (map (\<lambda>k. scan_ix k rot) ks) tot p"
proof (induction ks arbitrary: tot p)
  case (Cons k ks)
  let ?q = "snd (probe (scan_ix k rot) p)"
  have "sched ?q = []" by (rule probe_norm(4) [OF Cons.prems(1)])
  moreover have "state (p_slots ?q ! j) = Free \<longleftrightarrow> free j" for j
    using Cons.prems probe_state by simp
  ultimately show ?case
    using Cons.IH [of ?q] Cons.IH [of p] Cons.prems by (simp add: Let_def split_beta no_interference)
qed simp

lemma visits_probes:
  "sched p = [] \<Longrightarrow>
   rings_probed (snd (visits f is tot p)) = rings_probed p + of_nat (length (filter f is))"
proof (induction "is" arbitrary: tot p)
  case (Cons i "is")
  then show ?case using probe_norm(3,4) [OF Cons.prems, of i] by (simp add: split_beta)
qed simp

lemma scan_order_distinct: "distinct (map (\<lambda>k. scan_ix k rot) [0..<kMaxProducers])"
proof -
  have "x = y" if a: "x < kMaxProducers" "y < kMaxProducers" "scan_ix x rot = scan_ix y rot" for x y
  proof -
    have m: "(x + rot) mod kMaxProducers = (y + rot) mod kMaxProducers"
      using a(3) unfolding scan_ix_mod .
    have "x + rot = y + rot" by (rule mod_eq_within [OF m]) (use a(1,2) in linarith)+
    then show ?thesis by simp
  qed
  then show ?thesis by (auto simp: distinct_map inj_on_def)
qed

text \<open>With nobody pushing, a probe that returns nothing found its ring empty.\<close>

lemma probe_nothing:
  assumes "sched p = []" "pipe_ok 0 p" "i < kMaxProducers" "fst (probe i p) = 0"
  shows "contents (ring (p_slots p ! i)) = []"
proof -
  let ?q = "snd (probe i p)"
  have "sched ?q = []" by (rule probe_norm(4) [OF assms(1)])
  then obtain es where es: "log ?q = log p @ es" "acceptances es = []"
    using budget.probe [of p i] assms(1) by (auto simp: budgeted_def extends_def pending_def)
  then have "deliveries es = []" using probe_count [of i p] assms(4) by simp
  then have "of_slot i (acceptances (log p)) = of_slot i (deliveries (log p))"
    using probe_zero [OF assms(2-4)] es by simp
  then show ?thesis using pipe_okD(2) [OF assms(2,3)] by (simp add: slot_ok_def)
qed

text \<open>With room in the staging buffer, visits that find nothing change nothing but the probe counters.\<close>

lemma visits_zero:
  "sched p = [] \<Longrightarrow> pipe_ok 0 p \<Longrightarrow> set is \<subseteq> {..<kMaxProducers} \<Longrightarrow> staged p < length (stage p) \<Longrightarrow>
   fst (visits f is tot p) = tot \<Longrightarrow> set_probes 0 0 (snd (visits f is tot p)) = set_probes 0 0 p"
proof (induction "is" arbitrary: tot p)
  case (Cons i "is")
  have le: "tot \<le> fst (visits f is tot p)" for tot p
    by (induction "is" arbitrary: tot p) (auto simp: split_beta intro: order_trans [OF le_add1])
  show ?case
  proof (cases "f i")
    case True
    let ?q = "snd (probe i p)"
    have n: "fst (probe i p) = 0"
      using Cons.prems(5) le [of "tot + fst (probe i p)" ?q] True by (simp add: split_beta)
    have i: "i < kMaxProducers" using Cons.prems(3) by simp
    have e: "contents (ring (p_slots p ! i)) = []"
      by (rule probe_nothing [OF Cons.prems(1,2) i n])
    have q: "set_probes 0 0 ?q = set_probes 0 0 p"
      using probe_empty(3) [OF Cons.prems(1,2) i e] Cons.prems(4)
      by (simp add: norm_scan_def flush_full_def)
    have "stage ?q = stage p" "staged ?q = staged p"
      using arg_cong [OF q, of stage] arg_cong [OF q, of staged] by simp_all
    then show ?thesis
      using Cons.IH [of ?q tot] Cons.prems n True q probe_ok [OF Cons.prems(2) i] probe_norm(4) [OF Cons.prems(1)]
      by (simp add: split_beta)
  qed (use Cons in simp)
qed simp

text \<open>
  C23: The bitmap scan is the full scan. With nothing going on meanwhile, every non-empty ring's bit
  set and room in the staging buffer, both take the same number of events and leave the same pipeline
  - the rings with their cached indices, the staging buffer, what was handed to the sink and delivered, the bitmap,
  the counters - except for the counts of rings probed and found empty, from any starting point of the
  rotation; the bitmap scan has probed one ring per set bit, and the full scan one per slot in use.
\<close>

theorem bitmap_matches_full_scan:
  assumes "pipe_reach p" "sched p = []" "staged p < length (stage p)"
    "\<forall>i < kMaxProducers. contents (ring (p_slots p ! i)) \<noteq> [] \<longrightarrow> bit (active p) i"
  shows "let (n, q) = drain_bitmap rot p; (m, r) = drain_full rot p in
    n = m \<and>
    q\<lparr>rings_probed := 0, rings_empty := 0\<rparr> = r\<lparr>rings_probed := 0, rings_empty := 0\<rparr> \<and>
    rings_probed q = rings_probed p + of_nat (length (filter (bit (active p)) [0..<kMaxProducers])) \<and>
    rings_probed r = rings_probed p +
      of_nat (length (filter (\<lambda>i. state (p_slots p ! i) \<noteq> Free) [0..<kMaxProducers]))"
proof -
  define ids where "ids = map (\<lambda>k. scan_ix k rot) [0..<kMaxProducers]"
  define f where "f = bit (active p)"
  define g where "g = (\<lambda>i. state (p_slots p ! i) \<noteq> Free)"
  have ok: "pipe_ok 0 p" using assms(1) by (rule reach_ok)
  have d: "distinct ids" unfolding ids_def by (rule scan_order_distinct)
  have set_ids: "set ids = {..<kMaxProducers}"
    using scan_ix_onto [of _ rot] by (force simp: ids_def)
  have perm: "length (filter h ids) = length (filter h [0..<kMaxProducers])" for h
    using d set_ids by (metis atLeast0LessThan atLeastLessThan_upt distinct_filter distinct_card
        distinct_upt set_filter)
  let ?b = "visits f ids 0 p" and ?f = "visits g ids 0 p"
  have b: "drain_bitmap rot p = (fst ?b, if fst ?b > 0 then flush (snd ?b) else snd ?b)"
    unfolding drain_bitmap_def Let_def no_interference [OF assms(2)] bitmap_visits rotated_order
      visits_filter ids_def [symmetric] f_def [symmetric] by (simp add: split_beta)
  have fl: "full_loop [0..<kMaxProducers] rot 0 p = ?f"
    unfolding ids_def g_def by (rule full_visits [OF assms(2)]) simp
  have fu: "drain_full rot p = (fst ?f, if fst ?f > 0 then flush (snd ?f) else snd ?f)"
    unfolding drain_full_def fl by (simp add: split_beta Let_def)
  have e: "f i \<noteq> g i \<longrightarrow> contents (ring (p_slots p ! i)) = []" if "i < kMaxProducers" for i
    using that assms(4) pipe_okD(2) [OF ok that] by (auto simp: f_def g_def slot_ok_def)
  then have "\<forall>i \<in> set ids. f i \<noteq> g i \<longrightarrow> contents (ring (p_slots p ! i)) = []"
    unfolding set_ids by simp
  with visits_agree [OF d _ assms(2) assms(2) ok ok refl this, of 0] set_ids
  have a: "fst ?b = fst ?f" "norm_scan (snd ?b) = norm_scan (snd ?f)" by simp_all
  have fn: "set_probes 0 0 (flush q) = flush (norm_scan q)" for q
    by (auto simp: norm_scan_def set_probes_def flush_full_def flush_def)
  have z: "set_probes 0 0 (snd (visits h ids 0 p)) = set_probes 0 0 p" if "fst (visits h ids 0 p) = 0" for h
    by (rule visits_zero [OF assms(2) ok _ assms(3) that]) (simp add: set_ids)
  have same: "set_probes 0 0 (if fst ?b > 0 then flush (snd ?b) else snd ?b) =
      set_probes 0 0 (if fst ?f > 0 then flush (snd ?f) else snd ?f)"
    using a fn z [of f] z [of g] by simp
  have fp: "rings_probed (flush q) = rings_probed q" for q by (simp add: flush_def)
  show ?thesis
    unfolding b fu using same a(1) fp visits_probes [OF assms(2), of f ids 0] visits_probes [OF assms(2), of g ids 0]
    by (simp add: perm f_def g_def flip: set_probes_def)
qed

text \<open>One event waits in the ring of slot 0: both scans take it, starting from slot 7.\<close>

theorem bitmap_matches_full_scan_witness:
  "fst (drain_bitmap 7 stopped_early) = 1 \<and> fst (drain_full 7 stopped_early) = 1 \<and>
   written (snd (drain_bitmap 7 stopped_early)) = written (snd (drain_full 7 stopped_early))"
proof -
  let ?p = stopped_early and ?r = "snd (drain_full 7 stopped_early)"
  note f = stopped_early_facts
  have st: "staged ?p = 0" "active ?p = 1" "deliveries (log ?p) = []"
    by (simp_all add: stopped_early_def acts_def one_pushed_facts(5,7) one_pushed_log)
  have ok: "pipe_ok 0 ?p" by (rule reach_ok [OF f(1)])
  have "contents (ring (p_slots ?p ! i)) = []" if "i < kMaxProducers" "i \<noteq> 0" for i
    using pipe_okD(2) [OF ok that(1)] f(6) that(2) by (simp add: slot_ok_def)
  then have bits: "\<forall>i < kMaxProducers. contents (ring (p_slots ?p ! i)) \<noteq> [] \<longrightarrow> bit (active ?p) i"
    unfolding st(2) by (auto simp: bit_1_iff)
  have room: "staged ?p < length (stage ?p)"
    using pipe_okD(5) [OF ok] st(1) by (simp add: stage_ok_def kStageEvents_def)
  have acc: "acceptances (log ?r) = [(0, sample_event 1)]"
    using calm.drain_full [of ?p 7] f(2,6) by (simp add: keeps_calm_def)
  have del: "length (deliveries (log ?r)) = fst (drain_full 7 ?p)"
    using drain_full_count [of 7 ?p] st(3) by simp
  have rok: "pipe_ok 0 ?r" by (rule drain_full_ok [OF ok])
  have "0 < fst (drain_full 7 ?p)"
  proof (rule ccontr)
    assume n: "\<not> 0 < fst (drain_full 7 ?p)"
    then have "final_drain 1 7 ?p = Some ?r" by (simp add: split_beta Let_def)
    then have "of_slot 0 (acceptances (log ?r)) = of_slot 0 (deliveries (log ?r))"
      by (rule final_drain_empties [OF ok f(2)]) (simp add: kMaxProducers_def)
    then show False using acc del n by simp
  qed
  moreover have "fst (drain_full 7 ?p) \<le> 1" using accepted_count [OF rok] acc del by simp
  ultimately have one: "fst (drain_full 7 ?p) = 1" by simp
  have t: "fst (drain_bitmap 7 ?p) = fst (drain_full 7 ?p)"
    "(snd (drain_bitmap 7 ?p))\<lparr>rings_probed := 0, rings_empty := 0\<rparr> =
      ?r\<lparr>rings_probed := 0, rings_empty := 0\<rparr>"
    using bitmap_matches_full_scan [OF f(1,5) room bits, of 7] by (simp_all add: split_beta Let_def)
  have "written (snd (drain_bitmap 7 ?p)) = written ?r" using arg_cong [OF t(2), of written] by simp
  then show ?thesis using one t(1) by simp
qed

end
