(* ===== verification/Weir_Wakeup.thy ===== *)
theory Weir_Wakeup
  imports Weir_Pipeline
begin

text \<open>
  The wake-up handshakes of event_pipeline.hpp under the memory model of x86: each producer has a
  store buffer, and only fences and read-modify-writes wait for it. Two Dekker pairs are involved:
  \<open>signal\<close> against \<open>clear_empty_bits\<close>, over a ring's tail and its bit, and \<open>signal\<close> against \<open>park\<close>,
  over the bitmap and \<open>parked_\<close>. One step is one access to shared memory of a producer or of the
  consumer, or a store buffer giving up its oldest store.

  What is buffered is the ring's tail; a ring's contents matter here only as the difference of its
  tail and its head. \<open>fenced\<close> says whether \<open>signal\<close> has its fence.
\<close>

section \<open>The machine\<close>

text \<open>Where a producer is: in \<open>push\<close> after the publication, and in \<open>signal\<close>.\<close>

datatype ppc =
    PIdle
  | PFence      \<comment> \<open>about to fence\<close>
  | PLoad       \<comment> \<open>about to load the bitmap\<close>
  | POr         \<comment> \<open>about to \<open>fetch_or\<close> its bit\<close>
  | PParked     \<comment> \<open>took the bitmap from zero: about to load \<open>parked_\<close>\<close>
  | PNotify     \<comment> \<open>about to lock \<open>park_mu_\<close> and notify\<close>

datatype cpc =
    CRun
  | CEmpty nat      \<comment> \<open>\<open>clear_empty_bits\<close>: about to look whether the ring is empty\<close>
  | CClear nat      \<comment> \<open>about to clear the bit\<close>
  | CRecheck nat    \<comment> \<open>about to look again\<close>
  | CSet nat        \<comment> \<open>about to set the bit again\<close>
  | CLook           \<comment> \<open>\<open>park\<close>, holding \<open>park_mu_\<close>, \<open>parked_\<close> set: about to load the bitmap\<close>
  | CWait           \<comment> \<open>waiting on the condition variable\<close>

record wk =
  wk_tail :: "nat \<Rightarrow> nat"        \<comment> \<open>each ring's tail in memory\<close>
  wk_buf :: "nat \<Rightarrow> nat list"   \<comment> \<open>each producer's buffered stores of its tail, oldest first\<close>
  wk_head :: "nat \<Rightarrow> nat"
  wk_active :: u64
  wk_parked :: bool
  wk_notified :: bool
  wk_ppc :: "nat \<Rightarrow> ppc"
  wk_cpc :: cpc

definition wk_init :: wk where
  "wk_init = \<lparr>wk_tail = (\<lambda>_. 0), wk_buf = (\<lambda>_. []), wk_head = (\<lambda>_. 0), wk_active = 0,
     wk_parked = False, wk_notified = False, wk_ppc = (\<lambda>_. PIdle), wk_cpc = CRun\<rparr>"

text \<open>The producer's own view of its tail: its newest buffered store, or memory.\<close>

definition own_tail :: "nat \<Rightarrow> wk \<Rightarrow> nat" where
  "own_tail i s = (if wk_buf s i = [] then wk_tail s i else last (wk_buf s i))"

definition goto :: "nat \<Rightarrow> ppc \<Rightarrow> wk \<Rightarrow> wk" where
  "goto i c s = s\<lparr>wk_ppc := (wk_ppc s)(i := c)\<rparr>"

definition producer_access :: "bool \<Rightarrow> nat \<Rightarrow> wk \<Rightarrow> wk" where
  "producer_access fenced i s =
     (case wk_ppc s i of
        PIdle \<Rightarrow> goto i PFence (s\<lparr>wk_buf := (wk_buf s)(i := wk_buf s i @ [own_tail i s + 1])\<rparr>)
      | PFence \<Rightarrow> if fenced \<and> wk_buf s i \<noteq> [] then s else goto i PLoad s
      | PLoad \<Rightarrow> if wk_active s AND slot_bit i \<noteq> 0 then goto i PIdle s else goto i POr s
      | POr \<Rightarrow>
          if wk_buf s i \<noteq> [] then s
          else goto i (if wk_active s = 0 then PParked else PIdle) (s\<lparr>wk_active := wk_active s OR slot_bit i\<rparr>)
      | PParked \<Rightarrow> goto i (if wk_parked s then PNotify else PIdle) s
      | PNotify \<Rightarrow> if wk_cpc s = CLook then s else goto i PIdle (s\<lparr>wk_notified := True\<rparr>))"

definition buffer_drain :: "nat \<Rightarrow> wk \<Rightarrow> wk" where
  "buffer_drain i s =
     (case wk_buf s i of [] \<Rightarrow> s
      | t # ts \<Rightarrow> s\<lparr>wk_tail := (wk_tail s)(i := t), wk_buf := (wk_buf s)(i := ts)\<rparr>)"

text \<open>
  What the consumer does next. While it runs it may probe a ring whose bit is set and drain it,
  begin to clear a set bit, or park; \<open>retiring\<close> is whether it finds the slot retiring. The scan of
  all rings before parking is left out: it is the defence for the case this handshake failed.
\<close>

datatype cact = Probe nat | BeginClear nat | BeginPark | Next bool

fun consumer_access :: "cact \<Rightarrow> wk \<Rightarrow> wk" where
  "consumer_access (Probe i) s =
     (if wk_cpc s = CRun \<and> wk_active s AND slot_bit i \<noteq> 0
      then s\<lparr>wk_head := (wk_head s)(i := wk_tail s i)\<rparr> else s)"
| "consumer_access (BeginClear i) s =
     (if wk_cpc s = CRun \<and> wk_active s AND slot_bit i \<noteq> 0 then s\<lparr>wk_cpc := CEmpty i\<rparr> else s)"
| "consumer_access BeginPark s =
     (if wk_cpc s = CRun then s\<lparr>wk_parked := True, wk_cpc := CLook\<rparr> else s)"
| "consumer_access (Next retiring) s =
     (case wk_cpc s of
        CRun \<Rightarrow> s
      | CEmpty i \<Rightarrow> s\<lparr>wk_cpc := if wk_head s i = wk_tail s i then CClear i else CRun\<rparr>
      | CClear i \<Rightarrow> s\<lparr>wk_active := wk_active s AND NOT (slot_bit i), wk_cpc := CRecheck i\<rparr>
      | CRecheck i \<Rightarrow> s\<lparr>wk_cpc := if wk_head s i \<noteq> wk_tail s i \<or> retiring then CSet i else CRun\<rparr>
      | CSet i \<Rightarrow> s\<lparr>wk_active := wk_active s OR slot_bit i, wk_cpc := CRun\<rparr>
      | CLook \<Rightarrow>
          if wk_active s = 0 then s\<lparr>wk_notified := False, wk_cpc := CWait\<rparr>
          else s\<lparr>wk_parked := False, wk_cpc := CRun\<rparr>
      | CWait \<Rightarrow> if wk_notified s then s\<lparr>wk_parked := False, wk_cpc := CRun\<rparr> else s)"

datatype wact = Producer nat | Store nat | Consumer cact

fun wk_step :: "bool \<Rightarrow> wact \<Rightarrow> wk \<Rightarrow> wk" where
  "wk_step fenced (Producer i) s = (if i < kMaxProducers then producer_access fenced i s else s)"
| "wk_step fenced (Store i) s = (if i < kMaxProducers then buffer_drain i s else s)"
| "wk_step fenced (Consumer a) s = consumer_access a s"

inductive wk_reach :: "bool \<Rightarrow> wk \<Rightarrow> bool" for fenced where
  wk_start: "wk_reach fenced wk_init"
| wk_next: "wk_reach fenced s \<Longrightarrow> wk_reach fenced (wk_step fenced a s)"

lemma wk_run: "wk_reach fenced s \<Longrightarrow> wk_reach fenced (fold (wk_step fenced) as s)"
  by (induction "as" arbitrary: s) (simp_all add: wk_next)

section \<open>The invariant\<close>

text \<open>Something has been published on ring \<open>i\<close> that the consumer has not taken.\<close>

definition unseen :: "nat \<Rightarrow> wk \<Rightarrow> bool" where
  "unseen i s \<longleftrightarrow> wk_head s i \<noteq> wk_tail s i \<or> wk_buf s i \<noteq> []"

definition waker :: "wk \<Rightarrow> nat \<Rightarrow> bool" where
  "waker s i \<longleftrightarrow> i < kMaxProducers \<and> wk_ppc s i \<in> {PParked, PNotify}"

text \<open>What holds of a slot: a buffered tail is still ahead of its fence, and what the consumer has
  not seen is marked, or about to be.\<close>

definition ring_ok :: "nat \<Rightarrow> wk \<Rightarrow> bool" where
  "ring_ok i s \<longleftrightarrow>
     (wk_buf s i \<noteq> [] \<longrightarrow> wk_ppc s i = PFence) \<and>
     (unseen i s \<longrightarrow> i < kMaxProducers \<and>
        (bit (wk_active s) i \<or> wk_ppc s i \<in> {PFence, PLoad, POr} \<or> wk_cpc s \<in> {CRecheck i, CSet i}))"

text \<open>What holds of a sleeping consumer: a marked ring has someone on the way to wake it.\<close>

definition sleep_ok :: "wk \<Rightarrow> bool" where
  "sleep_ok s \<longleftrightarrow>
     (wk_cpc s \<in> {CLook, CWait} \<longrightarrow> wk_parked s) \<and>
     (wk_cpc s = CWait \<and> \<not> wk_notified s \<and> wk_active s \<noteq> 0 \<longrightarrow> (\<exists>i. waker s i))"

definition wk_ok :: "wk \<Rightarrow> bool" where
  "wk_ok s \<longleftrightarrow> (\<forall>i. ring_ok i s) \<and> sleep_ok s"

lemma slot_bit_iff [simp]: "w AND slot_bit i = 0 \<longleftrightarrow> \<not> bit w i"
  by (auto simp: slot_bit_def bit_iff_and_push_bit_not_eq_0)

lemma slot_bit_bits [simp]:
  "bit (w OR slot_bit i) j \<longleftrightarrow> bit w j \<or> j = i \<and> i < kMaxProducers"
  "bit (w AND NOT (slot_bit i)) j \<longleftrightarrow> bit w j \<and> j \<noteq> i"
  by (auto simp: slot_bit_def bit_simps kMaxProducers_def dest: bit_imp_le_length)

lemma wk_ok_init: "wk_ok wk_init"
  by (simp add: wk_ok_def ring_ok_def sleep_ok_def wk_init_def unseen_def)

section \<open>The steps keep it\<close>

lemma ring_ok_producer:
  "\<lbrakk>ring_ok j s; i < kMaxProducers\<rbrakk> \<Longrightarrow> ring_ok j (producer_access True i s)"
  by (cases "j = i"; cases "wk_ppc s i")
    (auto simp: ring_ok_def unseen_def producer_access_def goto_def)

lemma sleep_ok_mono:
  assumes "sleep_ok s" "wk_cpc s' = wk_cpc s" "wk_parked s' = wk_parked s"
    and "wk_notified s \<Longrightarrow> wk_notified s'"
    and "\<lbrakk>wk_cpc s = CWait; wk_parked s; \<not> wk_notified s'; wk_active s' \<noteq> 0\<rbrakk> \<Longrightarrow>
      wk_active s \<noteq> 0 \<and> (\<forall>j. waker s j \<longrightarrow> waker s' j) \<or> waker s' i"
  shows "sleep_ok s'"
  using assms unfolding sleep_ok_def by simp metis

lemma sleep_ok_producer:
  assumes "sleep_ok s" "i < kMaxProducers"
  shows "sleep_ok (producer_access True i s)"
  by (rule sleep_ok_mono [OF assms(1), where i = i]; cases "wk_ppc s i")
    (use assms in \<open>auto simp: producer_access_def goto_def waker_def split: if_splits\<close>)

lemma ring_ok_store: "\<lbrakk>ring_ok j s; i < kMaxProducers\<rbrakk> \<Longrightarrow> ring_ok j (buffer_drain i s)"
  by (cases "j = i"; cases "wk_buf s i") (auto simp: ring_ok_def unseen_def buffer_drain_def)

lemma sleep_ok_store: "sleep_ok s \<Longrightarrow> sleep_ok (buffer_drain i s)"
  by (cases "wk_buf s i") (simp_all add: sleep_ok_def buffer_drain_def waker_def)

lemma ring_ok_consumer: "ring_ok j s \<Longrightarrow> ring_ok j (consumer_access a s)"
proof (induction a s rule: consumer_access.induct)
  case (4 retiring s)
  then show ?case by (cases "wk_cpc s") (auto simp: ring_ok_def unseen_def)
qed (auto simp: ring_ok_def unseen_def)

lemma sleep_ok_consumer: "sleep_ok s \<Longrightarrow> sleep_ok (consumer_access a s)"
proof (induction a s rule: consumer_access.induct)
  case (4 retiring s)
  then show ?case by (cases "wk_cpc s") (simp_all add: sleep_ok_def waker_def)
qed (simp_all add: sleep_ok_def waker_def)

lemma wk_reach_ok: "wk_reach True s \<Longrightarrow> wk_ok s"
proof (induction rule: wk_reach.induct)
  case wk_start
  then show ?case by (rule wk_ok_init)
next
  case (wk_next s a)
  then show ?case
    by (cases a) (simp_all add: wk_ok_def ring_ok_producer sleep_ok_producer ring_ok_store
        sleep_ok_store ring_ok_consumer sleep_ok_consumer)
qed

lemma slot_bits_all:
  assumes "\<And>i. i < kMaxProducers \<Longrightarrow> \<not> bit w i"
  shows "(w :: u64) = 0"
  by (rule bit_word_eqI) (use assms in \<open>simp add: kMaxProducers_def\<close>)

section \<open>No wakeup is lost\<close>

definition wake_trace :: "wact list" where
  "wake_trace =
     [Producer 3, Store 3, Producer 3, Producer 3, Producer 3, Producer 3, Consumer (Probe 3),
      Consumer (BeginClear 3), Consumer (Next False), Consumer (Next False), Consumer (Next False),
      Consumer BeginPark, Consumer (Next False)]"

text \<open>
  C6: No wakeup is lost. In every interleaving of any number of pushes with the consumer's probes,
  bit clearing and parking, and however long stores stay in the producers' buffers: when every
  producer is out of \<open>push\<close> and the consumer sleeps with no notification on its way, every ring is
  empty and nothing is left in a store buffer.
\<close>

theorem no_lost_wakeup:
  assumes "wk_reach True s" "\<And>i. wk_ppc s i = PIdle" "wk_cpc s = CWait" "\<not> wk_notified s"
  shows "wk_head s i = wk_tail s i \<and> wk_buf s i = []"
proof -
  have ok: "ring_ok i s" "sleep_ok s" using wk_reach_ok [OF assms(1)] by (simp_all add: wk_ok_def)
  have "wk_active s = 0" using ok(2) assms by (auto simp: sleep_ok_def waker_def)
  then show ?thesis using ok(1) assms by (auto simp: ring_ok_def unseen_def)
qed

lemma no_lost_wakeup_witness:
  "wk_head (fold (wk_step True) wake_trace wk_init) 3 = wk_tail (fold (wk_step True) wake_trace wk_init) 3
   \<and> wk_buf (fold (wk_step True) wake_trace wk_init) 3 = []"
proof (rule no_lost_wakeup)
  show "wk_reach True (fold (wk_step True) wake_trace wk_init)" by (rule wk_run [OF wk_start])
qed (simp_all add: wake_trace_def wk_init_def producer_access_def buffer_drain_def own_tail_def goto_def
    slot_bit_def kMaxProducers_def)

text \<open>
  The interleaving of the comment in \<open>signal\<close>: the ring's bit is set and the ring was drained; the
  producer publishes into its store buffer, reads the set bit and leaves; the consumer still finds
  the ring empty, twice, clears the bit and sleeps; only then does the store reach memory.
\<close>

definition unfenced_trace :: "wact list" where
  "unfenced_trace =
     [Producer 0, Store 0, Producer 0, Producer 0, Producer 0, Producer 0, Consumer (Probe 0),
      Producer 0, Producer 0, Producer 0,
      Consumer (BeginClear 0), Consumer (Next False), Consumer (Next False), Consumer (Next False),
      Consumer BeginPark, Consumer (Next False), Store 0]"

text \<open>
  The fence of \<open>signal\<close> is load-bearing. Without it there is a run at whose end every producer is
  out of \<open>push\<close>, all stores have reached memory and the consumer sleeps with no notification on its
  way and an empty bitmap, while an event is published in a ring.
\<close>

theorem unfenced_loses_wakeup:
  "\<exists>s. wk_reach False s \<and> (\<forall>i. wk_ppc s i = PIdle \<and> wk_buf s i = []) \<and> wk_cpc s = CWait \<and>
     \<not> wk_notified s \<and> wk_active s = 0 \<and> wk_head s 0 \<noteq> wk_tail s 0"
proof (intro exI conjI)
  show "wk_reach False (fold (wk_step False) unfenced_trace wk_init)" by (rule wk_run [OF wk_start])
qed (simp_all add: unfenced_trace_def wk_init_def producer_access_def buffer_drain_def own_tail_def
    goto_def slot_bit_def kMaxProducers_def)

end
