(* ===== verification/Weir_Checks.thy ===== *)
theory Weir_Checks
  imports Complex_Main Weir_Life
begin

text \<open>
  The checks of mpsc-event-pipeline-kata/cpp/bench: the ordering hook and the assertions of
  correctness.cpp, applied to what the modelled pipeline does, and the figures and medians of
  throughput.cpp and harness.hpp. The hook and the sink run on the consumer thread, so the hook is
  a fold over the delivered events. Figures are rational numbers.
\<close>

section \<open>The ordering hook\<close>

record order_check =
  oc_last :: "u64 list"
  oc_seen :: "bool list"
  oc_violations :: u64
  oc_received :: u64

definition new_order_check :: order_check where
  "new_order_check =
     \<lparr>oc_last = replicate kMaxProducers 0, oc_seen = replicate kMaxProducers False,
      oc_violations = 0, oc_received = 0\<rparr>"

definition order_hook :: "event \<Rightarrow> order_check \<Rightarrow> order_check" where
  "order_hook e c =
     (let i = unat (producer_id e);
          late = oc_seen c ! i \<and> ucast (seq e) \<le> oc_last c ! i
      in c\<lparr>oc_violations := if late then oc_violations c + 1 else oc_violations c,
           oc_seen := (oc_seen c)[i := True], oc_last := (oc_last c)[i := ucast (seq e)],
           oc_received := oc_received c + 1\<rparr>)"

definition hooked :: "event list \<Rightarrow> order_check" where
  "hooked es = fold order_hook es new_order_check"

definition rising :: "event list \<Rightarrow> bool" where
  "rising es \<longleftrightarrow> sorted_wrt (\<lambda>a b. producer_id a = producer_id b \<longrightarrow> seq a < seq b) es"

definition of_producer :: "nat \<Rightarrow> event list \<Rightarrow> event list" where
  "of_producer i es = filter (\<lambda>e. unat (producer_id e) = i) es"

text \<open>What the hook knows after the events \<open>es\<close>.\<close>

definition hook_ok :: "event list \<Rightarrow> order_check \<Rightarrow> bool" where
  "hook_ok es c \<longleftrightarrow>
     length (oc_last c) = kMaxProducers \<and> length (oc_seen c) = kMaxProducers \<and>
     (\<forall>i < kMaxProducers. oc_seen c ! i = (of_producer i es \<noteq> []) \<and>
        (of_producer i es \<noteq> [] \<longrightarrow> oc_last c ! i = ucast (seq (last (of_producer i es))))) \<and>
     oc_received c = of_nat (length es) \<and>
     (\<exists>d. d \<le> length es \<and> oc_violations c = of_nat d \<and> (d = 0 \<longleftrightarrow> rising es))"

lemma of_producer_snoc [simp]:
  "of_producer i (es @ [e]) = of_producer i es @ (if unat (producer_id e) = i then [e] else [])"
  by (simp add: of_producer_def)

lemma rising_last:
  assumes "rising es"
  shows "(\<forall>x \<in> set es. producer_id x = producer_id e \<longrightarrow> seq x < seq e) \<longleftrightarrow>
    (of_producer (unat (producer_id e)) es = [] \<or>
     seq (last (of_producer (unat (producer_id e)) es)) < seq e)"
  using assms
proof (induction es rule: rev_induct)
  case (snoc x es)
  then have r: "rising es" and lt: "\<forall>y \<in> set es. producer_id y = producer_id x \<longrightarrow> seq y < seq x"
    by (auto simp: rising_def sorted_wrt_append)
  show ?case
  proof (cases "producer_id x = producer_id e")
    case True
    then show ?thesis using lt by (auto intro: order.strict_trans)
  next
    case False
    then have "unat (producer_id x) \<noteq> unat (producer_id e)" by (simp add: word_unat_eq_iff)
    then show ?thesis using snoc.IH [OF r] False by auto
  qed
qed (simp add: of_producer_def)

lemma ucast_seq_le: "(ucast (a :: u32) :: u64) \<le> ucast b \<longleftrightarrow> a \<le> b"
proof -
  have "unat (ucast x :: u64) = unat x" for x :: u32
  proof -
    have "unat x < 2 ^ 64" by (rule less_le_trans [OF unsigned_less]) simp
    then show ?thesis by (simp add: unsigned_ucast_eq unsigned_take_bit_eq take_bit_nat_eq_self)
  qed
  then show ?thesis unfolding word_le_nat_alt by simp
qed

lemma hook_step:
  assumes ok: "hook_ok es c" and i: "unat (producer_id e) < kMaxProducers"
  shows "hook_ok (es @ [e]) (order_hook e c)"
proof -
  let ?i = "unat (producer_id e)"
  let ?late = "oc_seen c ! ?i \<and> ucast (seq e) \<le> oc_last c ! ?i"
  obtain d where d: "d \<le> length es" "oc_violations c = of_nat d" "d = 0 \<longleftrightarrow> rising es"
    using ok by (auto simp: hook_ok_def)
  have late: "?late \<longleftrightarrow> of_producer ?i es \<noteq> [] \<and> \<not> seq (last (of_producer ?i es)) < seq e"
    using ok i by (auto simp: hook_ok_def ucast_seq_le not_less)
  have rise: "rising (es @ [e]) \<longleftrightarrow> rising es \<and> \<not> ?late"
    unfolding late using rising_last [of es e] by (auto simp: rising_def sorted_wrt_append)
  define d' where "d' = (if ?late then Suc d else d)"
  have "oc_violations (order_hook e c) = of_nat d'"
    using d(2) by (simp add: order_hook_def Let_def d'_def)
  moreover have "d' \<le> length (es @ [e])" "d' = 0 \<longleftrightarrow> rising (es @ [e])"
    using d(1, 3) rise by (auto simp: d'_def)
  moreover have "length (oc_last (order_hook e c)) = kMaxProducers"
    "length (oc_seen (order_hook e c)) = kMaxProducers"
    "oc_received (order_hook e c) = of_nat (length (es @ [e]))"
    "\<forall>j < kMaxProducers. oc_seen (order_hook e c) ! j = (of_producer j (es @ [e]) \<noteq> []) \<and>
       (of_producer j (es @ [e]) \<noteq> [] \<longrightarrow>
          oc_last (order_hook e c) ! j = ucast (seq (last (of_producer j (es @ [e])))))"
    using ok i by (auto simp: hook_ok_def order_hook_def Let_def nth_list_update)
  ultimately show ?thesis unfolding hook_ok_def by blast
qed

lemma hooked_ok:
  "\<forall>e \<in> set es. unat (producer_id e) < kMaxProducers \<Longrightarrow> hook_ok es (hooked es)"
proof (induction es rule: rev_induct)
  case Nil
  then show ?case
    by (auto simp: hook_ok_def hooked_def new_order_check_def of_producer_def rising_def)
next
  case (snoc e es)
  then show ?case using hook_step [of es "hooked es" e] by (simp add: hooked_def)
qed

text \<open>Events that rise slot by slot rise as a whole, when each carries the number of its slot.\<close>

lemma rising_slots:
  assumes "\<forall>x \<in> set xs. unat (producer_id (snd x)) = fst x"
  shows "rising (map snd xs) \<longleftrightarrow> (\<forall>i. sorted_wrt (\<lambda>a b. seq a < seq b) (of_slot i xs))"
  using assms
proof (induction xs)
  case (Cons x xs)
  obtain i e where x: "x = (i, e)" by fastforce
  have "(\<forall>b \<in> set (map snd xs). producer_id e = producer_id b \<longrightarrow> seq e < seq b) \<longleftrightarrow>
      (\<forall>b \<in> set (of_slot i xs). seq e < seq b)"
    using Cons.prems by (force simp: of_slot_def x word_unat_eq_iff)
  then show ?case
    using Cons by (auto simp: rising_def x of_slot_def)
qed (simp add: rising_def)

section \<open>The correctness test\<close>

definition correctness_checks ::
    "nat \<Rightarrow> nat \<Rightarrow> pipeline \<Rightarrow> order_check \<Rightarrow> counting_sink \<Rightarrow> bool list" where
  "correctness_checks producers per_producer p c snk =
     (let st = stats p in
      [oc_violations c = 0,
       s_pushed st + s_dropped st = of_nat producers * of_nat per_producer,
       oc_received c = s_pushed st,
       drain_completed p,
       s_high_water st \<le> of_nat kRingCapacity,
       0 < cs_batches snk \<and> cs_bytes snk = oc_received c * of_nat kEventBytes])"

definition lifetime_checks :: "pipeline_stats \<Rightarrow> u64 \<Rightarrow> bool list" where
  "lifetime_checks st received = [received = s_pushed st, s_dropped st = 0]"

lemma high_water_bounded:
  assumes "pipe_ok g p" shows "s_high_water (stats p) \<le> of_nat kRingCapacity"
proof -
  have fl: "foldl (\<lambda>m s. max m (high_water s)) v ss \<le> b"
    if "v \<le> b" "\<forall>s \<in> set ss. high_water s \<le> b" for v b :: u64 and ss
    using that by (induction ss arbitrary: v) auto
  have "high_water s \<le> of_nat kRingCapacity" if s: "s \<in> set (p_slots p)" for s
  proof -
    obtain i where "i < kMaxProducers" "s = p_slots p ! i"
      using s pipe_okD(1) [OF assms] by (metis in_set_conv_nth)
    then have "unat (high_water s) \<le> kRingCapacity"
      using pipe_okD(2) [OF assms] by (auto simp: slot_ok_def)
    then show ?thesis by (simp add: word_le_nat_alt unat_of_nat kRingCapacity_def)
  qed
  then show ?thesis
    using fl [of 0 "of_nat kRingCapacity" "p_slots p"] by (simp add: stats_def)
qed

lemma drained_deliveries:
  assumes "pipe_reach p" "calm p" "wind_up fuel p = Some q"
  shows "mset (deliveries (log q)) = mset (acceptances (log q))"
    and "of_slot i (deliveries (log q)) = of_slot i (acceptances (log q))"
proof -
  note ok = reach_ok [OF reach_wind_up [OF assms(1, 3)]]
  have same: "of_slot i (acceptances (log q)) = of_slot i (deliveries (log q))" if "i < kMaxProducers" for i
    using pipe_okD(2) [OF ok that] shutdown_done(1) [OF assms] that by (simp add: slot_ok_def)
  have none: "of_slot i (acceptances (log q) @ deliveries (log q)) = []" if "\<not> i < kMaxProducers" for i
    using pipe_okD(6) [OF ok] that by (auto simp: of_slot_def filter_empty_conv)
  show "of_slot i (deliveries (log q)) = of_slot i (acceptances (log q))"
    using same none by (cases "i < kMaxProducers") force+
  show "mset (deliveries (log q)) = mset (acceptances (log q))"
    using of_slots_mset [OF pipe_okD(6) [OF ok] same] by simp
qed

lemma u64_eq: "m < 2 ^ 64 \<Longrightarrow> n < 2 ^ 64 \<Longrightarrow> (of_nat m :: u64) = of_nat n \<longleftrightarrow> m = n"
  using pos_eq_iff [of m n] pos_eq_iff [of n m] by (metis le_cases less_imp_diff_less)

lemma written_count:
  assumes "stage_ok p" "staged p = 0"
  shows "length (written p) \<le> length (deliveries (log p))"
    and "written p = [] \<longleftrightarrow> deliveries (log p) = []"
proof -
  have st: "concat (written p) = map snd (deliveries (log p))" "\<forall>b \<in> set (written p). b \<noteq> []"
    using assms by (simp_all add: stage_ok_def)
  have "length bs \<le> length (concat bs)" if "\<forall>b \<in> set bs. b \<noteq> []" for bs :: "event list list"
    using that
  proof (induction bs)
    case (Cons b bs)
    then have one: "1 \<le> length b" by (cases b) simp_all
    show ?case using add_mono [OF one Cons.IH] Cons.prems by simp
  qed simp
  then show "length (written p) \<le> length (deliveries (log p))" using st by (metis length_map)
  show "written p = [] \<longleftrightarrow> deliveries (log p) = []"
    using st by (metis concat.simps(1) concat_eq_Nil_conv last_in_set map_is_Nil_conv)
qed

text \<open>What the checks say of a pipeline that was wound up with nobody pushing.\<close>

lemma checks_exact:
  assumes "pipe_reach p" "calm p" "wind_up fuel p = Some q" and q': "q' = q\<lparr>joinable := False\<rparr>"
    and stamped: "\<forall>x \<in> set (acceptances (log p)). unat (producer_id (snd x)) = fst x \<and> event_ok (snd x)"
    and few: "length (acceptances (log p)) + length (drops (log q)) < 2 ^ 64" "producers * per_producer < 2 ^ 64"
  shows "correctness_checks producers per_producer q' (hooked (map snd (deliveries (log q'))))
      (counting.write_all (written q') new_counting_sink) =
    [\<forall>i. sorted_wrt (\<lambda>x y. seq x < seq y) (of_slot i (acceptances (log p))),
     length (acceptances (log p)) + length (drops (log q)) = producers * per_producer,
     True, drain_completed q, True, acceptances (log p) \<noteq> []]"
proof -
  let ?D = "deliveries (log q)" and ?A = "acceptances (log p)"
  have reach: "pipe_reach q" by (rule reach_wind_up [OF assms(1, 3)])
  note ok = reach_ok [OF reach] and counts = pipeline_counts [OF reach] and fin = shutdown_done [OF assms(1-3)]
  have A: "acceptances (log q) = ?A" by (rule fin(3))
  have m: "mset ?D = mset ?A" using drained_deliveries(1) [OF assms(1-3)] A by simp
  have len: "length ?D = length ?A" using m by (rule mset_eq_length)
  have D: "\<forall>x \<in> set ?D. unat (producer_id (snd x)) = fst x \<and> event_ok (snd x)"
    using stamped mset_eq_setD [OF m] by simp
  have "\<forall>e \<in> set (map snd ?D). unat (producer_id e) < kMaxProducers"
  proof
    fix e assume "e \<in> set (map snd ?D)"
    then obtain x where "x \<in> set ?D" "e = snd x" by auto
    then show "unat (producer_id e) < kMaxProducers" using D pipe_okD(6) [OF ok] by simp
  qed
  note h = hooked_ok [OF this]
  have viol: "oc_violations (hooked (map snd ?D)) = 0 \<longleftrightarrow>
      (\<forall>i. sorted_wrt (\<lambda>x y. seq x < seq y) (of_slot i ?A))"
  proof -
    obtain d where d: "d \<le> length ?D" "oc_violations (hooked (map snd ?D)) = of_nat d"
      "d = 0 \<longleftrightarrow> rising (map snd ?D)" using h by (auto simp: hook_ok_def)
    have "d < 2 ^ 64" using d(1) few len by simp
    then have "(of_nat d :: u64) = 0 \<longleftrightarrow> d = 0" using pos_eq_iff [of 0 d] by auto
    then show ?thesis
      using d rising_slots [of ?D] D drained_deliveries(2) [OF assms(1-3)] A by simp
  qed
  have received: "oc_received (hooked (map snd ?D)) = of_nat (length ?A)"
    using h len by (simp add: hook_ok_def)
  have "s_pushed (stats q) + s_dropped (stats q) = of_nat (length ?A + length (drops (log q)))"
    using counts A by simp
  moreover have "(of_nat (length ?A + length (drops (log q))) :: u64) = of_nat (producers * per_producer) \<longleftrightarrow>
      length ?A + length (drops (log q)) = producers * per_producer"
    by (rule u64_eq [OF few])
  ultimately have sum: "s_pushed (stats q) + s_dropped (stats q) = of_nat producers * of_nat per_producer \<longleftrightarrow>
      length ?A + length (drops (log q)) = producers * per_producer" by simp
  note w = written_count [OF pipe_okD(5) [OF ok] fin(2)]
  have cat: "concat (written q) = map snd ?D"
    using pipe_okD(5) [OF ok] fin(2) by (simp add: stage_ok_def)
  then have "\<forall>e \<in> set (concat (written q)). event_ok e" using D by auto
  then have "list_all (list_all event_ok) (written q)" by (auto simp: list_all_iff)
  from counting.write_all_accounts [OF this, of new_counting_sink]
  have bytes: "cs_bytes (counting.write_all (written q) new_counting_sink) = of_nat (kEventBytes * length ?A)"
    and batches: "cs_batches (counting.write_all (written q) new_counting_sink) = of_nat (length (written q))"
    using len by (simp_all add: new_counting_sink_def cat)
  have "0 < (of_nat (length (written q)) :: u64) \<longleftrightarrow> written q \<noteq> []"
    using few(1) w(1) len pos_eq_iff [of 0 "length (written q)"] by (auto simp: word_neq_0_conv [symmetric])
  then have "0 < cs_batches (counting.write_all (written q) new_counting_sink) \<longleftrightarrow> ?A \<noteq> []"
    using batches w(2) len by (metis length_0_conv)
  moreover have "stats q' = stats q" "log q' = log q" "written q' = written q" "drain_completed q' = drain_completed q"
    unfolding q' by (simp_all add: stats_def drain_completed_def)
  ultimately show ?thesis
    using viol received sum counts A high_water_bounded [OF ok] bytes
    by (simp add: correctness_checks_def Let_def)
qed

text \<open>While nobody but the consumer acts, after the stop, what was pushed and dropped stays.\<close>

definition keeps_alone :: "pipeline \<Rightarrow> pipeline \<Rightarrow> bool" where
  "keeps_alone p q \<longleftrightarrow> (sched p = [] \<longrightarrow> sched q = [] \<and> accepting q = accepting p \<and>
     acceptances (log q) = acceptances (log p) \<and> drops (log q) = drops (log p) \<and>
     drain_deadline_met q = drain_deadline_met p)"

interpretation alone: consumer_rel keeps_alone
proof
  show "keeps_alone p q \<Longrightarrow> keeps_alone q r \<Longrightarrow> keeps_alone p r" for p q r
    by (simp add: keeps_alone_def)
  show "keeps_alone p (interfere p)" for p by (simp add: keeps_alone_def interfere_def)
  show "scan_own p q \<Longrightarrow> keeps_alone p q" "reclaim_own p q \<Longrightarrow> keeps_alone p q" for p q
    by (simp_all add: keeps_alone_def own_defs)
qed

lemma passes_alone: "pipe_reach p \<Longrightarrow> pipe_reach (passes_run n idle rot p) \<and> keeps_alone p (passes_run n idle rot p)"
proof (induction n arbitrary: idle rot p)
  case (Suc n)
  let ?q = "snd (snd (pass idle rot (interfere p)))"
  have "pipe_reach ?q" using Suc.prems by (intro reach_pass reach_interfere)
  moreover have "keeps_alone p ?q" by (rule alone.trans [OF alone.other alone.pass])
  ultimately show ?case using Suc.IH [of ?q] by (auto simp: Let_def split_beta keeps_alone_def)
qed (simp add: keeps_alone_def)

lemma poll_alone:
  "pipe_reach p \<Longrightarrow> \<forall>x \<in> set polls. \<exists>n idle rot. snd x = passes_run n idle rot \<Longrightarrow>
   stop_poll polls p = Some s \<Longrightarrow> pipe_reach s \<and> keeps_alone p s"
proof (induction polls p rule: stop_poll.induct)
  case (2 late others polls p)
  obtain n idle rot where o': "others = passes_run n idle rot" using "2.prems"(2) by auto
  show ?case
  proof (cases "\<not> late \<and> \<not> all_quiesced p")
    case True
    then have "pipe_reach s \<and> keeps_alone (others p) s"
      using 2 passes_alone [OF "2.prems"(1), of n idle rot] o' by auto
    then show ?thesis using passes_alone [OF "2.prems"(1), of n idle rot] alone.trans o' by blast
  next
    case False
    then show ?thesis using "2.prems" by (auto simp: keeps_alone_def)
  qed
qed simp

text \<open>
  C36: The correctness test says what it is meant to say, and a little more. The producers are joined, so
  when \<open>stop(Drain)\<close> is called only the consumer is left; then the stop returns, as soon as a reading of
  the clock passes its deadline and with enough fuel for the consumer, and each of the six checks comes out as follows. The
  ordering check passes exactly when the sequence numbers accepted on each slot rise - so it also
  fails when a slot changed hands during the run and the next owner started again from 1, although
  nothing was lost or reordered; the accounting check passes exactly when as many pushes were accepted or
  dropped as the test meant to make - so not when a producer got no handle; the drain lost
  nothing and the depth stayed bounded, always; the drain check is whether all rings were seen
  empty when the polling ended; and the sink check passes exactly when something was accepted. The
  events carry their slot's number, as \<open>make_event(h.id(), ...)\<close> gives them, and the counts fit 64 bits.
\<close>

theorem correctness_test_exact:
  assumes run: "pipe_reach p" "joinable p" "sched p = []"
    and polls: "\<exists>x \<in> set polls. fst x" "\<forall>x \<in> set polls. \<exists>n idle rot. snd x = passes_run n idle rot"
    and fuel: "0 < fuel" "length (acceptances (log p)) < fuel'"
    and stamped: "\<forall>x \<in> set (acceptances (log p)). unat (producer_id (snd x)) = fst x \<and> event_ok (snd x)"
    and few: "length (acceptances (log p)) + length (drops (log p)) < 2 ^ 64" "producers * per_producer < 2 ^ 64"
  shows "\<exists>s q. stop_poll polls (p\<lparr>accepting := False\<rparr>) = Some s \<and>
    stop Drain polls (consume fuel fuel') p = Some q \<and>
    correctness_checks producers per_producer q (hooked (map snd (deliveries (log q))))
      (counting.write_all (written q) new_counting_sink) =
    [\<forall>i. sorted_wrt (\<lambda>x y. seq x < seq y) (of_slot i (acceptances (log p))),
     length (acceptances (log p)) + length (drops (log p)) = producers * per_producer,
     True, all_quiesced s, True, acceptances (log p) \<noteq> []]"
proof -
  let ?p = "p\<lparr>accepting := False\<rparr>"
  have rp: "pipe_reach ?p" using reach_act [OF run(1), of AStopAccepting] by simp
  obtain s where s: "stop_poll polls ?p = Some s" using stop_poll_ends [OF polls(1)] by blast
  have sa: "pipe_reach s" "sched s = []" "\<not> accepting s" "acceptances (log s) = acceptances (log p)"
    "drops (log s) = drops (log p)"
    using poll_alone [OF rp polls(2) s] run(3) by (auto simp: keeps_alone_def)
  let ?s = "s\<lparr>drain_deadline_met := all_quiesced s, running := False\<rparr>"
  have rs: "pipe_reach ?s"
    using reach_act [OF reach_drained [OF sa(1), of "all_quiesced s"], of AStopRunning] by simp
  have c: "calm ?s" "stopping ?s" "pending ?s = 0"
    using sa(2,3) by (simp_all add: calm_def stopping_def pending_def)
  obtain q where q: "wind_up fuel' ?s = Some q" "consume fuel fuel' ?s = Some q"
  proof (rule consume_phases [OF rs c(2)])
    show "length (sched ?s) < fuel" using sa(2) fuel(1) by simp
    show "length (acceptances (log ?s)) + pending ?s < fuel'" using sa(4) c(3) fuel(2) by simp
    fix p1 q assume a: "main_loop fuel 0 0 ?s = Some p1" "wind_up fuel' p1 = Some q" "consume fuel fuel' ?s = Some q"
    have "interfere ?s = ?s" using sa(2) by (simp add: interfere_def)
    then have "p1 = ?s" using a(1) fuel(1) by (cases fuel) (simp_all add: Let_def)
    then show ?thesis using a that by blast
  qed
  have k: "drops (log q) = drops (log p)" "drain_completed q = all_quiesced s"
    using alone.wind_up [OF q(1)] sa(2,5) by (simp_all add: keeps_alone_def drain_completed_def)
  have "stop Drain polls (consume fuel fuel') p = Some (q\<lparr>joinable := False\<rparr>)"
    using run(2) s q(2) by (simp add: stop_def Let_def)
  moreover note checks_exact [OF rs c(1) q(1) refl, of producers per_producer]
  ultimately show ?thesis using s sa(4) k stamped few by simp
qed

text \<open>One producer pushes one event; the drain is polled once before the deadline.\<close>

theorem correctness_test_exact_witness:
  "\<exists>q. stop Drain [(False, passes_run 1 0 0), (True, passes_run 0 0 0)] (consume 1 2) one_pushed = Some q \<and>
     (\<exists>b. correctness_checks 1 1 q (hooked (map snd (deliveries (log q))))
        (counting.write_all (written q) new_counting_sink) = [True, True, True, b, True, True])"
proof -
  note f = one_pushed_facts and l = one_pushed_log
  have e: "producer_id (sample_event 1) = 0" "event_ok (sample_event 1)"
    by (simp_all add: sample_event_def make_event_def event_ok_def)
  have o': "sorted_wrt (\<lambda>x y. seq x < seq y) (of_slot i [(0, sample_event 1)])" for i
    by (simp add: of_slot_def)
  show ?thesis
    using correctness_test_exact [OF f(1,3,4), of "[(False, passes_run 1 0 0), (True, passes_run 0 0 0)]" 1 2 1 1]
      l e o' by fastforce
qed

section \<open>Throughput\<close>

record throughput =
  offered_mps :: rat
  accepted_pct :: rat
  sustained_mps :: rat
  ns_per_push :: rat

definition throughput_checks :: "pipeline_stats \<Rightarrow> bool list" where
  "throughput_checks st = [0 < s_pushed st, s_consumed st = s_pushed st]"

text \<open>The figures of a run from its counters and its two windows, in seconds.\<close>

definition throughput_of :: "pipeline_stats \<Rightarrow> rat \<Rightarrow> rat \<Rightarrow> nat \<Rightarrow> throughput" where
  "throughput_of st push_secs all_secs per_producer =
     (let count = (\<lambda>n :: u64. of_nat (unat n) :: rat) in
      \<lparr>offered_mps = count (s_pushed st + s_dropped st) / push_secs / 10 ^ 6,
       accepted_pct = 100 * count (s_pushed st) / count (s_pushed st + s_dropped st),
       sustained_mps = count (s_consumed st) / all_secs / 10 ^ 6,
       ns_per_push = push_secs * 10 ^ 9 / of_nat per_producer\<rparr>)"

text \<open>\<open>std::sort\<close> is not stable; which of several runs with the same median it picks is left open there.\<close>

definition median_run :: "throughput list \<Rightarrow> throughput" where
  "median_run v = sort_key ns_per_push v ! (length v div 2)"

definition median_of :: "('a \<Rightarrow> rat) \<Rightarrow> 'a list \<Rightarrow> rat" where
  "median_of get reps = sort (map get reps) ! (length reps div 2)"

text \<open>
  The run that throughput.cpp reports has the median time per push, but its other figures are not
  medians: harness.hpp warns of just that.
\<close>

theorem median_run_by_one_column:
  assumes "v \<noteq> []"
  shows "ns_per_push (median_run v) = median_of ns_per_push v \<and> median_run v \<in> set v"
proof -
  have "length v div 2 < length v" using assms by (cases v) auto
  have m: "mset (map ns_per_push (sort_key ns_per_push v)) = mset (map ns_per_push v)"
    by (metis mset_map mset_sort)
  have sorted: "map ns_per_push (sort_key ns_per_push v) = sort (map ns_per_push v)"
    by (rule properties_for_sort [symmetric, OF m]) simp
  have "ns_per_push (median_run v) = median_of ns_per_push v"
    unfolding median_run_def median_of_def sorted [symmetric]
    using \<open>length v div 2 < length v\<close> by simp
  moreover have "median_run v \<in> set (sort_key ns_per_push v)"
    unfolding median_run_def using \<open>length v div 2 < length v\<close> by (intro nth_mem) simp
  ultimately show ?thesis by simp
qed

definition three_runs :: "throughput list" where
  "three_runs =
     map (\<lambda>(a, b). \<lparr>offered_mps = a, accepted_pct = 100, sustained_mps = a, ns_per_push = b\<rparr>)
       [(10, 1), (90, 2), (20, 3)]"

theorem median_run_by_one_column_witness:
  "ns_per_push (median_run three_runs) = 2 \<and> sustained_mps (median_run three_runs) = 90 \<and>
   median_of sustained_mps three_runs = 20"
  using median_run_by_one_column [of three_runs]
  by (simp add: three_runs_def median_run_def median_of_def)

text \<open>
  The throughput run's checks hold after a drain of at least one accepted event, and the sustained rate
  never exceeds the offered one when the drain ends after the pushes.
\<close>

theorem throughput_run_checks:
  assumes "pipe_reach p" "calm p" "wind_up fuel p = Some q"
    and "acceptances (log q) \<noteq> []" "length (acceptances (log q)) + length (drops (log q)) < 2 ^ 64"
    and "0 < push_secs" "push_secs \<le> all_secs"
  shows "throughput_checks (stats q) = [True, True] \<and>
    sustained_mps (throughput_of (stats q) push_secs all_secs n) \<le>
      offered_mps (throughput_of (stats q) push_secs all_secs n)"
proof -
  let ?a = "length (acceptances (log q))" and ?d = "length (drops (log q))"
  note counts = pipeline_counts [OF reach_wind_up [OF assms(1, 3)]]
  have eq: "s_consumed (stats q) = s_pushed (stats q)" by (rule shutdown_done(5) [OF assms(1-3)])
  have a: "unat (s_pushed (stats q)) = ?a" and ad: "unat (s_pushed (stats q) + s_dropped (stats q)) = ?a + ?d"
    using counts assms(5) by (simp_all add: unat_of_nat flip: of_nat_add)
  have "0 < s_pushed (stats q)" using a assms(4) by (simp add: word_greater_zero_iff unat_gt_0 [symmetric] del: unat_gt_0)
  then have "throughput_checks (stats q) = [True, True]" by (simp add: throughput_checks_def eq)
  moreover have "(of_nat ?a :: rat) / all_secs \<le> of_nat (?a + ?d) / push_secs"
    using assms(6, 7) by (intro frac_le) auto
  then have "(of_nat ?a :: rat) / all_secs / 10 ^ 6 \<le> of_nat (?a + ?d) / push_secs / 10 ^ 6"
    by (rule divide_right_mono) simp
  then have "sustained_mps (throughput_of (stats q) push_secs all_secs n) \<le>
      offered_mps (throughput_of (stats q) push_secs all_secs n)"
    unfolding throughput_of_def Let_def throughput.simps eq a ad .
  ultimately show ?thesis ..
qed

theorem throughput_run_checks_witness:
  "\<exists>q. wind_up 2 stopped_early = Some q \<and>
     (drops (log q) = [] \<longrightarrow> throughput_checks (stats q) = [True, True])"
proof -
  note f = stopped_early_facts
  have "in_rings stopped_early + pending stopped_early < 2"
    using accepted_count [OF reach_ok [OF f(1)]] f(4,6) by simp
  then obtain q where q: "wind_up 2 stopped_early = Some q" using wind_up_returns [OF reach_ok [OF f(1)]] by blast
  have a: "acceptances (log q) = [(0, sample_event 1)]"
    using shutdown_done(3) [OF f(1, 2) q] f(6) by simp
  then show ?thesis using throughput_run_checks [OF f(1, 2) q, of 1 1] q by simp
qed

end
