(* ===== verification/Weir_Ab.thy ===== *)
theory Weir_Ab
  imports Weir_Checks
begin

text \<open>
  The experiment of mpsc-event-pipeline-kata/cpp/bench/scan_ab.cpp and the percentiles of
  harness.cpp: which arms are run, the open loop of a producer (over the readings of its clock, in
  nanoseconds), the sampling of latencies, and the figures derived from them.
\<close>

section \<open>The arms\<close>

definition active_producers :: "nat \<Rightarrow> nat" where
  "active_producers hardware = (let cores = max 4 hardware in min 8 (max 2 (cores div 2)))"

text \<open>The runs of the sweep: how many producers are registered in all, how many of them idle.\<close>

definition sweep :: "nat \<Rightarrow> (nat \<times> nat \<times> scan_policy) list" where
  "sweep busy =
     concat (map (\<lambda>r. if r < busy then [] else map (\<lambda>sc. (r, r - busy, sc)) [FullScan, Bitmap])
       [8, 16, 32, 64])"

text \<open>
  Every core count gives two to eight active producers; each arm is run under both policies with
  the same registrations, and never with more than the pipeline has slots for.
\<close>

theorem sweep_fits:
  "2 \<le> active_producers hw \<and> active_producers hw \<le> 8 \<and>
   map (\<lambda>(r, i, sc). sc) (sweep (active_producers hw)) = concat (replicate 4 [FullScan, Bitmap]) \<and>
   list_all (\<lambda>(r, i, sc). i + active_producers hw = r \<and> r \<le> kMaxProducers) (sweep (active_producers hw))"
proof -
  have b: "2 \<le> active_producers hw" "active_producers hw \<le> 8"
    by (auto simp: active_producers_def Let_def)
  then show ?thesis by (simp add: sweep_def kMaxProducers_def numeral_eq_Suc)
qed

section \<open>The open loop\<close>

text \<open>
  What one producer pushes, with the clock reading each push follows; \<open>None\<close> when the fuel or
  the readings run out.
\<close>

fun open_loop :: "nat \<Rightarrow> nat \<Rightarrow> nat \<Rightarrow> nat \<Rightarrow> u32 \<Rightarrow> nat \<Rightarrow> nat list \<Rightarrow> (nat \<times> event) list option" where
  "open_loop 0 begun period duration i k ts = None"
| "open_loop (Suc fuel) begun period duration i k ts =
     (let intended = begun + period * k in
      if duration < intended - begun then Some []
      else case dropWhile (\<lambda>t. t < intended) ts of
        [] \<Rightarrow> None
      | t # ts' \<Rightarrow>
          map_option ((#) (t, make_event i (of_nat (k + 1)) (of_nat intended)))
            (open_loop fuel begun period duration i (k + 1) ts'))"

definition period_of :: "nat \<Rightarrow> nat" where
  "period_of rate = 10 ^ 9 div rate"

lemma due_iff:
  assumes "0 < period"
  shows "duration < (begun + period * k) - begun \<longleftrightarrow> duration div period + 1 \<le> (k :: nat)"
  using assms by (simp add: Suc_le_eq div_less_iff_less_mult mult.commute)

lemma drop_to:
  "dropWhile (\<lambda>t. t < d) ts = t # ts' \<Longrightarrow> d \<le> (t :: nat)"
  by (metis hd_dropWhile list.distinct(1) list.sel(1) not_le)

lemma open_loop_from:
  assumes "0 < period"
  shows "open_loop fuel begun period duration i k ts = Some ps \<Longrightarrow> k \<le> duration div period + 1 \<Longrightarrow>
    map snd ps = map (\<lambda>j. make_event i (of_nat (j + 1)) (of_nat (begun + period * j)))
      [k..<duration div period + 1] \<and>
    (\<forall>j < length ps. begun + period * (k + j) \<le> fst (ps ! j))"
proof (induction fuel arbitrary: k ts ps)
  case (Suc fuel)
  let ?t = "begun + period * k" and ?n = "duration div period + 1"
  show ?case
  proof (cases "?n \<le> k")
    case True
    then have "ps = []" using Suc.prems due_iff [OF assms, of duration begun k] by simp
    then show ?thesis using True by simp
  next
    case False
    then have go: "\<not> duration < ?t - begun" using due_iff [OF assms] by simp
    have "dropWhile (\<lambda>t. t < ?t) ts \<noteq> []"
    proof
      assume e: "dropWhile (\<lambda>t. t < ?t) ts = []"
      show False using Suc.prems(1) go
        by (simp only: open_loop.simps(2) Let_def e if_False list.case option.distinct)
    qed
    then obtain t ts' where t: "dropWhile (\<lambda>t. t < ?t) ts = t # ts'" by (metis list.exhaust)
    then obtain ps' where ps': "open_loop fuel begun period duration i (k + 1) ts' = Some ps'"
      "ps = (t, make_event i (of_nat (k + 1)) (of_nat ?t)) # ps'"
      using Suc.prems(1) go by auto
    have ih: "map snd ps' = map (\<lambda>j. make_event i (of_nat (j + 1)) (of_nat (begun + period * j)))
        [k + 1..<?n]" "\<forall>j < length ps'. begun + period * (k + 1 + j) \<le> fst (ps' ! j)"
      using Suc.IH [OF ps'(1)] False by simp_all
    have "[k..<?n] = k # [k + 1..<?n]" using False by (simp add: upt_conv_Cons)
    moreover have "begun + period * (k + j) \<le> fst (ps ! j)" if "j < length ps" for j
      using that ih(2) drop_to [OF t] ps'(2) by (cases j) (auto simp: add.commute)
    ultimately show ?thesis using ih(1) ps'(2) by simp
  qed
qed simp

lemma open_loop_returns:
  assumes "0 < period" "\<forall>t \<in> set ts. begun + duration \<le> t"
  shows "duration div period + 1 - k < fuel \<Longrightarrow> duration div period + 1 - k \<le> length ts \<Longrightarrow>
    \<exists>ps. open_loop fuel begun period duration i k ts = Some ps"
  using assms(2)
proof (induction fuel arbitrary: k ts)
  case (Suc fuel)
  let ?t = "begun + period * k"
  show ?case
  proof (cases "duration < ?t - begun")
    case False
    then have k: "k \<le> duration div period" using due_iff [OF assms(1), of duration begun k] by simp
    then obtain t ts' where ts: "ts = t # ts'" using Suc.prems(2) by (cases ts) auto
    have "?t \<le> begun + duration" using False by simp
    then have "dropWhile (\<lambda>t. t < ?t) ts = t # ts'" using Suc.prems(3) ts by auto
    moreover have "\<exists>ps. open_loop fuel begun period duration i (k + 1) ts' = Some ps"
      using Suc.prems k ts by (intro Suc.IH) auto
    ultimately show ?thesis using False by auto
  qed simp
qed simp

text \<open>
  The load is open-loop: whatever the clock does, and however long the pushes take, a producer pushes
  one event per period up to and including the end, numbered from 1 and stamped with the time it was
  meant to be sent, and never before that time. It returns once the clock has passed the end.
\<close>

theorem open_loop_schedule:
  assumes "0 < period"
  shows "(open_loop fuel begun period duration i 0 ts = Some ps \<longrightarrow>
      map snd ps = map (\<lambda>j. make_event i (of_nat (j + 1)) (of_nat (begun + period * j)))
        [0..<duration div period + 1] \<and>
      (\<forall>j < length ps. begun + period * j \<le> fst (ps ! j))) \<and>
    ((\<forall>t \<in> set ts. begun + duration \<le> t) \<and> duration div period + 1 < fuel \<and>
     duration div period + 1 \<le> length ts \<longrightarrow>
      (\<exists>ps. open_loop fuel begun period duration i 0 ts = Some ps))"
  using open_loop_from [OF assms, of fuel begun duration i 0 ts ps]
    open_loop_returns [OF assms, of ts begun duration 0 fuel i] by auto

theorem open_loop_schedule_witness:
  "map snd [(3, make_event 7 1 0), (3 :: nat, make_event 7 2 2)] =
     map (\<lambda>j. make_event 7 (of_nat (j + 1)) (of_nat (2 * j))) [0..<2]"
  using open_loop_schedule [of 2 5 0 3 7 "[3, 3]" "[(3, make_event 7 1 0), (3, make_event 7 2 2)]"]
  by (simp add: numeral_eq_Suc)

section \<open>Sampling\<close>

definition kSampleEvery :: nat where "kSampleEvery = 4"

definition sample_capacity :: "nat \<Rightarrow> nat \<Rightarrow> nat \<Rightarrow> nat" where
  "sample_capacity busy rate millis = ((rate * millis div 1000) * busy + 1024) div kSampleEvery + 1024"

record sampler =
  sm_seen :: u64
  sm_samples :: "int list"

definition new_sampler :: sampler where
  "new_sampler = \<lparr>sm_seen = 0, sm_samples = []\<rparr>"

definition sample_hook :: "nat \<Rightarrow> u64 \<times> event \<Rightarrow> sampler \<Rightarrow> sampler" where
  "sample_hook cap = (\<lambda>(now, e) s.
     let n = sm_seen s + 1; s1 = s\<lparr>sm_seen := n\<rparr> in
     if n mod of_nat kSampleEvery \<noteq> 0 then s1
     else if stamp_ns e \<noteq> 0 \<and> length (sm_samples s1) < cap
     then s1\<lparr>sm_samples := sm_samples s1 @ [sint (now - stamp_ns e)]\<rparr> else s1)"

text \<open>Every fourth of the deliveries, the fourth first.\<close>

definition every_fourth :: "'x list \<Rightarrow> 'x list" where
  "every_fourth xs = map (\<lambda>k. xs ! (4 * k + 3)) [0..<length xs div 4]"

lemma every_fourth_snoc:
  "every_fourth (xs @ [x]) = (if (length xs + 1) mod 4 = 0 then every_fourth xs @ [x] else every_fourth xs)"
proof (cases "(length xs + 1) mod 4 = 0")
  case True
  then obtain m where m: "length xs + 1 = 4 * m" "0 < m" by (metis mod_0_imp_dvd dvdE add_gr_0 zero_less_one mult_0_right not_gr_zero)
  then obtain n where n: "m = Suc n" by (cases m) auto
  then have "length xs = 4 * n + 3" using m by simp
  then show ?thesis using m n by (simp add: every_fourth_def nth_append) 
next
  case False
  then have "(length xs + 1) div 4 = length xs div 4" by presburger
  moreover have "4 * k + 3 < length xs" if "k < length xs div 4" for k using that by linarith
  ultimately show ?thesis using False by (simp add: every_fourth_def nth_append)
qed

lemma sampler_from:
  assumes "\<forall>d \<in> set ds. stamp_ns (snd d) \<noteq> 0" "length ds < 2 ^ 64"
  shows "fold (sample_hook cap) ds new_sampler =
    \<lparr>sm_seen = of_nat (length ds),
     sm_samples = take cap (map (\<lambda>(now, e). sint (now - stamp_ns e)) (every_fourth ds))\<rparr>"
  using assms
proof (induction ds rule: rev_induct)
  case Nil
  then show ?case by (simp add: new_sampler_def every_fourth_def)
next
  case (snoc d ds)
  obtain now e where d: "d = (now, e)" by fastforce
  have ih: "fold (sample_hook cap) ds new_sampler =
    \<lparr>sm_seen = of_nat (length ds),
     sm_samples = take cap (map (\<lambda>(now, e). sint (now - stamp_ns e)) (every_fourth ds))\<rparr>"
    using snoc by simp
  have "unat (of_nat (length ds + 1) :: u64) = length ds + 1"
    using snoc.prems(2) by (simp add: unat_of_nat del: of_nat_add of_nat_Suc)
  then have "(of_nat (length ds + 1) :: u64) mod of_nat kSampleEvery = 0 \<longleftrightarrow> (length ds + 1) mod 4 = 0"
    by (simp add: kSampleEvery_def word_unat_eq_iff unat_mod del: of_nat_Suc of_nat_add)
  moreover have "fold (sample_hook cap) (ds @ [d]) new_sampler = sample_hook cap (now, e)
    \<lparr>sm_seen = of_nat (length ds),
     sm_samples = take cap (map (\<lambda>(now, e). sint (now - stamp_ns e)) (every_fourth ds))\<rparr>"
    by (simp add: ih d)
  ultimately show ?case
    using snoc.prems(1) by (simp add: d sample_hook_def Let_def every_fourth_snoc add.commute)
qed

lemma configured_capacity:
  "length ds \<le> busy * 25001 \<Longrightarrow> busy \<le> 8 \<Longrightarrow>
   length (every_fourth ds) \<le> sample_capacity busy 100000 250"
  by (simp add: every_fourth_def sample_capacity_def kSampleEvery_def)

text \<open>
  The latencies of a run are those of every fourth delivered event, none of them cut off by the buffer: at
  the configured rate and duration up to eight producers deliver no more events than it has room
  for.
\<close>

theorem samples_complete:
  assumes "\<forall>d \<in> set ds. stamp_ns (snd d) \<noteq> 0"
    and "length ds \<le> busy * (250000000 div period_of 100000 + 1)" "busy \<le> 8"
  shows "sm_samples (fold (sample_hook (sample_capacity busy 100000 250)) ds new_sampler) =
    map (\<lambda>(now, e). sint (now - stamp_ns e)) (every_fourth ds)"
proof -
  have l: "length ds \<le> busy * 25001" using assms(2) by (simp add: period_of_def)
  then have "length ds < 2 ^ 64" using assms(3) by simp
  then show ?thesis
    using sampler_from [OF assms(1)] configured_capacity [OF l assms(3)] by simp
qed

theorem samples_complete_witness:
  "sm_samples (fold (sample_hook (sample_capacity 1 100000 250))
     (replicate 4 (30, make_event 0 1 10)) new_sampler) = [20]"
  using samples_complete [of "replicate 4 (30, make_event 0 1 10)" 1]
  by (simp add: make_event_def every_fourth_def period_of_def)

section \<open>Percentiles and figures\<close>

text \<open>The first tenth is warm-up.\<close>

definition without_warmup :: "int list \<Rightarrow> int list" where
  "without_warmup v = (if 100 < length v then drop (length v div 10) v else v)"

record percentiles =
  p50 :: rat
  p99 :: rat
  p999 :: rat
  p9999 :: rat
  p_max :: rat

definition quantile_ix :: "rat \<Rightarrow> nat \<Rightarrow> nat" where
  "quantile_ix q n = min (n - 1) (nat \<lfloor>q * of_nat n\<rfloor>)"

definition percentile :: "int list \<Rightarrow> rat \<Rightarrow> rat" where
  "percentile s q = of_int (s ! quantile_ix q (length s)) / 1000"

definition percentiles_of :: "int list \<Rightarrow> percentiles" where
  "percentiles_of v =
     (if v = [] then \<lparr>p50 = 0, p99 = 0, p999 = 0, p9999 = 0, p_max = 0\<rparr>
      else let s = sort v in
        \<lparr>p50 = percentile s (50 / 100), p99 = percentile s (99 / 100), p999 = percentile s (999 / 1000),
         p9999 = percentile s (9999 / 10000), p_max = of_int (last s) / 1000\<rparr>)"

lemma quantile_ix_less: "0 < n \<Longrightarrow> quantile_ix q n < n"
  by (simp add: quantile_ix_def)

lemma percentile_mono:
  assumes "sorted s" "s \<noteq> []" "q \<le> r"
  shows "percentile s q \<le> percentile s r" "percentile s r \<le> of_int (last s) / 1000"
proof -
  have n: "0 < length s" using assms(2) by simp
  have "q * of_nat (length s) \<le> r * of_nat (length s)" using assms(3) by (simp add: mult_right_mono)
  then have "quantile_ix q (length s) \<le> quantile_ix r (length s)"
    unfolding quantile_ix_def by (intro min.mono order_refl nat_mono floor_mono)
  then have "s ! quantile_ix q (length s) \<le> s ! quantile_ix r (length s)"
    using quantile_ix_less [OF n] assms(1) by (intro sorted_nth_mono)
  then show "percentile s q \<le> percentile s r" by (simp add: percentile_def divide_right_mono)
  have "s ! quantile_ix r (length s) \<le> last s"
    unfolding last_conv_nth [OF assms(2)]
    using assms(1) n by (intro sorted_nth_mono) (simp_all add: quantile_ix_def)
  then show "percentile s r \<le> of_int (last s) / 1000" by (simp add: percentile_def divide_right_mono)
qed

text \<open>
  A percentile never under-reports: it is one of the samples, in microseconds, and more than the share
  \<open>q\<close> of all samples is at most that long. The reported percentiles are ordered.
\<close>

theorem percentiles_conservative:
  assumes "v \<noteq> []" "0 \<le> q" "q < 1"
  shows "(\<exists>x \<in> set v. percentile (sort v) q = of_int x / 1000 \<and>
      q * of_nat (length v) < of_nat (length (filter (\<lambda>y. y \<le> x) v))) \<and>
    p50 (percentiles_of v) \<le> p99 (percentiles_of v) \<and> p99 (percentiles_of v) \<le> p999 (percentiles_of v) \<and>
    p999 (percentiles_of v) \<le> p9999 (percentiles_of v) \<and> p9999 (percentiles_of v) \<le> p_max (percentiles_of v)"
proof -
  let ?s = "sort v" and ?n = "length v"
  let ?i = "quantile_ix q ?n"
  have n: "0 < ?n" using assms(1) by simp
  have i: "?i < length ?s" using quantile_ix_less [OF n] by simp
  have "q * of_nat ?n < of_nat ?n" using assms(3) n by simp
  then have fl: "nat \<lfloor>q * of_nat ?n\<rfloor> < ?n" by (simp add: nat_less_iff floor_less_iff assms(2))
  then have "nat \<lfloor>q * of_nat ?n\<rfloor> \<le> ?n - 1" by linarith
  then have ix: "?i = nat \<lfloor>q * of_nat ?n\<rfloor>" by (simp add: quantile_ix_def min_absorb2)
  have "q * of_nat ?n < of_int (\<lfloor>q * of_nat ?n\<rfloor> + 1)" by linarith
  also have "\<dots> = of_nat (?i + 1)" using assms(2) by (simp add: ix)
  finally have share: "q * of_nat ?n < of_nat (?i + 1)" .
  have "filter (\<lambda>y. y \<le> ?s ! ?i) (take (?i + 1) ?s) = take (?i + 1) ?s"
    using i by (auto simp: filter_id_conv in_set_conv_nth intro!: sorted_nth_mono)
  then have "?i + 1 \<le> length (filter (\<lambda>y. y \<le> ?s ! ?i) (take (?i + 1) ?s))"
    using i by simp
  also have "\<dots> \<le> length (filter (\<lambda>y. y \<le> ?s ! ?i) (take (?i + 1) ?s @ drop (?i + 1) ?s))"
    unfolding filter_append by simp
  also have "\<dots> = length (filter (\<lambda>y. y \<le> ?s ! ?i) v)"
    unfolding append_take_drop_id by (metis mset_filter mset_sort size_mset)
  finally have "q * of_nat ?n < of_nat (length (filter (\<lambda>y. y \<le> ?s ! ?i) v))"
    using share by (meson less_le_trans of_nat_mono)
  moreover have "?s ! ?i \<in> set v" using i by (metis nth_mem set_sort)
  moreover have ne: "?s \<noteq> []" using assms(1) by (metis length_0_conv length_sort)
  note m = percentile_mono [OF sorted_sort ne]
  have ordered: "percentile ?s (50 / 100) \<le> percentile ?s (99 / 100)"
    "percentile ?s (99 / 100) \<le> percentile ?s (999 / 1000)"
    "percentile ?s (999 / 1000) \<le> percentile ?s (9999 / 10000)"
    "percentile ?s (9999 / 10000) \<le> of_int (last ?s) / 1000"
    by (rule m(1), simp, rule m(1), simp, rule m(1), simp, rule m(2) [OF order_refl])
  ultimately show ?thesis
    using assms(1) ordered unfolding percentiles_of_def Let_def
    by (auto simp: percentile_def simp del: divide_le_cancel)
qed

theorem percentiles_conservative_witness:
  "p50 (percentiles_of [3000, 1000, 2000]) \<le> p99 (percentiles_of [3000, 1000, 2000])"
  by (rule percentiles_conservative [of _ 0, THEN conjunct2, THEN conjunct1]) simp_all

record ab_result =
  ab_lat :: percentiles
  ab_probes_per_pass :: rat
  ab_empty_ratio :: rat
  ab_drop_pct :: rat
  ab_bitmap_writes :: u64
  ab_notifies :: u64
  ab_parks :: u64

definition ab_result_of :: "int list \<Rightarrow> pipeline_stats \<Rightarrow> ab_result" where
  "ab_result_of samples st =
     (let num = (\<lambda>n :: u64. of_nat (unat n) :: rat);
          ratio = (\<lambda>a b. if b \<noteq> 0 then num a / num b else 0) in
      \<lparr>ab_lat = percentiles_of (without_warmup samples),
       ab_probes_per_pass = ratio (s_rings_probed st) (s_passes st),
       ab_empty_ratio = ratio (s_rings_empty st) (s_rings_probed st),
       ab_drop_pct = (if s_pushed st + s_dropped st \<noteq> 0
                      then 100 * num (s_dropped st) / num (s_pushed st + s_dropped st) else 0),
       ab_bitmap_writes = s_bitmap_writes st, ab_notifies = s_notifies st, ab_parks = s_parks st\<rparr>)"

end
