(* ===== verification/Weir_Backpressure.thy ===== *)
theory Weir_Backpressure
  imports Weir_Checks
begin

text \<open>
  mpsc-event-pipeline-kata/cpp/bench/backpressure.cpp: the overload test. The longest push of all producers
  is kept in one atomic word that every producer raises with a loop of compare-and-swaps; the
  loop is modelled access by access, with spurious failures, for any number of producers. The
  checks are applied to the modelled pipeline. The exit code is that of bench/main.cpp.
\<close>

section \<open>The longest push\<close>

definition overload_config :: config where
  "overload_config = default_config\<lparr>full := DropNewest, scan := Bitmap\<rparr>"

text \<open>One producer: the readings of its clock before and after each push.\<close>

definition own_worst :: "(int \<times> int) list \<Rightarrow> int" where
  "own_worst readings = foldl (\<lambda>worst (a, b). max worst (b - a)) 0 readings"

datatype raise_pc =
    RLoad int          \<comment> \<open>its worst: about to load the word\<close>
  | RTry int int       \<comment> \<open>its worst and the value it last saw\<close>
  | RDone int

fun raise_access :: "bool \<Rightarrow> raise_pc \<Rightarrow> int \<Rightarrow> raise_pc \<times> int" where
  "raise_access weak (RLoad worst) cell = (RTry worst cell, cell)"
| "raise_access weak (RTry worst cur) cell =
     (if worst > cur then
        (if cell = cur \<and> \<not> weak then (RDone worst, worst) else (RTry worst cell, cell))
      else (RDone worst, cell))"
| "raise_access weak (RDone worst) cell = (RDone worst, cell)"

text \<open>A schedule says which producer goes on, and whether its exchange fails for no reason.\<close>

fun raise_run :: "(nat \<times> bool) list \<Rightarrow> raise_pc list \<times> int \<Rightarrow> raise_pc list \<times> int" where
  "raise_run [] s = s"
| "raise_run ((t, weak) # xs) (pcs, cell) =
     (if t < length pcs
      then let (pc, cell') = raise_access weak (pcs ! t) cell in raise_run xs (pcs[t := pc], cell')
      else raise_run xs (pcs, cell))"

section \<open>The checks\<close>

definition backpressure_checks :: "pipeline_stats \<Rightarrow> int \<Rightarrow> rat \<Rightarrow> bool list" where
  "backpressure_checks st worst abort_ms =
     [s_dropped st > 0, s_high_water st \<le> of_nat kRingCapacity, worst < 500000000, abort_ms < 2000]"

definition loss :: "pipeline_stats \<Rightarrow> rat" where
  "loss st = 100 * of_nat (unat (s_dropped st)) / of_nat (unat (s_pushed st + s_dropped st))"

definition all_failures :: "bool list \<Rightarrow> nat" where
  "all_failures checks = length (filter Not checks)"

definition weir_exit :: "(scan_policy \<Rightarrow> bool list) \<Rightarrow> bool list \<Rightarrow> bool list \<Rightarrow> bool list \<Rightarrow> bool list \<Rightarrow> nat" where
  "weir_exit correctness lifetime throughput backpressure scan_ab =
     (if all_failures (correctness FullScan @ correctness Bitmap @ lifetime @ throughput @
        backpressure @ scan_ab) = 0 then 0 else 1)"

section \<open>What it shows\<close>

fun worst_of :: "raise_pc \<Rightarrow> int" where
  "worst_of (RLoad x) = x"
| "worst_of (RTry x _) = x"
| "worst_of (RDone x) = x"

fun reached :: "int \<Rightarrow> raise_pc \<Rightarrow> bool" where
  "reached cell (RLoad x) = True"
| "reached cell (RTry x cur) = (cur \<le> cell)"
| "reached cell (RDone x) = (x \<le> cell)"

lemma reached_mono: "reached c pc \<Longrightarrow> c \<le> c' \<Longrightarrow> reached c' pc"
  by (cases pc) auto

text \<open>
  Nobody forgets its worst; the word only rises, holds zero or one of the worsts, and has reached
  those of the producers that are done.
\<close>

definition raise_ok :: "int list \<Rightarrow> raise_pc list \<times> int \<Rightarrow> bool" where
  "raise_ok ws s \<longleftrightarrow> map worst_of (fst s) = ws \<and> snd s \<in> insert 0 (set ws) \<and> 0 \<le> snd s \<and>
     (\<forall>pc \<in> set (fst s). reached (snd s) pc)"

lemma raise_access_ok:
  "raise_access weak pc cell = (pc', cell') \<Longrightarrow>
   reached cell pc \<Longrightarrow>
   worst_of pc' = worst_of pc \<and> cell \<le> cell' \<and> (cell' = cell \<or> cell' = worst_of pc) \<and>
   reached cell' pc'"
  by (cases pc) (auto split: if_splits)

lemma raise_run_ok: "raise_ok ws s \<Longrightarrow> raise_ok ws (raise_run xs s)"
proof (induction xs s rule: raise_run.induct)
  case (2 t weak xs pcs cell)
  show ?case
  proof (cases "t < length pcs")
    case True
    obtain pc cell' where a: "raise_access weak (pcs ! t) cell = (pc, cell')" by fastforce
    have each: "\<forall>pc \<in> set pcs. reached cell pc"
      using 2(3) by (simp add: raise_ok_def)
    have now: "worst_of pc = worst_of (pcs ! t)" "cell \<le> cell'" "cell' = cell \<or> cell' = worst_of (pcs ! t)"
      "reached cell' pc"
      using raise_access_ok [OF a] each nth_mem [OF True] by blast+
    have "map worst_of (pcs[t := pc]) = ws"
      using 2(3) now(1) True by (auto simp: raise_ok_def map_update intro!: nth_equalityI simp: nth_list_update)
    moreover have "cell' \<in> insert 0 (set ws)"
      using 2(3) now(3) True by (auto simp: raise_ok_def)
    moreover have "\<forall>pc \<in> set (pcs[t := pc]). reached cell' pc"
    proof
      fix pc' assume "pc' \<in> set (pcs[t := pc])"
      then have "pc' = pc \<or> pc' \<in> set pcs" using set_update_subset_insert by fastforce
      then show "reached cell' pc'"
        using now(2,4) each reached_mono by blast
    qed
    ultimately have "raise_ok ws (pcs[t := pc], cell')"
      using 2(3) now(2) by (simp add: raise_ok_def)
    then show ?thesis using 2(1) [OF True a [symmetric] refl] a True by simp
  qed (use 2 in simp)
qed simp

text \<open>
  The longest push reported is the longest of all producers, whatever the interleaving of their
  exchanges, once every producer has left its loop.
\<close>

theorem worst_push_exact:
  assumes "raise_run xs (map RLoad ws, 0) = (map RDone ws, cell)" "\<forall>w \<in> set ws. 0 \<le> w"
  shows "cell = Max (insert 0 (set ws))"
proof -
  have "raise_ok ws (map RLoad ws, 0)" by (simp add: raise_ok_def comp_def)
  from raise_run_ok [OF this, of xs] have "raise_ok ws (map RDone ws, cell)" by (simp add: assms(1))
  then have "cell \<in> insert 0 (set ws)" "0 \<le> cell" "\<forall>w \<in> set ws. w \<le> cell" by (auto simp: raise_ok_def)
  then show ?thesis by (intro antisym) simp_all
qed

theorem worst_push_exact_witness: "7 = Max (insert 0 (set [3 :: int, 7]))"
  by (rule worst_push_exact [of "[(0, False), (1, False), (1, False), (0, False), (0, False)]"]) simp_all

text \<open>A producer that runs alone, without spurious failures, leaves its loop within three accesses.\<close>

theorem raise_ends:
  assumes "t < length pcs"
  shows "\<exists>x cell'. raise_run [(t, False), (t, False), (t, False)] (pcs, cell) = (pcs[t := RDone x], cell')"
  using assms by (cases "pcs ! t") (auto simp: Let_def split: prod.split)

text \<open>
  Under overload the memory check always passes, in every state of the pipeline, and the check for
  drops passes exactly if something was dropped; a push then tries once and gives up.
\<close>

theorem overload_checks:
  assumes "pipe_reach p" "length (drops (log p)) < 2 ^ 64"
  shows "take 2 (backpressure_checks (stats p) worst abort_ms) = [drops (log p) \<noteq> [], True]"
proof -
  have "s_dropped (stats p) = 0 \<longleftrightarrow> drops (log p) = []"
    using pipeline_counts(2) [OF assms(1)] pos_eq_iff [of 0 "length (drops (log p))"] assms(2) by auto
  then show ?thesis
    using high_water_bounded [OF reach_ok [OF assms(1)]]
    by (simp add: backpressure_checks_def word_neq_0_conv [symmetric])
qed

theorem overload_checks_witness:
  "take 2 (backpressure_checks (stats (new_pipeline overload_config [])) 0 0) = [False, True]"
  using overload_checks [OF reach_new, of overload_config "[]" 0 0] by (simp add: new_pipeline_def)

theorem overload_push_once:
  assumes "full (cfg p) = DropNewest" "accepting p"
  shows "push i e p =
    (let (ok, q) = attempt i e p in (ok, if ok then push_counted i e q else push_dropped i e q))"
  using assms by (simp add: push_def attempt_def upd_slot_def split_beta Let_def)

end
