(* ===== verification/Spec2Isabelle.thy ===== *)
theory Spec2Isabelle
  imports Spsc_Concurrent Tq_Event Tq_EventCount Tq_Blocking Tq_Phases Mutex_Queue Sharded_Queue
    Tq_Wakes Tq_Harness Tq_Compare Tq_Designs Tq_Handshake Tq_Lockstep Tq_Instrument Tq_Suites
    Sw_Bench Sw_Probes Weir_Life Weir_Scan Weir_Wakeup Weir_Ab Weir_Backpressure
begin

text \<open>
  Three small programs written in C++ are verified here, each a bounded queue or a dispatcher with a
  benchmark that checks it: \<^bold>\<open>weir\<close> (mpsc-event-pipeline-kata/cpp), \<^bold>\<open>turnstile\<close>
  (mpmc-work-queue-kata/cpp) and \<^bold>\<open>switchyard\<close> (plugin-dispatch-kata/cpp). They share no code; they
  share the vocabulary of theory \<open>Prelude\<close> (the machine integers \<open>u8\<close> to \<open>u64\<close>, the power-of-two
  test behind every static assertion on a capacity, the masked slot index of a ring and the list of
  values between two positions) and the abstract queue of \<open>Fifo_Spec\<close>.

  \<^bold>\<open>How the code is modelled.\<close> Fixed-width integers are words and wrap; a struct is a record, an
  enum a datatype; a call C++ leaves undefined is \<open>None\<close>, a reported failure a value. A single-threaded
  operation is a function from state to state. Where threads meet, an operation is cut at every
  access to shared memory: a program counter carries the local variables that are live there, one
  step is one access, and the theorems hold for every interleaving of the steps. Accesses are
  sequentially consistent, except in \<open>Weir_Wakeup\<close> and \<open>Tq_EventCount\<close>, where every producer has a store
  buffer and the question is which fences are needed. What is not source code of the repository is an argument: the
  clock (a list or function of readings), the operating system's loader, waits and file system, the
  random generator, and what other threads do while a lock is given away. Floating-point figures are
  rational numbers, so their rounding is not modelled.

  \<^bold>\<open>Weir\<close>, a pipeline of many producers, each with its own ring, and one consumer.
  \<^item> \<open>Spsc_Ring\<close>: src/spsc_ring.hpp run one operation at a time (\<open>try_push\<close>, \<open>pop_batch\<close>, the size hints,
    both cached indices). It refines the bounded first-in first-out queue of \<open>Fifo_Spec\<close> that is emptied in
    batches (\<open>batch_fifo\<close>), in every script of operations, positions wrapping at 64 bits.
  \<^item> \<open>Spsc_Concurrent\<close>: the same ring access by access; order is kept under every interleaving, and no
    slot is read and written at once.
  \<^item> \<open>Weir_Sink\<close>: event.hpp and sink.hpp; the concept \<open>Sink\<close> is the locale \<open>sink\<close>, interpreted for the
    counting and the slow sink.
  \<^item> \<open>Weir_Pipeline\<close>: config.hpp and event_pipeline.hpp, the registry of slots (free, active,
    retiring), \<open>register_producer\<close>, \<open>push\<close> in both back-pressure policies, \<open>retire\<close>, \<open>drain_ring\<close>,
    both scans, \<open>reclaim_retired\<close>, \<open>park\<close>, \<open>consume\<close>, \<open>stop\<close>. The consumer is sequential code; at each of its accesses it
    takes from \<open>sched\<close> what the producers do meanwhile (\<open>pact\<close>): whole pushes, or the tail of a push after its load
    of \<open>accepting_\<close>. A log of observable events serves the theorems only.
  \<^item> \<open>Weir_Accounting\<close> and \<open>Weir_Runs\<close>: the invariant of every reachable state; nothing is lost,
    duplicated or reordered within a slot, the counters add up, a slot is reused only when drained.
  \<^item> \<open>Weir_Scan\<close>: the bitmap scan leaves the pipeline the full scan leaves, but for two counters. \<open>Weir_Shutdown\<close> and
    \<open>Weir_Stop\<close>: the consumer returns, and if the shutdown is orderly (no push in flight when \<open>running_\<close> is
    cleared) it has delivered everything; a stop ends by its deadline; and two behaviours that the comments exclude: an event accepted and stranded, a
    retired slot not reclaimed until another producer retires. \<open>Weir_Life\<close>: the destructor, and what is left of \<open>drain_completed\<close> later. \<open>Weir_Wakeup\<close>: with the fence no wake-up is lost, without it one is.
  \<^item> \<open>Weir_Checks\<close> and \<open>Weir_Ab\<close>: the checks of bench/correctness.cpp, each with what makes it pass, the figures of throughput.cpp
    and harness.hpp, the experiment of scan_ab.cpp and the percentiles of harness.cpp.
    \<open>Weir_Backpressure\<close>: the overload test of backpressure.cpp and the exit code of main.cpp.

  \<^bold>\<open>Turnstile\<close>, work queues with several producers and consumers.
  \<^item> \<open>Tq_Event\<close>, \<open>Tq_Histogram\<close>, \<open>Tq_Api\<close>: event.hpp (events that check themselves, the tally of a
    delivery), histogram.hpp and queue_api.hpp with config.hpp.
  \<^item> \<open>Mutex_Queue\<close>: mutex_queue.hpp. A critical section is one step; an operation sees a list of
    wake-ups, each with what the others made of the queue. It refines the bounded queue.
  \<^item> \<open>Mpmc_Queue\<close>: mpmc_queue.hpp, the machine of 64-bit words. \<open>Mpmc_Protocol\<close>: the same protocol with
    unbounded positions and its invariant, one owner for every position of every slot.
    \<open>Mpmc_Refine\<close>: the machine's runs are encodings of the protocol's runs, which gives exactly-once
    delivery, nothing lost, no overwriting, the consumer's order and the meaning of drained.
    \<open>Mpmc_Fill\<close>: a full ring is exactly full.
  \<^item> \<open>Tq_EventCount\<close>: eventcount.hpp. \<open>Tq_Blocking\<close>: the blocking \<open>push\<close>, \<open>pop\<close> and \<open>pop_batch\<close> of
    mpmc_queue.hpp and sharded_queue.hpp, over the locale \<open>pop_loop\<close>. \<open>Tq_Wakes\<close>: the notifications of
    \<open>release\<close> and \<open>close\<close>, and the ring's blocking push.
  \<^item> \<open>Sharded_Ring\<close> and \<open>Sharded_Queue\<close>: sharded_queue.hpp, one ring under interleaving, then the queue
    as a whole. \<open>Brief_Queue\<close>: brief_queue.hpp, kept in order to be broken, and how it breaks.
  \<^item> \<open>Tq_Driver\<close>, \<open>Tq_Main\<close>, \<open>Tq_Platform\<close>, \<open>Tq_Phases\<close>: the bench. driver.hpp (pacing, production,
    consumption, sampling, the verdict of a run), main.cpp with the stress of bugs.cpp and the checks of
    shutdown.cpp, platform.hpp with instrument.cpp and arms.hpp, and what the other phases run, compute
    and check.
  \<^item> \<open>Tq_Harness\<close>: bench/harness.cpp, the printing of figures and the watchdog, a thread with a deadline
    against the destructor that must not wait for it.
  \<^item> \<open>Tq_Handshake\<close> and \<open>Tq_Lockstep\<close>: the threads of the bench that keep in step, access by access: the
    measurements of instrument.cpp, the start barrier of driver.hpp, the engineered race of wakeup.cpp.
    Their theorems say what a sample is a sample of, and that nobody waits for ever.
  \<^item> \<open>Tq_Compare\<close> and \<open>Tq_Designs\<close>: throughput.cpp, contention.cpp and outline.cpp with the window of
    preemption.cpp: arms, runs in their order, failures, figures and the verdict against the brief, which
    is traced back to the samples. \<open>Tq_Instrument\<close>: the checks and figures of phase 0. \<open>Tq_Suites\<close>: phases
    2, 4, 5 and 8 from their first run to their last check (invariants.cpp, backpressure.cpp, wakeup.cpp,
    shutdown.cpp).

  \<^bold>\<open>Switchyard\<close>, dispatch of packets to handlers and a plugin boundary.
  \<^item> \<open>Sw_Packet\<close>: packet.hpp and handler.hpp, and the contract of an arm as the locale \<open>dispatch_arm\<close>:
    on every packet it answers what the first accepting handler answers. \<open>Sw_Scan\<close>, \<open>Sw_Table\<close>,
    \<open>Sw_Compact\<close>: the arms of strategy.hpp, each an interpretation. \<open>Sw_Hazards\<close>: where an arm parts from
    the loop. \<open>Sw_Generated\<close>: the hundred handlers of generated.hpp. \<open>Sw_Mechanism\<close>: mechanism.hpp.
  \<^item> \<open>Sw_Plugin\<close>: plugin_abi.h and plugin/plugin.cpp over a heap of plugin objects, as the locale
    \<open>plugin_contract\<close>. \<open>Sw_Host\<close>: host.hpp, loading and negotiating.
  \<^item> \<open>Sw_Stream\<close>: the packet streams and phase 1 (bench/invariants.cpp). \<open>Sw_Measure\<close>: bench/harness.hpp.
    \<open>Sw_Boundary\<close>: phase 6, bench/boundary.cpp, with every call of the plugin, the timed ones included. \<open>Sw_Phases\<close>: phases 0 and 2 to 4 (instrument.cpp, scan.cpp,
    distribution.cpp, mechanism.cpp). \<open>Sw_Bench\<close>: phase 5 (codesize.cpp) and main.cpp, whose exit code is
    determined. \<open>Sw_Probes\<close>: bench/size_probe.cpp and abi-probe/probe.cpp, what they print and when they
    fail. \<open>Clock_Gap\<close>, shared with turnstile's bench: the smallest tick of a clock.

  \<^bold>\<open>Bounds and fuel.\<close> The MPMC theorems hold for fewer than \<open>2 ^ 61\<close> steps on a ring of at most \<open>2 ^ 61\<close>
  slots: a position shares its word with one or two flag bits, and its signed distance to another
  must fit; at a billion steps a second that is seventy years. The sharded ring keeps 63 bits of a
  position, so its theorems hold for fewer than \<open>2 ^ 63\<close> publications. The SPSC ring needs no bound: its
  positions wrap. Counters of events are exact up to \<open>2 ^ 64\<close>. Capacities are arguments under
  \<open>ring_cap\<close>, the static assertions of the code. The consumer of the pipeline takes fuel, one unit
  per pass; \<open>consume_returns\<close> gives enough of it once the pipeline is stopped. A blocking operation
  consumes its list of wake-ups, and \<open>None\<close> means that it is still asleep at the end of the list. The tables
  of \<open>llvm-size\<close> are read into unbounded integers, a line being what one \<open>fgets\<close> returns.

  \<^bold>\<open>Not modelled.\<close> Memory orders weaker than those above (the C++ orders are read as the fences x86 gives
  them); the threads themselves, their placement and their priorities; system calls
  (futexes, power throttling, CPU time, timers, \<open>LoadLibrary\<close> and \<open>dlopen\<close>) beyond what the code relies on; tables, labels and usage
  texts; the library beside the abi-probe, whose subject is what a compiler does with a class across a
  library boundary; and the Go, Python and documentation tracks beside the C++ ones.
\<close>

end
